(* ===== verification/Prelude.thy ===== *)
theory Prelude
  imports
    "HOL-Library.Word"
    "HOL-Library.AList"
    "HOL-Library.Monad_Syntax"
begin

unbundle bit_operations_syntax

text \<open>
  What every component of the development shares: the machine integers of the Rust code, the
  three-valued results that tell a panic from an early return, byte-string access and byte
  order, saturating arithmetic, ASCII text and the association lists that stand for
  \<^verbatim>\<open>HashMap\<close>. The collections at the end carry the automation of the component proofs.

  Conventions. A \<^verbatim>\<open>usize\<close> is a \<open>nat\<close> (the offsets of the code are far below
  \<open>2 ^ 64\<close>), a \<^verbatim>\<open>u8\<close> .. \<^verbatim>\<open>u64\<close> is a word of that width, a \<^verbatim>\<open>String\<close> is the
  list of its UTF-8 bytes as HOL characters (a HOL \<open>char\<close> is one byte), a
  \<^verbatim>\<open>HashMap\<close> is an association list with distinct keys whose order is the (unspecified)
  iteration order, and a \<^verbatim>\<open>HashSet\<close> is a list without repetitions.
\<close>

section \<open>Machine integers\<close>

type_synonym u8 = "8 word"
type_synonym u16 = "16 word"
type_synonym u32 = "32 word"
type_synonym u64 = "64 word"

text \<open>\<^verbatim>\<open>u64::saturating_sub\<close> and \<^verbatim>\<open>u64::saturating_add\<close>.\<close>

definition sat_sub64 :: "u64 \<Rightarrow> u64 \<Rightarrow> u64" where
  "sat_sub64 a b = (if a < b then 0 else a - b)"

definition sat_add64 :: "u64 \<Rightarrow> u64 \<Rightarrow> u64" where
  "sat_add64 a b = (if unat a + unat b < 2 ^ 64 then a + b else - 1)"

named_theorems word_nat \<open>transfer of word operations to natural numbers\<close>

lemma unat_sat_sub64 [word_nat]: "unat (sat_sub64 a b) = unat a - unat b"
proof (cases "a < b")
  case True
  then show ?thesis by (simp add: sat_sub64_def word_less_nat_alt)
next
  case False
  then have "b \<le> a" by simp
  then show ?thesis using False
    by (simp add: sat_sub64_def unat_sub)
qed

lemma unat_sat_add64 [word_nat]: "unat (sat_add64 a b) = min (unat a + unat b) (2 ^ 64 - 1)"
proof (cases "unat a + unat b < 2 ^ 64")
  case True
  then have "unat (a + b) = unat a + unat b"
    by (simp add: unat_word_ariths)
  with True show ?thesis by (simp add: sat_add64_def)
next
  case False
  moreover have "unat (- 1 :: u64) = 2 ^ 64 - 1" by (simp add: unsigned_minus_1_eq_mask mask_eq_exp_minus_1)
  ultimately show ?thesis by (simp add: sat_add64_def)
qed

lemma unat_less_64: "unat (a :: u64) < 2 ^ 64"
  using unsigned_less [of a, where ?'a = nat] by simp

lemma unat_inject [simp]: "unat a = unat b \<longleftrightarrow> a = b"
  by (auto intro: unsigned_word_eqI)

lemma unat_drop_bit [word_nat]: "unat (drop_bit n (b :: 'a :: len word)) = unat b div 2 ^ n"
  by (simp only: unat_drop_bit_eq drop_bit_eq_div [where ?'a = nat])

lemma unat_and_not_mask [word_nat]:
  "unat ((b :: 'a :: len word) AND NOT (mask n)) = unat b div 2 ^ n * 2 ^ n"
proof -
  have eq: "b AND NOT (mask n) = push_bit n (drop_bit n b)"
    by (rule bit_word_eqI) (auto simp: bit_simps)
  have "unat b div 2 ^ n * 2 ^ n < 2 ^ LENGTH('a)"
    using unsigned_less [of b, where ?'a = nat] by (metis div_times_less_eq_dividend le_less_trans)
  then show ?thesis
    unfolding eq unsigned_push_bit_eq push_bit_eq_mult [where ?'a = nat] unat_drop_bit
      take_bit_eq_mod [where ?'a = nat] by simp
qed

lemma unat_and_mask [word_nat]: "unat ((b :: 'a :: len word) AND mask n) = unat b mod 2 ^ n"
  unfolding take_bit_eq_mask [symmetric] unsigned_take_bit_eq
  by (simp add: take_bit_eq_mod)

lemma unat_u8_less [simp]: "unat (b :: u8) < 256"
  using unsigned_less [of b, where ?'a = nat] by simp

lemma unat_u16_less [simp]: "unat (b :: u16) < 65536"
  using unsigned_less [of b, where ?'a = nat] by simp

lemma sat_add64_ge: "a \<le> sat_add64 a b"
proof -
  have "unat a \<le> 2 ^ 64 - 1" using unat_less_64 [of a] by linarith
  then show ?thesis by (simp add: word_le_nat_alt unat_sat_add64)
qed

lemma sat_sub64_le: "sat_sub64 a b \<le> a"
  by (simp add: word_le_nat_alt unat_sat_sub64)

section \<open>Results: a panic, an early return, a value\<close>

text \<open>
  \<^verbatim>\<open>d.get(i)?\<close> leaves the function with \<^verbatim>\<open>None\<close> when the index is out of range,
  \<^verbatim>\<open>d[i]\<close> panics. Code that only uses the first kind is modelled with \<open>option\<close>; code
  that also indexes directly is modelled with \<open>fallible\<close>, so that "never panics" is a
  statement about the model.
\<close>

datatype 'a fallible = Panic | Absent | Got 'a

fun andthen :: "'a fallible \<Rightarrow> ('a \<Rightarrow> 'b fallible) \<Rightarrow> 'b fallible" where
  "andthen Panic f = Panic"
| "andthen Absent f = Absent"
| "andthen (Got x) f = f x"

lemma andthen_cong [fundef_cong]:
  "m = m' \<Longrightarrow> (\<And>x. m' = Got x \<Longrightarrow> f x = g x) \<Longrightarrow> andthen m f = andthen m' g"
  by (cases m') auto

lemma andthen_weak_cong: "m = m' \<Longrightarrow> andthen m f = andthen m' f"
  by simp

lemma andthen_eq_Got [simp]:
  "andthen m f = Got y \<longleftrightarrow> (\<exists>x. m = Got x \<and> f x = Got y)"
  by (cases m) auto

lemma andthen_eq_Panic:
  "andthen m f = Panic \<longleftrightarrow> m = Panic \<or> (\<exists>x. m = Got x \<and> f x = Panic)"
  by (cases m) auto

lemma andthen_safe [intro]:
  assumes "m \<noteq> Panic" and "\<And>x. m = Got x \<Longrightarrow> f x \<noteq> Panic"
  shows "andthen m f \<noteq> Panic"
  using assms by (cases m) auto

text \<open>The \<^verbatim>\<open>?\<close> operator on an \<^verbatim>\<open>Option\<close>, and the caller's view of a result.\<close>

definition of_option :: "'a option \<Rightarrow> 'a fallible" where
  "of_option x = (case x of None \<Rightarrow> Absent | Some v \<Rightarrow> Got v)"

lemma of_option_simps [simp]:
  "of_option None = Absent" "of_option (Some v) = Got v"
  "of_option x = Got v \<longleftrightarrow> x = Some v" "of_option x \<noteq> Panic"
  by (auto simp: of_option_def split: option.splits)

fun map_got :: "('a \<Rightarrow> 'b) \<Rightarrow> 'a fallible \<Rightarrow> 'b fallible" where
  "map_got f Panic = Panic"
| "map_got f Absent = Absent"
| "map_got f (Got x) = Got (f x)"

lemma map_got_eq [simp]:
  "map_got f m = Panic \<longleftrightarrow> m = Panic"
  "map_got f m = Absent \<longleftrightarrow> m = Absent"
  "map_got f m = Got y \<longleftrightarrow> (\<exists>x. m = Got x \<and> y = f x)"
  by (cases m; auto)+

section \<open>Byte strings\<close>

type_synonym bytes = "u8 list"

definition get_at :: "'a list \<Rightarrow> nat \<Rightarrow> 'a option" where
  "get_at d i = (if i < length d then Some (d ! i) else None)"

definition get_range :: "'a list \<Rightarrow> nat \<Rightarrow> nat \<Rightarrow> 'a list option" where
  "get_range d a b = (if a \<le> b \<and> b \<le> length d then Some (take (b - a) (drop a d)) else None)"

definition get_from :: "'a list \<Rightarrow> nat \<Rightarrow> 'a list option" where
  "get_from d a = (if a \<le> length d then Some (drop a d) else None)"

text \<open>The indexing forms \<^verbatim>\<open>d[i]\<close>, \<^verbatim>\<open>&d[a..b]\<close> and \<^verbatim>\<open>&d[a..]\<close>.\<close>

definition idx :: "'a list \<Rightarrow> nat \<Rightarrow> 'a fallible" where
  "idx d i = (if i < length d then Got (d ! i) else Panic)"

definition slice :: "'a list \<Rightarrow> nat \<Rightarrow> nat \<Rightarrow> 'a list fallible" where
  "slice d a b = (if a \<le> b \<and> b \<le> length d then Got (take (b - a) (drop a d)) else Panic)"

named_theorems access \<open>definitions of the access functions\<close>
declare get_at_def [access] get_range_def [access] get_from_def [access]
  idx_def [access] slice_def [access]

lemma get_at_Some [simp]: "get_at d i = Some x \<longleftrightarrow> i < length d \<and> x = d ! i"
  by (auto simp: get_at_def)

lemma get_at_None [simp]: "get_at d i = None \<longleftrightarrow> length d \<le> i"
  by (auto simp: get_at_def)

lemma get_range_Some [simp]:
  "get_range d a b = Some xs \<longleftrightarrow> a \<le> b \<and> b \<le> length d \<and> xs = take (b - a) (drop a d)"
  by (auto simp: get_range_def)

lemma get_range_None: "get_range d a b = None \<longleftrightarrow> \<not> (a \<le> b \<and> b \<le> length d)"
  by (auto simp: get_range_def)

lemma get_from_Some [simp]: "get_from d a = Some xs \<longleftrightarrow> a \<le> length d \<and> xs = drop a d"
  by (auto simp: get_from_def)

lemma idx_Got [simp]: "idx d i = Got x \<longleftrightarrow> i < length d \<and> x = d ! i"
  by (auto simp: idx_def)

lemma idx_Panic [simp]: "idx d i = Panic \<longleftrightarrow> length d \<le> i"
  by (auto simp: idx_def)

lemma idx_Absent [simp]: "idx d i \<noteq> Absent"
  by (auto simp: idx_def)

lemma slice_Got [simp]:
  "slice d a b = Got xs \<longleftrightarrow> a \<le> b \<and> b \<le> length d \<and> xs = take (b - a) (drop a d)"
  by (auto simp: slice_def)

lemma slice_Panic [simp]: "slice d a b = Panic \<longleftrightarrow> \<not> (a \<le> b \<and> b \<le> length d)"
  by (auto simp: slice_def)

lemma slice_Absent [simp]: "slice d a b \<noteq> Absent"
  by (auto simp: slice_def)

subsection \<open>Byte order\<close>

fun be_nat :: "bytes \<Rightarrow> nat" where
  "be_nat [] = 0"
| "be_nat (b # bs) = unat b * 256 ^ length bs + be_nat bs"

fun le_nat :: "bytes \<Rightarrow> nat" where
  "le_nat [] = 0"
| "le_nat (b # bs) = unat b + 256 * le_nat bs"

fun le_bytes :: "nat \<Rightarrow> nat \<Rightarrow> bytes" where
  "le_bytes 0 x = []"
| "le_bytes (Suc n) x = word_of_nat x # le_bytes n (x div 256)"

definition be_bytes :: "nat \<Rightarrow> nat \<Rightarrow> bytes" where
  "be_bytes n x = rev (le_bytes n x)"

lemma be_nat_less: "be_nat bs < 256 ^ length bs"
proof (induction bs)
  case Nil
  then show ?case by simp
next
  case (Cons b bs)
  have "unat b * 256 ^ length bs \<le> 255 * 256 ^ length bs"
    using unat_u8_less [of b] by (intro mult_right_mono) linarith+
  with Cons show ?case unfolding be_nat.simps length_Cons power_Suc by linarith
qed

lemma le_nat_less: "le_nat bs < 256 ^ length bs"
proof (induction bs)
  case (Cons b bs)
  then have "256 * le_nat bs + 256 \<le> 256 * 256 ^ length bs"
    by (simp add: Suc_le_eq flip: mult_Suc_right)
  then show ?case using unat_u8_less [of b] unfolding le_nat.simps length_Cons power_Suc by linarith
qed simp

lemma length_le_bytes [simp]: "length (le_bytes n x) = n"
  by (induction n arbitrary: x) auto

lemma length_be_bytes [simp]: "length (be_bytes n x) = n"
  by (simp add: be_bytes_def)

lemma unat_of_nat_u8: "unat (word_of_nat x :: u8) = x mod 256"
  by (simp add: unat_of_nat)

lemma le_nat_le_bytes: "le_nat (le_bytes n x) = x mod 256 ^ n"
proof (induction n arbitrary: x)
  case (Suc n)
  have "le_nat (le_bytes (Suc n) x) = x mod 256 + 256 * (x div 256 mod 256 ^ n)"
    by (simp add: Suc unat_of_nat_u8)
  also have "\<dots> = x mod (256 * 256 ^ n)"
    by (simp add: mod_mult2_eq)
  finally show ?case by (simp add: mult.commute)
qed simp

lemma le_bytes_le_nat: "le_bytes (length bs) (le_nat bs) = bs"
proof (induction bs)
  case (Cons b bs)
  have "word_of_nat (unat b + 256 * le_nat bs) = b"
  proof -
    have "(word_of_nat (256 * le_nat bs) :: u8) = 0"
      by (simp only: word_of_nat_eq_0_iff) simp
    then show ?thesis by (simp del: of_nat_mult)
  qed
  moreover have "(unat b + 256 * le_nat bs) div 256 = le_nat bs"
    using unat_u8_less [of b] by simp
  ultimately show ?case using Cons by simp
qed simp

lemma be_nat_append: "be_nat (xs @ ys) = be_nat xs * 256 ^ length ys + be_nat ys"
  by (induction xs) (auto simp: algebra_simps power_add)

lemma be_nat_rev: "be_nat (rev bs) = le_nat bs"
  by (induction bs) (auto simp: be_nat_append)

text \<open>\<^verbatim>\<open>u16::from_be_bytes\<close> and its companions.\<close>

definition u16_be :: "u8 \<Rightarrow> u8 \<Rightarrow> u16" where
  "u16_be a b = word_of_nat (be_nat [a, b])"

lemma unat_u16_be [word_nat]: "unat (u16_be a b) = unat a * 256 + unat b"
proof -
  have "unat a * 256 + unat b < 65536"
    using unat_u8_less [of a] unat_u8_less [of b] by linarith
  then show ?thesis
    by (simp only: u16_be_def unat_of_nat) simp
qed

text \<open>\<^verbatim>\<open>fn be16\<close> of the packet parser: a big-endian 16-bit field at an offset.\<close>

definition be16 :: "bytes \<Rightarrow> nat \<Rightarrow> u16 option" where
  "be16 b off = do { x \<leftarrow> get_at b off; y \<leftarrow> get_at b (off + 1); Some (u16_be x y) }"

lemma be16_Some: "be16 b off = Some v \<longleftrightarrow> off + 1 < length b \<and> v = u16_be (b ! off) (b ! (off + 1))"
  by (auto simp: be16_def bind_eq_Some_conv)

lemma be16_None: "be16 b off = None \<longleftrightarrow> length b \<le> off + 1"
  by (auto simp: be16_def bind_eq_None_conv)

text \<open>Access into a concatenation, for the proofs that parse what was written.\<close>

named_theorems layout \<open>access at a known offset of a concatenation\<close>

lemma get_at_cursor [layout]: "drop p d = y # r \<Longrightarrow> get_at d p = Some y"
  by (metis drop_eq_Nil get_at_Some hd_drop_conv_nth list.distinct(1) list.sel(1) not_le)

lemma be16_cursor [layout]: "drop p d = a # b # r \<Longrightarrow> be16 d p = Some (u16_be a b)"
proof -
  assume eq: "drop p d = a # b # r"
  then have "drop (p + 1) d = b # r"
    by (simp add: Cons_nth_drop_Suc drop_Suc flip: tl_drop)
  from get_at_cursor [OF eq] get_at_cursor [OF this] show ?thesis
    by (simp add: be16_def del: get_at_Some)
qed

lemma drop_cursor: "drop p d = xs @ r \<Longrightarrow> drop (p + length xs) d = r"
  by (metis add.commute append_eq_conv_conj drop_drop)

lemma get_range_cursor [layout]:
  assumes "drop p d = xs @ r" and "p \<le> length d"
  shows "get_range d p (p + length xs) = Some xs"
proof -
  from assms(1) have "length d - p = length xs + length r"
    by (metis length_append length_drop)
  with assms show ?thesis by simp
qed

lemma be_bytes_2: "be_bytes 2 n = [word_of_nat (n div 256), word_of_nat n]"
  by (simp add: be_bytes_def numeral_2_eq_2)

lemma u16_be_bytes: "n < 65536 \<Longrightarrow> unat (u16_be (word_of_nat (n div 256)) (word_of_nat n)) = n"
proof -
  assume "n < 65536"
  then have "n div 256 < 256" by simp
  then show ?thesis by (simp only: unat_u16_be unat_of_nat_u8 mod_less) simp
qed

lemma be16_eval:
  "be16 b off = (if off + 1 < length b then Some (u16_be (b ! off) (b ! (off + 1))) else None)"
  by (auto simp: be16_def access)

end
