(* ===== verification/Strings.thy ===== *)
theory Strings
  imports Prelude "HOL-Library.Sublist"
begin

text \<open>
  The text operations of Rust's standard library that the code uses: ASCII case, decimal and
  hexadecimal formatting, prefix, suffix and substring tests, splitting, trimming, and
  \<^verbatim>\<open>String::from_utf8_lossy\<close>. A string is the list of its UTF-8 bytes as characters.
\<close>

section \<open>Characters as bytes\<close>

definition chr :: "u8 \<Rightarrow> char" where
  "chr b = char_of (unat b)"

definition ord :: "char \<Rightarrow> u8" where
  "ord c = word_of_nat (of_char c)"

lemma ord_chr [simp]: "ord (chr b) = b"
  by (simp add: ord_def chr_def of_char_of)

lemma chr_ord [simp]: "chr (ord c) = c"
  by (simp add: ord_def chr_def unat_of_nat)

definition text_of :: "bytes \<Rightarrow> string" where
  "text_of bs = map chr bs"

definition bytes_of :: "string \<Rightarrow> bytes" where
  "bytes_of s = map ord s"

lemma bytes_of_text_of [simp]: "bytes_of (text_of bs) = bs"
  by (simp add: bytes_of_def text_of_def comp_def)

lemma text_of_bytes_of [simp]: "text_of (bytes_of s) = s"
  by (simp add: bytes_of_def text_of_def comp_def)

lemma length_text_of [simp]: "length (text_of bs) = length bs"
  by (simp add: text_of_def)

definition char_code :: "char \<Rightarrow> nat" where
  "char_code c = of_char c"

lemma char_code_inject [simp]: "char_code c = char_code d \<longleftrightarrow> c = d"
  by (simp add: char_code_def)

lemma char_code_chr [simp]: "char_code (chr b) = unat b"
  by (simp add: char_code_def chr_def)

section \<open>ASCII classes and case\<close>

definition is_ascii_digit :: "char \<Rightarrow> bool" where
  "is_ascii_digit c \<longleftrightarrow> 48 \<le> char_code c \<and> char_code c \<le> 57"

definition is_ascii_upper :: "char \<Rightarrow> bool" where
  "is_ascii_upper c \<longleftrightarrow> 65 \<le> char_code c \<and> char_code c \<le> 90"

definition is_ascii_lower :: "char \<Rightarrow> bool" where
  "is_ascii_lower c \<longleftrightarrow> 97 \<le> char_code c \<and> char_code c \<le> 122"

definition is_ascii_alphanumeric :: "char \<Rightarrow> bool" where
  "is_ascii_alphanumeric c \<longleftrightarrow> is_ascii_digit c \<or> is_ascii_upper c \<or> is_ascii_lower c"

definition ascii_lower_char :: "char \<Rightarrow> char" where
  "ascii_lower_char c = (if is_ascii_upper c then char_of (char_code c + 32) else c)"

definition to_ascii_lowercase :: "string \<Rightarrow> string" where
  "to_ascii_lowercase s = map ascii_lower_char s"

definition eq_ignore_ascii_case :: "string \<Rightarrow> string \<Rightarrow> bool" where
  "eq_ignore_ascii_case a b \<longleftrightarrow> to_ascii_lowercase a = to_ascii_lowercase b"

named_theorems ascii \<open>definitions of the ASCII classes and case operations\<close>
declare is_ascii_digit_def [ascii] is_ascii_upper_def [ascii] is_ascii_lower_def [ascii]
  is_ascii_alphanumeric_def [ascii] ascii_lower_char_def [ascii] to_ascii_lowercase_def [ascii]

lemma char_code_char_of: "n < 256 \<Longrightarrow> char_code (char_of n) = n"
  by (simp add: char_code_def)

lemma ascii_lower_char_not_upper: "\<not> is_ascii_upper (ascii_lower_char c)"
  by (auto simp: ascii_lower_char_def is_ascii_upper_def char_code_char_of)

lemma ascii_lower_char_idem [simp]: "ascii_lower_char (ascii_lower_char c) = ascii_lower_char c"
  by (simp add: ascii_lower_char_def [of "ascii_lower_char c"] ascii_lower_char_not_upper)

lemma to_ascii_lowercase_idem [simp]: "to_ascii_lowercase (to_ascii_lowercase s) = to_ascii_lowercase s"
  by (simp add: to_ascii_lowercase_def comp_def)

lemma length_to_ascii_lowercase [simp]: "length (to_ascii_lowercase s) = length s"
  by (simp add: to_ascii_lowercase_def)

lemma to_ascii_lowercase_Nil [simp]: "to_ascii_lowercase s = [] \<longleftrightarrow> s = []"
  by (simp add: to_ascii_lowercase_def)

lemma ascii_lower_char_alphanumeric [simp]:
  "is_ascii_alphanumeric (ascii_lower_char c) = is_ascii_alphanumeric c"
  by (auto simp: ascii char_code_char_of)

lemma ascii_lower_char_keeps:
  "\<not> is_ascii_upper c \<Longrightarrow> ascii_lower_char c = c"
  by (simp add: ascii_lower_char_def)

lemma eq_ignore_ascii_case_refl [simp]: "eq_ignore_ascii_case s s"
  by (simp add: eq_ignore_ascii_case_def)

section \<open>Numbers\<close>

definition digit_char :: "nat \<Rightarrow> char" where
  "digit_char n = char_of (if n < 10 then 48 + n else 87 + n)"

text \<open>\<^verbatim>\<open>format!("{n}")\<close> and \<^verbatim>\<open>format!("{n:x}")\<close>: digits in the given base, no padding.\<close>

fun show_base :: "nat \<Rightarrow> nat \<Rightarrow> string" where
  "show_base b n =
     (if n < b \<or> b < 2 then [digit_char n] else show_base b (n div b) @ [digit_char (n mod b)])"

declare show_base.simps [simp del]

definition show_nat :: "nat \<Rightarrow> string" where
  "show_nat n = show_base 10 n"

definition show_int :: "int \<Rightarrow> string" where
  "show_int i = (if i < 0 then ''-'' @ show_nat (nat (- i)) else show_nat (nat i))"

definition show_hex :: "nat \<Rightarrow> string" where
  "show_hex n = show_base 16 n"

lemma show_base_nonempty [simp]: "show_base b n \<noteq> []"
  by (subst show_base.simps) simp

lemma Nil_show_base [simp]: "[] \<noteq> show_base b n"
  using show_base_nonempty [of b n] by metis

lemma char_code_digit: "n < 16 \<Longrightarrow> char_code (digit_char n) = (if n < 10 then 48 + n else 87 + n)"
  by (simp add: digit_char_def char_code_char_of)

lemma show_nat_digits: "c \<in> set (show_nat n) \<Longrightarrow> is_ascii_digit c"
  unfolding show_nat_def
proof (induction "10 :: nat" n rule: show_base.induct)
  case (1 n)
  show ?case
  proof (cases "n < 10")
    case True
    with 1(2) show ?thesis
      by (simp add: show_base.simps [of 10 n] is_ascii_digit_def char_code_digit)
  next
    case False
    with 1(2) consider "c \<in> set (show_base 10 (n div 10))" | "c = digit_char (n mod 10)"
      by (auto simp: show_base.simps [of 10 n])
    then show ?thesis
    proof cases
      case 1
      with False "1.hyps" show ?thesis by simp
    next
      case 2
      have "n mod 10 < 10" by simp
      then have "char_code (digit_char (n mod 10)) = 48 + n mod 10"
        by (subst char_code_digit) auto
      with 2 show ?thesis by (simp add: is_ascii_digit_def)
    qed
  qed
qed

lemma digit_char_inject: "m < 16 \<Longrightarrow> n < 16 \<Longrightarrow> digit_char m = digit_char n \<longleftrightarrow> m = n"
  by (auto simp: char_code_digit simp flip: char_code_inject)

lemma show_base_inject:
  "2 \<le> b \<Longrightarrow> b \<le> 16 \<Longrightarrow> show_base b m = show_base b n \<longleftrightarrow> m = n"
proof (induction b m arbitrary: n rule: show_base.induct)
  case (1 b m)
  have lt: "k mod b < 16" for k
    using "1.prems" by (meson le_trans less_le_trans linorder_not_le mod_less_divisor not_numeral_le_zero
      zero_less_iff_neq_zero)
  show ?case
  proof (cases "m < b"; cases "n < b")
    assume "\<not> m < b" and "\<not> n < b"
    then show ?thesis
      using 1 lt [of m] lt [of n]
      by (auto simp: show_base.simps [of b m] show_base.simps [of b n] digit_char_inject)
        (metis div_mult_mod_eq)
  qed (use "1.prems" in \<open>auto simp: show_base.simps [of b m] show_base.simps [of b n]
      digit_char_inject\<close>)
qed

lemma show_nat_inject [simp]: "show_nat m = show_nat n \<longleftrightarrow> m = n"
  by (simp add: show_nat_def show_base_inject)

lemma show_nat_nonempty [simp]: "show_nat n \<noteq> []"
  by (simp add: show_nat_def)

section \<open>Substrings, splitting, trimming\<close>

definition starts_with :: "string \<Rightarrow> string \<Rightarrow> bool" where
  "starts_with s p \<longleftrightarrow> prefix p s"

definition ends_with :: "string \<Rightarrow> string \<Rightarrow> bool" where
  "ends_with s p \<longleftrightarrow> suffix p s"

definition contains_str :: "string \<Rightarrow> string \<Rightarrow> bool" where
  "contains_str s p \<longleftrightarrow> sublist p s"

text \<open>\<^verbatim>\<open>s.split(sep)\<close> for a character separator: always at least one piece.\<close>

fun split_on :: "('a \<Rightarrow> bool) \<Rightarrow> 'a list \<Rightarrow> 'a list list" where
  "split_on p [] = [[]]"
| "split_on p (c # cs) =
     (if p c then [] # split_on p cs
      else (case split_on p cs of [] \<Rightarrow> [[c]] | w # ws \<Rightarrow> (c # w) # ws))"

definition trim_start :: "('a \<Rightarrow> bool) \<Rightarrow> 'a list \<Rightarrow> 'a list" where
  "trim_start p s = dropWhile p s"

definition trim_end :: "('a \<Rightarrow> bool) \<Rightarrow> 'a list \<Rightarrow> 'a list" where
  "trim_end p s = rev (dropWhile p (rev s))"

text \<open>\<^verbatim>\<open>s.split_once(pat)\<close>: the text before and after the first occurrence.\<close>

fun split_once :: "string \<Rightarrow> string \<Rightarrow> (string \<times> string) option" where
  "split_once pat [] = (if pat = [] then Some ([], []) else None)"
| "split_once pat (c # cs) =
     (if prefix pat (c # cs) then Some ([], drop (length pat) (c # cs))
      else map_option (\<lambda>(a, b). (c # a, b)) (split_once pat cs))"

lemma split_on_nonempty [simp]: "split_on p s \<noteq> []"
  by (induction s) (auto split: list.splits)

lemma split_on_pieces: "w \<in> set (split_on p s) \<Longrightarrow> c \<in> set w \<Longrightarrow> c \<in> set s \<and> \<not> p c"
proof (induction s arbitrary: w)
  case (Cons a s)
  obtain v vs where split: "split_on p s = v # vs"
    by (cases "split_on p s") auto
  have IH: "x \<in> set (split_on p s) \<Longrightarrow> c \<in> set x \<Longrightarrow> c \<in> set s \<and> \<not> p c" for x
    by (rule Cons.IH)
  show ?case
    using Cons.prems IH [of w] IH [of v] split by (auto split: if_splits)
qed simp

lemma split_once_Some: "split_once pat s = Some (a, b) \<Longrightarrow> s = a @ pat @ b"
proof (induction s arbitrary: a)
  case (Cons c cs)
  then show ?case
    by (auto split: if_splits simp: prefix_def)
qed (auto split: if_splits)

section \<open>UTF-8, lossily\<close>

text \<open>
  One step of \<^verbatim>\<open>Utf8Chunks\<close>: the number of bytes inspected at the front of the
  string and whether they form a character. A byte past the end reads as 0.
\<close>

definition byte_at :: "bytes \<Rightarrow> nat \<Rightarrow> nat" where
  "byte_at d i = (if i < length d then unat (d ! i) else 0)"

definition is_cont :: "nat \<Rightarrow> bool" where
  "is_cont b \<longleftrightarrow> 128 \<le> b \<and> b < 192"

definition second_ok :: "nat \<Rightarrow> nat \<Rightarrow> bool" where
  "second_ok a b \<longleftrightarrow>
     (if a = 224 then 160 \<le> b \<and> b \<le> 191
      else if a = 237 then 128 \<le> b \<and> b \<le> 159
      else if a = 240 then 144 \<le> b \<and> b \<le> 191
      else if a = 244 then 128 \<le> b \<and> b \<le> 143
      else 128 \<le> b \<and> b \<le> 191)"

definition utf8_step :: "bytes \<Rightarrow> bool \<times> nat" where
  "utf8_step d =
     (let a = byte_at d 0; b = byte_at d 1 in
      if a < 128 then (True, 1)
      else if 194 \<le> a \<and> a \<le> 223 then (if is_cont b then (True, 2) else (False, 1))
      else if 224 \<le> a \<and> a \<le> 239 then
        (if \<not> second_ok a b then (False, 1)
         else if \<not> is_cont (byte_at d 2) then (False, 2) else (True, 3))
      else if 240 \<le> a \<and> a \<le> 244 then
        (if \<not> second_ok a b then (False, 1)
         else if \<not> is_cont (byte_at d 2) then (False, 2)
         else if \<not> is_cont (byte_at d 3) then (False, 3) else (True, 4))
      else (False, 1))"

lemma utf8_step_pos: "0 < snd (utf8_step d)"
  by (simp add: utf8_step_def Let_def)

definition replacement :: bytes where
  "replacement = [0xEF, 0xBF, 0xBD]"

function utf8_lossy :: "bytes \<Rightarrow> bytes" where
  "utf8_lossy d =
     (if d = [] then []
      else (if fst (utf8_step d) then take (snd (utf8_step d)) d else replacement)
           @ utf8_lossy (drop (snd (utf8_step d)) d))"
  by pat_completeness auto
termination
  by (relation "measure length") (use utf8_step_pos in \<open>auto simp: neq_Nil_conv\<close>)

declare utf8_lossy.simps [simp del]

definition from_utf8_lossy :: "bytes \<Rightarrow> string" where
  "from_utf8_lossy d = text_of (utf8_lossy d)"

lemma utf8_lossy_Nil [simp]: "utf8_lossy [] = []"
  by (simp add: utf8_lossy.simps)

lemma utf8_step_ascii: "d \<noteq> [] \<Longrightarrow> unat (hd d) < 128 \<Longrightarrow> utf8_step d = (True, 1)"
  by (simp add: utf8_step_def byte_at_def hd_conv_nth Let_def)

lemma utf8_lossy_ascii: "\<forall>b \<in> set d. unat b < 128 \<Longrightarrow> utf8_lossy d = d"
proof (induction d)
  case (Cons b d)
  then have "utf8_step (b # d) = (True, 1)" by (intro utf8_step_ascii) auto
  with Cons show ?case by (simp add: utf8_lossy.simps [of "b # d"])
qed simp

text \<open>\<^verbatim>\<open>String::from_utf8\<close>: the bytes themselves when every step finds a character.\<close>

function valid_utf8 :: "bytes \<Rightarrow> bool" where
  "valid_utf8 d =
     (if d = [] then True
      else if fst (utf8_step d) then valid_utf8 (drop (snd (utf8_step d)) d)
      else False)"
  by pat_completeness auto
termination
  by (relation "measure length") (use utf8_step_pos in \<open>auto simp: neq_Nil_conv\<close>)

declare valid_utf8.simps [simp del]

definition from_utf8 :: "bytes \<Rightarrow> string option" where
  "from_utf8 d = (if valid_utf8 d then Some (text_of d) else None)"

lemma valid_utf8_ascii: "\<forall>b \<in> set d. unat b < 128 \<Longrightarrow> valid_utf8 d"
proof (induction d)
  case (Cons b d)
  then have "utf8_step (b # d) = (True, 1)" by (intro utf8_step_ascii) auto
  with Cons show ?case by (simp add: valid_utf8.simps [of "b # d"])
qed (simp add: valid_utf8.simps)

lemma length_utf8_lossy: "length (utf8_lossy d) \<le> 3 * length d"
proof (induction d rule: utf8_lossy.induct)
  case (1 d)
  show ?case
  proof (cases "d = []")
    case False
    let ?n = "snd (utf8_step d)"
    have IH: "length (utf8_lossy (drop ?n d)) \<le> 3 * length (drop ?n d)"
      using 1 False by simp
    have "0 < ?n" by (rule utf8_step_pos)
    moreover have "0 < length d" using False by simp
    ultimately have "3 + 3 * (length d - ?n) \<le> 3 * length d"
      and "length (take ?n d) + 3 * (length d - ?n) \<le> 3 * length d"
      unfolding length_take by linarith+
    with IH have "3 + length (utf8_lossy (drop ?n d)) \<le> 3 * length d"
      and "length (take ?n d) + length (utf8_lossy (drop ?n d)) \<le> 3 * length d"
      unfolding length_drop by linarith+
    then show ?thesis
      using False by (simp add: utf8_lossy.simps [of d] replacement_def)
  qed simp
qed

end
