(* ===== verification/Net.thy ===== *)
theory Net
  imports Strings
begin

text \<open>
  The vocabulary of the program: addresses and their classes (\<^verbatim>\<open>src/src/state.rs\<close>,
  \<^verbatim>\<open>classify\<close> and \<^verbatim>\<open>well_known_label\<close>), protocols and socket rows
  (\<^verbatim>\<open>src/src/sockets/mod.rs\<close>), processes (\<^verbatim>\<open>src/src/procs/mod.rs\<close>), connection
  keys, and decoded packets (\<^verbatim>\<open>src/src/pcap.rs\<close>). The text form of an address is the
  one Rust's \<^verbatim>\<open>Display\<close> prints.
\<close>

section \<open>Addresses\<close>

text \<open>
  \<^verbatim>\<open>std::net::IpAddr\<close>. An IPv4 address is its four octets, an IPv6 address its 128 bits.
\<close>

datatype IpAddr = V4 u8 u8 u8 u8 | V6 "128 word"

definition v6_segment :: "128 word \<Rightarrow> nat \<Rightarrow> u16" where
  "v6_segment v i = ucast (drop_bit (112 - 16 * i) v)"

definition v6_segments :: "128 word \<Rightarrow> u16 list" where
  "v6_segments v = map (v6_segment v) [0, 1, 2, 3, 4, 5, 6, 7]"

definition v6_of_octets :: "bytes \<Rightarrow> IpAddr" where
  "v6_of_octets bs = V6 (word_of_nat (be_nat bs))"

text \<open>\<^verbatim>\<open>Ipv6Addr::to_ipv4_mapped\<close>: \<^verbatim>\<open>::ffff:a.b.c.d\<close>.\<close>

definition to_ipv4_mapped :: "128 word \<Rightarrow> IpAddr option" where
  "to_ipv4_mapped v =
     (if drop_bit 32 v = 0xFFFF
      then Some (V4 (ucast (drop_bit 24 v)) (ucast (drop_bit 16 v)) (ucast (drop_bit 8 v)) (ucast v))
      else None)"

fun is_unspecified :: "IpAddr \<Rightarrow> bool" where
  "is_unspecified (V4 a b c d) \<longleftrightarrow> a = 0 \<and> b = 0 \<and> c = 0 \<and> d = 0"
| "is_unspecified (V6 v) \<longleftrightarrow> v = 0"

fun is_loopback :: "IpAddr \<Rightarrow> bool" where
  "is_loopback (V4 a b c d) \<longleftrightarrow> a = 127"
| "is_loopback (V6 v) \<longleftrightarrow> v = 1"

fun is_multicast :: "IpAddr \<Rightarrow> bool" where
  "is_multicast (V4 a b c d) \<longleftrightarrow> 224 \<le> a \<and> a \<le> 239"
| "is_multicast (V6 v) \<longleftrightarrow> v6_segment v 0 AND 0xff00 = 0xff00"

fun is_ipv4 :: "IpAddr \<Rightarrow> bool" where
  "is_ipv4 (V4 a b c d) = True"
| "is_ipv4 (V6 v) = False"

text \<open>\<^verbatim>\<open>Ipv4Addr::is_broadcast\<close>, \<^verbatim>\<open>is_private\<close> and \<^verbatim>\<open>is_link_local\<close>.\<close>

definition v4_broadcast :: "u8 \<Rightarrow> u8 \<Rightarrow> u8 \<Rightarrow> u8 \<Rightarrow> bool" where
  "v4_broadcast a b c d \<longleftrightarrow> a = 255 \<and> b = 255 \<and> c = 255 \<and> d = 255"

definition v4_private :: "u8 \<Rightarrow> u8 \<Rightarrow> bool" where
  "v4_private a b \<longleftrightarrow> a = 10 \<or> (a = 172 \<and> 16 \<le> b \<and> b \<le> 31) \<or> (a = 192 \<and> b = 168)"

definition v4_link_local :: "u8 \<Rightarrow> u8 \<Rightarrow> bool" where
  "v4_link_local a b \<longleftrightarrow> a = 169 \<and> b = 254"

section \<open>Address classes\<close>

fun classify :: "IpAddr \<Rightarrow> string" where
  "classify (V4 a b c d) =
     (if is_loopback (V4 a b c d) then ''loopback''
      else if v4_broadcast a b c d \<or> (a = 255 \<and> b = 255 \<and> c = 255 \<and> d = 255) then ''broadcast''
      else if is_multicast (V4 a b c d) then ''multicast''
      else if v4_private a b \<or> v4_link_local a b \<or> a = 0 \<or> 240 \<le> a
           \<or> (a = 100 \<and> b AND 0xc0 = 64) then ''private''
      else ''public'')"
| "classify (V6 v) =
     (if is_loopback (V6 v) then ''loopback''
      else if is_multicast (V6 v) then ''multicast''
      else if v6_segment v 0 AND 0xfe00 = 0xfc00 \<or> v6_segment v 0 AND 0xff80 = 0xfe80
      then ''private''
      else ''public'')"

section \<open>The text form of an address\<close>

fun zero_run :: "u16 list \<Rightarrow> nat" where
  "zero_run [] = 0"
| "zero_run (s # ss) = (if s = 0 then Suc (zero_run ss) else 0)"

text \<open>The first longest run of zero segments, as start and length.\<close>

fun longest_zero_run :: "nat \<Rightarrow> u16 list \<Rightarrow> nat \<times> nat" where
  "longest_zero_run i [] = (i, 0)"
| "longest_zero_run i (s # ss) =
     (let here = zero_run (s # ss); rest = longest_zero_run (Suc i) ss in
      if snd rest \<le> here then (i, here) else rest)"

fun join_segments :: "u16 list \<Rightarrow> string" where
  "join_segments [] = []"
| "join_segments [s] = show_hex (unat s)"
| "join_segments (s # ss) = show_hex (unat s) @ '':'' @ join_segments ss"

definition v4_to_string :: "u8 \<Rightarrow> u8 \<Rightarrow> u8 \<Rightarrow> u8 \<Rightarrow> string" where
  "v4_to_string a b c d = show_nat (unat a) @ ''.'' @ show_nat (unat b) @ ''.''
     @ show_nat (unat c) @ ''.'' @ show_nat (unat d)"

fun ip_to_string :: "IpAddr \<Rightarrow> string" where
  "ip_to_string (V4 a b c d) = v4_to_string a b c d"
| "ip_to_string (V6 v) =
     (case to_ipv4_mapped v of
        Some (V4 a b c d) \<Rightarrow> ''::ffff:'' @ v4_to_string a b c d
      | _ \<Rightarrow>
        (let segs = v6_segments v; (start, n) = longest_zero_run 0 segs in
         if 1 < n then join_segments (take start segs) @ ''::'' @ join_segments (drop (start + n) segs)
         else join_segments segs))"

text \<open>Russian texts are written as their UTF-8 bytes.\<close>

definition utf8_text :: "nat list \<Rightarrow> string" where
  "utf8_text ns = map char_of ns"

definition well_known_label :: "IpAddr \<Rightarrow> u16 \<Rightarrow> (string \<times> string) option" where
  "well_known_label ip port =
     (let s = ip_to_string ip in
      if s = ''127.0.0.53'' \<and> port = 53 then Some (''systemd-resolved, local DNS'',
       utf8_text [115, 121, 115, 116, 101, 109, 100, 45, 114, 101, 115, 111, 108, 118, 101,
       100, 44, 32, 208, 187, 208, 190, 208, 186, 208, 176, 208, 187, 209, 140, 208,
       189, 209, 139, 208, 185, 32, 68, 78, 83])
      else if s = ''127.0.0.54'' then Some (''systemd-resolved, delegation'',
       utf8_text [115, 121, 115, 116, 101, 109, 100, 45, 114, 101, 115, 111, 108, 118, 101,
       100, 44, 32, 208, 180, 208, 181, 208, 187, 208, 181, 208, 179, 208, 184, 209,
       128, 208, 190, 208, 178, 208, 176, 208, 189, 208, 184, 208, 181])
      else if s = ''127.0.0.1'' \<or> s = ''::1'' then Some (''localhost'', ''localhost'')
      else if s = ''224.0.0.251'' then Some (''mDNS, multicast'',
       utf8_text [109, 68, 78, 83, 44, 32, 208, 188, 208, 189, 208, 190, 208, 179, 208, 190,
       208, 176, 208, 180, 209, 128, 208, 181, 209, 129, 208, 189, 208, 176, 209, 143,
       32, 209, 128, 208, 176, 209, 129, 209, 129, 209, 139, 208, 187, 208, 186, 208,
       176])
      else if s = ''239.255.255.250'' then Some (''SSDP, device discovery'',
       utf8_text [83, 83, 68, 80, 44, 32, 208, 190, 208, 177, 208, 189, 208, 176, 209, 128,
       209, 131, 208, 182, 208, 181, 208, 189, 208, 184, 208, 181, 32, 209, 131, 209,
       129, 209, 130, 209, 128, 208, 190, 208, 185, 209, 129, 209, 130, 208, 178])
      else if s = ''255.255.255.255'' then Some (''broadcast'',
       utf8_text [209, 136, 208, 184, 209, 128, 208, 190, 208, 186, 208, 190, 208, 178, 208,
       181, 209, 137, 208, 176, 209, 130, 208, 181, 208, 187, 209, 140, 208, 189, 208,
       176, 209, 143, 32, 209, 128, 208, 176, 209, 129, 209, 129, 209, 139, 208, 187,
       208, 186, 208, 176])
      else None)"

text \<open>\<^verbatim>\<open>i18n::tr\<close>: the text of the current language.\<close>

definition tr :: "bool \<Rightarrow> string \<Rightarrow> string \<Rightarrow> string" where
  "tr ru en ru_text = (if ru then ru_text else en)"

section \<open>Sockets, processes, packets\<close>

datatype Proto = Tcp | Udp

fun proto_as_str :: "Proto \<Rightarrow> string" where
  "proto_as_str Tcp = ''TCP''"
| "proto_as_str Udp = ''UDP''"

record SockEntry =
  se_proto :: Proto
  se_local :: IpAddr
  se_lport :: u16
  se_remote :: IpAddr
  se_rport :: u16
  se_state :: string
  se_pid :: "int option"
  se_ambiguous :: bool
  se_cookie :: "u64 option"

definition udp_state :: "u16 \<Rightarrow> string" where
  "udp_state rport = (if rport = 0 then ''UNCONNECTED'' else ''ACTIVE'')"

record ProcInfo =
  p_pid :: int
  p_started :: u64
  p_ppid :: int
  p_comm :: string
  p_name :: string
  p_cmdline :: string
  p_proton :: bool

record Identity =
  id_pid :: int
  id_started :: u64

definition identity :: "ProcInfo \<Rightarrow> Identity" where
  "identity p = \<lparr>id_pid = p_pid p, id_started = p_started p\<rparr>"

record ConnKey =
  k_proto :: Proto
  k_local :: IpAddr
  k_lport :: u16
  k_remote :: IpAddr
  k_rport :: u16

definition key_id :: "ConnKey \<Rightarrow> string" where
  "key_id k = proto_as_str (k_proto k) @ ''|'' @ ip_to_string (k_local k) @ ''|''
     @ show_nat (unat (k_lport k)) @ ''|'' @ ip_to_string (k_remote k) @ ''|''
     @ show_nat (unat (k_rport k))"

record Packet =
  pk_proto :: Proto
  pk_src :: IpAddr
  pk_sport :: u16
  pk_dst :: IpAddr
  pk_dport :: u16
  pk_bytes :: u32
  pk_sni :: "string option"
  pk_dns_addrs :: "(string \<times> IpAddr \<times> u32) list"

section \<open>Properties of the classes\<close>

lemma classify_values:
  "classify ip \<in> {''loopback'', ''broadcast'', ''multicast'', ''private'', ''public''}"
  by (cases ip) auto

lemma top_bits_01: "b AND 0xc0 = 64 \<longleftrightarrow> 64 \<le> b \<and> b \<le> 127" for b :: u8
proof -
  have m: "(0xc0 :: u8) = NOT (mask 6)" by (simp add: mask_eq_exp_minus_1)
  have "b AND 0xc0 = 64 \<longleftrightarrow> unat (b AND NOT (mask 6)) = 64"
    unfolding m by (simp add: word_eq_iff_unsigned flip: unat_inject)
  also have "\<dots> \<longleftrightarrow> 64 \<le> b \<and> b \<le> 127"
    unfolding unat_and_not_mask word_le_nat_alt by simp arith
  finally show ?thesis .
qed

text \<open>What \<^verbatim>\<open>public\<close> excludes: every address that a lookup would disclose.\<close>

lemma classify_public_v4:
  "classify (V4 a b c d) = ''public'' \<longleftrightarrow>
     a \<noteq> 0 \<and> a \<noteq> 10 \<and> a \<noteq> 127 \<and> a < 224 \<and> \<not> (a = 172 \<and> 16 \<le> b \<and> b \<le> 31)
     \<and> \<not> (a = 192 \<and> b = 168) \<and> \<not> (a = 169 \<and> b = 254) \<and> \<not> (a = 100 \<and> 64 \<le> b \<and> b \<le> 127)"
proof -
  have "a \<le> 239 \<or> 240 \<le> a" by (simp add: word_le_nat_alt) linarith
  moreover have "a < 224 \<longleftrightarrow> \<not> 224 \<le> a" by auto
  ultimately show ?thesis
    by (auto simp: top_bits_01 v4_broadcast_def v4_private_def v4_link_local_def word_le_nat_alt word_less_nat_alt)
qed

lemma split_at_char:
  assumes "c \<notin> set xs" and "c \<notin> set ys" and "xs @ c # zs = ys @ c # ws"
  shows "xs = ys \<and> zs = ws"
  using assms by (induction xs arbitrary: ys) (auto simp: Cons_eq_append_conv)

lemma dot_not_digit: "CHR ''.'' \<notin> set (show_nat n)"
  by (auto dest!: show_nat_digits simp: is_ascii_digit_def char_code_def)

lemma v4_to_string_inject:
  "v4_to_string a b c d = v4_to_string a' b' c' d' \<longleftrightarrow> a = a' \<and> b = b' \<and> c = c' \<and> d = d'"
  by (auto simp: v4_to_string_def
      dest!: split_at_char [OF dot_not_digit dot_not_digit])

lemma proto_as_str_inject [simp]: "proto_as_str p = proto_as_str q \<longleftrightarrow> p = q"
  by (cases p; cases q) auto

end
