(* ===== verification/Dns_Message.thy ===== *)
theory Dns_Message
  imports Net
begin

text \<open>
  DNS responses: \<^verbatim>\<open>dns_name\<close> and \<^verbatim>\<open>parse_dns\<close> of \<^verbatim>\<open>src/src/pcap.rs\<close>. The
  loop of \<^verbatim>\<open>dns_name\<close> ends because of its guard; the grammar of RFC 1035 with
  compression pointers is the inductive relation \<open>name_at\<close>.
\<close>

section \<open>Names\<close>

definition MAX_DNS_NAME :: nat where "MAX_DNS_NAME = 255"
definition MAX_DNS_ADDRS :: nat where "MAX_DNS_ADDRS = 64"

text \<open>A further label of the name that is being built.\<close>

definition add_label :: "string \<Rightarrow> bytes \<Rightarrow> string" where
  "add_label acc label = (if acc = [] then [] else acc @ ''.'') @ from_utf8_lossy label"

function dns_name_loop :: "bytes \<Rightarrow> nat \<Rightarrow> string \<Rightarrow> nat \<Rightarrow> bool \<Rightarrow> nat \<Rightarrow> nat \<Rightarrow> (string \<times> nat) option" where
  "dns_name_loop d p acc wire jumped after guard =
     (if 128 < guard + 1 then None
      else
        case get_at d p of
          None \<Rightarrow> None
        | Some len \<Rightarrow>
            if len = 0 then Some (acc, if jumped then after else p + 1)
            else if 63 < len then
              (if len AND 0xC0 \<noteq> 0xC0 then None
               else
                 case get_at d (p + 1) of
                   None \<Rightarrow> None
                 | Some low \<Rightarrow>
                     dns_name_loop d (unat (len AND 0x3F) * 256 + unat low) acc wire True
                       (if jumped then after else p + 2) (guard + 1))
            else
              (case get_range d (p + 1) (p + 1 + unat len) of
                 None \<Rightarrow> None
               | Some label \<Rightarrow>
                   let wire = wire + (1 + unat len) in
                   if MAX_DNS_NAME < wire then None
                   else dns_name_loop d (p + 1 + unat len) (add_label acc label) wire jumped after (guard + 1)))"
  by pat_completeness auto
termination
  by (relation "measure (\<lambda>(d, p, acc, wire, jumped, after, guard). 128 - guard)") auto

declare dns_name_loop.simps [simp del]

definition dns_name :: "bytes \<Rightarrow> nat \<Rightarrow> (string \<times> nat) option" where
  "dns_name d p = dns_name_loop d p [] 1 False p 0"

section \<open>Messages\<close>

text \<open>The question section: the name of the first question and the position after the last.\<close>

fun dns_questions :: "bytes \<Rightarrow> nat \<Rightarrow> nat \<Rightarrow> string option \<Rightarrow> (string option \<times> nat) option" where
  "dns_questions d 0 p qname = Some (qname, p)"
| "dns_questions d (Suc n) p qname =
     (case dns_name d p of
        None \<Rightarrow> None
      | Some (name, np) \<Rightarrow>
          dns_questions d n (np + 4) (case qname of None \<Rightarrow> Some name | Some q \<Rightarrow> Some q))"

text \<open>A resource record: owner, type, TTL, and where its data are.\<close>

record dns_rr =
  rr_owner :: string
  rr_type :: u16
  rr_ttl :: u32
  rr_pos :: nat
  rr_data :: bytes

definition dns_rr_at :: "bytes \<Rightarrow> nat \<Rightarrow> dns_rr option" where
  "dns_rr_at d p0 = do {
     (name, p) \<leftarrow> dns_name d p0;
     rtype \<leftarrow> be16 d p;
     let ttl = (case get_range d (p + 4) (p + 8) of None \<Rightarrow> 0 | Some v \<Rightarrow> word_of_nat (be_nat v));
     if be16 d (p + 2) \<noteq> Some 1 then None else do {
     rdlen \<leftarrow> be16 d (p + 8);
     rdata \<leftarrow> get_range d (p + 10) (p + 10 + unat rdlen);
     Some \<lparr>rr_owner = name, rr_type = rtype, rr_ttl = ttl, rr_pos = p + 10, rr_data = rdata\<rparr>}}"

definition in_chain :: "string list \<Rightarrow> string \<Rightarrow> bool" where
  "in_chain chain name \<longleftrightarrow> list_ex (\<lambda>c. eq_ignore_ascii_case c name) chain"

text \<open>The name an address is shown under: the queried one when its owner is on the chain.\<close>

definition shown_name :: "string option \<Rightarrow> string list \<Rightarrow> string \<Rightarrow> string" where
  "shown_name qname chain owner =
     (case qname of Some q \<Rightarrow> if in_chain chain owner then q else owner | None \<Rightarrow> owner)"

definition rr_address :: "dns_rr \<Rightarrow> IpAddr option" where
  "rr_address r =
     (if rr_type r = 1 \<and> length (rr_data r) = 4
      then Some (V4 (rr_data r ! 0) (rr_data r ! 1) (rr_data r ! 2) (rr_data r ! 3))
      else if rr_type r = 28 \<and> length (rr_data r) = 16 then Some (v6_of_octets (rr_data r))
      else None)"

fun dns_answers :: "bytes \<Rightarrow> nat \<Rightarrow> nat \<Rightarrow> string option \<Rightarrow> string list \<Rightarrow> u32
    \<Rightarrow> (string \<times> IpAddr \<times> u32) list \<Rightarrow> (string \<times> IpAddr \<times> u32) list" where
  "dns_answers d 0 p qname chain chain_ttl addrs = addrs"
| "dns_answers d (Suc n) p qname chain chain_ttl addrs =
     (if MAX_DNS_ADDRS \<le> length addrs then addrs
      else
        case dns_rr_at d p of
          None \<Rightarrow> addrs
        | Some r \<Rightarrow>
            let on_chain = in_chain chain (rr_owner r);
                ttl = (if on_chain then min (rr_ttl r) chain_ttl else rr_ttl r);
                next_p = rr_pos r + length (rr_data r) in
            (case rr_address r of
               Some ip \<Rightarrow>
                 dns_answers d n next_p qname chain chain_ttl
                   (addrs @ [(shown_name qname chain (rr_owner r), ip, ttl)])
             | None \<Rightarrow>
                 if rr_type r = 5 \<and> length chain < 16 \<and> on_chain then
                   (case dns_name d (rr_pos r) of
                      Some (target, _) \<Rightarrow>
                        dns_answers d n next_p qname (chain @ [target]) (min chain_ttl ttl) addrs
                    | None \<Rightarrow> dns_answers d n next_p qname chain chain_ttl addrs)
                 else dns_answers d n next_p qname chain chain_ttl addrs))"

text \<open>\<^verbatim>\<open>be16(d, off).unwrap_or(0)\<close>.\<close>

definition dns_count :: "bytes \<Rightarrow> nat \<Rightarrow> nat" where
  "dns_count d off = (case be16 d off of None \<Rightarrow> 0 | Some n \<Rightarrow> unat n)"

definition parse_dns :: "bytes \<Rightarrow> Packet \<Rightarrow> Packet" where
  "parse_dns d pkt =
     (if length d < 12 then pkt
      else
        case be16 d 2 of
          None \<Rightarrow> pkt
        | Some flags \<Rightarrow>
            if flags AND 0x8000 = 0 \<or> flags AND 0x020f \<noteq> 0 then pkt
            else
              (case dns_questions d (dns_count d 4) 12 None of
                 None \<Rightarrow> pkt
               | Some (qname, p) \<Rightarrow>
                   let chain = (case qname of None \<Rightarrow> [] | Some q \<Rightarrow> [q]) in
                   pkt\<lparr>pk_dns_addrs := dns_answers d (dns_count d 6) p qname chain (- 1) (pk_dns_addrs pkt)\<rparr>))"

section \<open>The grammar of names\<close>

text \<open>
  \<open>name_at d p labels after n\<close>: the labels of the name encoded at \<open>p\<close>, the position after
  its encoding there and the number of bytes read as lengths or pointers.
\<close>

inductive name_at :: "bytes \<Rightarrow> nat \<Rightarrow> bytes list \<Rightarrow> nat \<Rightarrow> nat \<Rightarrow> bool" for d where
  at_root: "get_at d p = Some 0 \<Longrightarrow> name_at d p [] (p + 1) 1"
| at_label: "get_at d p = Some len \<Longrightarrow> 0 < len \<Longrightarrow> len \<le> 63 \<Longrightarrow>
     get_range d (p + 1) (p + 1 + unat len) = Some label \<Longrightarrow>
     name_at d (p + 1 + unat len) labels after n \<Longrightarrow> name_at d p (label # labels) after (Suc n)"
| at_pointer: "get_at d p = Some len \<Longrightarrow> len AND 0xC0 = 0xC0 \<Longrightarrow> get_at d (p + 1) = Some low \<Longrightarrow>
     name_at d (unat (len AND 0x3F) * 256 + unat low) labels after n \<Longrightarrow> name_at d p labels (p + 2) (Suc n)"

definition wire_size :: "bytes list \<Rightarrow> nat" where
  "wire_size labels = 1 + sum_list (map (\<lambda>l. 1 + length l) labels)"

definition dotted :: "string \<Rightarrow> bytes list \<Rightarrow> string" where
  "dotted acc labels = fold (\<lambda>l s. add_label s l) labels acc"

lemma unat_numeral_192: "unat (0xC0 :: u8) = 192"
  by simp

lemma top_quarter: "x < 256 \<Longrightarrow> x div 64 * 64 = 192 \<longleftrightarrow> 192 \<le> x" for x :: nat
proof
  assume "x div 64 * 64 = 192"
  then show "192 \<le> x" using div_times_less_eq_dividend [of x 64] by linarith
next
  assume "x < 256" "192 \<le> x"
  then have "x div 64 < 4" "3 \<le> x div 64" using div_le_mono [of 192 x 64] by (simp_all add: less_mult_imp_div_less)
  then have "x div 64 = 3" by linarith
  then show "x div 64 * 64 = 192" by simp
qed

lemma top_two_bits_set: "len AND 0xC0 = 0xC0 \<longleftrightarrow> 192 \<le> len" for len :: u8
proof -
  have "len AND 0xC0 = 0xC0 \<longleftrightarrow> unat (len AND NOT (mask 6)) = 192"
  proof -
    have "(0xC0 :: u8) = NOT (mask 6)" by (simp add: mask_eq_exp_minus_1)
    then show ?thesis by (metis unat_inject unat_numeral_192)
  qed
  also have "\<dots> \<longleftrightarrow> 192 \<le> len"
    unfolding unat_and_not_mask word_le_nat_alt unat_numeral_192
    using top_quarter [OF unat_u8_less [of len]] by simp
  finally show ?thesis .
qed

lemma dns_name_loop_complete:
  assumes "name_at d p labels q n" and "guard + n \<le> 128" and "wire + wire_size labels \<le> 1 + MAX_DNS_NAME"
  shows "dns_name_loop d p acc wire jumped after guard = Some (dotted acc labels, if jumped then after else q)"
  using assms
proof (induction arbitrary: acc wire jumped after guard rule: name_at.induct)
  case (at_root p)
  then show ?case by (subst dns_name_loop.simps) (simp add: dotted_def del: get_at_Some)
next
  case (at_label p len label labels q n)
  have len: "length label = unat len" using at_label(4) by auto
  have rec: "dns_name_loop d (p + 1 + unat len) (add_label acc label) (wire + (1 + unat len)) jumped after (guard + 1)
    = Some (dotted (add_label acc label) labels, if jumped then after else q)"
    using at_label.prems len by (intro at_label.IH) (simp_all add: wire_size_def)
  have "\<not> MAX_DNS_NAME < wire + (1 + unat len)" "\<not> 128 < guard + 1" "len \<noteq> 0" "\<not> 63 < len"
    using at_label.prems at_label(2,3) len by (auto simp: wire_size_def)
  then show ?case
    unfolding dns_name_loop.simps [of d p] at_label(1,4) option.case Let_def
    using rec by (simp add: dotted_def split del: if_split)
next
  case (at_pointer p len low labels q n)
  have rec: "dns_name_loop d (unat (len AND 0x3F) * 256 + unat low) acc wire True (if jumped then after else p + 2) (guard + 1)
    = Some (dotted acc labels, if jumped then after else p + 2)"
    using at_pointer.prems at_pointer.IH [of "guard + 1" wire acc True "if jumped then after else p + 2"] by simp
  have "192 \<le> len" using at_pointer(2) by (simp only: top_two_bits_set)
  then have "\<not> 128 < guard + 1" "len \<noteq> 0" "63 < len"
    using at_pointer.prems by (auto simp: word_le_nat_alt word_less_nat_alt)
  then show ?case
    unfolding dns_name_loop.simps [of d p] at_pointer(1,3) option.case
    using rec at_pointer(2) by simp
qed

lemma dns_name_loop_sound:
  assumes "dns_name_loop d p acc wire jumped after guard = Some (s, r)" and "wire \<le> MAX_DNS_NAME"
  shows "\<exists>labels q n. name_at d p labels q n \<and> guard + n \<le> 128 \<and> wire + wire_size labels \<le> 1 + MAX_DNS_NAME
    \<and> s = dotted acc labels \<and> r = (if jumped then after else q)"
  using assms
proof (induction d p acc wire jumped after guard rule: dns_name_loop.induct)
  case (1 d p acc wire jumped after guard)
  have guard: "\<not> 128 < guard + 1" using 1(3) by (subst (asm) dns_name_loop.simps) (auto split: if_splits)
  obtain len where len: "get_at d p = Some len"
    using 1(3) by (subst (asm) dns_name_loop.simps) (auto split: if_splits option.splits simp del: get_at_Some)
  consider "len = 0" | "len \<noteq> 0" "63 < len" | "len \<noteq> 0" "\<not> 63 < len" by blast
  then show ?case
  proof cases
    case 1
    then have "s = acc" "r = (if jumped then after else p + 1)"
      using "1.prems"(1) guard len by (subst (asm) dns_name_loop.simps, simp del: get_at_Some)+
    moreover have "name_at d p [] (p + 1) 1" using len 1 name_at.at_root [of d p] by (simp only:)
    ultimately show ?thesis using guard 1 "1.prems"
      by (intro exI [of _ "[]"] exI [of _ "p + 1"] exI [of _ 1]) (simp add: wire_size_def dotted_def)
  next
    case 2
    then have top: "len AND 0xC0 = 0xC0"
      using "1.prems"(1) guard len by (subst (asm) dns_name_loop.simps) (auto split: if_splits simp del: get_at_Some)
    obtain low where low: "get_at d (p + 1) = Some low"
      using "1.prems"(1) guard len 2 top
      by (subst (asm) dns_name_loop.simps) (auto split: option.splits simp del: get_at_Some)
    have rec: "dns_name_loop d (unat (len AND 0x3F) * 256 + unat low) acc wire True (if jumped then after else p + 2) (guard + 1) = Some (s, r)"
      using "1.prems"(1) guard len 2 top low by (subst (asm) dns_name_loop.simps) (simp del: get_at_Some)
    obtain labels q n where ih: "name_at d (unat (len AND 0x3F) * 256 + unat low) labels q n" "guard + 1 + n \<le> 128"
      "wire + wire_size labels \<le> 1 + MAX_DNS_NAME" "s = dotted acc labels" "r = (if jumped then after else p + 2)"
      using "1.IH"(1) [OF guard len 2] top low rec "1.prems"(2) by (auto simp del: get_at_Some)
    from name_at.at_pointer [OF len top low ih(1)] ih guard show ?thesis by fastforce
  next
    case 3
    obtain label where label: "get_range d (p + 1) (p + 1 + unat len) = Some label"
      using "1.prems"(1) guard len 3
      by (subst (asm) dns_name_loop.simps) (auto split: option.splits simp del: get_at_Some get_range_Some)
    let ?w = "wire + (1 + unat len)"
    have w: "\<not> MAX_DNS_NAME < ?w"
      using "1.prems"(1) guard len 3 label
      by (subst (asm) dns_name_loop.simps) (auto simp del: get_at_Some get_range_Some split: if_splits)
    have rec: "dns_name_loop d (p + 1 + unat len) (add_label acc label) ?w jumped after (guard + 1) = Some (s, r)"
      using "1.prems"(1) guard len 3 label w by (subst (asm) dns_name_loop.simps) (simp del: get_at_Some get_range_Some)
    obtain labels q n where ih: "name_at d (p + 1 + unat len) labels q n" "guard + 1 + n \<le> 128"
      "?w + wire_size labels \<le> 1 + MAX_DNS_NAME" "s = dotted (add_label acc label) labels" "r = (if jumped then after else q)"
      using "1.IH"(2) [OF guard len 3 label refl w] rec w by auto
    have "0 < len" "len \<le> 63" using 3 by (auto simp: word_neq_0_conv)
    from name_at.at_label [OF len this label ih(1)]
    have "name_at d p (label # labels) q (Suc n)" .
    moreover have "length label = unat len" using label by auto
    ultimately show ?thesis using ih by (intro exI [of _ "label # labels"] exI [of _ q] exI [of _ "Suc n"])
        (simp add: wire_size_def dotted_def)
  qed
qed


lemma dns_name_iff:
  "dns_name d p = Some (s, r) \<longleftrightarrow>
     (\<exists>labels n. name_at d p labels r n \<and> n \<le> 128 \<and> wire_size labels \<le> MAX_DNS_NAME \<and> s = dotted [] labels)"
proof
  assume "dns_name d p = Some (s, r)"
  from dns_name_loop_sound [OF this [unfolded dns_name_def]] show "\<exists>labels n. name_at d p labels r n
      \<and> n \<le> 128 \<and> wire_size labels \<le> MAX_DNS_NAME \<and> s = dotted [] labels"
    by (auto simp: MAX_DNS_NAME_def)
next
  assume "\<exists>labels n. name_at d p labels r n \<and> n \<le> 128 \<and> wire_size labels \<le> MAX_DNS_NAME \<and> s = dotted [] labels"
  then show "dns_name d p = Some (s, r)"
    using dns_name_loop_complete [of d p _ r _ 0 1 "[]" False p] by (auto simp: dns_name_def)
qed

lemma length_add_label: "length (add_label acc l) \<le> length acc + 1 + 3 * length l"
  using length_utf8_lossy [of l] by (simp add: add_label_def from_utf8_lossy_def text_of_def)

lemma length_dotted: "length (dotted acc labels) + 3 \<le> length acc + 3 * wire_size labels"
proof (induction labels arbitrary: acc)
  case (Cons l labels)
  have eqs: "dotted acc (l # labels) = dotted (add_label acc l) labels"
    "wire_size (l # labels) = wire_size labels + 1 + length l"
    by (simp_all add: dotted_def wire_size_def)
  show ?case unfolding eqs using Cons.IH [of "add_label acc l"] length_add_label [of acc l]
    by (simp only: distrib_left)
qed (simp add: dotted_def wire_size_def)

lemma dns_name_length: "dns_name d p = Some (s, r) \<Longrightarrow> length s \<le> 762"
proof -
  assume "dns_name d p = Some (s, r)"
  then obtain labels where "wire_size labels \<le> MAX_DNS_NAME" "s = dotted [] labels"
    unfolding dns_name_iff by blast
  then show ?thesis using length_dotted [of "[]" labels] by (simp add: MAX_DNS_NAME_def)
qed

section \<open>What a response may say\<close>

fun dns_rrs :: "bytes \<Rightarrow> nat \<Rightarrow> nat \<Rightarrow> dns_rr list" where
  "dns_rrs d 0 p = []"
| "dns_rrs d (Suc n) p =
     (case dns_rr_at d p of
        None \<Rightarrow> []
      | Some r \<Rightarrow> r # dns_rrs d n (rr_pos r + length (rr_data r)))"

text \<open>\<open>aliased d rrs q x\<close>: the CNAME records among \<open>rrs\<close> lead from \<open>q\<close> to \<open>x\<close>.\<close>

inductive aliased :: "bytes \<Rightarrow> dns_rr list \<Rightarrow> string \<Rightarrow> string \<Rightarrow> bool" for d rrs q where
  aliased_self: "eq_ignore_ascii_case q x \<Longrightarrow> aliased d rrs q x"
| aliased_cname: "aliased d rrs q (rr_owner r) \<Longrightarrow> r \<in> set rrs \<Longrightarrow> rr_type r = 5 \<Longrightarrow>
     dns_name d (rr_pos r) = Some (target, after) \<Longrightarrow> eq_ignore_ascii_case target x \<Longrightarrow> aliased d rrs q x"

lemma alias_mono: "aliased d rrs q x \<Longrightarrow> set rrs \<subseteq> set rrs' \<Longrightarrow> aliased d rrs' q x"
  by (induction rule: aliased.induct) (auto intro: aliased.intros)

lemma alias_case: "aliased d rrs q x \<Longrightarrow> eq_ignore_ascii_case x y \<Longrightarrow> aliased d rrs q y"
  by (induction rule: aliased.induct) (auto intro: aliased.intros simp: eq_ignore_ascii_case_def)

definition address_from :: "bytes \<Rightarrow> dns_rr list \<Rightarrow> string option \<Rightarrow> string \<times> IpAddr \<times> u32 \<Rightarrow> bool" where
  "address_from d rrs qname a \<longleftrightarrow> (\<exists>r \<in> set rrs. rr_address r = Some (fst (snd a)) \<and> snd (snd a) \<le> rr_ttl r
     \<and> (fst a = rr_owner r \<or> qname = Some (fst a) \<and> aliased d rrs (fst a) (rr_owner r)))"

lemma dns_answers_from:
  assumes "\<forall>a \<in> set addrs. address_from d rrs qname a"
    and "set (dns_rrs d n p) \<subseteq> set rrs"
    and "\<forall>q c. qname = Some q \<longrightarrow> c \<in> set chain \<longrightarrow> aliased d rrs q c"
    and "a \<in> set (dns_answers d n p qname chain ttl addrs)"
  shows "address_from d rrs qname a"
  using assms
proof (induction n arbitrary: p chain ttl addrs)
  case (Suc n)
  show ?case
  proof (cases "MAX_DNS_ADDRS \<le> length addrs \<or> dns_rr_at d p = None")
    case True
    then have "dns_answers d (Suc n) p qname chain ttl addrs = addrs" by auto
    then show ?thesis using Suc.prems(1,4) by simp
  next
    case False
    then obtain r where r: "dns_rr_at d p = Some r" and few: "\<not> MAX_DNS_ADDRS \<le> length addrs" by auto
    let ?np = "rr_pos r + length (rr_data r)"
    have mem: "r \<in> set rrs" "set (dns_rrs d n ?np) \<subseteq> set rrs" using Suc.prems(2) r by auto
    have on_chain: "aliased d rrs q (rr_owner r)" if "qname = Some q" "in_chain chain (rr_owner r)" for q
      using Suc.prems(3) that alias_case by (auto simp: in_chain_def list_ex_iff)
    note eq = dns_answers.simps(2) [of d n p qname chain ttl addrs, unfolded if_not_P [OF few] r option.case Let_def]
    show ?thesis
    proof (cases "rr_address r")
      case (Some ip)
      let ?ttl = "if in_chain chain (rr_owner r) then min (rr_ttl r) ttl else rr_ttl r"
      let ?a = "(shown_name qname chain (rr_owner r), ip, ?ttl)"
      have "address_from d rrs qname ?a"
        using mem(1) Some on_chain unfolding address_from_def
        by (intro bexI [of _ r]) (auto simp: shown_name_def split: option.splits)
      then have "\<forall>x \<in> set (addrs @ [?a]). address_from d rrs qname x" using Suc.prems(1) by auto
      then show ?thesis
        using Suc.IH [OF _ mem(2) Suc.prems(3)] Suc.prems(4)
        unfolding eq Some option.case by blast
    next
      case None
      show ?thesis
      proof (cases "rr_type r = 5 \<and> length chain < 16 \<and> in_chain chain (rr_owner r)")
        case True
        show ?thesis
        proof (cases "dns_name d (rr_pos r)")
          case no_target: None
          show ?thesis
            using Suc.IH [OF Suc.prems(1) mem(2) Suc.prems(3)] Suc.prems(4)
            unfolding eq None option.case if_P [OF True] no_target by blast
        next
          case (Some t)
          obtain target pos where t: "t = (target, pos)" by (cases t)
          have "aliased d rrs q target" if "qname = Some q" for q
            using aliased_cname [OF on_chain [OF that] mem(1), of target pos] True Some t by simp
          then have "\<forall>q c. qname = Some q \<longrightarrow> c \<in> set (chain @ [target]) \<longrightarrow> aliased d rrs q c"
            using Suc.prems(3) by auto
          then show ?thesis
            using Suc.IH [OF Suc.prems(1) mem(2)] Suc.prems(4)
            unfolding eq None option.case if_P [OF True] Some t prod.case by blast
        qed
      next
        case False
        show ?thesis
          using Suc.IH [OF Suc.prems(1) mem(2) Suc.prems(3)] Suc.prems(4)
          unfolding eq None option.case if_not_P [OF False] by blast
      qed
    qed
  qed
qed simp

lemma dns_answers_length:
  "length addrs \<le> MAX_DNS_ADDRS \<Longrightarrow> length (dns_answers d n p qname chain ttl addrs) \<le> MAX_DNS_ADDRS"
proof (induction n arbitrary: p chain ttl addrs)
  case (Suc n)
  show ?case
  proof (cases "MAX_DNS_ADDRS \<le> length addrs")
    case True
    then show ?thesis using Suc.prems by simp
  next
    case False
    then have "length (addrs @ [a]) \<le> MAX_DNS_ADDRS" for a by simp
    then show ?thesis
      using False Suc.IH Suc.prems by (simp add: Let_def split: option.split)
  qed
qed simp

lemma dns_questions_name:
  "dns_questions d n p qn = Some (qname, r) \<Longrightarrow> (\<forall>q. qn = Some q \<longrightarrow> length q \<le> 762) \<Longrightarrow>
   (\<forall>q. qname = Some q \<longrightarrow> length q \<le> 762)"
proof (induction n arbitrary: p qn)
  case (Suc n)
  from Suc.prems obtain name np where name: "dns_name d p = Some (name, np)"
    and rest: "dns_questions d n (np + 4) (case qn of None \<Rightarrow> Some name | Some q \<Rightarrow> Some q) = Some (qname, r)"
    by (auto split: option.splits)
  have "\<forall>q. (case qn of None \<Rightarrow> Some name | Some q \<Rightarrow> Some q) = Some q \<longrightarrow> length q \<le> 762"
    using dns_name_length [OF name] Suc.prems(2) by (cases qn) auto
  with rest show ?case by (rule Suc.IH)
qed simp

lemma dns_rrs_owner: "r \<in> set (dns_rrs d n p) \<Longrightarrow> length (rr_owner r) \<le> 762"
proof (induction n arbitrary: p)
  case (Suc n)
  have "length (rr_owner x) \<le> 762" if "dns_rr_at d p = Some x" for x
    using that by (auto simp: dns_rr_at_def bind_eq_Some_conv Let_def dest: dns_name_length split: if_splits)
  then show ?case using Suc by (auto split: option.splits)
qed simp

section \<open>Properties\<close>

text \<open>
  C28. The name reader accepts exactly the names of RFC 1035: it returns a text and a position
  just when the bytes at \<open>p\<close> encode, with labels and compression pointers, a list of labels
  of at most 255 bytes in at most 128 steps; the text is the labels joined by dots and the
  position is the end of the encoding at \<open>p\<close>. Pointer loops therefore end without a name.
\<close>

theorem dns_name_grammar:
  "dns_name d p = Some (s, r) \<longleftrightarrow>
     (\<exists>labels n. name_at d p labels r n \<and> n \<le> 128 \<and> wire_size labels \<le> MAX_DNS_NAME \<and> s = dotted [] labels)"
  by (rule dns_name_iff)

text \<open>
  C27. A DNS message can only say what its records say: addresses are taken only from
  a complete response without an error, at most 64 of them, each from an A or AAAA record of
  the message, with at most its TTL, under the name that owns the record or under the queried
  name when CNAME records of the message lead from it to the owner. No name is longer than 762
  bytes.
\<close>

theorem dns_addresses_sound:
  assumes "pk_dns_addrs pkt = []" and "a \<in> set (pk_dns_addrs (parse_dns d pkt))"
  shows "length (pk_dns_addrs (parse_dns d pkt)) \<le> MAX_DNS_ADDRS \<and> length (fst a) \<le> 762
    \<and> (\<exists>flags. be16 d 2 = Some flags \<and> flags AND 0x8000 \<noteq> 0 \<and> flags AND 0x020f = 0)
    \<and> (\<exists>qname p. dns_questions d (dns_count d 4) 12 None = Some (qname, p)
         \<and> address_from d (dns_rrs d (dns_count d 6) p) qname a)"
proof -
  obtain flags where flags: "be16 d 2 = Some flags" "flags AND 0x8000 \<noteq> 0" "flags AND 0x020f = 0"
    using assms by (cases "be16 d 2") (auto simp: parse_dns_def split: if_splits)
  have len: "\<not> length d < 12" using assms by (auto simp: parse_dns_def split: if_splits)
  obtain qname p where q: "dns_questions d (dns_count d 4) 12 None = Some (qname, p)"
    using assms flags len by (cases "dns_questions d (dns_count d 4) 12 None") (auto simp: parse_dns_def)
  let ?chain = "case qname of None \<Rightarrow> [] | Some q \<Rightarrow> [q]"
  have addrs: "pk_dns_addrs (parse_dns d pkt) = dns_answers d (dns_count d 6) p qname ?chain (- 1) []"
    using flags len q assms(1) by (simp add: parse_dns_def Let_def)
  have from_rr: "address_from d (dns_rrs d (dns_count d 6) p) qname a"
    using assms(2) unfolding addrs
    by (intro dns_answers_from [OF _ subset_refl]) (auto intro: aliased_self split: option.splits)
  then have "length (fst a) \<le> 762"
    using dns_questions_name [OF q] dns_rrs_owner unfolding address_from_def by auto
  moreover have "length (pk_dns_addrs (parse_dns d pkt)) \<le> MAX_DNS_ADDRS"
    unfolding addrs by (rule dns_answers_length) simp
  ultimately show ?thesis using flags q from_rr by blast
qed

text \<open>A response to a query for \<^verbatim>\<open>a\<close>: \<^verbatim>\<open>a CNAME b\<close> and \<^verbatim>\<open>b A 1.2.3.4\<close>.\<close>

definition sample_response :: bytes where
  "sample_response = [0, 0, 0x81, 0x80, 0, 1, 0, 2, 0, 0, 0, 0, 1, 97, 0, 0, 1, 0, 1,
     0xC0, 12, 0, 5, 0, 1, 0, 0, 0, 60, 0, 3, 1, 98, 0,
     0xC0, 31, 0, 1, 0, 1, 0, 0, 0, 99, 0, 4, 1, 2, 3, 4]"

definition sample_packet :: Packet where
  "sample_packet = \<lparr>pk_proto = Udp, pk_src = V4 9 9 9 9, pk_sport = 53, pk_dst = V4 10 0 0 2, pk_dport = 5000,
     pk_bytes = 0, pk_sni = None, pk_dns_addrs = []\<rparr>"


lemma sample_texts: "from_utf8_lossy [97] = ''a''" "from_utf8_lossy [98] = ''b''"
  by code_simp+

lemmas eval_dns = dns_name_def sample_response_def dns_name_loop.simps access MAX_DNS_NAME_def add_label_def
  sample_texts be16_eval u16_be_def

lemma sample_names:
  "dns_name sample_response 12 = Some (''a'', 15)" "dns_name sample_response 19 = Some (''a'', 21)"
  "dns_name sample_response 31 = Some (''b'', 34)" "dns_name sample_response 34 = Some (''b'', 36)"
  by (simp_all add: eval_dns)

lemma sample_rrs:
  "dns_rr_at sample_response 19 = Some \<lparr>rr_owner = ''a'', rr_type = 5, rr_ttl = 60, rr_pos = 31, rr_data = [1, 98, 0]\<rparr>"
  "dns_rr_at sample_response 34 = Some \<lparr>rr_owner = ''b'', rr_type = 1, rr_ttl = 99, rr_pos = 46, rr_data = [1, 2, 3, 4]\<rparr>"
  unfolding dns_rr_at_def sample_names by (simp_all add: sample_response_def access be16_eval u16_be_def)

lemma sample_response_addrs:
  "pk_dns_addrs (parse_dns sample_response sample_packet) = [(''a'', V4 1 2 3 4, 60)]"
proof -
  have "dns_count sample_response 4 = Suc 0" "dns_count sample_response 6 = Suc (Suc 0)"
    "be16 sample_response 2 = Some 0x8180" "length sample_response = 50"
    by (simp_all add: dns_count_def sample_response_def be16_eval u16_be_def)
  then show ?thesis
    by (simp add: parse_dns_def sample_names sample_rrs sample_packet_def rr_address_def in_chain_def
        shown_name_def MAX_DNS_ADDRS_def)
qed

theorem dns_addresses_sound_witness:
  "length (pk_dns_addrs (parse_dns sample_response sample_packet)) \<le> MAX_DNS_ADDRS \<and> length ''a'' \<le> 762
    \<and> (\<exists>flags. be16 sample_response 2 = Some flags \<and> flags AND 0x8000 \<noteq> 0 \<and> flags AND 0x020f = 0)
    \<and> (\<exists>qname p. dns_questions sample_response (dns_count sample_response 4) 12 None = Some (qname, p)
         \<and> address_from sample_response (dns_rrs sample_response (dns_count sample_response 6) p) qname
             (''a'', V4 1 2 3 4, 60))"
  using dns_addresses_sound [of sample_packet "(''a'', V4 1 2 3 4, 60)" sample_response] sample_response_addrs
  by (simp only: fst_conv) (simp add: sample_packet_def)

end
