(* ===== verification/Client_Hello.thy ===== *)
theory Client_Hello
  imports Strings
begin

text \<open>
  The server name of a TLS ClientHello: \<^verbatim>\<open>client_hello_sni\<close> and \<^verbatim>\<open>parse_sni\<close> of
  \<^verbatim>\<open>src/src/pcap.rs\<close>. Both only use checked access, so a result is an \<open>option\<close>. The
  specification side is the encoder of RFC 8446 and RFC 6066: a message with a list of
  extensions, one of them the server name.
\<close>

section \<open>The parser\<close>

definition host_char :: "char \<Rightarrow> bool" where
  "host_char c \<longleftrightarrow> is_ascii_alphanumeric c \<or> c = CHR ''-'' \<or> c = CHR ''.'' \<or> c = CHR ''_''"

definition host_byte :: "u8 \<Rightarrow> bool" where
  "host_byte b \<longleftrightarrow> host_char (chr b)"

text \<open>The body of a \<^verbatim>\<open>server_name\<close> extension: list length, type, name length, name.\<close>

definition server_name :: "bytes \<Rightarrow> string option" where
  "server_name ebody = do {
     list_len \<leftarrow> be16 ebody 0;
     if unat list_len + 2 \<noteq> length ebody then None else do {
     kind \<leftarrow> get_at ebody 2;
     if kind \<noteq> 0 then None else do {
     name_len \<leftarrow> be16 ebody 3;
     if unat name_len = 0 \<or> 253 < unat name_len \<or> unat name_len + 3 \<noteq> unat list_len then None else do {
     name \<leftarrow> get_range ebody 5 (5 + unat name_len);
     if \<not> list_all host_byte name then None
     else map_option to_ascii_lowercase (from_utf8 name)}}}}"

text \<open>The extension loop: \<open>fin\<close> is the end of the extension block, \<open>p\<close> the cursor.\<close>

function ext_loop :: "bytes \<Rightarrow> nat \<Rightarrow> nat \<Rightarrow> string option" where
  "ext_loop rec fin p =
     (if p + 4 \<le> fin then do {
        etype \<leftarrow> be16 rec p;
        elen \<leftarrow> be16 rec (p + 2);
        if fin < p + 4 + unat elen then None else do {
        ebody \<leftarrow> get_range rec (p + 4) (p + 4 + unat elen);
        if etype = 0 then server_name ebody
        else ext_loop rec fin (p + 4 + unat elen)}}
      else None)"
  by pat_completeness auto
termination
  by (relation "measure (\<lambda>(rec, fin, p). fin - p)") auto

declare ext_loop.simps [simp del]

definition client_hello_sni :: "bytes \<Rightarrow> string option" where
  "client_hello_sni rec0 = do {
     kind \<leftarrow> get_at rec0 0;
     if kind \<noteq> 1 then None else do {
     l1 \<leftarrow> get_at rec0 1; l2 \<leftarrow> get_at rec0 2; l3 \<leftarrow> get_at rec0 3;
     rec \<leftarrow> get_range rec0 0 (4 + be_nat [0, l1, l2, l3]);
     sid_len \<leftarrow> get_at rec (4 + 2 + 32);
     let p = 4 + 2 + 32 + (1 + unat sid_len);
     cs_len \<leftarrow> be16 rec p;
     let p = p + (2 + unat cs_len);
     comp_len \<leftarrow> get_at rec p;
     let p = p + (1 + unat comp_len);
     ext_total \<leftarrow> be16 rec p;
     let p = p + 2;
     let fin = p + unat ext_total;
     if length rec < fin then None else ext_loop rec fin p}}"

definition parse_sni :: "bytes \<Rightarrow> string option" where
  "parse_sni d = do {
     b0 \<leftarrow> get_at d 0;
     if b0 \<noteq> 0x16 then None else do {
     b1 \<leftarrow> get_at d 1;
     if b1 \<noteq> 0x03 then None else do {
     n \<leftarrow> be16 d 3;
     rec \<leftarrow> get_range d 5 (5 + unat n);
     client_hello_sni rec}}}"

section \<open>Every name is a host name\<close>

definition host_name :: "string \<Rightarrow> bool" where
  "host_name s \<longleftrightarrow> s \<noteq> [] \<and> length s \<le> 253
     \<and> (\<forall>c \<in> set s. host_char c \<and> \<not> is_ascii_upper c)"

lemma chr_eq_code: "chr b = c \<Longrightarrow> unat b = char_code c"
  by auto

lemma host_byte_ascii: "host_byte b \<Longrightarrow> unat b < 128"
  unfolding host_byte_def host_char_def
  by (elim disjE) (auto simp: ascii dest!: chr_eq_code, auto simp: char_code_def)

lemma from_utf8_host:
  assumes "list_all host_byte d"
  shows "from_utf8 d = Some (text_of d)"
proof -
  have "valid_utf8 d"
    using assms by (intro valid_utf8_ascii ballI host_byte_ascii) (simp add: list_all_iff)
  then show ?thesis by (simp add: from_utf8_def)
qed

lemma host_char_lower: "host_char c \<Longrightarrow> host_char (ascii_lower_char c)"
proof -
  assume "host_char c"
  moreover have "\<not> is_ascii_upper (CHR ''-'')" "\<not> is_ascii_upper (CHR ''.'')" "\<not> is_ascii_upper (CHR ''_'')"
    by (simp_all add: is_ascii_upper_def char_code_def)
  ultimately show ?thesis
    unfolding host_char_def by (elim disjE) (simp_all add: ascii_lower_char_keeps)
qed

lemma host_name_lower:
  assumes "list_all host_byte d" and "d \<noteq> []" and "length d \<le> 253"
  shows "host_name (to_ascii_lowercase (text_of d))"
proof -
  have "host_char (ascii_lower_char (chr b))" if "b \<in> set d" for b
    using assms(1) that by (intro host_char_lower) (auto simp: host_byte_def list_all_iff)
  moreover have "length (to_ascii_lowercase (text_of d)) \<le> 253"
    and "to_ascii_lowercase (text_of d) \<noteq> []"
    using assms(2,3) by (simp_all add: text_of_def)
  ultimately show ?thesis
    unfolding host_name_def
    by (simp add: to_ascii_lowercase_def text_of_def ascii_lower_char_not_upper)
qed

lemma server_name_host: "server_name e = Some s \<Longrightarrow> host_name s"
  by (auto simp: server_name_def bind_eq_Some_conv from_utf8_host split: if_splits
      intro!: host_name_lower)

lemma ext_loop_host: "ext_loop rec fin p = Some s \<Longrightarrow> host_name s"
proof (induction rec fin p rule: ext_loop.induct)
  case (1 rec fin p)
  then show ?case
    by (subst (asm) (2) ext_loop.simps)
      (auto simp: bind_eq_Some_conv split: if_splits dest: server_name_host)
qed

lemma client_hello_host: "client_hello_sni rec = Some s \<Longrightarrow> host_name s"
  by (auto simp: client_hello_sni_def bind_eq_Some_conv Let_def split: if_splits dest: ext_loop_host)

lemma parse_sni_host: "parse_sni d = Some s \<Longrightarrow> host_name s"
  by (auto simp: parse_sni_def bind_eq_Some_conv split: if_splits dest: client_hello_host)

section \<open>The parser inverts the encoder\<close>

text \<open>
  \<open>enc_vec k b\<close> is the TLS vector \<^verbatim>\<open>opaque b<..>\<close> with a length prefix of \<open>k\<close>
  bytes; an extension is its 16-bit type and a vector; the message is the handshake type, a
  24-bit length and the body.
\<close>

definition enc_vec :: "nat \<Rightarrow> bytes \<Rightarrow> bytes" where
  "enc_vec k b = be_bytes k (length b) @ b"

definition enc_ext :: "nat \<times> bytes \<Rightarrow> bytes" where
  "enc_ext e = be_bytes 2 (fst e) @ enc_vec 2 (snd e)"

definition enc_exts :: "(nat \<times> bytes) list \<Rightarrow> bytes" where
  "enc_exts es = concat (map enc_ext es)"

definition enc_server_name :: "bytes \<Rightarrow> bytes" where
  "enc_server_name name = enc_vec 2 (0 # enc_vec 2 name)"

definition enc_hello_body :: "bytes \<Rightarrow> bytes \<Rightarrow> bytes \<Rightarrow> bytes \<Rightarrow> bytes \<Rightarrow> (nat \<times> bytes) list \<Rightarrow> bytes" where
  "enc_hello_body ver rnd sid cs cmp es =
     ver @ rnd @ enc_vec 1 sid @ enc_vec 2 cs @ enc_vec 1 cmp @ enc_vec 2 (enc_exts es)"

definition enc_hello :: "bytes \<Rightarrow> bytes \<Rightarrow> bytes \<Rightarrow> bytes \<Rightarrow> bytes \<Rightarrow> (nat \<times> bytes) list \<Rightarrow> bytes" where
  "enc_hello ver rnd sid cs cmp es = 1 # enc_vec 3 (enc_hello_body ver rnd sid cs cmp es)"

definition hello_fields_ok :: "bytes \<Rightarrow> bytes \<Rightarrow> bytes \<Rightarrow> bytes \<Rightarrow> bytes \<Rightarrow> (nat \<times> bytes) list \<Rightarrow> bool" where
  "hello_fields_ok ver rnd sid cs cmp es \<longleftrightarrow>
     length ver = 2 \<and> length rnd = 32 \<and> length sid < 256 \<and> length cs < 65536 \<and> length cmp < 256
     \<and> length (enc_exts es) < 65536 \<and> (\<forall>e \<in> set es. fst e < 65536 \<and> length (snd e) < 65536)"

text \<open>What the extensions say: the name in the first \<^verbatim>\<open>server_name\<close>, if it is acceptable.\<close>

fun named_by :: "(nat \<times> bytes) list \<Rightarrow> string option" where
  "named_by [] = None"
| "named_by (e # es) = (if fst e = 0 then server_name (snd e) else named_by es)"

lemma enc_vec_2: "enc_vec 2 b = word_of_nat (length b div 256) # word_of_nat (length b) # b"
  by (simp add: enc_vec_def be_bytes_2)

lemma enc_vec_1: "enc_vec (Suc 0) b = word_of_nat (length b) # b"
  by (simp add: enc_vec_def be_bytes_def)

lemma length_enc_ext: "length (enc_ext e) = 4 + length (snd e)"
  by (simp add: enc_ext_def enc_vec_def)

lemma u16_type_0: "t < 65536 \<Longrightarrow> u16_be (word_of_nat (t div 256)) (word_of_nat t) = 0 \<longleftrightarrow> t = 0"
  using u16_be_bytes [of t] by (metis unat_0 unat_inject)

lemma ext_loop_enc:
  assumes "drop p rec = enc_exts es @ r" and "p + length (enc_exts es) \<le> length rec"
    and "\<forall>e \<in> set es. fst e < 65536 \<and> length (snd e) < 65536"
  shows "ext_loop rec (p + length (enc_exts es)) p = named_by es"
  using assms
proof (induction es arbitrary: p)
  case Nil
  then show ?case by (simp add: enc_exts_def ext_loop.simps)
next
  case (Cons e es)
  obtain t b where e: "e = (t, b)" by (cases e)
  let ?fin = "p + length (enc_exts (e # es))"
  have fin: "?fin = (p + 4 + length b) + length (enc_exts es)"
    by (simp add: enc_exts_def length_enc_ext e)
  have bounds: "t < 65536" "length b < 65536" using Cons.prems(3) e by auto
  have at: "drop p rec = word_of_nat (t div 256) # word_of_nat t
      # word_of_nat (length b div 256) # word_of_nat (length b) # b @ enc_exts es @ r"
    using Cons.prems(1) by (simp add: enc_exts_def enc_ext_def e be_bytes_2 enc_vec_2)
  have at2: "drop (p + 2) rec = word_of_nat (length b div 256) # word_of_nat (length b) # b @ enc_exts es @ r"
    using drop_cursor [of p rec "[word_of_nat (t div 256), word_of_nat t]"
        "word_of_nat (length b div 256) # word_of_nat (length b) # b @ enc_exts es @ r"] at
    by (simp del: drop_append)
  have "drop (p + 2 + 2) rec = b @ enc_exts es @ r"
    using drop_cursor [of "p + 2" rec "[word_of_nat (length b div 256), word_of_nat (length b)]"
        "b @ enc_exts es @ r"] at2
    by (simp del: drop_append drop_drop)
  then have at4: "drop (p + 4) rec = b @ enc_exts es @ r" by (simp add: numeral_eq_Suc)
  then have at_next: "drop (p + 4 + length b) rec = enc_exts es @ r"
    by (rule drop_cursor)
  have body: "get_range rec (p + 4) (p + 4 + length b) = Some b"
    using at4 Cons.prems(2) fin by (intro get_range_cursor) auto
  have "ext_loop rec ?fin p = (if t = 0 then server_name b else ext_loop rec ?fin (p + 4 + length b))"
    using fin body be16_cursor [OF at] be16_cursor [OF at2] bounds
    by (subst ext_loop.simps) (simp add: u16_type_0 u16_be_bytes del: get_range_Some)
  also have "ext_loop rec ?fin (p + 4 + length b) = named_by es"
    unfolding fin using Cons.prems at_next fin by (intro Cons.IH) auto
  finally show ?case by (simp add: e)
qed


lemma server_name_enc:
  assumes "list_all host_byte name" and "name \<noteq> []" and "length name \<le> 253"
  shows "server_name (enc_server_name name) = Some (to_ascii_lowercase (text_of name))"
proof -
  let ?n = "length name"
  let ?hd = "[word_of_nat ((?n + 3) div 256), word_of_nat (?n + 3), 0,
       word_of_nat (?n div 256), word_of_nat ?n] :: bytes"
  have eq: "enc_server_name name = ?hd @ name"
    by (simp add: enc_server_name_def enc_vec_2 add.commute)
  have r1: "be16 (?hd @ name) 0 = Some (u16_be (word_of_nat ((?n + 3) div 256)) (word_of_nat (?n + 3)))"
    by (rule be16_cursor) simp
  have r2: "be16 (?hd @ name) 3 = Some (u16_be (word_of_nat (?n div 256)) (word_of_nat ?n))"
    by (rule be16_cursor) simp
  have r3: "get_at (?hd @ name) 2 = Some 0"
    by (rule get_at_cursor) simp
  have r4: "get_range (?hd @ name) 5 (5 + ?n) = Some name"
    by (rule get_range_cursor [where r = "[]"]) simp_all
  have sizes: "unat (u16_be (word_of_nat ((?n + 3) div 256)) (word_of_nat (?n + 3))) = ?n + 3"
    "unat (u16_be (word_of_nat (?n div 256)) (word_of_nat ?n)) = ?n"
    using assms(3) by (simp_all only: u16_be_bytes)
  show ?thesis
    unfolding server_name_def eq r1 r2 r3 r4 bind.bind_lunit sizes
    using assms by (simp add: sizes from_utf8_host)
qed

lemma be_bytes_3: "be_bytes 3 n = [word_of_nat (n div 256 div 256), word_of_nat (n div 256), word_of_nat n]"
  by (simp add: be_bytes_def numeral_3_eq_3)

lemma be_nat_3: "n < 2 ^ 24 \<Longrightarrow> be_nat (0 # be_bytes 3 n) = n"
proof -
  assume "n < 2 ^ 24"
  then have "n div 256 div 256 < 256" by simp
  then have "be_nat (0 # be_bytes 3 n) = n div 256 div 256 * 65536 + (n div 256 mod 256 * 256 + n mod 256)"
    by (simp add: be_bytes_3 unat_of_nat_u8)
  then show ?thesis
    using div_mult_mod_eq [of n 256] div_mult_mod_eq [of "n div 256" 256] by linarith
qed

lemma client_hello_steps:
  assumes "get_at rec0 0 = Some 1" "get_at rec0 1 = Some l1" "get_at rec0 2 = Some l2" "get_at rec0 3 = Some l3"
    and "get_range rec0 0 (4 + be_nat [0, l1, l2, l3]) = Some rec"
    and "get_at rec 38 = Some s" and "be16 rec (39 + unat s) = Some c"
    and "get_at rec (39 + unat s + 2 + unat c) = Some m"
    and "be16 rec (39 + unat s + 2 + unat c + 1 + unat m) = Some x"
    and "p = 39 + unat s + 2 + unat c + 1 + unat m + 2" and "p + unat x \<le> length rec"
  shows "client_hello_sni rec0 = ext_loop rec (p + unat x) p"
proof -
  have eq: "4 + 2 + 32 = (38 :: nat)" "38 + (1 + unat s) = 39 + unat s"
    "39 + unat s + (2 + unat c) = 39 + unat s + 2 + unat c"
    "39 + unat s + 2 + unat c + (1 + unat m) = 39 + unat s + 2 + unat c + 1 + unat m"
    by simp_all
  show ?thesis
    unfolding client_hello_sni_def assms(1-5) bind.bind_lunit Let_def eq(1) assms(6)
      eq(2) assms(7) eq(3) assms(8) eq(4) assms(9) assms(10) [symmetric]
    using assms(11) by simp
qed

lemma client_hello_enc:
  assumes ok: "hello_fields_ok ver rnd sid cs cmp es"
    and len: "length (enc_hello_body ver rnd sid cs cmp es) < 2 ^ 24"
  shows "client_hello_sni (enc_hello ver rnd sid cs cmp es @ r) = named_by es"
proof -
  let ?body = "enc_hello_body ver rnd sid cs cmp es"
  let ?L = "length ?body"
  let ?rec = "1 # be_bytes 3 ?L @ ?body"
  let ?x = "enc_exts es"
  let ?p1 = "39 + length sid"
  let ?p2 = "?p1 + 2 + length cs"
  let ?p3 = "?p2 + 1 + length cmp"
  have hello: "enc_hello ver rnd sid cs cmp es = ?rec"
    by (simp add: enc_hello_def enc_vec_def)
  have L: "?L = 40 + length sid + length cs + length cmp + length ?x"
    using ok by (simp add: enc_hello_body_def hello_fields_ok_def enc_vec_def)
  have sizes: "length sid < 256" "length cs < 65536" "length cmp < 256" "length ?x < 65536"
    using ok by (simp_all add: hello_fields_ok_def)
  have d0: "drop 38 ?rec = word_of_nat (length sid) # sid @ enc_vec 2 cs @ enc_vec 1 cmp @ enc_vec 2 ?x"
  proof -
    have "length (1 # be_bytes 3 ?L @ ver @ rnd) = 38"
      using ok unfolding hello_fields_ok_def by simp
    then show ?thesis
      using drop_cursor [of 0 ?rec "1 # be_bytes 3 ?L @ ver @ rnd"
          "enc_vec 1 sid @ enc_vec 2 cs @ enc_vec 1 cmp @ enc_vec 2 ?x"]
      unfolding enc_hello_body_def
      by (simp only: drop_0 append.simps append_assoc add_0 enc_vec_1 One_nat_def)
  qed
  have d1: "drop ?p1 ?rec = word_of_nat (length cs div 256) # word_of_nat (length cs) # cs @ enc_vec 1 cmp @ enc_vec 2 ?x"
    using drop_cursor [of 38 ?rec "word_of_nat (length sid) # sid" "enc_vec 2 cs @ enc_vec 1 cmp @ enc_vec 2 ?x"] d0
    by (simp add: enc_vec_2 ac_simps del: drop_append drop_drop)
  have d2: "drop ?p2 ?rec = word_of_nat (length cmp) # cmp @ enc_vec 2 ?x"
    using drop_cursor [of ?p1 ?rec "word_of_nat (length cs div 256) # word_of_nat (length cs) # cs"
        "enc_vec 1 cmp @ enc_vec 2 ?x"] d1
    by (simp add: enc_vec_1 ac_simps del: drop_append drop_drop)
  have d3: "drop ?p3 ?rec = word_of_nat (length ?x div 256) # word_of_nat (length ?x) # ?x @ []"
    using drop_cursor [of ?p2 ?rec "word_of_nat (length cmp) # cmp" "enc_vec 2 ?x"] d2
    by (simp add: enc_vec_2 ac_simps del: drop_append drop_drop)
  have d4: "drop (?p3 + 2) ?rec = ?x @ []"
    using drop_cursor [of ?p3 ?rec "[word_of_nat (length ?x div 256), word_of_nat (length ?x)]" "?x @ []"] d3
    by (simp del: drop_append drop_drop)
  have loop: "ext_loop ?rec (?p3 + 2 + length ?x) (?p3 + 2) = named_by es"
    using ok d4 L by (intro ext_loop_enc) (auto simp: hello_fields_ok_def)
  obtain l1 l2 l3 where len3: "be_bytes 3 ?L = [l1, l2, l3]" by (simp add: be_bytes_3)
  then have be: "be_nat [0, l1, l2, l3] = ?L" using be_nat_3 [OF len] by simp
  have whole: "get_range (?rec @ r) 0 (4 + ?L) = Some ?rec"
    using get_range_cursor [of 0 "?rec @ r" ?rec r] by (simp add: add.commute del: get_range_Some)
  have u: "unat (word_of_nat (length sid) :: u8) = length sid" "unat (word_of_nat (length cmp) :: u8) = length cmp"
    "unat (u16_be (word_of_nat (length cs div 256)) (word_of_nat (length cs))) = length cs"
    "unat (u16_be (word_of_nat (length ?x div 256)) (word_of_nat (length ?x))) = length ?x"
    using sizes by (simp_all only: unat_of_nat_u8 mod_less u16_be_bytes)
  have "client_hello_sni (?rec @ r) = ext_loop ?rec
      (?p3 + 2 + unat (u16_be (word_of_nat (length ?x div 256)) (word_of_nat (length ?x)))) (?p3 + 2)"
  proof (rule client_hello_steps [where m = "word_of_nat (length cmp)" and s = "word_of_nat (length sid)"
        and c = "u16_be (word_of_nat (length cs div 256)) (word_of_nat (length cs))"])
    show "get_at (?rec @ r) 0 = Some 1" "get_at (?rec @ r) 1 = Some l1" "get_at (?rec @ r) 2 = Some l2"
      "get_at (?rec @ r) 3 = Some l3"
      by (simp_all add: len3)
    show "get_range (?rec @ r) 0 (4 + be_nat [0, l1, l2, l3]) = Some ?rec" unfolding be by (rule whole)
    show "get_at ?rec 38 = Some (word_of_nat (length sid))" by (rule get_at_cursor [OF d0])
    show "be16 ?rec (39 + unat (word_of_nat (length sid) :: u8)) =
        Some (u16_be (word_of_nat (length cs div 256)) (word_of_nat (length cs)))"
      unfolding u by (rule be16_cursor [OF d1])
  qed (unfold u, rule get_at_cursor [OF d2], rule be16_cursor [OF d3], use L in simp_all)
  then show ?thesis unfolding hello u loop by (simp only:)
qed

lemma named_by_first:
  assumes "\<forall>e \<in> set pre. fst e \<noteq> 0"
  shows "named_by (pre @ (0, b) # post) = server_name b"
  using assms by (induction pre) auto

text \<open>A record is the content type, the version, a 16-bit length and the message.\<close>

definition enc_record :: "u8 \<Rightarrow> bytes \<Rightarrow> bytes" where
  "enc_record minor msg = [0x16, 3, minor] @ enc_vec 2 msg"

lemma parse_sni_enc:
  assumes "length msg < 65536"
  shows "parse_sni (enc_record minor msg @ r) = client_hello_sni msg"
proof -
  let ?d = "enc_record minor msg @ r"
  have d3: "drop 3 ?d = word_of_nat (length msg div 256) # word_of_nat (length msg) # msg @ r"
    by (simp add: enc_record_def enc_vec_2)
  have "drop 5 ?d = msg @ r" by (simp add: enc_record_def enc_vec_2)
  then have "get_range ?d 5 (5 + length msg) = Some msg"
    by (rule get_range_cursor) (simp add: enc_record_def enc_vec_2)
  moreover have "get_at ?d 0 = Some 0x16" "get_at ?d 1 = Some 3"
    by (simp_all add: enc_record_def)
  ultimately show ?thesis
    using assms by (simp add: parse_sni_def be16_cursor [OF d3] u16_be_bytes del: get_at_Some get_range_Some)
qed

section \<open>Properties\<close>

text \<open>
  C30. Parsing a ClientHello as RFC 8446 and RFC 6066 encode it, whatever its version, random,
  session id, cipher suites and compression methods, whatever extensions surround the server
  name and whatever bytes follow the message, yields exactly the host name in its first
  \<^verbatim>\<open>server_name\<close> extension, in lower case.
\<close>

theorem client_hello_roundtrip:
  assumes "hello_fields_ok ver rnd sid cs cmp (pre @ (0, enc_server_name name) # post)"
    and "length (enc_hello_body ver rnd sid cs cmp (pre @ (0, enc_server_name name) # post)) < 2 ^ 24"
    and "\<forall>e \<in> set pre. fst e \<noteq> 0"
    and "list_all host_byte name" and "name \<noteq> []" and "length name \<le> 253"
  shows "client_hello_sni (enc_hello ver rnd sid cs cmp (pre @ (0, enc_server_name name) # post) @ r)
    = Some (to_ascii_lowercase (text_of name))"
  using client_hello_enc [OF assms(1,2)] named_by_first [OF assms(3)] server_name_enc [OF assms(4-6)]
  by simp

theorem client_hello_roundtrip_witness:
  "client_hello_sni (enc_hello [3, 3] (replicate 32 7) [9] [0x13, 1] [0]
      ([(16, [1, 2])] @ (0, enc_server_name (bytes_of ''Ab.Io'')) # []) @ [5]) = Some ''ab.io''"
proof -
  have "to_ascii_lowercase (text_of (bytes_of ''Ab.Io'')) = ''ab.io''" by code_simp
  moreover have "list_all host_byte (bytes_of ''Ab.Io'')" by code_simp
  moreover have "length (bytes_of ''Ab.Io'') = 5" by code_simp
  ultimately show ?thesis
    using client_hello_roundtrip [of "[3, 3]" "replicate 32 7" "[9]" "[0x13, 1]" "[0]" "[(16, [1, 2])]"
        "bytes_of ''Ab.Io''" "[]" "[5]"]
    by (simp add: hello_fields_ok_def enc_hello_body_def enc_exts_def enc_ext_def enc_server_name_def enc_vec_def
        length_greater_0_conv [symmetric] del: length_greater_0_conv)
qed

text \<open>
  Whatever bytes arrive, a name read from a ClientHello is a non-empty host name of at
  most 253 characters: lower-case letters, digits, \<^verbatim>\<open>-\<close>, \<^verbatim>\<open>.\<close> and \<^verbatim>\<open>_\<close> only.
  Markup, control characters and non-ASCII text cannot enter the tables through it.
\<close>

theorem sni_is_host_name:
  assumes "parse_sni d = Some s"
  shows "host_name s"
  using assms by (rule parse_sni_host)

theorem sni_is_host_name_witness:
  "parse_sni (enc_record 1 (enc_hello [3, 3] (replicate 32 7) [] [0x13, 1] [0]
      [(0, enc_server_name (bytes_of ''A.io''))]) @ [9]) = Some ''a.io'' \<and> host_name ''a.io''"
proof -
  have name: "list_all host_byte (bytes_of ''A.io'')" "to_ascii_lowercase (text_of (bytes_of ''A.io'')) = ''a.io''"
    "length (bytes_of ''A.io'') = 4"
    by code_simp+
  let ?es = "[(0, enc_server_name (bytes_of ''A.io''))]"
  have "named_by ?es = Some ''a.io''"
    using name server_name_enc [of "bytes_of ''A.io''"]
    by (simp add: length_greater_0_conv [symmetric] del: length_greater_0_conv)
  then have "client_hello_sni (enc_hello [3, 3] (replicate 32 7) [] [0x13, 1] [0] ?es) = Some ''a.io''"
    using client_hello_enc [of "[3, 3]" "replicate 32 7" "[]" "[0x13, 1]" "[0]" ?es "[]"]
    by (simp add: hello_fields_ok_def enc_hello_body_def enc_exts_def enc_ext_def enc_server_name_def enc_vec_def name)
  then have "parse_sni (enc_record 1 (enc_hello [3, 3] (replicate 32 7) [] [0x13, 1] [0] ?es) @ [9]) = Some ''a.io''"
    by (subst parse_sni_enc) (simp_all add: enc_hello_def enc_hello_body_def enc_exts_def enc_ext_def
        enc_server_name_def enc_vec_def name)
  then show ?thesis using sni_is_host_name by blast
qed

end
