(* ===== verification/Tables.thy ===== *)
theory Tables
  imports Prelude
begin

text \<open>
  Hash maps and hash sets. A \<^verbatim>\<open>HashMap\<close> is an association list with distinct keys;
  the order of the list is the iteration order, which Rust does not specify, so a statement
  about every such list is a statement about every iteration order. The locale
  \<open>bounded_table\<close> is the contract the flow tables and the connection history share: make
  room, then insert, and the table stays within its cap.
\<close>

section \<open>Operations\<close>

type_synonym ('k, 'v) hmap = "('k \<times> 'v) list"

definition hm_get :: "('k, 'v) hmap \<Rightarrow> 'k \<Rightarrow> 'v option" where
  "hm_get m k = map_of m k"

definition hm_has :: "('k, 'v) hmap \<Rightarrow> 'k \<Rightarrow> bool" where
  "hm_has m k \<longleftrightarrow> k \<in> fst ` set m"

definition hm_put :: "'k \<Rightarrow> 'v \<Rightarrow> ('k, 'v) hmap \<Rightarrow> ('k, 'v) hmap" where
  "hm_put k v m = AList.update k v m"

definition hm_del :: "'k \<Rightarrow> ('k, 'v) hmap \<Rightarrow> ('k, 'v) hmap" where
  "hm_del k m = filter (\<lambda>e. fst e \<noteq> k) m"

definition hm_retain :: "('k \<Rightarrow> 'v \<Rightarrow> bool) \<Rightarrow> ('k, 'v) hmap \<Rightarrow> ('k, 'v) hmap" where
  "hm_retain p m = filter (\<lambda>e. p (fst e) (snd e)) m"

text \<open>\<^verbatim>\<open>values_mut\<close>: every value replaced, the keys as they are.\<close>

definition hm_map :: "('k \<Rightarrow> 'v \<Rightarrow> 'v) \<Rightarrow> ('k, 'v) hmap \<Rightarrow> ('k, 'v) hmap" where
  "hm_map f m = map (\<lambda>e. (fst e, f (fst e) (snd e))) m"

definition hm_keys :: "('k, 'v) hmap \<Rightarrow> 'k list" where
  "hm_keys m = map fst m"

definition hm_wf :: "('k, 'v) hmap \<Rightarrow> bool" where
  "hm_wf m \<longleftrightarrow> distinct (map fst m)"

text \<open>\<^verbatim>\<open>entry(k).or_insert(v0)\<close> followed by a change of the value it returns.\<close>

definition hm_entry :: "'k \<Rightarrow> 'v \<Rightarrow> ('v \<Rightarrow> 'v) \<Rightarrow> ('k, 'v) hmap \<Rightarrow> ('k, 'v) hmap" where
  "hm_entry k v0 f m = hm_put k (f (case hm_get m k of None \<Rightarrow> v0 | Some v \<Rightarrow> v)) m"

text \<open>\<^verbatim>\<open>iter().min_by_key(f)\<close>: the first entry whose key value is least.\<close>

fun min_entry :: "('v \<Rightarrow> 't :: linorder) \<Rightarrow> ('k, 'v) hmap \<Rightarrow> ('k \<times> 'v) option" where
  "min_entry f [] = None"
| "min_entry f (e # m) =
     (case min_entry f m of
        None \<Rightarrow> Some e
      | Some e' \<Rightarrow> if f (snd e) \<le> f (snd e') then Some e else Some e')"

section \<open>Lookup after an operation\<close>

named_theorems hmap \<open>lookup, membership, well-formedness and size after a map operation\<close>

lemma hm_get_Nil [simp]: "hm_get [] k = None"
  by (simp add: hm_get_def)

lemma hm_has_get: "hm_has m k \<longleftrightarrow> hm_get m k \<noteq> None"
  by (simp add: hm_has_def hm_get_def map_of_eq_None_iff)

lemma hm_get_None: "hm_get m k = None \<longleftrightarrow> \<not> hm_has m k"
  by (simp add: hm_has_get)

lemma hm_get_put [hmap]: "hm_get (hm_put k v m) k' = (if k' = k then Some v else hm_get m k')"
  by (simp add: hm_get_def hm_put_def update_conv')

lemma hm_has_put [hmap]: "hm_has (hm_put k v m) k' \<longleftrightarrow> k' = k \<or> hm_has m k'"
  by (auto simp: hm_has_get hm_get_put)

lemma hm_get_del [hmap]: "hm_get (hm_del k m) k' = (if k' = k then None else hm_get m k')"
  by (induction m) (auto simp: hm_get_def hm_del_def)

lemma hm_has_del [hmap]: "hm_has (hm_del k m) k' \<longleftrightarrow> k' \<noteq> k \<and> hm_has m k'"
  by (auto simp: hm_has_get hm_get_del)

lemma hm_get_map [hmap]: "hm_get (hm_map f m) k = map_option (f k) (hm_get m k)"
  by (induction m) (auto simp: hm_get_def hm_map_def)

lemma hm_has_map [hmap]: "hm_has (hm_map f m) k = hm_has m k"
  by (simp add: hm_has_get hm_get_map)

lemma hm_get_retain [hmap]:
  "hm_wf m \<Longrightarrow> hm_get (hm_retain p m) k =
     (case hm_get m k of None \<Rightarrow> None | Some v \<Rightarrow> if p k v then Some v else None)"
proof (induction m)
  case (Cons e m)
  then have "fst e \<notin> fst ` set m" and wf: "hm_wf m"
    by (auto simp: hm_wf_def)
  then have "hm_get m (fst e) = None"
    by (simp add: hm_get_None hm_has_def)
  moreover have "hm_get (hm_retain p m) k =
     (case hm_get m k of None \<Rightarrow> None | Some v \<Rightarrow> if p k v then Some v else None)"
    using Cons.IH wf by simp
  ultimately show ?case
    by (cases e) (auto simp: hm_get_def hm_retain_def split: option.splits if_splits)
qed (simp add: hm_retain_def)

lemma hm_get_entry [hmap]:
  "hm_get (hm_entry k v0 f m) k' =
     (if k' = k then Some (f (case hm_get m k of None \<Rightarrow> v0 | Some v \<Rightarrow> v)) else hm_get m k')"
  by (simp add: hm_entry_def hm_get_put)

lemma hm_get_in_set: "hm_get m k = Some v \<Longrightarrow> (k, v) \<in> set m"
  by (simp add: hm_get_def map_of_SomeD)

lemma hm_get_of_set: "hm_wf m \<Longrightarrow> (k, v) \<in> set m \<Longrightarrow> hm_get m k = Some v"
  by (simp add: hm_get_def hm_wf_def)

section \<open>Well-formedness and size\<close>

lemma hm_wf_Nil [simp]: "hm_wf []"
  by (simp add: hm_wf_def)

lemma hm_wf_put [hmap]: "hm_wf m \<Longrightarrow> hm_wf (hm_put k v m)"
  by (simp add: hm_wf_def hm_put_def distinct_update)

lemma hm_wf_filter: "hm_wf m \<Longrightarrow> hm_wf (filter p m)"
  by (simp add: hm_wf_def distinct_map_filter)

lemma hm_wf_del [hmap]: "hm_wf m \<Longrightarrow> hm_wf (hm_del k m)"
  by (simp add: hm_del_def hm_wf_filter)

lemma hm_wf_retain [hmap]: "hm_wf m \<Longrightarrow> hm_wf (hm_retain p m)"
  by (simp add: hm_retain_def hm_wf_filter)

lemma hm_wf_map [hmap]: "hm_wf (hm_map f m) = hm_wf m"
  by (simp add: hm_wf_def hm_map_def comp_def)

lemma hm_wf_entry [hmap]: "hm_wf m \<Longrightarrow> hm_wf (hm_entry k v0 f m)"
  by (simp add: hm_entry_def hm_wf_put)

lemma length_hm_put [hmap]:
  "length (hm_put k v m) = (if hm_has m k then length m else Suc (length m))"
  by (induction m) (auto simp: hm_put_def hm_has_def)

lemma length_hm_del: "length (hm_del k m) \<le> length m"
  by (simp add: hm_del_def)

lemma length_hm_del_less: "hm_has m k \<Longrightarrow> length (hm_del k m) < length m"
  by (auto simp: hm_del_def hm_has_def intro!: length_filter_less)

lemma hm_del_absent: "\<not> hm_has m k \<Longrightarrow> hm_del k m = m"
  by (auto simp: hm_del_def hm_has_def filter_id_conv image_iff)

lemma length_hm_retain: "length (hm_retain p m) \<le> length m"
  by (simp add: hm_retain_def)

lemma length_hm_map [hmap]: "length (hm_map f m) = length m"
  by (simp add: hm_map_def)

lemma length_hm_entry [hmap]:
  "length (hm_entry k v0 f m) = (if hm_has m k then length m else Suc (length m))"
  by (simp add: hm_entry_def length_hm_put)

lemma set_hm_put: "e \<in> set (hm_put k v m) \<Longrightarrow> e = (k, v) \<or> e \<in> set m"
  by (induction m) (auto simp: hm_put_def split: if_splits)

section \<open>The least entry\<close>

lemma min_entry_None [simp]: "min_entry f m = None \<longleftrightarrow> m = []"
  by (cases m) (auto split: option.splits)

lemma min_entry_Some:
  "min_entry f m = Some e \<Longrightarrow> e \<in> set m \<and> (\<forall>x \<in> set m. f (snd e) \<le> f (snd x))"
proof (induction m arbitrary: e)
  case (Cons x m)
  show ?case
  proof (cases "min_entry f m")
    case None
    with Cons.prems show ?thesis by auto
  next
    case (Some y)
    with Cons.IH have "y \<in> set m" and "\<forall>x \<in> set m. f (snd y) \<le> f (snd x)" by auto
    with Cons.prems Some show ?thesis by (auto split: if_splits)
  qed
qed simp

section \<open>Sets\<close>

text \<open>\<^verbatim>\<open>HashSet::insert\<close> keeps one copy of an element.\<close>

definition hs_add :: "'a \<Rightarrow> 'a list \<Rightarrow> 'a list" where
  "hs_add x xs = (if x \<in> set xs then xs else xs @ [x])"

lemma set_hs_add [simp]: "set (hs_add x xs) = insert x (set xs)"
  by (auto simp: hs_add_def)

lemma distinct_hs_add [simp]: "distinct (hs_add x xs) = distinct xs"
  by (auto simp: hs_add_def)

lemma length_hs_add: "length (hs_add x xs) = (if x \<in> set xs then length xs else Suc (length xs))"
  by (simp add: hs_add_def)

section \<open>Tables with a cap\<close>

locale bounded_table =
  fixes cap :: nat
    and make_room :: "'k \<Rightarrow> ('k, 'v) hmap \<Rightarrow> ('k, 'v) hmap"
  assumes room_wf: "hm_wf m \<Longrightarrow> hm_wf (make_room k m)"
    and room_known: "hm_has m k \<Longrightarrow> make_room k m = m"
    and room_subset: "hm_wf m \<Longrightarrow> hm_get (make_room k m) k' = Some v \<Longrightarrow> hm_get m k' = Some v"
    and room_bound: "hm_wf m \<Longrightarrow> length m \<le> cap \<Longrightarrow> \<not> hm_has m k \<Longrightarrow> length (make_room k m) < cap"
begin

lemma insert_bound:
  assumes "hm_wf m" and "length m \<le> cap"
  shows "length (hm_put k v (make_room k m)) \<le> cap"
proof (cases "hm_has m k")
  case True
  then show ?thesis using assms by (simp add: room_known length_hm_put)
next
  case False
  then show ?thesis using room_bound [of m k] assms by (simp add: length_hm_put)
qed

lemma insert_wf: "hm_wf m \<Longrightarrow> hm_wf (hm_put k v (make_room k m))"
  by (simp add: room_wf hm_wf_put)

lemma insert_lookup: "hm_get (hm_put k v (make_room k m)) k = Some v"
  by (simp add: hm_get_put)

lemma insert_others:
  "hm_wf m \<Longrightarrow> k' \<noteq> k \<Longrightarrow> hm_get (hm_put k v (make_room k m)) k' = Some w \<Longrightarrow> hm_get m k' = Some w"
  by (auto simp: hm_get_put dest: room_subset)

lemma entry_bound:
  assumes "hm_wf m" and "length m \<le> cap"
  shows "length (hm_entry k v f (make_room k m)) \<le> cap"
  using insert_bound [OF assms] by (simp add: hm_entry_def)

end

end
