(* ===== verification/Reassembly.thy ===== *)
theory Reassembly
  imports Client_Hello Tables
begin

text \<open>
  What the two reassemblers of \<^verbatim>\<open>src/src/tls.rs\<close> and \<^verbatim>\<open>src/src/quic.rs\<close>
  share: a buffer with a bitmap of the bytes that have arrived and a cursor \<open>ready\<close> behind
  which everything has arrived. The locale \<open>reassembler\<close> is the contract of adding a piece;
  from it follows once that the order of the pieces does not matter.
\<close>

section \<open>The buffer\<close>

text \<open>\<^verbatim>\<open>Vec::resize\<close>.\<close>

definition resize :: "nat \<Rightarrow> 'a \<Rightarrow> 'a list \<Rightarrow> 'a list" where
  "resize n x xs = take n xs @ replicate (n - length xs) x"

text \<open>The loop \<^verbatim>\<open>while filled.get(ready) == Some(&true)\<close>.\<close>

function advance :: "bool list \<Rightarrow> nat \<Rightarrow> nat" where
  "advance filled r = (if get_at filled r = Some True then advance filled (r + 1) else r)"
  by pat_completeness auto
termination
  by (relation "measure (\<lambda>(filled, r). length filled - r)") auto

declare advance.simps [simp del]

lemma length_resize [simp]: "length (resize n x xs) = n"
  by (simp add: resize_def)

lemma nth_resize: "i < n \<Longrightarrow> resize n x xs ! i = (if i < length xs then xs ! i else x)"
  by (auto simp: resize_def nth_append)

lemma resize_same: "length xs = n \<Longrightarrow> resize n x xs = xs"
  by (simp add: resize_def)

text \<open>\<^verbatim>\<open>buf[i..i + n].copy_from_slice(xs)\<close> on a buffer that is long enough.\<close>

definition overlay :: "nat \<Rightarrow> 'a list \<Rightarrow> 'a list \<Rightarrow> 'a list" where
  "overlay i xs ys = take i ys @ xs @ drop (i + length xs) ys"

lemma length_overlay [simp]: "i + length xs \<le> length ys \<Longrightarrow> length (overlay i xs ys) = length ys"
  by (simp add: overlay_def)

lemma nth_overlay:
  "i + length xs \<le> length ys \<Longrightarrow> k < length ys \<Longrightarrow>
     overlay i xs ys ! k = (if i \<le> k \<and> k < i + length xs then xs ! (k - i) else ys ! k)"
  by (auto simp: overlay_def nth_append)

lemma overlay_Cons: "i < length ys \<Longrightarrow> overlay (Suc i) xs (ys[i := x]) = overlay i (x # xs) ys"
  by (simp add: overlay_def take_Suc_conv_app_nth)

lemma advance_props:
  "r \<le> length filled \<Longrightarrow> advance filled r \<le> length filled
     \<and> (\<forall>i. r \<le> i \<longrightarrow> i < advance filled r \<longrightarrow> filled ! i)
     \<and> \<not> (advance filled r < length filled \<and> filled ! advance filled r) \<and> r \<le> advance filled r"
proof (induction filled r rule: advance.induct)
  case (1 filled r)
  show ?case
  proof (cases "get_at filled r = Some True")
    case True
    then have eq: "advance filled r = advance filled (r + 1)"
      by (subst advance.simps) (simp del: get_at_Some)
    have "r + 1 \<le> length filled" using True by auto
    with 1 True have ih: "advance filled (r + 1) \<le> length filled
       \<and> (\<forall>i. r + 1 \<le> i \<longrightarrow> i < advance filled (r + 1) \<longrightarrow> filled ! i)
       \<and> \<not> (advance filled (r + 1) < length filled \<and> filled ! advance filled (r + 1)) \<and> r + 1 \<le> advance filled (r + 1)"
      by blast
    have "filled ! r" using True by simp
    then have "\<forall>i. r \<le> i \<longrightarrow> i < advance filled (r + 1) \<longrightarrow> filled ! i"
      using ih by (metis Suc_eq_plus1 Suc_leI le_neq_implies_less)
    with ih eq show ?thesis by auto
  next
    case False
    then have "advance filled r = r" by (subst advance.simps) (simp del: get_at_Some)
    with False 1 show ?thesis by auto
  qed
qed

section \<open>A buffer that holds part of a stream\<close>

text \<open>
  The buffer has exactly the bytes of \<open>S\<close> at the offsets \<open>cov\<close>, and \<open>ready\<close>
  is the length of the part that has arrived without a gap.
\<close>

definition sparse :: "'a list \<Rightarrow> nat set \<Rightarrow> 'a list \<Rightarrow> bool list \<Rightarrow> nat \<Rightarrow> bool" where
  "sparse S cov buf filled ready \<longleftrightarrow> length filled = length buf
     \<and> (\<forall>i. (i < length buf \<and> filled ! i) = (i \<in> cov))
     \<and> (\<forall>i \<in> cov. i < length S \<and> buf ! i = S ! i)
     \<and> {..<ready} \<subseteq> cov \<and> ready \<notin> cov"

lemma sparse_empty: "sparse S {} [] [] 0"
  by (simp add: sparse_def)

lemma sparse_filled: "sparse S cov buf filled ready \<Longrightarrow> (i < length buf \<and> filled ! i) = (i \<in> cov)"
  by (simp add: sparse_def)

lemma sparse_resize:
  assumes "sparse S cov buf filled ready" and "length buf \<le> m"
  shows "sparse S cov (resize m x buf) (resize m False filled) ready"
proof -
  have len: "length filled = length buf" using assms by (simp add: sparse_def)
  have cov: "(i < m \<and> resize m False filled ! i) = (i \<in> cov)" for i
    using sparse_filled [OF assms(1), of i] assms(2) len
    by (cases "i < length buf") (auto simp: nth_resize)
  moreover have "resize m x buf ! i = S ! i" if "i \<in> cov" for i
    using assms(1) that cov [of i] sparse_filled [OF assms(1), of i] by (auto simp: sparse_def nth_resize)
  ultimately show ?thesis using assms by (auto simp: sparse_def)
qed

lemma sparse_ready:
  assumes "sparse S cov buf filled ready"
  shows "ready \<le> length buf" "ready \<le> length S" "take ready buf = take ready S"
proof -
  have at: "i < length buf \<and> buf ! i = S ! i \<and> i < length S" if "i < ready" for i
    using assms that by (auto simp: sparse_def)
  show "ready \<le> length buf" "ready \<le> length S"
    using at [of "ready - 1"] by (cases ready; auto)+
  then show "take ready buf = take ready S"
    using at by (intro nth_equalityI) auto
qed

lemma sparse_less_extent:
  assumes "sparse S cov buf filled ready"
  shows "ready < n \<longleftrightarrow> \<not> {..<n} \<subseteq> cov"
proof -
  have "{..<ready} \<subseteq> cov" "ready \<notin> cov" using assms by (auto simp: sparse_def)
  then show ?thesis by (metis lessThan_iff lessThan_subset_iff not_le order_trans subsetD)
qed

lemma sparse_place:
  assumes old: "sparse S cov buf filled ready" and room: "i + n \<le> length buf" and S: "i + n \<le> length S"
  shows "sparse S (cov \<union> {i..<i + n}) (overlay i (take n (drop i S)) buf)
    (overlay i (replicate n True) filled) (advance (overlay i (replicate n True) filled) ready)"
proof -
  let ?buf = "overlay i (take n (drop i S)) buf"
  let ?filled = "overlay i (replicate n True) filled"
  let ?cov = "cov \<union> {i..<i + n}"
  have len: "length filled = length buf" "length (take n (drop i S)) = n"
    using old S by (auto simp: sparse_def)
  have cov: "(k < length buf \<and> ?filled ! k) = (k \<in> ?cov)" for k
    using sparse_filled [OF old, of k] room len
    by (cases "i \<le> k \<and> k < i + n") (auto simp: nth_overlay)
  have "?buf ! k = S ! k" if "k \<in> ?cov" for k
    using that old cov [of k] room len by (auto simp: nth_overlay sparse_def)
  moreover have "ready \<le> length ?filled"
    using sparse_ready(1) [OF old] room len by simp
  note adv = advance_props [OF this]
  have lens: "length ?filled = length buf" "length ?buf = length buf" using room len by simp_all
  have "k \<in> ?cov" if "k \<in> {..<advance ?filled ready}" for k
  proof (cases "k < ready")
    case True
    then show ?thesis using old by (auto simp: sparse_def)
  next
    case False
    then show ?thesis using adv that cov [of k] lens by auto
  qed
  then have "{..<advance ?filled ready} \<subseteq> ?cov" by (rule subsetI)
  moreover have "advance ?filled ready \<notin> ?cov"
    using adv cov [of "advance ?filled ready"] lens by auto
  moreover have "k < length S" if "k \<in> ?cov" for k
    using that old S by (auto simp: sparse_def)
  ultimately show ?thesis
    unfolding sparse_def lens using cov by blast
qed

section \<open>The length of a handshake message\<close>

text \<open>The four-byte header of the message: its type and its 24-bit length.\<close>

definition hello_total :: "bytes \<Rightarrow> nat fallible" where
  "hello_total hello =
     andthen (idx hello 1) (\<lambda>a. andthen (idx hello 2) (\<lambda>b. andthen (idx hello 3) (\<lambda>c.
       Got (4 + be_nat [0, a, b, c]))))"

definition hello_size :: "bytes \<Rightarrow> nat" where
  "hello_size h = 4 + be_nat [0, h ! 1, h ! 2, h ! 3]"

lemma hello_total_Got:
  "\<not> length h < 4 \<Longrightarrow> hello_total h = Got (hello_size h)" "\<not> length h < 4 \<Longrightarrow> idx h 0 = Got (h ! 0)"
  by (auto simp: hello_total_def hello_size_def idx_def)

lemma hello_size_prefix:
  "4 \<le> length h \<Longrightarrow> hello_size (h @ t) = hello_size h \<and> (h @ t) ! 0 = h ! 0"
  by (auto simp: hello_size_def nth_append)

section \<open>Pieces in any order\<close>

type_synonym ('e, 'f) adder = "'e \<Rightarrow> 'f \<Rightarrow> (string option \<times> 'f) fallible"

fun add_all :: "('e, 'f) adder \<Rightarrow> 'e list \<Rightarrow> 'f \<Rightarrow> (string option list \<times> 'f) fallible" where
  "add_all add [] f = Got ([], f)"
| "add_all add (e # es) f =
     andthen (add e f) (\<lambda>r. andthen (add_all add es (snd r)) (\<lambda>rs. Got (fst r # fst rs, snd rs)))"

lemma add_all_map: "add_all add (map h es) f = add_all (\<lambda>e. add (h e)) es f"
  by (induction es arbitrary: f) (simp_all cong: andthen_cong)

lemma add_all_inert:
  "(\<And>e. add e f = Got (None, f)) \<Longrightarrow> add_all add es f = Got (replicate (length es) None, f)"
  by (induction es) simp_all

text \<open>
  \<open>good c\<close>: \<open>c\<close> describes a stream whose first \<open>extent c\<close> bytes say \<open>result c\<close>;
  \<open>inv c cov f\<close>: the state \<open>f\<close> has the bytes \<open>cov\<close> of it; \<open>finished c f\<close>: it has said what it had to say.
\<close>

locale reassembler =
  fixes good :: "'c \<Rightarrow> bool"
    and ok :: "'c \<Rightarrow> 'e \<Rightarrow> bool"
    and span :: "'e \<Rightarrow> nat set"
    and extent :: "'c \<Rightarrow> nat"
    and result :: "'c \<Rightarrow> string option"
    and inv :: "'c \<Rightarrow> nat set \<Rightarrow> 'f \<Rightarrow> bool"
    and finished :: "'c \<Rightarrow> 'f \<Rightarrow> bool"
    and add :: "'c \<Rightarrow> ('e, 'f) adder"
  assumes add_piece: "good c \<Longrightarrow> inv c cov f \<Longrightarrow> ok c e \<Longrightarrow> \<exists>f'. add c e f =
      Got (if {..<extent c} \<subseteq> cov \<union> span e then result c else None, f')
      \<and> (if {..<extent c} \<subseteq> cov \<union> span e then finished c f' else inv c (cov \<union> span e) f')"
    and add_finished: "good c \<Longrightarrow> finished c f \<Longrightarrow> ok c e \<Longrightarrow> \<exists>f'. add c e f = Got (None, f') \<and> finished c f'"
begin

lemma all_finished:
  "good c \<Longrightarrow> finished c f \<Longrightarrow> \<forall>e \<in> set es. ok c e \<Longrightarrow>
     \<exists>f'. add_all (add c) es f = Got (replicate (length es) None, f') \<and> finished c f'"
proof (induction es arbitrary: f)
  case (Cons e es)
  obtain f1 where f1: "add c e f = Got (None, f1)" "finished c f1" using add_finished [OF Cons.prems(1,2)] Cons.prems(3) by auto
  obtain f2 where "add_all (add c) es f1 = Got (replicate (length es) None, f2)" "finished c f2"
    using Cons.IH [OF Cons.prems(1) f1(2)] Cons.prems(3) by auto
  then show ?case using f1(1) by simp
qed simp

theorem any_order:
  assumes "good c" and "inv c cov f" and "\<forall>e \<in> set es. ok c e"
    and "{..<extent c} \<subseteq> cov \<union> (\<Union>e \<in> set es. span e)" and "\<not> {..<extent c} \<subseteq> cov"
  shows "\<exists>k f'. k < length es \<and> finished c f' \<and> add_all (add c) es f
     = Got (replicate k None @ result c # replicate (length es - Suc k) None, f')"
  using assms(2-5)
proof (induction es arbitrary: f cov)
  case Nil
  then show ?case by simp
next
  case (Cons e es)
  let ?full = "{..<extent c} \<subseteq> cov \<union> span e"
  obtain f' where f': "add c e f = Got (if ?full then result c else None, f')"
    and next_flow: "if ?full then finished c f' else inv c (cov \<union> span e) f'"
    using add_piece [OF assms(1) Cons.prems(1)] Cons.prems(2) by (meson list.set_intros(1))
  show ?case
  proof (cases ?full)
    case True
    then obtain f'' where "add_all (add c) es f' = Got (replicate (length es) None, f'')" "finished c f''"
      using all_finished [OF assms(1), of f' es] next_flow Cons.prems(2) by auto
    then show ?thesis using True f' by (intro exI [of _ 0] exI [of _ f'']) simp
  next
    case False
    have "{..<extent c} \<subseteq> (cov \<union> span e) \<union> (\<Union>e \<in> set es. span e)"
      using Cons.prems(3) by auto
    then obtain k f'' where "k < length es" "finished c f''" "add_all (add c) es f'
       = Got (replicate k None @ result c # replicate (length es - Suc k) None, f'')"
      using Cons.IH [of "cov \<union> span e" f'] False next_flow Cons.prems(2) by auto
    then show ?thesis using f' False by (intro exI [of _ "Suc k"] exI [of _ f'']) simp
  qed
qed

end

end
