(* ===== verification/Tls_Flow.thy ===== *)
theory Tls_Flow
  imports Reassembly Net
begin

text \<open>
  The bounded reassembly of the start of a TCP stream: \<^verbatim>\<open>src/src/tls.rs\<close>. The code indexes
  its buffers directly, so its operations return a \<open>fallible\<close> and "never panics" is proved.
  An \<^verbatim>\<open>Instant\<close> is a number of nanoseconds; each call of the clock is an argument.
\<close>

section \<open>The state\<close>

definition TLS_MAX_STREAM :: nat where "TLS_MAX_STREAM = 32 * 1024"
definition TLS_MAX_HELLO :: nat where "TLS_MAX_HELLO = 16 * 1024"
definition TLS_MAX_FLOWS :: nat where "TLS_MAX_FLOWS = 256"
definition TLS_TTL :: nat where "TLS_TTL = 10 * 1000000000"

type_synonym flow_key = "IpAddr \<times> u16 \<times> IpAddr \<times> u16"

record tls_flow =
  fl_base :: "u32 option"
  fl_pending :: "(u32 \<times> bytes) list"
  fl_buf :: bytes
  fl_filled :: "bool list"
  fl_ready :: nat
  fl_seen :: nat
  fl_done :: bool

definition tls_finish :: "tls_flow \<Rightarrow> tls_flow" where
  "tls_finish f = f\<lparr>fl_done := True, fl_pending := [], fl_buf := [], fl_filled := []\<rparr>"

section \<open>Placing a segment\<close>

text \<open>
  The byte loop of \<^verbatim>\<open>place\<close>: \<open>Got None\<close> when a byte contradicts one that is already
  there (the flow is finished), otherwise the buffer and its bitmap.
\<close>

fun place_bytes :: "nat \<Rightarrow> bytes \<Rightarrow> bytes \<Rightarrow> bool list \<Rightarrow> (bytes \<times> bool list) option fallible" where
  "place_bytes i [] buf filled = Got (Some (buf, filled))"
| "place_bytes i (b # bs) buf filled =
     andthen (idx filled i) (\<lambda>was.
     andthen (idx buf i) (\<lambda>old.
       if was \<and> old \<noteq> b then Got None
       else place_bytes (i + 1) bs (buf[i := b]) (filled[i := True])))"

definition tls_place :: "u32 \<Rightarrow> bytes \<Rightarrow> tls_flow \<Rightarrow> tls_flow fallible" where
  "tls_place sequence data f =
     (case fl_base f of
        None \<Rightarrow> Got f
      | Some base \<Rightarrow>
          let offset = unat (sequence - base) in
          if TLS_MAX_STREAM \<le> offset \<or> TLS_MAX_STREAM - offset < length data then Got f
          else
            let fin = offset + length data;
                buf = resize (max (length (fl_buf f)) fin) 0 (fl_buf f);
                filled = resize (max (length (fl_filled f)) fin) False (fl_filled f) in
            andthen (place_bytes offset data buf filled) (\<lambda>r.
              case r of
                None \<Rightarrow> Got (tls_finish f)
              | Some (buf', filled') \<Rightarrow>
                  Got (f\<lparr>fl_buf := buf', fl_filled := filled', fl_ready := advance filled' (fl_ready f)\<rparr>)))"

fun tls_place_all :: "(u32 \<times> bytes) list \<Rightarrow> tls_flow \<Rightarrow> tls_flow fallible" where
  "tls_place_all [] f = Got f"
| "tls_place_all (e # es) f = andthen (tls_place (fst e) (snd e) f) (tls_place_all es)"

section \<open>Reading the records\<close>

text \<open>
  The record loop of \<^verbatim>\<open>add\<close>: the records up to \<open>ready\<close> are concatenated into
  \<open>hello\<close> until they hold a whole message (\<open>Hello\<close>), turn out not to be one
  (\<open>Refuse\<close>, the flow is finished) or run out (\<open>More\<close>).
\<close>

datatype scan = More | Refuse | Hello bytes

function scan_records :: "bytes \<Rightarrow> nat \<Rightarrow> bytes \<Rightarrow> nat \<Rightarrow> scan fallible" where
  "scan_records buf ready hello offset =
     (if ready - offset < 5 then Got More
      else
        andthen (idx buf offset) (\<lambda>b0. andthen (idx buf (offset + 1)) (\<lambda>b1.
        if b0 \<noteq> 0x16 \<or> b1 \<noteq> 3 then Got Refuse
        else andthen (idx buf (offset + 3)) (\<lambda>b3. andthen (idx buf (offset + 4)) (\<lambda>b4.
        let size = unat (u16_be b3 b4) in
        if size = 0 \<or> TLS_MAX_HELLO < size \<or> TLS_MAX_HELLO < length hello + size then Got Refuse
        else if ready < offset + 5 + size then Got More
        else andthen (slice buf (offset + 5) (offset + 5 + size)) (\<lambda>chunk.
          let hello' = hello @ chunk; offset' = offset + 5 + size in
          if length hello' < 4 then scan_records buf ready hello' offset'
          else andthen (hello_total hello') (\<lambda>total. andthen (idx hello' 0) (\<lambda>h0.
            if h0 \<noteq> 1 \<or> TLS_MAX_HELLO < total then Got Refuse
            else if total \<le> length hello' then
              andthen (slice hello' 0 total) (\<lambda>msg. Got (Hello msg))
            else scan_records buf ready hello' offset'))))))))"
  by pat_completeness auto
termination
  by (relation "measure (\<lambda>(buf, ready, hello, offset). ready - offset)") auto

declare scan_records.simps [simp del]

text \<open>The second half of \<^verbatim>\<open>add\<close>, once the base is known.\<close>

definition tls_scan :: "tls_flow \<Rightarrow> (string option \<times> tls_flow) fallible" where
  "tls_scan f =
     (if fl_done f then Got (None, f)
      else andthen (scan_records (fl_buf f) (fl_ready f) [] 0) (\<lambda>r.
        case r of
          More \<Rightarrow> Got (None, f)
        | Refuse \<Rightarrow> Got (None, tls_finish f)
        | Hello msg \<Rightarrow> Got (client_hello_sni msg, tls_finish f)))"

definition tls_add :: "u32 \<Rightarrow> bytes \<Rightarrow> tls_flow \<Rightarrow> (string option \<times> tls_flow) fallible" where
  "tls_add sequence data f =
     (if fl_done f \<or> data = [] \<or> TLS_MAX_STREAM < length data then Got (None, f)
      else if fl_base f = None \<and> get_at data 0 \<noteq> Some 0x16 then
        let held = sum_list (map (\<lambda>e. length (snd e)) (fl_pending f)) in
        if length (fl_pending f) < 16 \<and> held + length data \<le> TLS_MAX_STREAM
        then Got (None, f\<lparr>fl_pending := fl_pending f @ [(sequence, data)]\<rparr>)
        else Got (None, f)
      else
        andthen
          (if fl_base f = None
           then tls_place_all (fl_pending f) (f\<lparr>fl_base := Some sequence, fl_pending := []\<rparr>)
           else Got f) (\<lambda>f1.
        andthen (tls_place sequence data f1) tls_scan))"

section \<open>The flow table\<close>

definition tls_room :: "flow_key \<Rightarrow> (flow_key, tls_flow) hmap \<Rightarrow> (flow_key, tls_flow) hmap" where
  "tls_room key flows =
     (if \<not> hm_has flows key \<and> TLS_MAX_FLOWS \<le> length flows then
        (case min_entry fl_seen flows of None \<Rightarrow> flows | Some old \<Rightarrow> hm_del (fst old) flows)
      else flows)"

definition tls_expire :: "nat \<Rightarrow> flow_key \<Rightarrow> (flow_key, tls_flow) hmap \<Rightarrow> (flow_key, tls_flow) hmap" where
  "tls_expire now key flows =
     (case hm_get flows key of
        None \<Rightarrow> flows
      | Some f \<Rightarrow> if TLS_TTL \<le> now - fl_seen f then hm_del key flows else flows)"

definition tls_new_flow :: "bool \<Rightarrow> u32 \<Rightarrow> nat \<Rightarrow> tls_flow" where
  "tls_new_flow syn sequence now =
     \<lparr>fl_base = (if syn then Some (sequence + 1) else None), fl_pending = [], fl_buf = [],
      fl_filled = [], fl_ready = 0, fl_seen = now, fl_done = False\<rparr>"

text \<open>\<open>now\<close> is read for the expiry check and \<open>now'\<close> when the flow is stamped.\<close>

definition tls_feed :: "nat \<Rightarrow> nat \<Rightarrow> flow_key \<Rightarrow> u32 \<Rightarrow> u8 \<Rightarrow> bytes
    \<Rightarrow> (flow_key, tls_flow) hmap \<Rightarrow> (string option \<times> (flow_key, tls_flow) hmap) fallible" where
  "tls_feed now now' key sequence flags data flows =
     (let syn = flags AND 2 \<noteq> 0 in
      if flags AND 4 \<noteq> 0 then Got (None, hm_del key flows)
      else
        let flows1 = tls_expire now key flows;
            flows2 = (if syn then hm_del key flows1 else flows1) in
        if \<not> syn \<and> data = [] then Got (None, flows2)
        else
          let flows3 = tls_room key flows2;
              f0 = (case hm_get flows3 key of
                      None \<Rightarrow> tls_new_flow syn sequence now' | Some f \<Rightarrow> f) in
          andthen (tls_add (sequence + (if syn then 1 else 0)) data (f0\<lparr>fl_seen := now'\<rparr>)) (\<lambda>r.
            let flows4 = hm_put key (snd r) flows3 in
            Got (fst r, if flags AND 1 \<noteq> 0 then hm_del key flows4 else flows4)))"


section \<open>Placing: no panic, exact effect\<close>

lemma place_bytes_safe:
  assumes "i + length data \<le> length buf" and "length filled = length buf"
  shows "place_bytes i data buf filled = Got None \<or>
    (\<exists>buf' filled'. place_bytes i data buf filled = Got (Some (buf', filled'))
       \<and> length buf' = length buf \<and> length filled' = length buf)"
  using assms
proof (induction data arbitrary: i buf filled)
  case (Cons b bs)
  then show ?case using Cons.IH [of "i + 1" "buf[i := b]" "filled[i := True]"]
    by (auto simp: idx_def)
qed simp

lemma place_bytes_consistent:
  assumes "i + length data \<le> length buf" and "length filled = length buf"
    and "\<And>j. j < length data \<Longrightarrow> filled ! (i + j) \<Longrightarrow> buf ! (i + j) = data ! j"
  shows "place_bytes i data buf filled
    = Got (Some (overlay i data buf, overlay i (replicate (length data) True) filled))"
  using assms
proof (induction data arbitrary: i buf filled)
  case Nil
  then show ?case by (simp add: overlay_def)
next
  case (Cons b bs)
  have "place_bytes (i + 1) bs (buf[i := b]) (filled[i := True])
    = Got (Some (overlay (i + 1) bs (buf[i := b]), overlay (i + 1) (replicate (length bs) True) (filled[i := True])))"
  proof (rule Cons.IH)
    fix j assume j: "j < length bs" "filled[i := True] ! (i + 1 + j)"
    then show "buf[i := b] ! (i + 1 + j) = bs ! j"
      using Cons.prems(3) [of "Suc j"] by simp
  qed (use Cons.prems in auto)
  moreover have "filled ! i \<Longrightarrow> buf ! i = b"
    using Cons.prems(3) [of 0] by simp
  moreover have "overlay (i + 1) bs (buf[i := b]) = overlay i (b # bs) buf"
    "overlay (i + 1) (replicate (length bs) True) (filled[i := True])
      = overlay i (replicate (length (b # bs)) True) filled"
    using Cons.prems(1,2) overlay_Cons [of i filled "replicate (length bs) True" True]
    by (simp_all add: overlay_Cons)
  ultimately show ?case
    using Cons.prems(1,2) by (simp add: idx_def)
qed

lemma place_bytes_conflict:
  assumes "i + length data \<le> length buf" and "length filled = length buf"
    and "j < length data" and "filled ! (i + j)" and "buf ! (i + j) \<noteq> data ! j"
  shows "place_bytes i data buf filled = Got None"
  using assms
proof (induction data arbitrary: i j buf filled)
  case (Cons b bs)
  show ?case
  proof (cases j)
    case 0
    then show ?thesis using Cons.prems by (simp add: idx_def)
  next
    case (Suc k)
    then have "place_bytes (i + 1) bs (buf[i := b]) (filled[i := True]) = Got None"
      using Cons.prems by (intro Cons.IH [of _ _ _ k]) (auto simp: nth_list_update)
    then show ?thesis using Cons.prems by (simp add: idx_def)
  qed
qed simp

section \<open>A flow stays within its bounds\<close>

definition flow_wf :: "tls_flow \<Rightarrow> bool" where
  "flow_wf f \<longleftrightarrow> length (fl_filled f) = length (fl_buf f) \<and> length (fl_buf f) \<le> TLS_MAX_STREAM
     \<and> (\<not> fl_done f \<longrightarrow> fl_ready f \<le> length (fl_buf f))
     \<and> length (fl_pending f) \<le> 16 \<and> sum_list (map (\<lambda>e. length (snd e)) (fl_pending f)) \<le> TLS_MAX_STREAM"

lemma finish_wf [simp]: "flow_wf (tls_finish f)"
  by (simp add: flow_wf_def tls_finish_def)

lemma finish_done [simp]: "fl_done (tls_finish f)"
  by (simp add: tls_finish_def)

lemma tls_place_wf:
  assumes "flow_wf f"
  shows "\<exists>f'. tls_place s data f = Got f' \<and> flow_wf f' \<and> (fl_done f \<longrightarrow> fl_done f')"
proof (cases "fl_base f")
  case None
  then show ?thesis using assms by (simp add: tls_place_def)
next
  case (Some base)
  let ?o = "unat (s - base)"
  let ?n = "max (length (fl_buf f)) (?o + length data)"
  let ?m = "max (length (fl_filled f)) (?o + length data)"
  show ?thesis
  proof (cases "TLS_MAX_STREAM \<le> ?o \<or> TLS_MAX_STREAM - ?o < length data")
    case True
    then show ?thesis using assms Some by (simp add: tls_place_def)
  next
    case False
    have "?n = ?m" and bound: "?n \<le> TLS_MAX_STREAM" using assms False by (auto simp: flow_wf_def)
    then consider "place_bytes ?o data (resize ?n 0 (fl_buf f)) (resize ?m False (fl_filled f)) = Got None"
      | buf' filled' where "place_bytes ?o data (resize ?n 0 (fl_buf f)) (resize ?m False (fl_filled f)) = Got (Some (buf', filled'))"
        "length buf' = ?n" "length filled' = ?n"
      using place_bytes_safe [of ?o data "resize ?n 0 (fl_buf f)" "resize ?m False (fl_filled f)"] by auto
    then show ?thesis
    proof cases
      case 1
      then show ?thesis using Some False by (simp add: tls_place_def)
    next
      case 2
      have "flow_wf (f\<lparr>fl_buf := buf', fl_filled := filled', fl_ready := advance filled' (fl_ready f)\<rparr>)"
        using assms 2 bound advance_props [of "fl_ready f" filled'] unfolding flow_wf_def by auto
      then show ?thesis using Some False 2 by (simp add: tls_place_def)
    qed
  qed
qed

lemma tls_place_all_wf:
  assumes "flow_wf f"
  shows "\<exists>f'. tls_place_all es f = Got f' \<and> flow_wf f'"
  using assms
proof (induction es arbitrary: f)
  case (Cons e es)
  then show ?case using tls_place_wf [of f "fst e" "snd e"] by fastforce
qed simp

lemma scan_unfold:
  assumes "ready \<le> length buf"
  shows "scan_records buf ready hello offset =
    (if ready - offset < 5 then Got More
     else if buf ! offset \<noteq> 0x16 \<or> buf ! (offset + 1) \<noteq> 3 then Got Refuse
     else
       let size = unat (u16_be (buf ! (offset + 3)) (buf ! (offset + 4)));
           hello' = hello @ take size (drop (offset + 5) buf) in
       if size = 0 \<or> TLS_MAX_HELLO < size \<or> TLS_MAX_HELLO < length hello + size then Got Refuse
       else if ready < offset + 5 + size then Got More
       else if length hello' < 4 then scan_records buf ready hello' (offset + 5 + size)
       else if hello' ! 0 \<noteq> 1 \<or> TLS_MAX_HELLO < hello_size hello' then Got Refuse
       else if hello_size hello' \<le> length hello' then Got (Hello (take (hello_size hello') hello'))
       else scan_records buf ready hello' (offset + 5 + size))"
proof (cases "ready - offset < 5")
  case True
  then show ?thesis by (subst scan_records.simps) simp
next
  case False
  then have "idx buf (offset + k) = Got (buf ! (offset + k))" if "k < 5" for k
    using assms that by simp
  from this [of 0] this [of 1] this [of 3] this [of 4]
  have at: "idx buf offset = Got (buf ! offset)" "idx buf (offset + 1) = Got (buf ! (offset + 1))"
    "idx buf (offset + 3) = Got (buf ! (offset + 3))" "idx buf (offset + 4) = Got (buf ! (offset + 4))"
    by simp_all
  note total = hello_total_Got
  have cut: "slice buf a (a + n) = Got (take n (drop a buf))" if "\<not> ready < a + n" for a n
    using that assms by simp
  have whole: "slice h 0 n = Got (take n h)" if "n \<le> length h" for h :: bytes and n
    using that by simp
  show ?thesis
    by (subst scan_records.simps)
      (simp only: at andthen.simps Let_def False total cut whole if_False cong: if_cong split: if_split, blast?)
qed

lemma scan_records_safe:
  assumes "ready \<le> length buf"
  shows "\<exists>r. scan_records buf ready hello offset = Got r"
  using assms
proof (induction "ready - offset" arbitrary: hello offset rule: less_induct)
  case less
  show ?case
    using less.hyps [of "offset + 5 + unat (u16_be (buf ! (offset + 3)) (buf ! (offset + 4)))"] less.prems
    by (simp add: scan_unfold [OF less.prems] Let_def)
qed

section \<open>The flow table: no panic, bounded, every name a host name\<close>

lemma tls_scan_wf:
  assumes "flow_wf f"
  shows "\<exists>r f'. tls_scan f = Got (r, f') \<and> flow_wf f' \<and> (\<forall>s. r = Some s \<longrightarrow> host_name s \<and> fl_done f')"
proof (cases "fl_done f")
  case True
  then show ?thesis using assms by (simp add: tls_scan_def)
next
  case False
  then obtain r where "scan_records (fl_buf f) (fl_ready f) [] 0 = Got r"
    using assms scan_records_safe by (meson flow_wf_def)
  then show ?thesis
    using assms False by (cases r) (auto simp: tls_scan_def dest: client_hello_host)
qed

lemma tls_add_wf:
  assumes "flow_wf f"
  shows "\<exists>r f'. tls_add s data f = Got (r, f') \<and> flow_wf f' \<and> (\<forall>n. r = Some n \<longrightarrow> host_name n \<and> fl_done f')"
proof (cases "fl_done f \<or> data = [] \<or> TLS_MAX_STREAM < length data")
  case True
  then show ?thesis using assms by (simp add: tls_add_def)
next
  case go: False
  show ?thesis
  proof (cases "fl_base f = None \<and> get_at data 0 \<noteq> Some 0x16")
    case True
    have "flow_wf (f\<lparr>fl_pending := fl_pending f @ [(s, data)]\<rparr>)"
      if "length (fl_pending f) < 16 \<and> sum_list (map (\<lambda>e. length (snd e)) (fl_pending f)) + length data \<le> TLS_MAX_STREAM"
      using assms that by (auto simp: flow_wf_def)
    then show ?thesis using assms True go by (auto simp: tls_add_def Let_def simp del: get_at_Some)
  next
    case False
    let ?f0 = "f\<lparr>fl_base := Some s, fl_pending := []\<rparr>"
    have "flow_wf ?f0" using assms by (auto simp: flow_wf_def)
    then obtain f1 where f1: "(if fl_base f = None then tls_place_all (fl_pending f) ?f0 else Got f) = Got f1" "flow_wf f1"
      using assms tls_place_all_wf [of ?f0 "fl_pending f"] by (cases "fl_base f = None") auto
    obtain f2 where f2: "tls_place s data f1 = Got f2" "flow_wf f2"
      using tls_place_wf [OF f1(2)] by blast
    have "tls_add s data f = tls_scan f2"
      unfolding tls_add_def if_not_P [OF go] if_not_P [OF False] f1(1) andthen.simps f2(1) ..
    then show ?thesis using tls_scan_wf [OF f2(2)] by simp
  qed
qed

definition tls_table_wf :: "(flow_key, tls_flow) hmap \<Rightarrow> bool" where
  "tls_table_wf flows \<longleftrightarrow> hm_wf flows \<and> length flows \<le> TLS_MAX_FLOWS
     \<and> (\<forall>k f. hm_get flows k = Some f \<longrightarrow> flow_wf f)"

interpretation tls_table: bounded_table TLS_MAX_FLOWS tls_room
proof
  fix m :: "(flow_key, tls_flow) hmap" and k k' v
  show "hm_wf m \<Longrightarrow> hm_wf (tls_room k m)"
    by (auto simp: tls_room_def hmap split: option.splits)
  show "hm_has m k \<Longrightarrow> tls_room k m = m"
    by (simp add: tls_room_def)
  show "hm_wf m \<Longrightarrow> hm_get (tls_room k m) k' = Some v \<Longrightarrow> hm_get m k' = Some v"
    by (auto simp: tls_room_def hmap split: option.splits if_splits)
  assume "length m \<le> TLS_MAX_FLOWS" "\<not> hm_has m k"
  then show "length (tls_room k m) < TLS_MAX_FLOWS"
  proof (cases "min_entry fl_seen m")
    case None
    then show ?thesis using \<open>\<not> hm_has m k\<close> by (simp add: tls_room_def TLS_MAX_FLOWS_def)
  next
    case (Some e)
    then have "hm_has m (fst e)" using min_entry_Some [OF Some] by (simp add: hm_has_def)
    then have "length (hm_del (fst e) m) < length m" by (rule length_hm_del_less)
    then show ?thesis using Some \<open>length m \<le> TLS_MAX_FLOWS\<close> \<open>\<not> hm_has m k\<close>
      by (simp add: tls_room_def)
  qed
qed

lemma tls_table_wf_del: "tls_table_wf m \<Longrightarrow> tls_table_wf (hm_del k m)"
  using length_hm_del [of k m] by (auto simp: tls_table_wf_def hmap split: if_splits)

lemma tls_table_wf_put:
  assumes "tls_table_wf m" and "flow_wf f"
  shows "tls_table_wf (hm_put k f (tls_room k m))"
  using assms tls_table.insert_bound [of m k f] tls_table.insert_wf [of m k f]
    tls_table.insert_lookup [of k f m] tls_table.insert_others [of m _ k f]
  unfolding tls_table_wf_def by (metis option.inject)

lemma tls_table_wf_room_get:
  "tls_table_wf m \<Longrightarrow> hm_get (tls_room k m) k' = Some f \<Longrightarrow> flow_wf f"
  unfolding tls_table_wf_def using tls_table.room_subset by blast

lemma tls_feed_wf:
  assumes "tls_table_wf flows"
  shows "\<exists>r flows'. tls_feed now now' key s flags data flows = Got (r, flows') \<and> tls_table_wf flows'
     \<and> (\<forall>n. r = Some n \<longrightarrow> host_name n)"
proof (cases "flags AND 4 \<noteq> 0")
  case True
  then show ?thesis using assms tls_table_wf_del by (simp add: tls_feed_def)
next
  case no_reset: False
  let ?syn = "flags AND 2 \<noteq> 0"
  let ?flows2 = "if ?syn then hm_del key (tls_expire now key flows) else tls_expire now key flows"
  let ?flows3 = "tls_room key ?flows2"
  let ?f0 = "case hm_get ?flows3 key of None \<Rightarrow> tls_new_flow ?syn s now' | Some f \<Rightarrow> f"
  have wf2: "tls_table_wf ?flows2"
    using assms tls_table_wf_del by (auto simp: tls_expire_def split: option.splits)
  show ?thesis
  proof (cases "\<not> ?syn \<and> data = []")
    case True
    then have "tls_feed now now' key s flags data flows = Got (None, ?flows2)"
      using no_reset by (simp add: tls_feed_def Let_def)
    then show ?thesis using wf2 by simp
  next
    case False
    have "flow_wf (tls_new_flow ?syn s now')" by (simp add: flow_wf_def tls_new_flow_def)
    then have "flow_wf ?f0"
      using tls_table_wf_room_get [OF wf2] by (auto split: option.splits)
    then have "flow_wf (?f0\<lparr>fl_seen := now'\<rparr>)" by (simp add: flow_wf_def)
    then obtain r f' where add: "tls_add (s + (if ?syn then 1 else 0)) data (?f0\<lparr>fl_seen := now'\<rparr>) = Got (r, f')"
      "flow_wf f'" "\<forall>n. r = Some n \<longrightarrow> host_name n"
      using tls_add_wf by blast
    have put: "tls_table_wf (hm_put key f' ?flows3)" using wf2 add(2) by (rule tls_table_wf_put)
    have "tls_feed now now' key s flags data flows = Got (r, if flags AND 1 \<noteq> 0
        then hm_del key (hm_put key f' ?flows3) else hm_put key f' ?flows3)"
      unfolding tls_feed_def Let_def using no_reset False add(1) by (simp only: if_False andthen.simps fst_conv snd_conv)
    then show ?thesis using add(3) put tls_table_wf_del by simp
  qed
qed

section \<open>Any order of segments gives the same name\<close>

text \<open>
  \<open>S\<close> is what the sender wrote; a segment is an offset and a length into it, carried with
  the sequence number \<open>base + offset\<close> modulo \<open>2 ^ 32\<close>. \<open>holds S base cov f\<close> says that
  the flow has exactly the bytes at the offsets \<open>cov\<close>.
\<close>

definition segment :: "bytes \<Rightarrow> u32 \<Rightarrow> nat \<times> nat \<Rightarrow> u32 \<times> bytes" where
  "segment S base e = (base + word_of_nat (fst e), take (snd e) (drop (fst e) S))"

definition seg_ok :: "bytes \<Rightarrow> nat \<times> nat \<Rightarrow> bool" where
  "seg_ok S e \<longleftrightarrow> 0 < snd e \<and> fst e + snd e \<le> length S"

definition seg_span :: "nat \<times> nat \<Rightarrow> nat set" where
  "seg_span e = {fst e ..< fst e + snd e}"

definition holds :: "bytes \<Rightarrow> u32 \<Rightarrow> nat set \<Rightarrow> tls_flow \<Rightarrow> bool" where
  "holds S base cov f \<longleftrightarrow> fl_base f = Some base \<and> \<not> fl_done f
     \<and> sparse S cov (fl_buf f) (fl_filled f) (fl_ready f)"

lemma holds_fresh: "holds S base {} (tls_new_flow True (base - 1) now)"
  by (simp add: holds_def tls_new_flow_def sparse_empty)

lemma tls_place_holds:
  assumes f: "holds S base cov f" and ok: "seg_ok S e" and S: "length S \<le> TLS_MAX_STREAM"
  shows "\<exists>f'. tls_place (fst (segment S base e)) (snd (segment S base e)) f = Got f'
    \<and> holds S base (cov \<union> seg_span e) f'"
proof -
  obtain o' n where e: "e = (o', n)" by (cases e)
  let ?data = "take n (drop o' S)"
  have o: "o' < TLS_MAX_STREAM" "o' + n \<le> length S" "0 < n" and len: "length ?data = n"
    using ok S e by (auto simp: seg_ok_def)
  then have off: "unat (base + word_of_nat o' - base) = o'"
    by (simp add: unat_of_nat TLS_MAX_STREAM_def)
  let ?n = "max (length (fl_buf f)) (o' + n)"
  let ?buf = "resize ?n 0 (fl_buf f)"
  let ?filled = "resize ?n False (fl_filled f)"
  have old: "sparse S cov ?buf ?filled (fl_ready f)"
    using f by (intro sparse_resize) (auto simp: holds_def)
  have lens: "length (fl_filled f) = length (fl_buf f)" using f by (simp add: holds_def sparse_def)
  let ?buf' = "overlay o' ?data ?buf"
  let ?filled' = "overlay o' (replicate (length ?data) True) ?filled"
  have placed: "place_bytes o' ?data ?buf ?filled = Got (Some (?buf', ?filled'))"
  proof (rule place_bytes_consistent)
    fix j assume j: "j < length ?data" "?filled ! (o' + j)"
    then have "o' + j \<in> cov" using sparse_filled [OF old, of "o' + j"] len by auto
    then show "?buf ! (o' + j) = ?data ! j"
      using old j o unfolding sparse_def by (auto simp: len)
  qed (use o in auto)
  let ?f' = "f\<lparr>fl_buf := ?buf', fl_filled := ?filled', fl_ready := advance ?filled' (fl_ready f)\<rparr>"
  have "holds S base (cov \<union> seg_span e) ?f'"
    using f sparse_place [OF old, of o' n] o by (simp add: holds_def seg_span_def e len)
  moreover have "tls_place (fst (segment S base e)) (snd (segment S base e)) f = Got ?f'"
    using f o placed off lens S unfolding holds_def
    by (simp add: tls_place_def segment_def e Let_def len)
  ultimately show ?thesis by blast
qed

lemma scan_records_prefix:
  assumes "take ready buf = take ready S" and "ready \<le> length buf" and "ready \<le> length S"
  shows "scan_records buf ready hello offset = scan_records S ready hello offset"
proof (induction "ready - offset" arbitrary: hello offset rule: less_induct)
  case less
  have at: "buf ! i = S ! i" if "i < ready" for i
    using that assms(1) by (metis nth_take)
  have cut: "take n (drop a buf) = take n (drop a S)" if "a + n \<le> ready" for a n
  proof -
    have "take n (drop a buf) = take n (drop a (take ready buf))"
      using that by (simp add: drop_take min_def)
    also have "\<dots> = take n (drop a S)"
      unfolding assms(1) using that by (simp add: drop_take min_def)
    finally show ?thesis .
  qed
  show ?case
  proof (cases "ready - offset < 5")
    case True
    then show ?thesis by (simp add: scan_records.simps [of _ ready])
  next
    case False
    then have heads: "buf ! offset = S ! offset" "buf ! (offset + 1) = S ! (offset + 1)"
      "buf ! (offset + 3) = S ! (offset + 3)" "buf ! (offset + 4) = S ! (offset + 4)"
      by (simp_all add: at)
    let ?size = "unat (u16_be (S ! (offset + 3)) (S ! (offset + 4)))"
    have "take ?size (drop (offset + 5) buf) = take ?size (drop (offset + 5) S)"
      if "\<not> ready < offset + 5 + ?size"
      using that by (intro cut) simp
    moreover have "scan_records buf ready h (offset + 5 + ?size) = scan_records S ready h (offset + 5 + ?size)"
      if "?size \<noteq> 0" for h
      using less that False by simp
    ultimately show ?thesis
      unfolding scan_unfold [OF assms(2), of hello offset] scan_unfold [OF assms(3), of hello offset] heads Let_def
      by simp
  qed
qed

text \<open>A whole handshake message within the limit, and the records that carry its fragments.\<close>

definition hello_message :: "bytes \<Rightarrow> bool" where
  "hello_message msg \<longleftrightarrow> 4 \<le> length msg \<and> length msg \<le> TLS_MAX_HELLO \<and> msg ! 0 = 1
     \<and> hello_size msg = length msg"

definition records :: "u8 \<Rightarrow> bytes list \<Rightarrow> bytes" where
  "records minor frs = concat (map (enc_record minor) frs)"

lemma records_head:
  fixes fr :: bytes
  assumes "length fr < 65536" and "S = pre @ enc_record minor fr @ post"
  shows "S ! length pre = 0x16" "S ! (length pre + 1) = 3"
    "unat (u16_be (S ! (length pre + 3)) (S ! (length pre + 4))) = length fr"
    "take (length fr) (drop (length pre + 5) S) = fr"
  using assms by (simp_all add: enc_record_def enc_vec_2 nth_append u16_be_bytes)

lemma scan_records_message:
  assumes msg: "hello_message msg" and nonempty: "\<forall>fr \<in> set frs. fr \<noteq> []"
    and parts: "h @ concat frs = msg" and more: "length h < length msg"
    and S: "S = pre @ records minor frs @ post" and ready: "ready \<le> length S"
  shows "scan_records S ready h (length pre)
    = Got (if ready < length pre + length (records minor frs) then More else Hello msg)"
  using nonempty parts more S
proof (induction frs arbitrary: h pre)
  case Nil
  then show ?case by simp
next
  case (Cons fr frs)
  let ?n = "length fr"
  have max: "length msg \<le> TLS_MAX_HELLO" and whole: "length msg = length h + ?n + length (concat frs)"
    using msg Cons.prems(2) by (auto simp: hello_message_def)
  have n: "0 < ?n" "?n < 65536" "\<not> TLS_MAX_HELLO < ?n" "\<not> TLS_MAX_HELLO < length h + ?n"
    using Cons.prems(1) max whole by (auto simp: TLS_MAX_HELLO_def)
  have split: "S = pre @ enc_record minor fr @ (records minor frs @ post)"
    using Cons.prems(4) by (simp add: records_def)
  have len: "length (records minor (fr # frs)) = 5 + ?n + length (records minor frs)"
    by (simp add: records_def enc_record_def enc_vec_2)
  note head = records_head [OF n(2) split]
  show ?case
  proof (cases "ready < length pre + 5 + ?n")
    case True
    then show ?thesis
      unfolding scan_unfold [OF ready, of h "length pre"] head Let_def
      using n len by simp
  next
    case False
    have rest: "length (pre @ enc_record minor fr) = length pre + 5 + ?n"
      by (simp add: enc_record_def enc_vec_2)
    show ?thesis
    proof (cases "length (h @ fr) < length msg")
      case True
      have rec: "scan_records S ready (h @ fr) (length pre + 5 + ?n)
        = Got (if ready < length pre + length (records minor (fr # frs)) then More else Hello msg)"
        using Cons.IH [of "h @ fr" "pre @ enc_record minor fr"] Cons.prems split True len rest
        by (simp add: add.assoc)
      have "hello_size (h @ fr) = length msg \<and> (h @ fr) ! 0 = 1" if "\<not> length (h @ fr) < 4"
        using hello_size_prefix [of "h @ fr" "concat frs"] that msg Cons.prems(2)
        by (simp add: hello_message_def)
      then show ?thesis
        unfolding scan_unfold [OF ready, of h "length pre"] head Let_def rec
        using n False True max by auto
    next
      case False': False
      then have "concat frs = []" and h: "h @ fr = msg"
        using whole Cons.prems(2) by auto
      then have "frs = []" using Cons.prems(1) by (cases frs) auto
      then have end_at: "length pre + length (records minor (fr # frs)) = length pre + 5 + ?n"
        using len by (simp add: records_def)
      show ?thesis
        unfolding scan_unfold [OF ready, of h "length pre"] head Let_def h end_at
        using n False max msg by (simp add: hello_message_def)
    qed
  qed
qed

definition tls_adds :: "(u32 \<times> bytes) list \<Rightarrow> tls_flow \<Rightarrow> (string option list \<times> tls_flow) fallible" where
  "tls_adds = add_all (\<lambda>e. tls_add (fst e) (snd e))"

lemma tls_add_done: "fl_done f \<Longrightarrow> tls_add s data f = Got (None, f)"
  by (simp add: tls_add_def)

text \<open>What a sender writes: record version, fragments of the message, what follows, the base.\<close>

record tls_stream =
  ts_minor :: u8
  ts_frags :: "bytes list"
  ts_post :: bytes
  ts_base :: u32

definition ts_bytes :: "tls_stream \<Rightarrow> bytes" where
  "ts_bytes c = records (ts_minor c) (ts_frags c) @ ts_post c"

definition ts_good :: "tls_stream \<Rightarrow> bool" where
  "ts_good c \<longleftrightarrow> hello_message (concat (ts_frags c)) \<and> (\<forall>fr \<in> set (ts_frags c). fr \<noteq> [])
     \<and> length (ts_bytes c) \<le> TLS_MAX_STREAM"

definition ts_extent :: "tls_stream \<Rightarrow> nat" where
  "ts_extent c = length (records (ts_minor c) (ts_frags c))"

lemma ts_extent_pos: "ts_good c \<Longrightarrow> 0 < ts_extent c"
  by (cases "ts_frags c") (auto simp: ts_good_def ts_extent_def hello_message_def records_def enc_record_def)

lemma tls_add_segment:
  assumes c: "ts_good c" and f: "holds (ts_bytes c) (ts_base c) cov f" and ok: "seg_ok (ts_bytes c) e"
  shows "\<exists>f'. tls_add (fst (segment (ts_bytes c) (ts_base c) e)) (snd (segment (ts_bytes c) (ts_base c) e)) f =
      Got (if {..<ts_extent c} \<subseteq> cov \<union> seg_span e then client_hello_sni (concat (ts_frags c)) else None, f')
    \<and> (if {..<ts_extent c} \<subseteq> cov \<union> seg_span e then fl_done f'
       else holds (ts_bytes c) (ts_base c) (cov \<union> seg_span e) f')"
proof -
  let ?S = "ts_bytes c"
  let ?s = "segment ?S (ts_base c) e"
  let ?cov = "cov \<union> seg_span e"
  let ?msg = "concat (ts_frags c)"
  have msg: "hello_message ?msg" and frs: "\<forall>fr \<in> set (ts_frags c). fr \<noteq> []" and max: "length ?S \<le> TLS_MAX_STREAM"
    using c by (auto simp: ts_good_def)
  obtain f1 where place: "tls_place (fst ?s) (snd ?s) f = Got f1" and f1: "holds ?S (ts_base c) ?cov f1"
    using tls_place_holds [OF f ok max] by blast
  have data: "snd ?s \<noteq> []" "\<not> TLS_MAX_STREAM < length (snd ?s)"
    using ok max by (auto simp: segment_def seg_ok_def)
  have add: "tls_add (fst ?s) (snd ?s) f = tls_scan f1"
    using f data place by (simp add: tls_add_def holds_def)
  have sp: "sparse ?S ?cov (fl_buf f1) (fl_filled f1) (fl_ready f1)" and live: "\<not> fl_done f1"
    using f1 by (auto simp: holds_def)
  note ready = sparse_ready [OF sp]
  have whole: "[] @ ?msg = ?msg" "length ([] :: bytes) < length ?msg"
    "?S = [] @ records (ts_minor c) (ts_frags c) @ ts_post c"
    using msg unfolding hello_message_def by (simp_all only: ts_bytes_def append_Nil append_assoc list.size) linarith
  have "scan_records (fl_buf f1) (fl_ready f1) [] 0 = scan_records ?S (fl_ready f1) [] 0"
    using ready(3,1,2) by (rule scan_records_prefix)
  also have "\<dots> = Got (if fl_ready f1 < ts_extent c then More else Hello ?msg)"
    using scan_records_message [OF msg frs whole ready(2)] by (simp only: ts_extent_def list.size add_0)
  finally have scan: "scan_records (fl_buf f1) (fl_ready f1) [] 0 = \<dots>" .
  show ?thesis
    using f1 live scan sparse_less_extent [OF sp, of "ts_extent c"] unfolding add tls_scan_def by auto
qed

interpretation tls_pieces: reassembler ts_good "\<lambda>c. seg_ok (ts_bytes c)" seg_span ts_extent
    "\<lambda>c. client_hello_sni (concat (ts_frags c))" "\<lambda>c. holds (ts_bytes c) (ts_base c)" "\<lambda>_. fl_done"
    "\<lambda>c e. tls_add (fst (segment (ts_bytes c) (ts_base c) e)) (snd (segment (ts_bytes c) (ts_base c) e))"
  by unfold_locales (rule tls_add_segment, auto simp: tls_add_done)

text \<open>A retransmission that contradicts the stored bytes ends the flow without a name.\<close>

lemma tls_add_conflict:
  assumes wf: "flow_wf f" and base: "fl_base f = Some base" and live: "\<not> fl_done f"
    and j: "j < length data" "unat (s - base) + length data \<le> TLS_MAX_STREAM"
    and old: "unat (s - base) + j < length (fl_buf f)" "fl_filled f ! (unat (s - base) + j)"
      "fl_buf f ! (unat (s - base) + j) \<noteq> data ! j"
  shows "tls_add s data f = Got (None, tls_finish f)"
proof -
  let ?o = "unat (s - base)"
  let ?n = "max (length (fl_buf f)) (?o + length data)"
  have lens: "length (fl_filled f) = length (fl_buf f)" using wf by (simp add: flow_wf_def)
  have "place_bytes ?o data (resize ?n 0 (fl_buf f)) (resize ?n False (fl_filled f)) = Got None"
    using old lens j by (intro place_bytes_conflict [of _ _ _ _ j]) (auto simp: nth_resize)
  then have "tls_place s data f = Got (tls_finish f)"
    using base lens j by (simp add: tls_place_def Let_def)
  then show ?thesis
    using base live j by (auto simp: tls_add_def tls_scan_def)
qed

section \<open>Properties\<close>

text \<open>
  TCP reassembly does not depend on the order of segments: when a client's ClientHello is
  cut into TLS records in any way and the bytes travel in segments of any size, in any order,
  with any repetition and overlap, and with sequence numbers that may wrap around, then exactly
  one of the segments, the one that completes the message, yields the name of the message, and
  all the others yield nothing.
\<close>

theorem tls_any_order:
  assumes "ts_good c" and "\<forall>e \<in> set segs. seg_ok (ts_bytes c) e"
    and "{..<ts_extent c} \<subseteq> (\<Union>e \<in> set segs. seg_span e)"
  shows "\<exists>k f'. k < length segs \<and> fl_done f'
    \<and> tls_adds (map (segment (ts_bytes c) (ts_base c)) segs) (tls_new_flow True (ts_base c - 1) now)
      = Got (replicate k None @ client_hello_sni (concat (ts_frags c)) # replicate (length segs - Suc k) None, f')"
  unfolding tls_adds_def add_all_map
  using tls_pieces.any_order [OF assms(1) holds_fresh assms(2)] assms(3) ts_extent_pos [OF assms(1)]
  by (simp add: lessThan_empty_iff)

definition sample_stream :: tls_stream where
  "sample_stream = \<lparr>ts_minor = 1, ts_frags = [[1, 0], [0, 2, 7, 8]], ts_post = [5], ts_base = - 3\<rparr>"

theorem tls_any_order_witness:
  "\<exists>k f'. k < length [(6 :: nat, 10 :: nat), (0, 8), (7, 2)] \<and> fl_done f'
    \<and> tls_adds (map (segment (ts_bytes sample_stream) (ts_base sample_stream)) [(6, 10), (0, 8), (7, 2)])
        (tls_new_flow True (ts_base sample_stream - 1) 0)
      = Got (replicate k None @ client_hello_sni (concat (ts_frags sample_stream))
          # replicate (length [(6 :: nat, 10 :: nat), (0, 8), (7, 2)] - Suc k) None, f')"
proof -
  have len: "ts_extent sample_stream = 16" "length (ts_bytes sample_stream) = 17"
    by (simp_all add: ts_extent_def ts_bytes_def sample_stream_def records_def enc_record_def enc_vec_2)
  then have "ts_good sample_stream"
    unfolding ts_good_def len(2)
    by (simp add: sample_stream_def hello_message_def hello_size_def TLS_MAX_HELLO_def TLS_MAX_STREAM_def)
  then show ?thesis
    by (rule tls_any_order) (auto simp: len seg_ok_def seg_span_def)
qed

text \<open>
  No TCP segment, whatever its flags, sequence number and bytes, makes the reassembly
  index out of range: from any well-formed table the segment is processed, at most 256 flows
  are kept, each with at most 32 KiB of data and 16 held segments, and a name that comes out is
  a host name.
\<close>

theorem tls_feed_safe:
  assumes "tls_table_wf flows"
  shows "\<exists>r flows'. tls_feed now now' key s flags data flows = Got (r, flows') \<and> tls_table_wf flows'
     \<and> (\<forall>n. r = Some n \<longrightarrow> host_name n)"
  using assms by (rule tls_feed_wf)

theorem tls_feed_safe_witness:
  "\<exists>r flows'. tls_feed 0 0 (V4 1 2 3 4, 5, V4 6 7 8 9, 443) (- 1) 2 [0x16, 3] [] = Got (r, flows')
     \<and> tls_table_wf flows' \<and> (\<forall>n. r = Some n \<longrightarrow> host_name n)"
  by (rule tls_feed_safe) (simp add: tls_table_wf_def)

text \<open>
  C31. Contradicting retransmissions give no name: if one byte of a segment differs from the
  byte already stored at its place, the segment yields nothing and the flow is finished, so no
  later segment of it yields a name either.
\<close>

theorem tls_conflict_no_name:
  assumes "flow_wf f" and "fl_base f = Some base" and "\<not> fl_done f"
    and "j < length data" and "unat (s - base) + length data \<le> TLS_MAX_STREAM"
    and "unat (s - base) + j < length (fl_buf f)" and "fl_filled f ! (unat (s - base) + j)"
    and "fl_buf f ! (unat (s - base) + j) \<noteq> data ! j"
  shows "tls_adds ((s, data) # es) f = Got (None # replicate (length es) None, tls_finish f)"
  using tls_add_conflict [OF assms] by (simp add: tls_adds_def add_all_inert tls_add_done)

definition sample_flow :: tls_flow where
  "sample_flow = \<lparr>fl_base = Some (- 1), fl_pending = [], fl_buf = [0x16, 3], fl_filled = [True, True],
     fl_ready = 2, fl_seen = 0, fl_done = False\<rparr>"

theorem tls_conflict_no_name_witness:
  "tls_adds [(0, [4]), (1, [1])] sample_flow = Got ([None, None], tls_finish sample_flow)"
  using tls_conflict_no_name [of sample_flow "- 1" 0 "[4]" 0 "[(1, [1])]"]
  by (simp add: sample_flow_def flow_wf_def TLS_MAX_STREAM_def)

end
