(* ===== verification/Quic.thy ===== *)
theory Quic
  imports Reassembly Net
begin

text \<open>
  The server name of QUIC Initial packets: \<^verbatim>\<open>src/src/quic.rs\<close>. The packages \<^verbatim>\<open>hkdf\<close>,
  \<^verbatim>\<open>sha2\<close> and \<^verbatim>\<open>aes_gcm\<close> are not part of the repository; they are the record
  \<open>crypto\<close>, an argument of the definitions that use them, and \<open>crypto_ok\<close> states the
  output lengths they document.
\<close>

section \<open>Versions and keys\<close>

record quic_version =
  qv_id :: u32
  qv_salt :: bytes
  qv_key :: string
  qv_iv :: string
  qv_hp :: string
  qv_initial :: u8
  qv_retry :: u8

definition VERSIONS :: "quic_version list" where
  "VERSIONS =
     [\<lparr>qv_id = 1,
       qv_salt = [0x38, 0x76, 0x2c, 0xf7, 0xf5, 0x59, 0x34, 0xb3, 0x4d, 0x17,
                  0x9a, 0xe6, 0xa4, 0xc8, 0x0c, 0xad, 0xcc, 0xbb, 0x7f, 0x0a],
       qv_key = ''quic key'', qv_iv = ''quic iv'', qv_hp = ''quic hp'', qv_initial = 0, qv_retry = 3\<rparr>,
      \<lparr>qv_id = 0x6b3343cf,
       qv_salt = [0x0d, 0xed, 0xe3, 0xde, 0xf7, 0x00, 0xa6, 0xdb, 0x81, 0x93,
                  0x81, 0xbe, 0x6e, 0x26, 0x9d, 0xcb, 0xf9, 0xbd, 0x2e, 0xd9],
       qv_key = ''quicv2 key'', qv_iv = ''quicv2 iv'', qv_hp = ''quicv2 hp'', qv_initial = 1, qv_retry = 0\<rparr>]"

definition QUIC_MAX_HELLO :: nat where "QUIC_MAX_HELLO = 16 * 1024"
definition QUIC_MAX_FLOWS :: nat where "QUIC_MAX_FLOWS = 256"
definition QUIC_TTL :: nat where "QUIC_TTL = 10 * 1000000000"

text \<open>
  HKDF-SHA256 (extract, expansion to a given number of bytes), the AES block function and the
  authenticated decryption of AES-128-GCM: key, nonce, associated data, ciphertext, tag.
\<close>

record crypto =
  hkdf_new :: "bytes \<Rightarrow> bytes \<Rightarrow> bytes"
  hkdf_from_prk :: "bytes \<Rightarrow> bytes option"
  hkdf_expand :: "bytes \<Rightarrow> bytes \<Rightarrow> nat \<Rightarrow> bytes option"
  aes_block :: "bytes \<Rightarrow> bytes \<Rightarrow> bytes"
  gcm_open :: "bytes \<Rightarrow> bytes \<Rightarrow> bytes \<Rightarrow> bytes \<Rightarrow> bytes \<Rightarrow> bytes option"

definition crypto_ok :: "crypto \<Rightarrow> bool" where
  "crypto_ok c \<longleftrightarrow>
     (\<forall>prk info n out. hkdf_expand c prk info n = Some out \<longrightarrow> length out = n)
     \<and> (\<forall>key block. length block = 16 \<longrightarrow> length (aes_block c key block) = 16)"

definition expand_label :: "crypto \<Rightarrow> bytes \<Rightarrow> string \<Rightarrow> nat \<Rightarrow> bytes option" where
  "expand_label c prk label n =
     (let len = be_bytes 2 n; full = [word_of_nat (6 + length label)] in
      hkdf_expand c prk (len @ full @ bytes_of ''tls13 '' @ bytes_of label @ [0]) n)"

definition secrets :: "crypto \<Rightarrow> quic_version \<Rightarrow> bytes \<Rightarrow> (bytes \<times> bytes \<times> bytes) option" where
  "secrets c v dcid = do {
     let initial = hkdf_new c (qv_salt v) dcid;
     secret \<leftarrow> expand_label c initial ''client in'' 32;
     client \<leftarrow> hkdf_from_prk c secret;
     key \<leftarrow> expand_label c client (qv_key v) 16;
     iv \<leftarrow> expand_label c client (qv_iv v) 12;
     hp \<leftarrow> expand_label c client (qv_hp v) 16;
     Some (key, iv, hp)}"

record quic_keys =
  qk_aead :: bytes
  qk_iv :: bytes
  qk_hp :: bytes

text \<open>\<^verbatim>\<open>new_from_slice\<close> refuses a key of the wrong length.\<close>

definition keys_new :: "crypto \<Rightarrow> quic_version \<Rightarrow> bytes \<Rightarrow> quic_keys option" where
  "keys_new c v dcid = do {
     (key, iv, hp) \<leftarrow> secrets c v dcid;
     if length key = 16 \<and> length hp = 16 then Some \<lparr>qk_aead = key, qk_iv = iv, qk_hp = hp\<rparr> else None}"

definition keys_nonce :: "quic_keys \<Rightarrow> u64 \<Rightarrow> bytes" where
  "keys_nonce k pn =
     take 4 (qk_iv k) @ map (\<lambda>(a, b). a XOR b) (zip (drop 4 (qk_iv k)) (be_bytes 8 (unat pn)))"

definition keys_mask :: "crypto \<Rightarrow> quic_keys \<Rightarrow> bytes \<Rightarrow> bytes option" where
  "keys_mask c k sample = (if length sample = 16 then Some (aes_block c (qk_hp k) sample) else None)"

section \<open>The header\<close>

definition varint :: "bytes \<Rightarrow> nat \<Rightarrow> (u64 \<times> nat) option" where
  "varint d p = do {
     first \<leftarrow> get_at d p;
     let n = (2 :: nat) ^ unat (drop_bit 6 first);
     rest \<leftarrow> get_range d (p + 1) (p + n);
     Some (fold (\<lambda>b v. push_bit 8 v OR ucast b) rest (ucast (first AND 0x3f)), n)}"

record quic_header =
  qh_version :: quic_version
  qh_initial :: bool
  qh_dcid :: bytes
  qh_pn_off :: nat
  qh_end :: nat

definition quic_header_of :: "bytes \<Rightarrow> quic_header option" where
  "quic_header_of d = do {
     first \<leftarrow> get_at d 0;
     if first AND 0x80 = 0 then None else do {
     id_bytes \<leftarrow> get_range d 1 5;
     version \<leftarrow> find (\<lambda>v. qv_id v = word_of_nat (be_nat id_bytes)) VERSIONS;
     let ptype = drop_bit 4 first AND 3;
     if ptype = qv_retry version then None else do {
     dcid_len \<leftarrow> get_at d 5;
     if 20 < dcid_len then None else do {
     dcid \<leftarrow> get_range d 6 (6 + unat dcid_len);
     let p = 6 + unat dcid_len;
     scid_len \<leftarrow> get_at d p;
     let p = p + (1 + unat scid_len);
     let initial = (ptype = qv_initial version);
     p \<leftarrow> (if initial then do { (token, n) \<leftarrow> varint d p; Some (p + (n + unat token)) } else Some p);
     (len, n) \<leftarrow> varint d p;
     let p = p + n;
     let fin = p + unat len;
     if fin \<le> length d
     then Some \<lparr>qh_version = version, qh_initial = initial, qh_dcid = dcid, qh_pn_off = p, qh_end = fin\<rparr>
     else None}}}}"

section \<open>Opening a packet\<close>

text \<open>The packet number closest to the next expected one (RFC 9000, A.3).\<close>

definition decode_number :: "u64 \<Rightarrow> nat \<Rightarrow> u64 option \<Rightarrow> u64" where
  "decode_number truncated bits largest =
     (let expected = (case largest of None \<Rightarrow> 0 | Some n \<Rightarrow> n + 1);
          window = push_bit bits 1;
          half = window div 2;
          candidate = (expected AND NOT (window - 1)) OR truncated in
      if candidate + half \<le> expected \<and> candidate < push_bit 62 1 - window then candidate + window
      else if expected + half < candidate \<and> window \<le> candidate then candidate - window
      else candidate)"

text \<open>The loop that unmasks the packet number bytes, over the indices \<open>is\<close>.\<close>

fun unmask_number :: "bytes \<Rightarrow> nat \<Rightarrow> nat list \<Rightarrow> bytes \<Rightarrow> u64 \<Rightarrow> (bytes \<times> u64) fallible" where
  "unmask_number mk pn_off [] pkt pn = Got (pkt, pn)"
| "unmask_number mk pn_off (i # is) pkt pn =
     andthen (idx mk (1 + i)) (\<lambda>m.
     andthen (idx pkt (pn_off + i)) (\<lambda>b.
       let b' = b XOR m in
       unmask_number mk pn_off is (pkt[pn_off + i := b']) (push_bit 8 pn OR ucast b')))"

definition open_packet :: "crypto \<Rightarrow> quic_keys \<Rightarrow> bytes \<Rightarrow> quic_header \<Rightarrow> u64 option \<Rightarrow> (bytes \<times> u64) fallible" where
  "open_packet c keys d h largest =
     andthen (slice d 0 (qh_end h)) (\<lambda>pkt0.
     andthen (of_option (get_range pkt0 (qh_pn_off h + 4) (qh_pn_off h + 20))) (\<lambda>sample.
     andthen (of_option (keys_mask c keys sample)) (\<lambda>mk.
     andthen (idx mk 0) (\<lambda>m0.
     andthen (idx pkt0 0) (\<lambda>b0.
     let b0' = b0 XOR (m0 AND 0x0f); pn_len = unat (b0' AND 3) + 1 in
     andthen (unmask_number mk (qh_pn_off h) [0..<pn_len] (pkt0[0 := b0']) 0) (\<lambda>r.
     let pkt = fst r;
         pn = decode_number (snd r) (pn_len * 8) largest;
         body = qh_pn_off h + pn_len in
     if qh_end h < 16 \<or> qh_end h - 16 < body then Absent
     else
       let tag_at = qh_end h - 16 in
       andthen (slice pkt tag_at (length pkt)) (\<lambda>tag.
       andthen (slice pkt 0 body) (\<lambda>aad.
       andthen (slice pkt body tag_at) (\<lambda>ciphertext.
       andthen (of_option (gcm_open c (qk_aead keys) (keys_nonce keys pn) aad ciphertext tag)) (\<lambda>plain.
         Got (plain, pn)))))))))))"

section \<open>Frames\<close>

fun skip_varints :: "bytes \<Rightarrow> nat \<Rightarrow> nat \<Rightarrow> nat option" where
  "skip_varints d p 0 = Some p"
| "skip_varints d p (Suc n) = (case varint d p of None \<Rightarrow> None | Some (v, k) \<Rightarrow> skip_varints d (p + k) n)"

definition ack_frame :: "bytes \<Rightarrow> u8 \<Rightarrow> nat \<Rightarrow> nat option" where
  "ack_frame d t p = do {
     p \<leftarrow> skip_varints d p 2;
     (ranges, n) \<leftarrow> varint d p;
     p \<leftarrow> skip_varints d (p + n) (1 + 2 * unat ranges);
     if t = 0x03 then skip_varints d p 3 else Some p}"

definition crypto_frame :: "bytes \<Rightarrow> nat \<Rightarrow> (nat \<times> bytes \<times> nat) option" where
  "crypto_frame d p = do {
     (off, n) \<leftarrow> varint d p;
     let p = p + n;
     (len, n) \<leftarrow> varint d p;
     let p = p + n;
     data \<leftarrow> get_range d p (p + unat len);
     Some (unat off, data, p + unat len)}"

definition close_frame :: "bytes \<Rightarrow> nat \<Rightarrow> nat option" where
  "close_frame d p = do {
     p \<leftarrow> skip_varints d p 2;
     (len, n) \<leftarrow> varint d p;
     Some (p + (n + unat len))}"

lemma skip_varints_ge: "skip_varints d p n = Some q \<Longrightarrow> p \<le> q"
proof (induction d p n rule: skip_varints.induct)
  case (2 d p n)
  then show ?case by (cases "varint d p") (fastforce split: prod.splits)+
qed simp

lemma frame_ge:
  "ack_frame d t p = Some q \<Longrightarrow> p \<le> q"
  "crypto_frame d p = Some (off, data, q) \<Longrightarrow> p \<le> q"
  "close_frame d p = Some q \<Longrightarrow> p \<le> q"
  by (auto simp: ack_frame_def crypto_frame_def close_frame_def bind_eq_Some_conv Let_def
      simp del: skip_varints.simps dest!: skip_varints_ge split: if_splits)

lemma frame_shrinks: "get_at d p = Some t \<Longrightarrow> p + 1 \<le> q \<Longrightarrow> length d - q < length d - p"
  by auto

function crypto_frames :: "bytes \<Rightarrow> nat \<Rightarrow> (nat \<times> bytes) list" where
  "crypto_frames d p =
     (case get_at d p of
        None \<Rightarrow> []
      | Some t \<Rightarrow>
          if t = 0x00 \<or> t = 0x01 then crypto_frames d (p + 1)
          else if t = 0x02 \<or> t = 0x03 then
            (case ack_frame d t (p + 1) of None \<Rightarrow> [] | Some q \<Rightarrow> crypto_frames d q)
          else if t = 0x06 then
            (case crypto_frame d (p + 1) of
               None \<Rightarrow> []
             | Some r \<Rightarrow> (fst r, fst (snd r)) # crypto_frames d (snd (snd r)))
          else if t = 0x1c then
            (case close_frame d (p + 1) of None \<Rightarrow> [] | Some q \<Rightarrow> crypto_frames d q)
          else [])"
  by pat_completeness auto
termination
  by (relation "measure (\<lambda>(d, p). length d - p)")
    (auto simp del: get_at_Some elim!: frame_shrinks dest: frame_ge)

declare crypto_frames.simps [simp del]


section \<open>Flows\<close>

record quic_flow =
  qf_buf :: bytes
  qf_filled :: "bool list"
  qf_ready :: nat
  qf_seen :: nat
  qf_done :: bool
  qf_largest :: "u64 option"

definition quic_finish :: "quic_flow \<Rightarrow> quic_flow" where
  "quic_finish f = f\<lparr>qf_done := True, qf_buf := [], qf_filled := []\<rparr>"

text \<open>\<^verbatim>\<open>buf[a..b].copy_from_slice(xs)\<close>: a panic when the range or the length does not fit.\<close>

definition copy_into :: "nat \<Rightarrow> nat \<Rightarrow> 'a list \<Rightarrow> 'a list \<Rightarrow> 'a list fallible" where
  "copy_into a b xs buf =
     (if a \<le> b \<and> b \<le> length buf \<and> length xs = b - a then Got (overlay a xs buf) else Panic)"

text \<open>Writing the piece: the buffer and the bitmap with it.\<close>

definition quic_write :: "nat \<Rightarrow> bytes \<Rightarrow> quic_flow \<Rightarrow> quic_flow fallible" where
  "quic_write off data f =
     (let fin = min (off + length data) QUIC_MAX_HELLO in
      if off < fin then
        let f' = (if length (qf_buf f) < fin
                  then f\<lparr>qf_buf := resize fin 0 (qf_buf f), qf_filled := resize fin False (qf_filled f)\<rparr>
                  else f) in
        andthen (slice data 0 (fin - off)) (\<lambda>piece.
        andthen (copy_into off fin piece (qf_buf f')) (\<lambda>buf.
        andthen (copy_into off fin (replicate (fin - off) True) (qf_filled f')) (\<lambda>filled.
          Got (f'\<lparr>qf_buf := buf, qf_filled := filled\<rparr>))))
      else Got f)"

definition quic_add :: "nat \<Rightarrow> bytes \<Rightarrow> quic_flow \<Rightarrow> (string option \<times> quic_flow) fallible" where
  "quic_add off data f =
     andthen (quic_write off data f) (\<lambda>f1.
     let f2 = f1\<lparr>qf_ready := advance (qf_filled f1) (qf_ready f1)\<rparr> in
     case get_range (qf_buf f2) 0 4 of
       None \<Rightarrow> Got (None, f2)
     | Some head \<Rightarrow>
         if qf_ready f2 < 4 then Got (None, f2)
         else
           andthen (hello_total head) (\<lambda>total.
           andthen (idx head 0) (\<lambda>h0.
           if h0 \<noteq> 1 \<or> QUIC_MAX_HELLO < total then Got (None, quic_finish f2)
           else if qf_ready f2 < total then Got (None, f2)
           else andthen (slice (qf_buf f2) 0 total) (\<lambda>msg. Got (client_hello_sni msg, quic_finish f2)))))"

text \<open>The loop over the frames of a packet; a later name replaces an earlier one.\<close>

fun quic_add_frames :: "(nat \<times> bytes) list \<Rightarrow> quic_flow \<Rightarrow> string option \<Rightarrow> (string option \<times> quic_flow) fallible" where
  "quic_add_frames [] f sni = Got (sni, f)"
| "quic_add_frames (e # es) f sni =
     (if qf_done f then Got (sni, f)
      else andthen (quic_add (fst e) (snd e) f) (\<lambda>r.
        quic_add_frames es (snd r) (case fst r of None \<Rightarrow> sni | Some s \<Rightarrow> Some s)))"

section \<open>The flow table\<close>

type_synonym quic_key = "IpAddr \<times> u16 \<times> bytes"
type_synonym quic_table = "(quic_key, quic_flow) hmap"

definition quic_room :: "nat \<Rightarrow> quic_key \<Rightarrow> quic_table \<Rightarrow> quic_table" where
  "quic_room now key flows =
     (if \<not> hm_has flows key \<and> QUIC_MAX_FLOWS \<le> length flows then
        let flows' = hm_retain (\<lambda>k f. now - qf_seen f < QUIC_TTL) flows in
        if QUIC_MAX_FLOWS \<le> length flows' then
          (case min_entry qf_seen flows' of None \<Rightarrow> flows' | Some old \<Rightarrow> hm_del (fst old) flows')
        else flows'
      else flows)"

text \<open>
  \<^verbatim>\<open>Assembler::flow\<close>: the table after it, and whether the caller gets the flow (it does not
  when the flow is done).
\<close>

definition quic_flow_at :: "nat \<Rightarrow> quic_key \<Rightarrow> quic_table \<Rightarrow> quic_flow option \<times> quic_table" where
  "quic_flow_at now key flows =
     (let flows1 = quic_room now key flows;
          f0 = (case hm_get flows1 key of
                  None \<Rightarrow> \<lparr>qf_buf = [], qf_filled = [], qf_ready = 0, qf_seen = now, qf_done = False, qf_largest = None\<rparr>
                | Some f \<Rightarrow> f);
          f = f0\<lparr>qf_seen := now\<rparr> in
      (if qf_done f then None else Some f, hm_put key f flows1))"

definition quic_expire :: "nat \<Rightarrow> quic_key \<Rightarrow> quic_table \<Rightarrow> quic_table" where
  "quic_expire now key flows =
     (case hm_get flows key of
        None \<Rightarrow> flows
      | Some f \<Rightarrow> if QUIC_TTL \<le> now - qf_seen f then hm_del key flows else flows)"

text \<open>
  What one packet of the datagram does: \<open>now\<close> is read for the expiry, \<open>now'\<close> for the
  flow.
\<close>

definition quic_packet :: "crypto \<Rightarrow> nat \<Rightarrow> nat \<Rightarrow> IpAddr \<Rightarrow> u16 \<Rightarrow> bytes \<Rightarrow> quic_header
    \<Rightarrow> quic_table \<Rightarrow> string option \<Rightarrow> (string option \<times> quic_table) fallible" where
  "quic_packet c now now' src sport d h flows sni =
     (let key = (src, sport, qh_dcid h);
          flows1 = quic_expire now key flows;
          largest = (case hm_get flows1 key of None \<Rightarrow> None | Some f \<Rightarrow> qf_largest f) in
      if \<not> qh_initial h then Got (sni, flows1)
      else
        case keys_new c (qh_version h) (qh_dcid h) of
          None \<Rightarrow> Got (sni, flows1)
        | Some keys \<Rightarrow>
            (case open_packet c keys d h largest of
               Panic \<Rightarrow> Panic
             | Absent \<Rightarrow> Got (sni, flows1)
             | Got (plain, pn) \<Rightarrow>
                 (case quic_flow_at now' key flows1 of
                    (None, flows2) \<Rightarrow> Got (sni, flows2)
                  | (Some flow, flows2) \<Rightarrow>
                      let flow1 = flow\<lparr>qf_largest :=
                            Some (case qf_largest flow of None \<Rightarrow> pn | Some old \<Rightarrow> max old pn)\<rparr> in
                      andthen (quic_add_frames (crypto_frames plain 0) flow1 sni) (\<lambda>r.
                        Got (fst r, hm_put key (snd r) flows2)))))"

lemma quic_header_end:
  "quic_header_of d = Some h \<Longrightarrow> 7 \<le> qh_end h \<and> qh_end h \<le> length d \<and> qh_pn_off h \<le> qh_end h"
  by (auto simp: quic_header_of_def bind_eq_Some_conv Let_def split: if_splits)

text \<open>\<open>clk i\<close> is the \<open>i\<close>-th reading of the clock.\<close>

function quic_feed :: "crypto \<Rightarrow> (nat \<Rightarrow> nat) \<Rightarrow> nat \<Rightarrow> IpAddr \<Rightarrow> u16 \<Rightarrow> bytes \<Rightarrow> quic_table
    \<Rightarrow> string option \<Rightarrow> (string option \<times> quic_table) fallible" where
  "quic_feed c clk i src sport d flows sni =
     (case quic_header_of d of
        None \<Rightarrow> Got (sni, flows)
      | Some h \<Rightarrow>
          andthen (quic_packet c (clk i) (clk (i + 1)) src sport d h flows sni) (\<lambda>r.
          andthen (slice d (qh_end h) (length d)) (\<lambda>rest.
            quic_feed c clk (i + 2) src sport rest (snd r) (fst r))))"
  by pat_completeness auto
termination
  by (relation "measure (\<lambda>(c, clk, i, src, sport, d, flows, sni). length d)")
    (auto dest!: quic_header_end)

declare quic_feed.simps [simp del]

section \<open>Packet numbers\<close>

lemma split_bits:
  fixes a b :: "'a :: len word"
  assumes "unat b < 2 ^ k" and "k \<le> LENGTH('a)"
  shows "unat ((a AND NOT (mask k)) OR b) = unat a div 2 ^ k * 2 ^ k + unat b"
proof -
  have disj: "(a AND NOT (mask k)) AND b = 0"
  proof (rule bit_word_eqI)
    fix n assume "n < LENGTH('a)"
    have "b = b AND mask k"
      using assms by (metis mod_less unat_and_mask unat_inject)
    then have "bit b n \<Longrightarrow> n < k" by (metis bit_and_iff bit_mask_iff)
    then show "bit ((a AND NOT (mask k)) AND b) n = bit (0 :: 'a word) n" by (auto simp: bit_simps)
  qed
  have "unat a div 2 ^ k * 2 ^ k + unat b < 2 ^ LENGTH('a)"
  proof -
    obtain j where j: "LENGTH('a) = k + j" using assms(2) le_Suc_ex by blast
    have "unat a < 2 ^ k * 2 ^ j"
      using unsigned_less [of a, where ?'a = nat] unfolding j by (simp add: power_add)
    then have "unat a div 2 ^ k < 2 ^ j" by (simp add: less_mult_imp_div_less mult.commute)
    then have "Suc (unat a div 2 ^ k) * 2 ^ k \<le> 2 ^ j * 2 ^ k" by (intro mult_right_mono) auto
    then show ?thesis using assms(1) unfolding j by (simp add: power_add mult.commute)
  qed
  moreover have "(a AND NOT (mask k)) OR b = (a AND NOT (mask k)) + b"
    using word_plus_and_or [of "a AND NOT (mask k)" b] disj by simp
  ultimately show ?thesis
    by (simp add: unat_word_ariths unat_and_not_mask)
qed

lemma closest_number:
  fixes e n w h c :: nat
  assumes w: "w = 2 * h" "0 < h" and near: "e < n + h" "n \<le> e + h"
    and c: "c = e div w * w + n mod w"
  shows "(if c + h \<le> e then c + w else if e + h < c \<and> w \<le> c then c - w else c) = n"
proof -
  have e: "e = e div w * w + e mod w" and n: "n = n div w * w + n mod w"
    by (simp_all only: div_mult_mod_eq)
  have m: "e mod w < w" "n mod w < w" using w by auto
  have "\<not> Suc (Suc (e div w)) \<le> n div w"
  proof
    assume "Suc (Suc (e div w)) \<le> n div w"
    then have "Suc (Suc (e div w)) * w \<le> n div w * w" by (rule mult_right_mono) simp
    then have "e div w * w + w + w \<le> n div w * w" by simp
    then show False using e n m near w by linarith
  qed
  moreover have "\<not> Suc (Suc (n div w)) \<le> e div w"
  proof
    assume "Suc (Suc (n div w)) \<le> e div w"
    then have "Suc (Suc (n div w)) * w \<le> e div w * w" by (rule mult_right_mono) simp
    then have "n div w * w + w + w \<le> e div w * w" by simp
    then show False using e n m near w by linarith
  qed
  ultimately consider "n div w = e div w" | "n div w = Suc (e div w)" | "e div w = Suc (n div w)"
    by linarith
  then show ?thesis
  proof cases
    case 1
    then have "c = n" using c n by simp
    then show ?thesis using near by simp
  next
    case 2
    then have "n = c + w" using c n by simp
    then show ?thesis using near w by simp
  next
    case 3
    then have "c = n + w" using c n by simp
    then show ?thesis using near w by simp
  qed
qed

definition expected_number :: "u64 option \<Rightarrow> nat" where
  "expected_number largest = (case largest of None \<Rightarrow> 0 | Some n \<Rightarrow> unat n + 1)"

lemma unat_2_pow_64: "k < 64 \<Longrightarrow> unat (2 ^ k :: u64) = 2 ^ k"
proof -
  assume "k < 64"
  then have "(2 :: nat) ^ k < 2 ^ 64" by (intro power_strict_increasing) auto
  moreover have "unat (2 ^ k :: u64) = take_bit 64 (push_bit k 1)"
    unfolding push_bit_of_1 [symmetric, where ?'a = "64 word"] unsigned_push_bit_eq by simp
  ultimately show ?thesis by (simp add: take_bit_eq_mod)
qed

lemma unat_pow2_64: "k < 64 \<Longrightarrow> unat (push_bit k 1 :: u64) = 2 ^ k"
  by (simp add: unat_2_pow_64)

lemma decode_number_eq:
  assumes bits: "0 < bits" "bits \<le> 32" and big: "unat n < 2 ^ 62" "expected_number largest \<le> 2 ^ 62"
    and near: "expected_number largest < unat n + 2 ^ bits div 2" "unat n \<le> expected_number largest + 2 ^ bits div 2"
  shows "decode_number (n AND mask bits) bits largest = n"
proof -
  let ?e = "case largest of None \<Rightarrow> 0 | Some n \<Rightarrow> n + 1"
  let ?w = "push_bit bits 1 :: u64"
  let ?c = "(?e AND NOT (?w - 1)) OR (n AND mask bits)"
  let ?W = "2 ^ bits :: nat"
  let ?H = "2 ^ bits div 2 :: nat"
  have W: "?W = 2 * ?H" "0 < ?H" "?W \<le> 2 ^ 32"
    using bits power_increasing [of bits 32 "2 :: nat"] by (cases bits; auto)+
  have w: "unat ?w = ?W" "unat (?w div 2) = ?H"
    using bits by (simp_all add: unat_2_pow_64 unat_div)
  have e: "unat ?e = expected_number largest"
    using big(2) by (auto simp: expected_number_def unat_word_ariths split: option.splits)
  have mask: "?w - 1 = mask bits" by (simp add: mask_eq_exp_minus_1 push_bit_eq_mult)
  have "unat (n AND mask bits) < ?W" by (simp add: unat_and_mask)
  then have c: "unat ?c = expected_number largest div ?W * ?W + unat n mod ?W"
    unfolding mask using bits by (subst split_bits) (auto simp: unat_and_mask e)
  have c_bound: "unat ?c < 2 ^ 62 + 2 ^ 32"
  proof -
    have "expected_number largest div ?W * ?W \<le> expected_number largest" by simp
    moreover have "unat n mod ?W < ?W" by simp
    ultimately show ?thesis using c big W by linarith
  qed
  note closest = closest_number [OF W(1,2) near c]
  have add: "unat (a + b) = unat a + unat b" if "unat a + unat b < 2 ^ 64" for a b :: u64
    using that by (simp add: unat_word_ariths)
  have top: "unat (push_bit 62 1 :: u64) = 2 ^ 62" by (rule unat_pow2_64) simp
  have sums: "unat (?c + ?w div 2) = unat ?c + ?H" "unat (?e + ?w div 2) = expected_number largest + ?H"
    "unat (?c + ?w) = unat ?c + ?W"
    using c_bound W big by (subst add; simp add: w e del: push_bit_of_1)+
  have "?w \<le> push_bit 62 1" unfolding word_le_nat_alt w top by (rule order_trans [OF W(3)]) simp
  then have top_w: "unat (push_bit 62 1 - ?w) = 2 ^ 62 - ?W"
    by (simp only: unat_sub w top)
  have up: "?c + ?w div 2 \<le> ?e \<and> ?c < push_bit 62 1 - ?w \<longleftrightarrow> unat ?c + ?H \<le> expected_number largest"
  proof -
    have "unat ?c < 2 ^ 62 - ?W" if "unat ?c + ?H \<le> expected_number largest"
      using closest that big c W by simp
    then show ?thesis unfolding word_le_nat_alt word_less_nat_alt sums top_w e by blast
  qed
  have down: "?e + ?w div 2 < ?c \<and> ?w \<le> ?c \<longleftrightarrow> expected_number largest + ?H < unat ?c \<and> ?W \<le> unat ?c"
    unfolding word_le_nat_alt word_less_nat_alt sums w ..
  have sub: "unat (?c - ?w) = unat ?c - ?W" if "?W \<le> unat ?c"
    using that by (subst unat_sub) (simp_all only: word_le_nat_alt w)
  have "unat (decode_number (n AND mask bits) bits largest) = unat n"
    unfolding decode_number_def Let_def up down closest [symmetric] c [symmetric]
    using sub sums(3) by (simp only: if_distrib [of unat] cong: if_cong conj_cong)
  then show ?thesis by simp
qed

section \<open>Variable-length integers\<close>

lemma be_nat_be_bytes: "be_nat (be_bytes n x) = x mod 256 ^ n"
  by (simp add: be_bytes_def be_nat_rev le_nat_le_bytes)

lemma shift_in_byte:
  fixes v :: u64 and b :: u8
  assumes "unat v * 256 + unat b < 2 ^ 64"
  shows "unat (push_bit 8 v OR ucast b) = unat v * 256 + unat b"
proof -
  have disj: "push_bit 8 v AND (ucast b :: u64) = 0"
    by (rule bit_word_eqI) (auto simp: bit_simps dest: bit_imp_le_length)
  have "unat (push_bit 8 v) = unat v * 256"
    using assms by (simp add: push_bit_eq_mult unat_word_ariths)
  moreover have "unat (ucast b :: u64) = unat b"
    by (simp add: unsigned_ucast_eq take_bit_eq_mod order.strict_trans2 [OF unat_u8_less])
  moreover have "push_bit 8 v OR ucast b = push_bit 8 v + ucast b"
    using word_plus_and_or [of "push_bit 8 v" "ucast b"] disj by simp
  ultimately show ?thesis using assms by (simp add: unat_word_ariths)
qed

lemma fold_bytes:
  fixes v :: u64 and bs :: bytes
  assumes "unat v * 256 ^ length bs + be_nat bs < 2 ^ 64"
  shows "unat (fold (\<lambda>b v. push_bit 8 v OR ucast b) bs v) = unat v * 256 ^ length bs + be_nat bs"
  using assms
proof (induction bs arbitrary: v)
  case (Cons b bs)
  let ?m = "256 ^ length bs :: nat"
  have le: "unat v * 256 + unat b \<le> (unat v * 256 + unat b) * ?m + be_nat bs" by (simp add: le_add1 trans_le_add1)
  have eq: "unat v * 256 ^ length (b # bs) + be_nat (b # bs) = (unat v * 256 + unat b) * ?m + be_nat bs"
    by (simp add: algebra_simps)
  then have "unat (push_bit 8 v OR ucast b) = unat v * 256 + unat b"
    using Cons.prems le by (intro shift_in_byte) linarith
  then show ?case using Cons eq by simp
qed simp

text \<open>The encoding of RFC 9000, section 16: two bits of length, then the value.\<close>

definition enc_varint :: "nat \<Rightarrow> nat \<Rightarrow> bytes" where
  "enc_varint k v = be_bytes (2 ^ k) (k * 2 ^ (8 * 2 ^ k - 2) + v)"

lemma word_of_nat_unat_64: "word_of_nat (unat w) = (w :: u64)"
  by simp

lemma varint_enc:
  assumes k: "k < 4" and v: "v < 2 ^ (8 * 2 ^ k - 2)" and d: "drop p d = enc_varint k v @ r" and p: "p \<le> length d"
  shows "varint d p = Some (word_of_nat v, 2 ^ k)"
proof -
  let ?n = "2 ^ k :: nat"
  obtain b rest where enc: "enc_varint k v = b # rest"
    by (cases "enc_varint k v") (auto simp: enc_varint_def dest: arg_cong [of _ _ length])
  have len: "length rest = ?n - 1"
    using arg_cong [OF enc, of length] by (simp add: enc_varint_def)
  let ?M = "256 ^ (?n - 1) :: nat"
  have pow: "(2 :: nat) ^ (8 * ?n - 2) = 64 * ?M" "256 ^ ?n = 256 * ?M"
  proof -
    obtain j where "?n = Suc j" by (metis not0_implies_Suc power_not_zero zero_neq_numeral)
    then have "8 * ?n - 2 = 6 + 8 * (?n - 1)" by simp
    then show "(2 :: nat) ^ (8 * ?n - 2) = 64 * ?M" by (simp add: power_add power_mult)
    show "256 ^ ?n = 256 * ?M" by (simp flip: power_Suc)
  qed
  have total: "unat b * ?M + be_nat rest = k * (64 * ?M) + v"
  proof -
    have "k * (64 * ?M) \<le> 3 * (64 * ?M)" using k by (intro mult_right_mono) auto
    then have "k * (64 * ?M) + v < 256 * ?M" using v unfolding pow by linarith
    then have "be_nat (enc_varint k v) = k * (64 * ?M) + v"
      by (simp only: enc_varint_def be_nat_be_bytes pow mod_less)
    then show ?thesis by (simp add: enc len)
  qed
  have rest: "be_nat rest < ?M" using be_nat_less [of rest] by (simp only: len)
  have b: "unat b = (k * (64 * ?M) + v) div ?M" unfolding total [symmetric] using rest by simp
  have k_b: "unat b div 64 = k"
  proof -
    have "unat b div 64 = (k * (64 * ?M) + v) div (?M * 64)" unfolding b by (simp add: div_mult2_eq)
    also have "\<dots> = k" using v unfolding pow by (simp add: mult.commute)
    finally show ?thesis .
  qed
  have v_b: "unat b mod 64 * ?M + be_nat rest = v"
  proof -
    have "unat b = k * 64 + unat b mod 64" using k_b by (metis div_mult_mod_eq)
    then have "unat b * ?M = k * 64 * ?M + unat b mod 64 * ?M" by (metis add_mult_distrib)
    then show ?thesis using total by simp
  qed
  have v64: "v < 2 ^ 62"
  proof -
    have "8 * ?n - 2 \<le> 62" using power_increasing [of k 3 "2 :: nat"] k by simp
    then have "(2 :: nat) ^ (8 * ?n - 2) \<le> 2 ^ 62" by (rule power_increasing) simp
    then show ?thesis using v by simp
  qed
  have first: "get_at d p = Some b" using d enc get_at_cursor by simp
  have range: "get_range d (p + 1) (p + ?n) = Some rest"
  proof -
    have "drop (p + 1) d = rest @ r" using drop_cursor [of p d "[b]" "rest @ r"] d enc by simp
    moreover have "p + 1 \<le> length d" using first by simp
    ultimately have "get_range d (p + 1) (p + 1 + length rest) = Some rest" by (rule get_range_cursor)
    then show ?thesis by (simp add: len del: get_range_Some)
  qed
  have "unat (ucast (b AND 0x3f) :: u64) = unat b mod 64"
  proof -
    have "(0x3f :: u8) = mask 6" by (simp add: mask_eq_exp_minus_1)
    then have "unat (b AND 0x3f) = unat b mod 64" by (simp only: unat_and_mask) simp
    then show ?thesis by (simp add: unsigned_ucast_eq take_bit_eq_mod mod_less)
  qed
  then have "unat (fold (\<lambda>b v. push_bit 8 v OR ucast b) rest (ucast (b AND 0x3f) :: u64)) = v"
    using v64 v_b by (subst fold_bytes) (simp_all add: len)
  then have "fold (\<lambda>b v. push_bit 8 v OR ucast b) rest (ucast (b AND 0x3f) :: u64) = word_of_nat v"
    by (metis word_of_nat_unat_64)
  then show ?thesis
    using first range k_b by (simp add: varint_def unat_drop_bit del: get_at_Some get_range_Some)
qed

section \<open>No panic, bounded tables, host names only\<close>

definition quic_flow_wf :: "quic_flow \<Rightarrow> bool" where
  "quic_flow_wf f \<longleftrightarrow> length (qf_filled f) = length (qf_buf f) \<and> length (qf_buf f) \<le> QUIC_MAX_HELLO
     \<and> (\<not> qf_done f \<longrightarrow> qf_ready f \<le> length (qf_buf f))"

lemma quic_finish_wf [simp]: "quic_flow_wf (quic_finish f)" "qf_done (quic_finish f)"
  by (simp_all add: quic_flow_wf_def quic_finish_def)

lemma quic_write_eq:
  assumes wf: "length (qf_filled f) = length (qf_buf f)" and off: "off < min (off + length data) QUIC_MAX_HELLO"
  shows "quic_write off data f =
    (let fin = min (off + length data) QUIC_MAX_HELLO; m = max (length (qf_buf f)) fin in
     Got (f\<lparr>qf_buf := overlay off (take (fin - off) data) (resize m 0 (qf_buf f)),
            qf_filled := overlay off (replicate (fin - off) True) (resize m False (qf_filled f))\<rparr>))"
proof -
  let ?fin = "min (off + length data) QUIC_MAX_HELLO"
  let ?m = "max (length (qf_buf f)) ?fin"
  let ?f' = "if length (qf_buf f) < ?fin
             then f\<lparr>qf_buf := resize ?fin 0 (qf_buf f), qf_filled := resize ?fin False (qf_filled f)\<rparr> else f"
  have f': "qf_buf ?f' = resize ?m 0 (qf_buf f)" "qf_filled ?f' = resize ?m False (qf_filled f)"
    "?f'\<lparr>qf_buf := b, qf_filled := c\<rparr> = f\<lparr>qf_buf := b, qf_filled := c\<rparr>" for b c
    using wf by (auto simp: resize_same)
  have piece: "slice data 0 (?fin - off) = Got (take (?fin - off) data)" by simp
  have "length (take (?fin - off) data) = ?fin - off" by simp
  then have copies: "copy_into off ?fin (take (?fin - off) data) (resize ?m 0 (qf_buf f))
      = Got (overlay off (take (?fin - off) data) (resize ?m 0 (qf_buf f)))"
    "copy_into off ?fin (replicate (?fin - off) True) (resize ?m False (qf_filled f))
      = Got (overlay off (replicate (?fin - off) True) (resize ?m False (qf_filled f)))"
    using off by (simp_all add: copy_into_def)
  show ?thesis
    unfolding quic_write_def Let_def if_P [OF off] f' piece andthen.simps copies ..
qed

lemma quic_write_wf:
  assumes "quic_flow_wf f"
  shows "\<exists>f'. quic_write off data f = Got f' \<and> quic_flow_wf f' \<and> qf_done f' = qf_done f
    \<and> qf_ready f' = qf_ready f \<and> length (qf_buf f) \<le> length (qf_buf f')"
proof (cases "off < min (off + length data) QUIC_MAX_HELLO")
  case True
  then show ?thesis
    using assms quic_write_eq [OF _ True] by (auto simp: quic_flow_wf_def Let_def)
next
  case False
  show ?thesis unfolding quic_write_def Let_def if_not_P [OF False] using assms by simp
qed

lemma quic_add_wf:
  assumes "quic_flow_wf f" and "\<not> qf_done f"
  shows "\<exists>r f'. quic_add off data f = Got (r, f') \<and> quic_flow_wf f' \<and> (\<forall>s. r = Some s \<longrightarrow> host_name s \<and> qf_done f')"
proof -
  obtain f1 where f1: "quic_write off data f = Got f1" "quic_flow_wf f1" "\<not> qf_done f1"
    using quic_write_wf [OF assms(1)] assms(2) by blast
  let ?f2 = "f1\<lparr>qf_ready := advance (qf_filled f1) (qf_ready f1)\<rparr>"
  have f2: "quic_flow_wf ?f2"
    using f1 advance_props [of "qf_ready f1" "qf_filled f1"] by (auto simp: quic_flow_wf_def)
  show ?thesis
  proof (cases "get_range (qf_buf ?f2) 0 4")
    case None
    then show ?thesis using f1 f2 by (simp add: quic_add_def Let_def)
  next
    case (Some head)
    then have head: "\<not> length head < 4" by auto
    have msg: "slice (qf_buf ?f2) 0 (hello_size head) = Got (take (hello_size head) (qf_buf ?f2))"
      if "\<not> qf_ready ?f2 < hello_size head"
      using that f2 f1(3) by (auto simp: quic_flow_wf_def)
    show ?thesis
      unfolding quic_add_def f1(1) andthen.simps Let_def Some option.case hello_total_Got [OF head]
      using f2 msg by (auto dest: client_hello_host)
  qed
qed

lemma quic_add_frames_wf:
  assumes "quic_flow_wf f" and "\<forall>s. sni = Some s \<longrightarrow> host_name s"
  shows "\<exists>r f'. quic_add_frames es f sni = Got (r, f') \<and> quic_flow_wf f' \<and> (\<forall>s. r = Some s \<longrightarrow> host_name s)"
  using assms
proof (induction es arbitrary: f sni)
  case (Cons e es)
  show ?case
  proof (cases "qf_done f")
    case False
    obtain r f' where add: "quic_add (fst e) (snd e) f = Got (r, f')" "quic_flow_wf f'" "\<forall>s. r = Some s \<longrightarrow> host_name s"
      using quic_add_wf [OF Cons.prems(1) False] by blast
    have "\<forall>s. (case r of None \<Rightarrow> sni | Some s \<Rightarrow> Some s) = Some s \<longrightarrow> host_name s"
      using add(3) Cons.prems(2) by (cases r) auto
    from Cons.IH [OF add(2) this] show ?thesis using add(1) False by simp
  qed (use Cons.prems in simp)
qed simp

definition quic_table_wf :: "quic_table \<Rightarrow> bool" where
  "quic_table_wf flows \<longleftrightarrow> hm_wf flows \<and> length flows \<le> QUIC_MAX_FLOWS
     \<and> (\<forall>k f. hm_get flows k = Some f \<longrightarrow> quic_flow_wf f)"

interpretation quic_table: bounded_table QUIC_MAX_FLOWS "quic_room now" for now
proof
  fix m :: quic_table and k k' v
  let ?m = "hm_retain (\<lambda>k f. now - qf_seen f < QUIC_TTL) m"
  have retained: "hm_wf m \<Longrightarrow> hm_wf ?m" "hm_wf m \<Longrightarrow> hm_get ?m k' = Some v \<Longrightarrow> hm_get m k' = Some v"
    by (auto simp: hmap split: option.splits if_splits)
  then show "hm_wf m \<Longrightarrow> hm_wf (quic_room now k m)"
    by (auto simp: quic_room_def hm_wf_del Let_def split: option.splits)
  show "hm_has m k \<Longrightarrow> quic_room now k m = m"
    by (simp add: quic_room_def)
  show "hm_wf m \<Longrightarrow> hm_get (quic_room now k m) k' = Some v \<Longrightarrow> hm_get m k' = Some v"
    using retained(2) by (auto simp: quic_room_def hm_get_del Let_def split: option.splits if_splits)
  assume m: "length m \<le> QUIC_MAX_FLOWS" "\<not> hm_has m k"
  show "length (quic_room now k m) < QUIC_MAX_FLOWS"
  proof (cases "min_entry qf_seen ?m")
    case None
    then show ?thesis using m by (auto simp: quic_room_def QUIC_MAX_FLOWS_def Let_def)
  next
    case (Some e)
    then have "hm_has ?m (fst e)" using min_entry_Some [OF Some] by (simp add: hm_has_def)
    then have "length (hm_del (fst e) ?m) < length ?m" by (rule length_hm_del_less)
    also have "length ?m \<le> length m" by (rule length_hm_retain)
    finally show ?thesis using Some m by (auto simp: quic_room_def Let_def)
  qed
qed

lemma quic_flow_at_wf:
  assumes "quic_table_wf flows"
  shows "case quic_flow_at now key flows of
      (None, flows') \<Rightarrow> quic_table_wf flows'
    | (Some f, flows') \<Rightarrow> quic_table_wf flows' \<and> quic_flow_wf f \<and> hm_has flows' key"
proof -
  let ?room = "quic_room now key flows"
  let ?f = "(case hm_get ?room key of
      None \<Rightarrow> \<lparr>qf_buf = [], qf_filled = [], qf_ready = 0, qf_seen = now, qf_done = False, qf_largest = None\<rparr>
    | Some f \<Rightarrow> f)\<lparr>qf_seen := now\<rparr>"
  have f: "quic_flow_wf ?f"
  proof (cases "hm_get ?room key")
    case None
    then show ?thesis by (simp add: quic_flow_wf_def)
  next
    case (Some f)
    then have "quic_flow_wf f"
      using assms quic_table.room_subset [of flows now key key f] unfolding quic_table_wf_def by blast
    then show ?thesis using Some by (simp add: quic_flow_wf_def)
  qed
  then have "quic_table_wf (hm_put key ?f ?room)"
    using assms quic_table.insert_bound [of flows key ?f now] quic_table.insert_wf [of flows key ?f now]
      quic_table.insert_lookup [of key ?f now flows] quic_table.insert_others [of flows _ key ?f now]
    unfolding quic_table_wf_def by (metis option.inject)
  then show ?thesis using f by (simp add: quic_flow_at_def Let_def hm_has_put)
qed

lemma quic_table_wf_update:
  "quic_table_wf flows \<Longrightarrow> quic_flow_wf f \<Longrightarrow> hm_has flows key \<Longrightarrow> quic_table_wf (hm_put key f flows)"
  by (auto simp: quic_table_wf_def hmap split: if_splits)

lemma quic_expire_wf: "quic_table_wf flows \<Longrightarrow> quic_table_wf (quic_expire now key flows)"
  using length_hm_del [of key flows]
  by (auto simp: quic_table_wf_def quic_expire_def hmap split: option.splits if_splits)

lemma unmask_number_safe:
  "(\<forall>i \<in> set is. 1 + i < length mk \<and> off + i < length pkt) \<Longrightarrow>
   \<exists>pkt' pn'. unmask_number mk off is pkt pn = Got (pkt', pn') \<and> length pkt' = length pkt"
proof (induction "is" arbitrary: pkt pn)
  case (Cons i is')
  then show ?case
    using Cons.IH [of "pkt[off + i := pkt ! (off + i) XOR mk ! (1 + i)]"] by (simp add: idx_def Let_def)
qed simp

lemma low_two_bits: "unat (b AND 3) < 4" for b :: u8
proof -
  have "(3 :: u8) = mask 2" by (simp add: mask_eq_exp_minus_1)
  then show ?thesis by (simp only: unat_and_mask) simp
qed

lemma if_safe: "(P \<Longrightarrow> a \<noteq> Panic) \<Longrightarrow> (\<not> P \<Longrightarrow> b \<noteq> Panic) \<Longrightarrow> (if P then a else b) \<noteq> Panic"
  by simp

lemma cuts_safe:
  assumes "length pkt = fin" and "body \<le> fin"
  shows "slice pkt (fin - 16) (length pkt) \<noteq> Panic" "slice pkt 0 body \<noteq> Panic"
    "\<not> (fin < 16 \<or> fin - 16 < body) \<Longrightarrow> slice pkt body (fin - 16) \<noteq> Panic"
  using assms by simp_all

lemma open_packet_safe:
  assumes c: "crypto_ok c" and h: "qh_end h \<le> length d"
  shows "open_packet c keys d h largest \<noteq> Panic"
proof -
  let ?off = "qh_pn_off h" and ?fin = "qh_end h"
  let ?pkt = "take ?fin d"
  have pkt: "slice d 0 ?fin = Got ?pkt" "length ?pkt = ?fin" using h by simp_all
  show ?thesis
  proof (cases "get_range ?pkt (?off + 4) (?off + 20)")
    case None
    then show ?thesis by (simp add: open_packet_def pkt)
  next
    case (Some sample)
    then have fin: "?off + 20 \<le> ?fin" and sample: "length sample = 16" using h by auto
    let ?mk = "aes_block c (qk_hp keys) sample"
    have mk: "keys_mask c keys sample = Some ?mk" "length ?mk = 16"
      using c sample by (auto simp: keys_mask_def crypto_ok_def)
    let ?b0 = "?pkt ! 0 XOR (?mk ! 0 AND 0x0f)"
    let ?n = "unat (?b0 AND 3) + 1"
    have first: "idx ?mk 0 = Got (?mk ! 0)" "idx ?pkt 0 = Got (?pkt ! 0)" using mk fin pkt by auto
    have "\<exists>pkt' pn'. unmask_number ?mk ?off [0..<?n] (?pkt[0 := ?b0]) 0 = Got (pkt', pn') \<and> length pkt' = length (?pkt[0 := ?b0])"
      using low_two_bits [of ?b0] fin mk h by (intro unmask_number_safe) (auto simp: pkt)
    then obtain pkt' pn' where un: "unmask_number ?mk ?off [0..<?n] (?pkt[0 := ?b0]) 0 = Got (pkt', pn')"
      and len: "length pkt' = length (?pkt[0 := ?b0])" by blast
    from len have len: "length pkt' = ?fin" by (simp only: length_list_update pkt(2))
    have "?off + ?n \<le> ?fin" using low_two_bits [of ?b0] fin by linarith
    note cuts = cuts_safe [OF len this]
    have gcm: "andthen (of_option x) (\<lambda>p. Got (g p)) \<noteq> Panic" for x :: "bytes option" and g :: "bytes \<Rightarrow> bytes \<times> u64"
      by (cases x) simp_all
    show ?thesis
      unfolding open_packet_def pkt(1) andthen.simps Some of_option_simps mk first Let_def un fst_conv snd_conv
      by (rule if_safe) (simp, intro andthen_safe cuts gcm)
  qed
qed

lemma quic_packet_wf:
  assumes c: "crypto_ok c" and h: "qh_end h \<le> length d" and wf: "quic_table_wf flows"
    and sni: "\<forall>s. sni = Some s \<longrightarrow> host_name s"
  shows "\<exists>r flows'. quic_packet c now now' src sport d h flows sni = Got (r, flows') \<and> quic_table_wf flows'
    \<and> (\<forall>s. r = Some s \<longrightarrow> host_name s)"
proof -
  let ?key = "(src, sport, qh_dcid h)"
  let ?flows1 = "quic_expire now ?key flows"
  let ?largest = "case hm_get ?flows1 ?key of None \<Rightarrow> None | Some f \<Rightarrow> qf_largest f"
  have wf1: "quic_table_wf ?flows1" using wf by (rule quic_expire_wf)
  consider "\<not> qh_initial h \<or> keys_new c (qh_version h) (qh_dcid h) = None"
    | keys where "qh_initial h" "keys_new c (qh_version h) (qh_dcid h) = Some keys"
    by (cases "keys_new c (qh_version h) (qh_dcid h)") auto
  then show ?thesis
  proof cases
    case 1
    then show ?thesis using wf1 sni by (auto simp: quic_packet_def Let_def)
  next
    case 2
    consider "open_packet c keys d h ?largest = Absent" | plain pn where "open_packet c keys d h ?largest = Got (plain, pn)"
      using open_packet_safe [OF c h, of keys ?largest] by (cases "open_packet c keys d h ?largest") auto
    then show ?thesis
    proof cases
      case 1
      then show ?thesis using 2 wf1 sni by (simp add: quic_packet_def Let_def)
    next
      case opened: 2
      show ?thesis
      proof (cases "fst (quic_flow_at now' ?key ?flows1)")
        case None
        then obtain flows2 where at: "quic_flow_at now' ?key ?flows1 = (None, flows2)" by (cases "quic_flow_at now' ?key ?flows1") auto
        then show ?thesis using quic_flow_at_wf [OF wf1, where now = now' and key = ?key] 2 opened sni
          by (simp add: quic_packet_def Let_def)
      next
        case (Some f)
        then obtain flows2 where at: "quic_flow_at now' ?key ?flows1 = (Some f, flows2)" by (cases "quic_flow_at now' ?key ?flows1") auto
        have f: "quic_table_wf flows2" "quic_flow_wf f" "hm_has flows2 ?key"
          using quic_flow_at_wf [OF wf1, where now = now' and key = ?key] at by simp_all
        let ?f1 = "f\<lparr>qf_largest := Some (case qf_largest f of None \<Rightarrow> pn | Some old \<Rightarrow> max old pn)\<rparr>"
        have "quic_flow_wf ?f1" using f(2) by (simp add: quic_flow_wf_def)
        then obtain r f' where "quic_add_frames (crypto_frames plain 0) ?f1 sni = Got (r, f')"
          "quic_flow_wf f'" "\<forall>s. r = Some s \<longrightarrow> host_name s"
          using quic_add_frames_wf [OF _ sni] by blast
        then show ?thesis using 2 opened at f quic_table_wf_update by (simp add: quic_packet_def Let_def)
      qed
    qed
  qed
qed

lemma quic_feed_wf:
  assumes "crypto_ok c" and "quic_table_wf flows" and "\<forall>s. sni = Some s \<longrightarrow> host_name s"
  shows "\<exists>r flows'. quic_feed c clk i src sport d flows sni = Got (r, flows') \<and> quic_table_wf flows'
    \<and> (\<forall>s. r = Some s \<longrightarrow> host_name s)"
  using assms(2,3)
proof (induction "length d" arbitrary: d i flows sni rule: less_induct)
  case less
  show ?case
  proof (cases "quic_header_of d")
    case None
    then show ?thesis using less.prems by (simp add: quic_feed.simps [of c clk i src sport d])
  next
    case (Some h)
    note fin = quic_header_end [OF Some]
    then obtain r flows1 where p: "quic_packet c (clk i) (clk (i + 1)) src sport d h flows sni = Got (r, flows1)"
      "quic_table_wf flows1" "\<forall>s. r = Some s \<longrightarrow> host_name s"
      using quic_packet_wf [OF assms(1) _ less.prems] by blast
    have rest: "slice d (qh_end h) (length d) = Got (drop (qh_end h) d)" using fin by simp
    have "length (drop (qh_end h) d) < length d" using fin unfolding length_drop by linarith
    from less.hyps [OF this p(2,3), of "i + 2"] show ?thesis
      by (subst quic_feed.simps) (simp only: Some option.case p(1) andthen.simps rest fst_conv snd_conv)
  qed
qed

section \<open>CRYPTO frames in any order\<close>

record quic_stream =
  qs_msg :: bytes
  qs_post :: bytes

definition qs_bytes :: "quic_stream \<Rightarrow> bytes" where
  "qs_bytes c = qs_msg c @ qs_post c"

definition qs_good :: "quic_stream \<Rightarrow> bool" where
  "qs_good c \<longleftrightarrow> 4 \<le> length (qs_msg c) \<and> length (qs_msg c) \<le> QUIC_MAX_HELLO \<and> qs_msg c ! 0 = 1
     \<and> hello_size (qs_msg c) = length (qs_msg c)"

text \<open>A frame is an offset and a length into the stream; what lies beyond the limit is cut.\<close>

definition frame_of :: "bytes \<Rightarrow> nat \<times> nat \<Rightarrow> nat \<times> bytes" where
  "frame_of S e = (fst e, take (snd e) (drop (fst e) S))"

definition frame_ok :: "bytes \<Rightarrow> nat \<times> nat \<Rightarrow> bool" where
  "frame_ok S e \<longleftrightarrow> fst e + snd e \<le> length S"

definition frame_span :: "nat \<times> nat \<Rightarrow> nat set" where
  "frame_span e = {fst e ..< min (fst e + snd e) QUIC_MAX_HELLO}"

definition qholds :: "bytes \<Rightarrow> nat set \<Rightarrow> quic_flow \<Rightarrow> bool" where
  "qholds S cov f \<longleftrightarrow> \<not> qf_done f \<and> sparse S cov (qf_buf f) (qf_filled f) (qf_ready f)"

lemma sparse_advance:
  assumes "sparse S cov buf filled ready"
  shows "advance filled ready = ready"
proof -
  have "\<not> (ready < length filled \<and> filled ! ready)"
    using assms sparse_filled [OF assms, of ready] by (auto simp: sparse_def)
  then show ?thesis by (subst advance.simps) auto
qed

lemma quic_write_holds:
  assumes f: "qholds S cov f" and ok: "frame_ok S e"
  shows "\<exists>f1. quic_write (fst (frame_of S e)) (snd (frame_of S e)) f = Got f1
    \<and> qholds S (cov \<union> frame_span e) (f1\<lparr>qf_ready := advance (qf_filled f1) (qf_ready f1)\<rparr>)"
proof -
  obtain off n where e: "e = (off, n)" by (cases e)
  let ?data = "take n (drop off S)"
  let ?fin = "min (off + n) QUIC_MAX_HELLO"
  have len: "length ?data = n" and S: "off + n \<le> length S" using ok e by (auto simp: frame_ok_def)
  have sp: "sparse S cov (qf_buf f) (qf_filled f) (qf_ready f)" and live: "\<not> qf_done f"
    using f by (auto simp: qholds_def)
  show ?thesis
  proof (cases "off < ?fin")
    case True
    let ?m = "max (length (qf_buf f)) ?fin"
    have "length (qf_filled f) = length (qf_buf f)" using sp by (simp add: sparse_def)
    from quic_write_eq [OF this, of off ?data] True
    have "quic_write off ?data f = Got (f\<lparr>qf_buf := overlay off (take (?fin - off) ?data) (resize ?m 0 (qf_buf f)),
       qf_filled := overlay off (replicate (?fin - off) True) (resize ?m False (qf_filled f))\<rparr>)"
      unfolding len Let_def by blast
    moreover have "take (?fin - off) ?data = take (?fin - off) (drop off S)" by (simp add: min_def)
    moreover have "sparse S cov (resize ?m 0 (qf_buf f)) (resize ?m False (qf_filled f)) (qf_ready f)"
      using sp by (rule sparse_resize) simp
    then have "sparse S (cov \<union> {off..<off + (?fin - off)})
        (overlay off (take (?fin - off) (drop off S)) (resize ?m 0 (qf_buf f)))
        (overlay off (replicate (?fin - off) True) (resize ?m False (qf_filled f)))
        (advance (overlay off (replicate (?fin - off) True) (resize ?m False (qf_filled f))) (qf_ready f))"
      using S True by (intro sparse_place) auto
    moreover have "off + (?fin - off) = ?fin" using True by simp
    ultimately show ?thesis using live by (simp add: qholds_def frame_of_def frame_span_def e)
  next
    case False
    then have "quic_write off ?data f = Got f" unfolding quic_write_def Let_def len by (rule if_not_P)
    moreover have "frame_span e = {}" using False by (simp add: frame_span_def e)
    ultimately show ?thesis using f sparse_advance [OF sp] by (simp add: frame_of_def e)
  qed
qed

lemma quic_add_frame:
  assumes c: "qs_good c" and f: "qholds (qs_bytes c) cov f" and ok: "frame_ok (qs_bytes c) e"
  shows "\<exists>f'. quic_add (fst (frame_of (qs_bytes c) e)) (snd (frame_of (qs_bytes c) e)) f =
      Got (if {..<length (qs_msg c)} \<subseteq> cov \<union> frame_span e then client_hello_sni (qs_msg c) else None, f')
    \<and> (if {..<length (qs_msg c)} \<subseteq> cov \<union> frame_span e then qf_done f'
       else qholds (qs_bytes c) (cov \<union> frame_span e) f')"
proof -
  let ?S = "qs_bytes c" and ?m = "qs_msg c" and ?cov = "cov \<union> frame_span e"
  obtain f1 where written: "quic_write (fst (frame_of ?S e)) (snd (frame_of ?S e)) f = Got f1"
    and f2: "qholds ?S ?cov (f1\<lparr>qf_ready := advance (qf_filled f1) (qf_ready f1)\<rparr>)" (is "qholds _ _ ?f2")
    using quic_write_holds [OF f ok] by blast
  have sp: "sparse ?S ?cov (qf_buf ?f2) (qf_filled ?f2) (qf_ready ?f2)"
    using f2 by (simp only: qholds_def)
  note ready = sparse_ready [OF sp] and full = sparse_less_extent [OF sp, of "length ?m"]
  have m: "4 \<le> length ?m" "length ?m \<le> QUIC_MAX_HELLO" "?m ! 0 = 1" "hello_size ?m = length ?m"
    using c by (auto simp: qs_good_def)
  have prefix: "take n (qf_buf ?f2) = take n ?m" if "n \<le> qf_ready ?f2" "n \<le> length ?m" for n
  proof -
    have "take n (qf_buf ?f2) = take n (take (qf_ready ?f2) (qf_buf ?f2))" using that by (simp only: take_take min_absorb1)
    also have "\<dots> = take n ?S" unfolding ready(3) using that by (simp only: take_take min_absorb1)
    finally show ?thesis using that by (simp add: qs_bytes_def)
  qed
  show ?thesis
  proof (cases "qf_ready ?f2 < 4")
    case True
    have "quic_add (fst (frame_of ?S e)) (snd (frame_of ?S e)) f = Got (None, ?f2)"
    proof (cases "get_range (qf_buf ?f2) 0 4")
      case None
      show ?thesis unfolding quic_add_def written andthen.simps Let_def None option.case ..
    next
      case (Some h)
      show ?thesis unfolding quic_add_def written andthen.simps Let_def Some option.case if_P [OF True] ..
    qed
    moreover have "\<not> {..<length ?m} \<subseteq> ?cov" using True m full by linarith
    ultimately show ?thesis using f2 by simp
  next
    case False
    let ?h = "take 4 ?m"
    have "get_range (qf_buf ?f2) 0 4 = Some (take 4 (qf_buf ?f2))" using False ready(1) by simp
    then have head: "get_range (qf_buf ?f2) 0 4 = Some ?h" unfolding prefix [OF False [unfolded not_less] m(1)] .
    have h: "\<not> length ?h < 4" "hello_size ?h = length ?m" "?h ! 0 = 1"
    proof -
      have "hello_size ?h = hello_size ?m" by (simp add: hello_size_def)
      then show "\<not> length ?h < 4" "hello_size ?h = length ?m" "?h ! 0 = 1" using m by simp_all
    qed
    have msg: "slice (qf_buf ?f2) 0 (length ?m) = Got ?m" if "\<not> qf_ready ?f2 < length ?m"
      using that prefix [of "length ?m"] ready(1) by simp
    have "quic_add (fst (frame_of ?S e)) (snd (frame_of ?S e)) f =
        (if qf_ready ?f2 < length ?m then Got (None, ?f2) else Got (client_hello_sni ?m, quic_finish ?f2))"
      unfolding quic_add_def written andthen.simps Let_def head option.case hello_total_Got [OF h(1)] h
      using False m(2) msg by simp
    then show ?thesis using f2 full by auto
  qed
qed

lemma quic_add_done_frames: "qf_done f \<Longrightarrow> quic_add_frames es f sni = Got (sni, f)"
  by (cases es) simp_all

text \<open>
  The frame loop skips a finished flow; \<open>quic_step\<close> is one turn of it, so that the loop is
  \<open>add_all quic_step\<close>.
\<close>

definition quic_step :: "(nat \<times> bytes, quic_flow) adder" where
  "quic_step e f = (if qf_done f then Got (None, f) else quic_add (fst e) (snd e) f)"

interpretation quic_pieces: reassembler qs_good "\<lambda>c. frame_ok (qs_bytes c)" frame_span "\<lambda>c. length (qs_msg c)"
    "\<lambda>c. client_hello_sni (qs_msg c)" "\<lambda>c. qholds (qs_bytes c)" "\<lambda>_. qf_done"
    "\<lambda>c e. quic_step (frame_of (qs_bytes c) e)"
proof
  fix c cov f e
  assume a: "qs_good c" "qholds (qs_bytes c) cov f" "frame_ok (qs_bytes c) e"
  then have "\<not> qf_done f" by (simp add: qholds_def)
  then show "\<exists>f'. quic_step (frame_of (qs_bytes c) e) f =
      Got (if {..<length (qs_msg c)} \<subseteq> cov \<union> frame_span e then client_hello_sni (qs_msg c) else None, f')
    \<and> (if {..<length (qs_msg c)} \<subseteq> cov \<union> frame_span e then qf_done f'
       else qholds (qs_bytes c) (cov \<union> frame_span e) f')"
    unfolding quic_step_def using quic_add_frame [OF a] by simp
qed (simp add: quic_step_def)

lemma quic_frames_of_steps:
  "add_all quic_step es f = Got (rs, f') \<Longrightarrow>
   quic_add_frames es f sni = Got (fold (\<lambda>r acc. case r of None \<Rightarrow> acc | Some s \<Rightarrow> Some s) rs sni, f')"
proof (induction es arbitrary: f sni rs)
  case (Cons e es)
  show ?case
  proof (cases "qf_done f")
    case True
    then have "add_all quic_step (e # es) f = Got (replicate (length (e # es)) None, f)"
      by (intro add_all_inert) (simp add: quic_step_def)
    then have "rs = replicate (length (e # es)) None" "f' = f" using Cons.prems by auto
    moreover have "fold (\<lambda>r acc. case r of None \<Rightarrow> acc | Some s \<Rightarrow> Some s) (replicate n None) sni = sni" for n
      by (induction n) simp_all
    ultimately show ?thesis using True by (simp only: quic_add_done_frames)
  next
    case False
    then show ?thesis using Cons by (auto simp: quic_step_def)
  qed
qed simp

lemma fold_last_name:
  "fold (\<lambda>r acc. case r of None \<Rightarrow> acc | Some s \<Rightarrow> Some s) (replicate k None @ x # replicate j None) None = x"
proof -
  have "fold (\<lambda>r acc. case r of None \<Rightarrow> acc | Some s \<Rightarrow> Some s) (replicate n None) y = y" for n :: nat and y :: "'a option"
    by (induction n) simp_all
  then show ?thesis by (cases x) simp_all
qed

section \<open>Properties\<close>

text \<open>
  A ClientHello split over CRYPTO frames in any way, in any order, with repetitions and
  overlaps, over one or many packets, gives the name of the message; the frame that completes
  it finishes the flow. Frames are as RFC 9000 defines them: an offset and a piece of the
  handshake stream.
\<close>

theorem quic_any_order:
  assumes "qs_good c" and "\<forall>e \<in> set es. frame_ok (qs_bytes c) e"
    and "{..<length (qs_msg c)} \<subseteq> (\<Union>e \<in> set es. frame_span e)"
    and "qf_buf f = []" and "qf_filled f = []" and "qf_ready f = 0" and "\<not> qf_done f"
  shows "\<exists>f'. quic_add_frames (map (frame_of (qs_bytes c)) es) f None = Got (client_hello_sni (qs_msg c), f')
    \<and> qf_done f'"
proof -
  have "qholds (qs_bytes c) {} f" using assms(4-7) by (simp add: qholds_def sparse_empty)
  moreover have "\<not> {..<length (qs_msg c)} \<subseteq> {}" using assms(1) by (auto simp: qs_good_def lessThan_empty_iff)
  ultimately obtain k f' where "qf_done f'" "add_all (\<lambda>e. quic_step (frame_of (qs_bytes c) e)) es f
      = Got (replicate k None @ client_hello_sni (qs_msg c) # replicate (length es - Suc k) None, f')"
    using quic_pieces.any_order [OF assms(1) _ assms(2), of "{}" f] assms(3) by auto
  then show ?thesis
    using quic_frames_of_steps [of "map (frame_of (qs_bytes c)) es" f]
    by (simp only: add_all_map fold_last_name) blast
qed

definition sample_quic :: quic_stream where
  "sample_quic = \<lparr>qs_msg = [1, 0, 0, 2, 7, 8], qs_post = [9]\<rparr>"

theorem quic_any_order_witness:
  "\<exists>f'. quic_add_frames (map (frame_of (qs_bytes sample_quic)) [(3, 4), (0, 2), (1, 3)])
      \<lparr>qf_buf = [], qf_filled = [], qf_ready = 0, qf_seen = 5, qf_done = False, qf_largest = None\<rparr> None
    = Got (client_hello_sni (qs_msg sample_quic), f') \<and> qf_done f'"
  by (rule quic_any_order)
    (auto simp: sample_quic_def qs_good_def qs_bytes_def hello_size_def frame_ok_def frame_span_def QUIC_MAX_HELLO_def)

text \<open>
  The packet number is recovered from its truncated form: when the number sent lies within
  half a window of the next expected one, decoding its low bits gives that number back (RFC 9000,
  appendix A.3), and no addition in the code wraps around.
\<close>

theorem packet_number_roundtrip:
  assumes "0 < bits" and "bits \<le> 32" and "unat n < 2 ^ 62" and "expected_number largest \<le> 2 ^ 62"
    and "expected_number largest < unat n + 2 ^ bits div 2"
    and "unat n \<le> expected_number largest + 2 ^ bits div 2"
  shows "decode_number (n AND mask bits) bits largest = n"
  using assms by (rule decode_number_eq)

theorem packet_number_roundtrip_witness:
  "decode_number (0x1234 AND mask 8) 8 (Some 0x11F0) = 0x1234"
  by (rule packet_number_roundtrip) (simp_all add: expected_number_def)

text \<open>
  Variable-length integers round-trip: reading the encoding of a value in 1, 2, 4 or 8
  bytes, anywhere in a packet, gives the value and the number of bytes.
\<close>

theorem varint_roundtrip:
  assumes "k < 4" and "v < 2 ^ (8 * 2 ^ k - 2)" and "p = length pre"
  shows "varint (pre @ enc_varint k v @ post) p = Some (word_of_nat v, 2 ^ k)"
  using assms by (intro varint_enc) auto

theorem varint_roundtrip_witness: "varint ([7] @ enc_varint 1 300 @ [9]) 1 = Some (word_of_nat 300, 2 ^ 1)"
  by (rule varint_roundtrip) simp_all

text \<open>
  No datagram makes the QUIC parser index out of range or run for ever, whatever the
  cryptographic packages return within their documented lengths: the datagram is processed to
  its end, at most 256 flows of at most 16 KiB are kept, and a name that comes out is a host
  name.
\<close>

theorem quic_feed_safe:
  assumes "crypto_ok c" and "quic_table_wf flows"
  shows "\<exists>r flows'. quic_feed c clk 0 src sport d flows None = Got (r, flows') \<and> quic_table_wf flows'
    \<and> (\<forall>s. r = Some s \<longrightarrow> host_name s)"
  using quic_feed_wf [OF assms] by simp

definition sample_crypto :: crypto where
  "sample_crypto = \<lparr>hkdf_new = (\<lambda>s k. s), hkdf_from_prk = Some, hkdf_expand = (\<lambda>p i n. Some (replicate n 3)),
     aes_block = (\<lambda>k b. b), gcm_open = (\<lambda>k n a c t. Some c)\<rparr>"

theorem quic_feed_safe_witness:
  "crypto_ok sample_crypto \<and> (\<exists>r flows'.
     quic_feed sample_crypto (\<lambda>i. i) 0 (V4 10 0 0 2) 5000 (0xc0 # replicate 40 0) [] None = Got (r, flows')
     \<and> quic_table_wf flows' \<and> (\<forall>s. r = Some s \<longrightarrow> host_name s))"
proof
  show "crypto_ok sample_crypto" by (auto simp: crypto_ok_def sample_crypto_def)
  then show "\<exists>r flows'.
     quic_feed sample_crypto (\<lambda>i. i) 0 (V4 10 0 0 2) 5000 (0xc0 # replicate 40 0) [] None = Got (r, flows')
     \<and> quic_table_wf flows' \<and> (\<forall>s. r = Some s \<longrightarrow> host_name s)"
    by (rule quic_feed_safe) (simp add: quic_table_wf_def)
qed

end
