(* ===== verification/Pcap.thy ===== *)
theory Pcap
  imports Dns_Message Tls_Flow Quic
begin

text \<open>
  Frames: link layer, IP, TCP and UDP of \<^verbatim>\<open>src/src/pcap.rs\<close>. A result is the packet
  and the parsers after it; \<open>Absent\<close> is the \<^verbatim>\<open>None\<close> of the code, which leaves
  before any parser has been changed. The stateless \<^verbatim>\<open>parse_link\<close> is the case of
  parsers that are not there.
\<close>

section \<open>State and environment\<close>

record parsers =
  pr_quic :: "quic_table option"
  pr_tcp :: "(flow_key, tls_flow) hmap option"

definition no_parsers :: parsers where
  "no_parsers = \<lparr>pr_quic = None, pr_tcp = None\<rparr>"

definition fresh_parsers :: parsers where
  "fresh_parsers = \<lparr>pr_quic = Some [], pr_tcp = Some []\<rparr>"

text \<open>The cryptographic packages and the readings of the clock during one frame.\<close>

record frame_env =
  fe_crypto :: crypto
  fe_clk :: "nat \<Rightarrow> nat"

section \<open>Transport\<close>

text \<open>Protocol, ports and payload, or \<open>Absent\<close>.\<close>

definition l4_fields :: "u8 \<Rightarrow> bytes \<Rightarrow> (Proto \<times> u16 \<times> u16 \<times> bytes) fallible" where
  "l4_fields proto d =
     (if proto = 6 then
        andthen (of_option (get_at d 12)) (\<lambda>b.
        let off = unat (drop_bit 4 b) * 4 in
        if off < 20 \<or> length d < off then Absent
        else
          andthen (of_option (be16 d 0)) (\<lambda>sport.
          andthen (of_option (be16 d 2)) (\<lambda>dport.
            Got (Tcp, sport, dport, case get_from d off of None \<Rightarrow> [] | Some x \<Rightarrow> x))))
      else if proto = 17 then
        andthen (of_option (be16 d 4)) (\<lambda>len.
        if len < 8 \<or> length d < 8 then Absent
        else
          andthen (of_option (be16 d 0)) (\<lambda>sport.
          andthen (of_option (be16 d 2)) (\<lambda>dport.
          andthen (slice d 8 (min (unat len) (length d))) (\<lambda>payload.
            Got (Udp, sport, dport, payload)))))
      else Absent)"

text \<open>The server name of a TCP segment, with or without reassembly.\<close>

definition tcp_sni :: "frame_env \<Rightarrow> IpAddr \<Rightarrow> u16 \<Rightarrow> IpAddr \<Rightarrow> u16 \<Rightarrow> bytes \<Rightarrow> bytes
    \<Rightarrow> parsers \<Rightarrow> (string option \<times> parsers) fallible" where
  "tcp_sni env src sport dst dport d payload ps =
     (case pr_tcp ps of
        None \<Rightarrow> Got (parse_sni payload, ps)
      | Some flows \<Rightarrow>
          andthen (of_option (get_range d 4 8)) (\<lambda>seq.
          andthen (of_option (get_at d 13)) (\<lambda>flags.
          andthen (tls_feed (fe_clk env 0) (fe_clk env 1) (src, sport, dst, dport)
                     (word_of_nat (be_nat seq)) flags payload flows) (\<lambda>r.
            Got (fst r, ps\<lparr>pr_tcp := Some (snd r)\<rparr>)))))"

text \<open>The server name of a datagram that begins like a QUIC long header.\<close>

definition udp_sni :: "frame_env \<Rightarrow> IpAddr \<Rightarrow> u16 \<Rightarrow> bytes \<Rightarrow> parsers \<Rightarrow> (string option \<times> parsers) fallible" where
  "udp_sni env src sport payload ps =
     (case (get_at payload 0, pr_quic ps) of
        (Some b, Some flows) \<Rightarrow>
          if b AND 0x80 \<noteq> 0 then
            andthen (quic_feed (fe_crypto env) (fe_clk env) 0 src sport payload flows None) (\<lambda>r.
              Got (fst r, ps\<lparr>pr_quic := Some (snd r)\<rparr>))
          else Got (None, ps)
      | _ \<Rightarrow> Got (None, ps))"

text \<open>The DNS message in a payload: over TCP behind its length, and only when it is whole.\<close>

definition dns_payload :: "Proto \<Rightarrow> bytes \<Rightarrow> bytes option" where
  "dns_payload p payload =
     (let msg = (if p = Tcp then
                   (case get_from payload 2 of
                      None \<Rightarrow> None
                    | Some m \<Rightarrow>
                        (case be16 payload 0 of
                           None \<Rightarrow> None
                         | Some n \<Rightarrow> if unat n = length m then Some m else None))
                 else Some payload) in
      case msg of None \<Rightarrow> None | Some m \<Rightarrow> if m = [] then None else Some m)"

definition is_dns_port :: "u16 \<Rightarrow> bool" where
  "is_dns_port p \<longleftrightarrow> p = 53 \<or> p = 5353"

definition add_dns :: "Packet \<Rightarrow> bytes \<Rightarrow> Packet" where
  "add_dns pkt payload =
     (if is_dns_port (pk_sport pkt) \<or> is_dns_port (pk_dport pkt) then
        (case dns_payload (pk_proto pkt) payload of None \<Rightarrow> pkt | Some msg \<Rightarrow> parse_dns msg pkt)
      else pkt)"

definition parse_l4 :: "frame_env \<Rightarrow> u8 \<Rightarrow> IpAddr \<Rightarrow> IpAddr \<Rightarrow> u32 \<Rightarrow> bytes \<Rightarrow> parsers
    \<Rightarrow> (Packet \<times> parsers) fallible" where
  "parse_l4 env proto src dst nbytes d ps =
     andthen (l4_fields proto d) (\<lambda>(p, sport, dport, payload).
     andthen (if p = Tcp then tcp_sni env src sport dst dport d payload ps
              else udp_sni env src sport payload ps) (\<lambda>r.
     let pkt = \<lparr>pk_proto = p, pk_src = src, pk_sport = sport, pk_dst = dst, pk_dport = dport,
                pk_bytes = nbytes, pk_sni = fst r, pk_dns_addrs = []\<rparr> in
     Got (add_dns pkt payload, snd r)))"

section \<open>Network\<close>

definition v4_at :: "bytes \<Rightarrow> nat \<Rightarrow> IpAddr fallible" where
  "v4_at d i = andthen (idx d i) (\<lambda>a. andthen (idx d (i + 1)) (\<lambda>b. andthen (idx d (i + 2)) (\<lambda>c.
     andthen (idx d (i + 3)) (\<lambda>e. Got (V4 a b c e)))))"

definition parse_ipv4 :: "frame_env \<Rightarrow> bytes \<Rightarrow> parsers \<Rightarrow> (Packet \<times> parsers) fallible" where
  "parse_ipv4 env d ps =
     andthen (of_option (get_at d 0)) (\<lambda>first.
     if drop_bit 4 first \<noteq> 4 then Absent else
     andthen (of_option (be16 d 6)) (\<lambda>frag.
     if frag AND 0x1fff \<noteq> 0 then Absent else
     let ihl = unat (first AND 0x0F) * 4 in
     if ihl < 20 \<or> length d < ihl then Absent else
     andthen (of_option (be16 d 2)) (\<lambda>total.
     if unat total < ihl then Absent else
     andthen (slice d 0 (min (length d) (unat total))) (\<lambda>d.
     andthen (of_option (get_at d 9)) (\<lambda>proto.
     andthen (v4_at d 12) (\<lambda>src.
     andthen (v4_at d 16) (\<lambda>dst.
     andthen (of_option (get_from d ihl)) (\<lambda>rest.
       parse_l4 env proto src dst (ucast total) rest ps))))))))"

text \<open>The walk over at most \<open>n\<close> extension headers of IPv6.\<close>

fun ipv6_headers :: "nat \<Rightarrow> frame_env \<Rightarrow> bytes \<Rightarrow> u8 \<Rightarrow> nat \<Rightarrow> IpAddr \<Rightarrow> IpAddr \<Rightarrow> u32 \<Rightarrow> parsers
    \<Rightarrow> (Packet \<times> parsers) fallible" where
  "ipv6_headers 0 env d next off src dst nbytes ps = Absent"
| "ipv6_headers (Suc n) env d next off src dst nbytes ps =
     (if next = 6 \<or> next = 17 then
        andthen (of_option (get_from d off)) (\<lambda>rest. parse_l4 env next src dst nbytes rest ps)
      else
        andthen
          (if next = 0 \<or> next = 43 \<or> next = 60 then
             andthen (of_option (get_at d (off + 1))) (\<lambda>b. Got ((unat b + 1) * 8))
           else if next = 51 then
             andthen (of_option (get_at d (off + 1))) (\<lambda>b. Got ((unat b + 2) * 4))
           else if next = 44 then
             andthen (of_option (be16 d (off + 2))) (\<lambda>f. if f AND 0xfff8 \<noteq> 0 then Absent else Got 8)
           else Absent) (\<lambda>size_of.
        andthen (of_option (get_at d off)) (\<lambda>next'.
        let off' = off + size_of in
        if length d < off' then Absent
        else ipv6_headers n env d next' off' src dst nbytes ps)))"

definition parse_ipv6 :: "frame_env \<Rightarrow> bytes \<Rightarrow> parsers \<Rightarrow> (Packet \<times> parsers) fallible" where
  "parse_ipv6 env d ps =
     (if length d < 40 then Absent else
      andthen (idx d 0) (\<lambda>first.
      if drop_bit 4 first \<noteq> 6 then Absent else
      andthen (of_option (be16 d 4)) (\<lambda>payload_len.
      andthen (of_option (get_at d 6)) (\<lambda>next.
      andthen (slice d 0 (min (length d) (40 + unat payload_len))) (\<lambda>d.
      andthen (slice d 8 24) (\<lambda>s.
      andthen (slice d 24 40) (\<lambda>t.
        ipv6_headers 8 env d next 40 (v6_of_octets s) (v6_of_octets t) (ucast payload_len + 40) ps)))))))"

section \<open>Link layer\<close>

fun vlan_tags :: "nat \<Rightarrow> bytes \<Rightarrow> u16 \<Rightarrow> nat \<Rightarrow> (u16 \<times> nat) fallible" where
  "vlan_tags 0 d ethertype off = Got (ethertype, off)"
| "vlan_tags (Suc n) d ethertype off =
     (if ethertype \<noteq> 0x8100 \<and> ethertype \<noteq> 0x88a8 then Got (ethertype, off)
      else andthen (of_option (be16 d (off + 2))) (\<lambda>t. vlan_tags n d t (off + 4)))"

definition link_header :: "u16 \<Rightarrow> bytes \<Rightarrow> (u16 \<times> nat) fallible" where
  "link_header linktype d =
     (if linktype = 1 then andthen (of_option (be16 d 12)) (\<lambda>t. Got (t, 14))
      else if linktype = 113 then andthen (of_option (be16 d 14)) (\<lambda>t. Got (t, 16))
      else if linktype = 276 then andthen (of_option (be16 d 0)) (\<lambda>t. Got (t, 20))
      else if linktype = 101 \<or> linktype = 12 \<or> linktype = 14 then
        andthen (of_option (get_at d 0)) (\<lambda>b.
          Got (if drop_bit 4 b = 6 then 0x86DD else 0x0800, 0))
      else Absent)"

definition parse_link_state :: "frame_env \<Rightarrow> u16 \<Rightarrow> bytes \<Rightarrow> parsers \<Rightarrow> (Packet \<times> parsers) fallible" where
  "parse_link_state env linktype d ps =
     andthen (link_header linktype d) (\<lambda>(t, off0).
     andthen (vlan_tags 2 d t off0) (\<lambda>(ethertype, off).
     if ethertype = 0x0800 then andthen (of_option (get_from d off)) (\<lambda>x. parse_ipv4 env x ps)
     else if ethertype = 0x86DD then andthen (of_option (get_from d off)) (\<lambda>x. parse_ipv6 env x ps)
     else Absent))"

text \<open>\<^verbatim>\<open>parse_link\<close>, \<^verbatim>\<open>parse_link_with\<close> and \<^verbatim>\<open>parse_link_live\<close>.\<close>

definition parse_link :: "frame_env \<Rightarrow> u16 \<Rightarrow> bytes \<Rightarrow> Packet fallible" where
  "parse_link env linktype d = map_got fst (parse_link_state env linktype d no_parsers)"

definition parse_link_with :: "frame_env \<Rightarrow> u16 \<Rightarrow> bytes \<Rightarrow> quic_table option \<Rightarrow> (Packet \<times> parsers) fallible" where
  "parse_link_with env linktype d q = parse_link_state env linktype d \<lparr>pr_quic = q, pr_tcp = None\<rparr>"

definition parse_link_live :: "frame_env \<Rightarrow> u16 \<Rightarrow> bytes \<Rightarrow> parsers \<Rightarrow> (Packet \<times> parsers) fallible" where
  "parse_link_live env linktype d ps = parse_link_state env linktype d ps"

section \<open>No frame is a panic\<close>

definition parsers_wf :: "parsers \<Rightarrow> bool" where
  "parsers_wf ps \<longleftrightarrow> (\<forall>q. pr_quic ps = Some q \<longrightarrow> quic_table_wf q) \<and> (\<forall>t. pr_tcp ps = Some t \<longrightarrow> tls_table_wf t)"

lemma no_parsers_wf: "parsers_wf no_parsers" and fresh_parsers_wf: "parsers_wf fresh_parsers"
  by (auto simp: parsers_wf_def no_parsers_def fresh_parsers_def quic_table_wf_def tls_table_wf_def)

text \<open>A good result: no panic, and what comes out satisfies \<open>P\<close>.\<close>

definition safe :: "('a \<Rightarrow> bool) \<Rightarrow> 'a fallible \<Rightarrow> bool" where
  "safe P m \<longleftrightarrow> m \<noteq> Panic \<and> (\<forall>x. m = Got x \<longrightarrow> P x)"

lemma safe_simps [simp]: "safe P Absent" "safe P (Got x) \<longleftrightarrow> P x"
  by (auto simp: safe_def)

lemma safe_andthen:
  "safe Q m \<Longrightarrow> (\<And>x. Q x \<Longrightarrow> m = Got x \<Longrightarrow> safe P (f x)) \<Longrightarrow> safe P (andthen m f)"
  by (cases m) (auto simp: safe_def)

lemma safe_option: "(\<And>x. m = Some x \<Longrightarrow> safe P (f x)) \<Longrightarrow> safe P (andthen (of_option m) f)"
  by (cases m) auto

lemma safe_slice:
  "a \<le> b \<Longrightarrow> b \<le> length d \<Longrightarrow> safe P (f (take (b - a) (drop a d))) \<Longrightarrow> safe P (andthen (slice d a b) f)"
  by (simp add: slice_def)

lemma safe_idx: "i < length d \<Longrightarrow> safe P (f (d ! i)) \<Longrightarrow> safe P (andthen (idx d i) f)"
  by (simp add: idx_def)

lemma safe_if: "(b \<Longrightarrow> safe P m) \<Longrightarrow> (\<not> b \<Longrightarrow> safe P n) \<Longrightarrow> safe P (if b then m else n)"
  by simp

definition packet_wf :: "Packet \<Rightarrow> bool" where
  "packet_wf p \<longleftrightarrow> (\<forall>s. pk_sni p = Some s \<longrightarrow> host_name s) \<and> length (pk_dns_addrs p) \<le> MAX_DNS_ADDRS"

abbreviation good_frame :: "Packet \<times> parsers \<Rightarrow> bool" where
  "good_frame r \<equiv> packet_wf (fst r) \<and> parsers_wf (snd r)"

abbreviation good_sni :: "string option \<times> parsers \<Rightarrow> bool" where
  "good_sni r \<equiv> (\<forall>s. fst r = Some s \<longrightarrow> host_name s) \<and> parsers_wf (snd r)"

lemma l4_fields_safe: "safe (\<lambda>r. True) (l4_fields proto d)"
  unfolding l4_fields_def Let_def
  by (intro safe_if safe_option safe_slice) (auto simp: word_less_nat_alt)

lemma tcp_sni_safe:
  assumes "parsers_wf ps"
  shows "safe good_sni (tcp_sni env src sport dst dport d payload ps)"
proof (cases "pr_tcp ps")
  case None
  then show ?thesis using assms by (auto simp: tcp_sni_def dest: parse_sni_host)
next
  case (Some flows)
  then have wf: "tls_table_wf flows" using assms by (simp add: parsers_wf_def)
  show ?thesis
    unfolding tcp_sni_def Some option.case
  proof (intro safe_option)
    fix seq flags
    obtain r flows' where "tls_feed (fe_clk env 0) (fe_clk env 1) (src, sport, dst, dport)
        (word_of_nat (be_nat seq)) flags payload flows = Got (r, flows')"
      "tls_table_wf flows'" "\<forall>n. r = Some n \<longrightarrow> host_name n"
      using tls_feed_wf [OF wf] by blast
    then show "safe good_sni (andthen (tls_feed (fe_clk env 0) (fe_clk env 1) (src, sport, dst, dport)
        (word_of_nat (be_nat seq)) flags payload flows) (\<lambda>r. Got (fst r, ps\<lparr>pr_tcp := Some (snd r)\<rparr>)))"
      using assms by (simp add: parsers_wf_def)
  qed
qed

text \<open>The cryptographic packages matter only where there is a QUIC parser.\<close>

definition env_ok :: "frame_env \<Rightarrow> parsers \<Rightarrow> bool" where
  "env_ok env ps \<longleftrightarrow> (pr_quic ps \<noteq> None \<longrightarrow> crypto_ok (fe_crypto env))"

lemma udp_sni_safe:
  assumes "parsers_wf ps" and "env_ok env ps"
  shows "safe good_sni (udp_sni env src sport payload ps)"
proof (cases "get_at payload 0")
  case None
  then show ?thesis using assms by (simp add: udp_sni_def del: get_at_None)
next
  case (Some b)
  show ?thesis
  proof (cases "pr_quic ps")
    case None
    then show ?thesis using Some assms by (simp add: udp_sni_def del: get_at_Some)
  next
    case flows: (Some flows)
    then have wf: "quic_table_wf flows" using assms by (simp add: parsers_wf_def)
    have c: "crypto_ok (fe_crypto env)" using assms(2) flows by (simp add: env_ok_def)
    obtain r flows' where "quic_feed (fe_crypto env) (fe_clk env) 0 src sport payload flows None = Got (r, flows')"
      "quic_table_wf flows'" "\<forall>s. r = Some s \<longrightarrow> host_name s"
      using quic_feed_wf [OF c wf, of None "fe_clk env" 0 src sport payload] by auto
    then show ?thesis
      using assms Some flows by (simp add: udp_sni_def parsers_wf_def del: get_at_Some)
  qed
qed

lemma parse_dns_wf: "packet_wf pkt \<Longrightarrow> packet_wf (parse_dns d pkt)"
  by (auto simp: packet_wf_def parse_dns_def dns_answers_length Let_def split: option.splits prod.splits)

lemma add_dns_wf: "packet_wf pkt \<Longrightarrow> packet_wf (add_dns pkt payload)"
  by (simp add: add_dns_def parse_dns_wf split: option.split)

lemma parse_l4_safe:
  assumes "parsers_wf ps" and "env_ok env ps"
  shows "safe good_frame (parse_l4 env proto src dst nbytes d ps)"
  unfolding parse_l4_def
proof (rule safe_andthen [OF l4_fields_safe], clarify, rule safe_andthen [where Q = good_sni])
  fix p sport dport payload
  show "safe good_sni (if p = Tcp then tcp_sni env src sport dst dport d payload ps else udp_sni env src sport payload ps)"
    using assms by (simp add: tcp_sni_safe udp_sni_safe)
qed (simp only: Let_def safe_simps fst_conv snd_conv, intro conjI add_dns_wf, simp_all add: packet_wf_def)

lemma v4_at_safe: "i + 3 < length d \<Longrightarrow> safe (\<lambda>r. True) (v4_at d i)"
  unfolding v4_at_def by (intro safe_idx) auto

lemma low_nibble: "unat (b AND 0x0F) * 4 \<le> 60" for b :: u8
proof -
  have "(0x0F :: u8) = mask 4" by (simp add: mask_eq_exp_minus_1)
  then have "unat (b AND 0x0F) = unat b mod 16" by (simp only: unat_and_mask) simp
  then show ?thesis by (simp add: less_Suc_eq_le [symmetric])
qed

lemma parse_ipv4_safe:
  assumes "parsers_wf ps" and "env_ok env ps"
  shows "safe good_frame (parse_ipv4 env d ps)"
  unfolding parse_ipv4_def Let_def
  by (intro safe_if safe_option safe_slice safe_andthen [OF v4_at_safe] parse_l4_safe assms) auto

lemma ipv6_headers_safe:
  assumes "parsers_wf ps" and "env_ok env ps"
  shows "safe good_frame (ipv6_headers n env d next off src dst nbytes ps)"
proof (induction n arbitrary: "next" off)
  case (Suc n)
  have sizes: "safe (\<lambda>r. True) (if next = 0 \<or> next = 43 \<or> next = 60 then
             andthen (of_option (get_at d (off + 1))) (\<lambda>b. Got ((unat b + 1) * 8))
           else if next = 51 then
             andthen (of_option (get_at d (off + 1))) (\<lambda>b. Got ((unat b + 2) * 4))
           else if next = 44 then
             andthen (of_option (be16 d (off + 2))) (\<lambda>f. if f AND 0xfff8 \<noteq> 0 then Absent else Got 8)
           else Absent)"
    by (intro safe_if safe_option) auto
  show ?case
    unfolding ipv6_headers.simps Let_def
    by (intro safe_if safe_option parse_l4_safe [OF assms] safe_andthen [OF sizes] Suc.IH) auto
qed simp

lemma parse_ipv6_safe:
  assumes "parsers_wf ps" and "env_ok env ps"
  shows "safe good_frame (parse_ipv6 env d ps)"
  unfolding parse_ipv6_def
  by (intro safe_if safe_option safe_slice safe_idx ipv6_headers_safe [OF assms]) auto

lemma vlan_tags_safe: "safe (\<lambda>r. True) (vlan_tags n d t off)"
proof (induction n arbitrary: t off)
  case (Suc n)
  show ?case unfolding vlan_tags.simps by (intro safe_if safe_option Suc.IH) auto
qed simp

lemma link_header_safe: "safe (\<lambda>r. True) (link_header linktype d)"
  unfolding link_header_def by (intro safe_if safe_option) auto

lemma parse_link_state_safe:
  assumes "parsers_wf ps" and "env_ok env ps"
  shows "safe good_frame (parse_link_state env linktype d ps)"
  unfolding parse_link_state_def
  by (rule safe_andthen [OF link_header_safe], clarify, rule safe_andthen [OF vlan_tags_safe], clarify,
      intro safe_if safe_option parse_ipv4_safe [OF assms] parse_ipv6_safe [OF assms]) auto


lemma parse_link_safe: "parse_link env linktype d \<noteq> Panic"
proof -
  have "env_ok env no_parsers" by (simp add: env_ok_def no_parsers_def)
  from parse_link_state_safe [OF no_parsers_wf this] show ?thesis
    by (simp add: parse_link_def safe_def)
qed

section \<open>Reading what was sent\<close>

lemma u16_be_word: "u16_be (word_of_nat (unat w div 256)) (word_of_nat (unat w)) = w" for w :: u16
  using u16_be_bytes [of "unat w"] by simp

lemma u16_be_word_cast: "u16_be (word_of_nat (unat w div 256)) (ucast w) = w" for w :: u16
  using u16_be_word [of w] by simp

lemma be_bytes_2_word: "be_bytes 2 (unat w) = [word_of_nat (unat w div 256), word_of_nat (unat w)]" for w :: u16
  by (rule be_bytes_2)

text \<open>A UDP datagram and an IPv4 packet without options, as RFC 768 and RFC 791 lay them out.\<close>

definition enc_udp :: "u16 \<Rightarrow> u16 \<Rightarrow> u16 \<Rightarrow> bytes \<Rightarrow> bytes" where
  "enc_udp sport dport csum payload =
     be_bytes 2 (unat sport) @ be_bytes 2 (unat dport) @ be_bytes 2 (8 + length payload) @ be_bytes 2 (unat csum) @ payload"

definition enc_ipv4 :: "u8 \<Rightarrow> u16 \<Rightarrow> u16 \<Rightarrow> u8 \<Rightarrow> u8 \<Rightarrow> u16 \<Rightarrow> bytes \<Rightarrow> bytes \<Rightarrow> bytes \<Rightarrow> bytes" where
  "enc_ipv4 tos ident frag ttl proto csum src dst rest =
     [0x45, tos] @ be_bytes 2 (20 + length rest) @ be_bytes 2 (unat ident) @ be_bytes 2 (unat frag)
       @ [ttl, proto] @ be_bytes 2 (unat csum) @ src @ dst @ rest"

lemma l4_fields_udp:
  assumes "length payload + 8 < 65536"
  shows "l4_fields 17 (enc_udp sport dport csum payload) = Got (Udp, sport, dport, payload)"
proof -
  let ?d = "enc_udp sport dport csum payload"
  have d: "?d = [word_of_nat (unat sport div 256), word_of_nat (unat sport), word_of_nat (unat dport div 256),
      word_of_nat (unat dport), word_of_nat ((8 + length payload) div 256), word_of_nat (8 + length payload),
      word_of_nat (unat csum div 256), word_of_nat (unat csum)] @ payload"
    by (simp only: enc_udp_def be_bytes_2 append.simps)
  have fields: "be16 ?d 0 = Some sport" "be16 ?d 2 = Some dport"
    "be16 ?d 4 = Some (u16_be (word_of_nat ((8 + length payload) div 256)) (word_of_nat (8 + length payload)))"
    unfolding d be16_eval by (simp_all add: u16_be_word_cast)
  have len: "unat (u16_be (word_of_nat ((8 + length payload) div 256)) (word_of_nat (8 + length payload))) = 8 + length payload"
    using assms by (intro u16_be_bytes) simp
  then have "\<not> u16_be (word_of_nat ((8 + length payload) div 256)) (word_of_nat (8 + length payload)) < 8"
    by (simp only: word_less_nat_alt) simp
  moreover have "length ?d = 8 + length payload" "drop 8 ?d = payload" unfolding d by simp_all
  ultimately show ?thesis
    using len fields by (simp add: l4_fields_def slice_def)
qed

lemma parse_ipv4_enc:
  assumes "length rest + 20 < 65536" and "frag AND 0x1fff = 0"
  shows "parse_ipv4 env (enc_ipv4 tos ident frag ttl proto csum [a, b, c, e] [a', b', c', e'] rest @ pad) ps
    = parse_l4 env proto (V4 a b c e) (V4 a' b' c' e') (word_of_nat (20 + length rest)) rest ps"
proof -
  let ?ip = "enc_ipv4 tos ident frag ttl proto csum [a, b, c, e] [a', b', c', e'] rest"
  let ?n = "20 + length rest"
  let ?total = "u16_be (word_of_nat (?n div 256)) (word_of_nat ?n)"
  have ip: "?ip = [0x45, tos, word_of_nat (?n div 256), word_of_nat ?n, word_of_nat (unat ident div 256),
      word_of_nat (unat ident), word_of_nat (unat frag div 256), word_of_nat (unat frag), ttl, proto,
      word_of_nat (unat csum div 256), word_of_nat (unat csum), a, b, c, e, a', b', c', e'] @ rest"
    by (simp only: enc_ipv4_def be_bytes_2 append.simps)
  have fields: "get_at (?ip @ pad) 0 = Some 0x45" "be16 (?ip @ pad) 6 = Some frag" "be16 (?ip @ pad) 2 = Some ?total"
    unfolding ip be16_eval get_at_def by (simp_all add: u16_be_word_cast)
  have total: "unat ?total = ?n" using assms(1) by (intro u16_be_bytes) simp
  have len: "length ?ip = ?n" unfolding ip by simp
  have cut: "slice (?ip @ pad) 0 (min (length (?ip @ pad)) (unat ?total)) = Got ?ip"
    unfolding total using len by simp
  have inner: "get_at ?ip 9 = Some proto" "v4_at ?ip 12 = Got (V4 a b c e)" "v4_at ?ip 16 = Got (V4 a' b' c' e')"
    "get_from ?ip 20 = Some rest"
    unfolding ip get_at_def v4_at_def get_from_def by (simp_all add: idx_def)
  have "ucast ?total = (word_of_nat ?n :: u32)"
  proof -
    have "(ucast ?total :: u32) = word_of_nat (unat ?total)" by simp
    then show ?thesis by (simp only: total)
  qed
  moreover have "drop_bit 4 (0x45 :: u8) = 4" "unat ((0x45 :: u8) AND 0x0F) * 4 = 20" by simp_all
  ultimately show ?thesis
    unfolding parse_ipv4_def fields of_option_simps andthen.simps Let_def
    using assms(2) total len cut inner by (simp del: get_at_Some get_from_Some slice_Got)
qed

lemma link_ethernet:
  assumes "length macs = 12"
  shows "parse_link_state env 1 (macs @ [0x08, 0x00] @ d) ps = parse_ipv4 env d ps"
proof -
  let ?f = "macs @ [0x08, 0x00] @ d"
  have "be16 ?f 12 = Some 0x0800"
    using assms by (simp add: be16_eval nth_append u16_be_def)
  then have "link_header 1 ?f = Got (0x0800, 14)" by (simp add: link_header_def)
  moreover have "vlan_tags 2 ?f 0x0800 14 = Got (0x0800, 14)" unfolding numeral_2_eq_2 vlan_tags.simps by simp
  moreover have "get_from ?f 14 = Some d" using assms by simp
  ultimately show ?thesis by (simp add: parse_link_state_def del: get_from_Some)
qed

lemma ipv4_fragment:
  assumes "be16 d 6 = Some frag" and "frag AND 0x1fff \<noteq> 0"
  shows "parse_ipv4 env d ps = Absent"
  using assms by (cases "get_at d 0") (simp_all add: parse_ipv4_def del: get_at_Some get_at_None)

definition sample_env :: frame_env where
  "sample_env = \<lparr>fe_crypto = sample_crypto, fe_clk = (\<lambda>i. i)\<rparr>"

lemma sample_env_ok: "crypto_ok (fe_crypto sample_env)"
  by (auto simp: crypto_ok_def sample_crypto_def sample_env_def)

section \<open>Properties\<close>

text \<open>
  C29. No frame of any link type makes the packet parser panic: it returns a packet or nothing,
  the reassembly tables stay within their bounds, the name it reports is a host name and it
  reports at most 64 addresses.
\<close>

theorem frame_safe:
  assumes "parsers_wf ps" and "crypto_ok (fe_crypto env)"
  shows "parse_link_live env linktype d ps = Absent
    \<or> (\<exists>pkt ps'. parse_link_live env linktype d ps = Got (pkt, ps') \<and> packet_wf pkt \<and> parsers_wf ps')"
  using parse_link_state_safe [OF assms(1), of env linktype d] assms(2) unfolding parse_link_live_def
  by (cases "parse_link_state env linktype d ps") (auto simp: safe_def env_ok_def)

theorem frame_safe_witness:
  "parse_link_live sample_env 1 (replicate 60 0x45) fresh_parsers = Absent
    \<or> (\<exists>pkt ps'. parse_link_live sample_env 1 (replicate 60 0x45) fresh_parsers = Got (pkt, ps')
         \<and> packet_wf pkt \<and> parsers_wf ps')"
  by (rule frame_safe [OF fresh_parsers_wf sample_env_ok])

text \<open>
  A UDP datagram in an unfragmented IPv4 packet in an Ethernet frame, whatever the other
  header fields and whatever padding follows, is decoded to exactly its protocol, addresses,
  ports and length, and its payload, all of it and nothing after it, is what the QUIC and DNS
  parsers get.
\<close>

theorem udp_frame_roundtrip:
  assumes "length macs = 12" and "length payload + 28 < 65536" and "frag AND 0x1fff = 0"
  shows "parse_link_live env 1 (macs @ [0x08, 0x00] @ enc_ipv4 tos ident frag ttl 17 csum [a, b, c, e] [a', b', c', e']
       (enc_udp sport dport csum' payload) @ pad) ps
     = andthen (udp_sni env (V4 a b c e) sport payload ps) (\<lambda>r.
         Got (add_dns \<lparr>pk_proto = Udp, pk_src = V4 a b c e, pk_sport = sport, pk_dst = V4 a' b' c' e',
           pk_dport = dport, pk_bytes = word_of_nat (28 + length payload), pk_sni = fst r, pk_dns_addrs = []\<rparr> payload,
           snd r))"
proof -
  have len: "length (enc_udp sport dport csum' payload) = 8 + length payload" by (simp add: enc_udp_def)
  then have "20 + length (enc_udp sport dport csum' payload) = 28 + length payload" by simp
  then show ?thesis
    using parse_ipv4_enc [of "enc_udp sport dport csum' payload" frag env tos ident ttl 17 csum a b c e a' b' c' e' pad ps]
      l4_fields_udp [of payload sport dport csum'] assms len
    by (simp only: parse_link_live_def link_ethernet append_assoc) (simp add: parse_l4_def Let_def)
qed

theorem udp_frame_roundtrip_witness:
  "parse_link_live sample_env 1 (replicate 12 9 @ [0x08, 0x00]
      @ enc_ipv4 0 7 0x4000 64 17 0 [10, 0, 0, 2] [1, 1, 1, 1] (enc_udp 5000 53 0 [1, 2]) @ [0, 0]) no_parsers
    = andthen (udp_sni sample_env (V4 10 0 0 2) 5000 [1, 2] no_parsers) (\<lambda>r.
        Got (add_dns \<lparr>pk_proto = Udp, pk_src = V4 10 0 0 2, pk_sport = 5000, pk_dst = V4 1 1 1 1,
          pk_dport = 53, pk_bytes = word_of_nat (28 + length [1 :: u8, 2]), pk_sni = fst r, pk_dns_addrs = []\<rparr> [1, 2], snd r))"
  by (rule udp_frame_roundtrip) simp_all

text \<open>
  A fragment other than the first of an IPv4 packet has no transport header, and no packet
  is made of it: neither ports nor names are read from the middle of a datagram.
\<close>

theorem ipv4_fragment_ignored:
  assumes "length macs = 12" and "be16 d 6 = Some frag" and "frag AND 0x1fff \<noteq> 0"
  shows "parse_link_live env 1 (macs @ [0x08, 0x00] @ d) ps = Absent"
  unfolding parse_link_live_def link_ethernet [OF assms(1)] using assms(2,3) by (rule ipv4_fragment)

theorem ipv4_fragment_ignored_witness:
  "parse_link_live sample_env 1
     (replicate 12 0 @ [0x08, 0x00] @ [0x45, 0, 0, 28, 0, 0, 0, 1]) fresh_parsers = Absent"
  by (rule ipv4_fragment_ignored [where frag = 1]) (simp_all add: be16_eval u16_be_def)

end
