(* ===== verification/Pcapng.thy ===== *)
theory Pcapng
  imports Pcap "HOL-Library.Sublist"
begin

text \<open>
  The pcapng container: the block layout that \<^verbatim>\<open>write_block\<close> of
  \<^verbatim>\<open>src/src/annotate.rs\<close> writes, and the incremental reader \<^verbatim>\<open>PcapngReader\<close> of
  \<^verbatim>\<open>src/src/pcap.rs\<close>. The locale \<open>block_stream\<close> is the contract between a writer of
  blocks and a reader that is fed with chunks; from it follows that the chunking does not matter.
\<close>

section \<open>Blocks\<close>

definition le32 :: "bytes \<Rightarrow> nat \<Rightarrow> u32 option" where
  "le32 b off = do {
     x0 \<leftarrow> get_at b off; x1 \<leftarrow> get_at b (off + 1); x2 \<leftarrow> get_at b (off + 2); x3 \<leftarrow> get_at b (off + 3);
     Some (word_of_nat (le_nat [x0, x1, x2, x3]))}"

text \<open>\<^verbatim>\<open>write_block\<close>: type, length, body, length.\<close>

definition write_block :: "u32 \<Rightarrow> bytes \<Rightarrow> bytes" where
  "write_block ty body =
     (let len = 12 + length body in
      le_bytes 4 (unat ty) @ le_bytes 4 len @ body @ le_bytes 4 len)"

lemma length_write_block: "length (write_block ty body) = 12 + length body"
  by (simp add: write_block_def Let_def)

lemma le_bytes_4: "le_bytes 4 n = [word_of_nat n, word_of_nat (n div 256), word_of_nat (n div 256 div 256),
    word_of_nat (n div 256 div 256 div 256)]"
proof -
  have "4 = Suc (Suc (Suc (Suc 0)))" by simp
  then show ?thesis by (simp only: le_bytes.simps)
qed

lemma le32_cursor [layout]: "drop p d = le_bytes 4 n @ r \<Longrightarrow> le32 d p = Some (word_of_nat n)"
proof -
  assume at: "drop p d = le_bytes 4 n @ r"
  obtain x0 x1 x2 x3 where xs: "le_bytes 4 n = [x0, x1, x2, x3]"
    unfolding le_bytes_4 by blast
  then have at0: "drop p d = x0 # x1 # x2 # x3 # r" using at by simp
  then have "drop (p + 1) d = x1 # x2 # x3 # r" "drop (p + 2) d = x2 # x3 # r" "drop (p + 3) d = x3 # r"
    using drop_cursor [of p d "[x0]"] drop_cursor [of p d "[x0, x1]"] drop_cursor [of p d "[x0, x1, x2]"]
    by (simp_all add: numeral_eq_Suc del: drop_append drop_drop)
  then have "get_at d p = Some x0" "get_at d (p + 1) = Some x1" "get_at d (p + 2) = Some x2" "get_at d (p + 3) = Some x3"
    using at0 by (auto intro: get_at_cursor simp del: get_at_Some)
  then have "le32 d p = Some (word_of_nat (le_nat (le_bytes 4 n)))"
    by (simp add: le32_def xs del: get_at_Some)
  also have "(word_of_nat (le_nat (le_bytes 4 n)) :: u32) = word_of_nat n"
    unfolding le_nat_le_bytes by (simp add: word_of_nat_eq_iff take_bit_eq_mod)
  finally show ?thesis .
qed

section \<open>The reader\<close>

text \<open>Link types of the interfaces, in the order of their blocks, and the parsers.\<close>

record reader =
  rd_linktypes :: "u16 list"
  rd_parsers :: parsers

record pcapng =
  pn_buf :: bytes
  pn_reader :: reader

definition reader_new :: pcapng where
  "reader_new = \<lparr>pn_buf = [], pn_reader = \<lparr>rd_linktypes = [], rd_parsers = fresh_parsers\<rparr>\<rparr>"

definition u16_le :: "u8 \<Rightarrow> u8 \<Rightarrow> u16" where
  "u16_le a b = word_of_nat (le_nat [a, b])"

text \<open>What one block does: the reader after it and the packets it adds.\<close>

definition reader_block :: "frame_env \<Rightarrow> u32 \<times> bytes \<Rightarrow> reader \<Rightarrow> (reader \<times> Packet list) fallible" where
  "reader_block env b s =
     (let body = snd b in
      if fst b = 1 then
        (case (get_at body 0, get_at body 1) of
           (Some x, Some y) \<Rightarrow> Got (s\<lparr>rd_linktypes := rd_linktypes s @ [u16_le x y]\<rparr>, [])
         | _ \<Rightarrow> Got (s, []))
      else if fst b = 6 \<and> 20 \<le> length body then
        andthen (slice body 0 4) (\<lambda>iface.
        andthen (slice body 12 16) (\<lambda>caplen_bytes.
        let caplen = le_nat caplen_bytes;
            lt = (case get_at (rd_linktypes s) (le_nat iface) of None \<Rightarrow> 1 | Some lt \<Rightarrow> lt) in
        if 20 + caplen \<le> length body then
          andthen (slice body 20 (20 + caplen)) (\<lambda>frame.
            case parse_link_live env lt frame (rd_parsers s) of
              Panic \<Rightarrow> Panic
            | Absent \<Rightarrow> Got (s, [])
            | Got r \<Rightarrow> Got (s\<lparr>rd_parsers := snd r\<rparr>, [fst r]))
        else Got (s, [])))
      else Got (s, []))"

text \<open>
  The loop of \<^verbatim>\<open>push\<close> from position \<open>pos\<close> of the buffer. Each block has its own
  readings of the clock, \<open>envs i\<close>. A length out of range ends the stream: the buffer is
  dropped.
\<close>

function push_loop :: "(nat \<Rightarrow> frame_env) \<Rightarrow> nat \<Rightarrow> bytes \<Rightarrow> nat \<Rightarrow> reader \<Rightarrow> Packet list
    \<Rightarrow> (pcapng \<times> Packet list) fallible" where
  "push_loop envs i buf pos s out =
     (if length buf < pos then Panic
      else if length buf - pos < 12 then Got (\<lparr>pn_buf = drop pos buf, pn_reader = s\<rparr>, out)
      else
        case (le32 (drop pos buf) 0, le32 (drop pos buf) 4) of
          (Some btype, Some len) \<Rightarrow>
            let blen = unat len in
            if \<not> (12 \<le> blen \<and> blen \<le> 2 ^ 26) then Got (\<lparr>pn_buf = [], pn_reader = s\<rparr>, out)
            else if length buf - pos < blen then Got (\<lparr>pn_buf = drop pos buf, pn_reader = s\<rparr>, out)
            else
              andthen (slice buf (pos + 8) (pos + blen - 4)) (\<lambda>body.
              andthen (reader_block (envs i) (btype, body) s) (\<lambda>r.
                push_loop envs (i + 1) buf (pos + blen) (fst r) (out @ snd r)))
        | _ \<Rightarrow> Got (\<lparr>pn_buf = drop pos buf, pn_reader = s\<rparr>, out))"
  by pat_completeness auto
termination
  by (relation "measure (\<lambda>(envs, i, buf, pos, s, out). length buf - pos)") auto

declare push_loop.simps [simp del]

definition reader_push :: "(nat \<Rightarrow> frame_env) \<Rightarrow> bytes \<Rightarrow> pcapng \<Rightarrow> (pcapng \<times> Packet list) fallible" where
  "reader_push envs data st = push_loop envs 0 (pn_buf st @ data) 0 (pn_reader st) []"

section \<open>Streams of blocks in chunks\<close>

fun run_blocks :: "('b \<Rightarrow> 's \<Rightarrow> ('s \<times> 'o list) fallible) \<Rightarrow> 'b list \<Rightarrow> 's \<Rightarrow> ('s \<times> 'o list) fallible" where
  "run_blocks f [] s = Got (s, [])"
| "run_blocks f (b # bs) s =
     andthen (f b s) (\<lambda>r. andthen (run_blocks f bs (fst r)) (\<lambda>r'. Got (fst r', snd r @ snd r')))"

lemma andthen_assoc: "andthen (andthen m f) g = andthen m (\<lambda>x. andthen (f x) g)"
  by (cases m) auto

lemma run_blocks_append:
  "run_blocks f (bs @ cs) s =
     andthen (run_blocks f bs s) (\<lambda>r. andthen (run_blocks f cs (fst r)) (\<lambda>r'. Got (fst r', snd r @ snd r')))"
proof (induction bs arbitrary: s)
  case Nil
  show ?case by (cases "run_blocks f cs s") auto
next
  case (Cons b bs)
  then show ?case by (simp add: andthen_assoc)
qed

lemma map_got_andthen: "andthen (map_got g m) f = andthen m (\<lambda>x. f (g x))"
  "map_got g (andthen m h) = andthen m (\<lambda>x. map_got g (h x))"
  "map_got g m = andthen m (\<lambda>x. Got (g x))"
  by (cases m; simp)+

locale block_stream =
  fixes enc :: "'b \<Rightarrow> bytes"
    and valid :: "'b \<Rightarrow> bool"
    and block :: "'b \<Rightarrow> 's \<Rightarrow> ('s \<times> 'o list) fallible"
    and push :: "bytes \<Rightarrow> 'st \<Rightarrow> ('st \<times> 'o list) fallible"
    and mk :: "bytes \<Rightarrow> 's \<Rightarrow> 'st"
  assumes enc_nonempty: "enc b \<noteq> []"
    and push_blocks: "\<forall>b \<in> set bs. valid b \<Longrightarrow> t = [] \<or> (\<exists>b. valid b \<and> strict_prefix t (enc b)) \<Longrightarrow>
      buf @ chunk = concat (map enc bs) @ t \<Longrightarrow>
      push chunk (mk buf s) = map_got (\<lambda>r. (mk t (fst r), snd r)) (run_blocks block bs s)"
begin

lemma prefix_of_blocks:
  "prefix x (concat (map enc bs)) \<Longrightarrow> \<exists>bs1 bs2 t. bs = bs1 @ bs2 \<and> x = concat (map enc bs1) @ t
     \<and> (t = [] \<or> (bs2 \<noteq> [] \<and> strict_prefix t (enc (hd bs2))))"
proof (induction bs arbitrary: x)
  case Nil
  then show ?case by (intro exI [of _ "[]"]) simp
next
  case (Cons b bs)
  from Cons.prems have "prefix x (enc b @ concat (map enc bs))" by simp
  then have "strict_prefix x (enc b) \<or> (\<exists>y. x = enc b @ y \<and> prefix y (concat (map enc bs)))"
    by (auto simp: prefix_append strict_prefix_def)
  then consider "strict_prefix x (enc b)" | y where "x = enc b @ y" "prefix y (concat (map enc bs))"
    by blast
  then show ?case
  proof cases
    case 1
    then show ?thesis by (intro exI [of _ "[]"] exI [of _ "b # bs"] exI [of _ x]) simp
  next
    case 2
    from Cons.IH [OF this(2)] obtain bs1 bs2 t where "bs = bs1 @ bs2" "y = concat (map enc bs1) @ t"
      "t = [] \<or> (bs2 \<noteq> [] \<and> strict_prefix t (enc (hd bs2)))" by blast
    then show ?thesis using 2 by (intro exI [of _ "b # bs1"] exI [of _ bs2] exI [of _ t]) simp
  qed
qed

lemma chunks_from:
  assumes "\<forall>b \<in> set bs. valid b" and "buf @ concat chunks = concat (map enc bs)"
    and "buf = [] \<or> (bs \<noteq> [] \<and> strict_prefix buf (enc (hd bs)))"
  shows "run_blocks push chunks (mk buf s) = map_got (\<lambda>r. (mk [] (fst r), snd r)) (run_blocks block bs s)"
  using assms
proof (induction chunks arbitrary: buf bs s)
  case Nil
  have "bs = []"
  proof (rule ccontr)
    assume "bs \<noteq> []"
    then obtain b bs' where "bs = b # bs'" by (cases bs) auto
    then show False using Nil.prems(2,3) enc_nonempty [of b] by (auto simp: strict_prefix_def prefix_def)
  qed
  then show ?case using Nil.prems by simp
next
  case (Cons chunk chunks)
  have "prefix (buf @ chunk) (concat (map enc bs))"
    using Cons.prems(2) by (metis append_assoc concat.simps(2) prefixI)
  then obtain bs1 bs2 t where split: "bs = bs1 @ bs2" "buf @ chunk = concat (map enc bs1) @ t"
    "t = [] \<or> (bs2 \<noteq> [] \<and> strict_prefix t (enc (hd bs2)))"
    using prefix_of_blocks by blast
  have rest: "t @ concat chunks = concat (map enc bs2)"
    using Cons.prems(2) split(1,2) by (metis (no_types, lifting) append_assoc concat.simps(2) concat_append map_append same_append_eq)
  have valid1: "\<forall>b \<in> set bs1. valid b" and valid2: "\<forall>b \<in> set bs2. valid b"
    using Cons.prems(1) split(1) by auto
  have tail: "t = [] \<or> (\<exists>b. valid b \<and> strict_prefix t (enc b))"
    using split(3) valid2 by (metis hd_in_set)
  have "run_blocks push chunks (mk t s') = map_got (\<lambda>r. (mk [] (fst r), snd r)) (run_blocks block bs2 s')" for s'
    using valid2 rest split(3) by (rule Cons.IH)
  then show ?case
    unfolding run_blocks.simps push_blocks [OF valid1 tail split(2)] split(1) run_blocks_append
    by (simp add: map_got_andthen(3) andthen_assoc)
qed

theorem chunking:
  assumes "\<forall>b \<in> set bs. valid b" and "concat chunks = concat (map enc bs)"
  shows "run_blocks push chunks (mk [] s) = map_got (\<lambda>r. (mk [] (fst r), snd r)) (run_blocks block bs s)"
  using chunks_from [of bs "[]" chunks s] assms by simp

end

section \<open>The reader is such a stream\<close>

definition block_ok :: "u32 \<times> bytes \<Rightarrow> bool" where
  "block_ok b \<longleftrightarrow> 12 + length (snd b) \<le> 2 ^ 26"

definition block_bytes :: "u32 \<times> bytes \<Rightarrow> bytes" where
  "block_bytes b = write_block (fst b) (snd b)"

lemma length_block_bytes: "length (block_bytes b) = 12 + length (snd b)"
  by (simp add: block_bytes_def length_write_block)

lemma block_header:
  assumes "block_ok b" and "drop pos buf = block_bytes b @ r"
  shows "le32 (drop pos buf) 0 = Some (fst b)" "le32 (drop pos buf) 4 = Some (word_of_nat (12 + length (snd b)))"
    "unat (word_of_nat (12 + length (snd b)) :: u32) = 12 + length (snd b)"
    "take (length (snd b)) (drop (pos + 8) buf) = snd b" "12 + length (snd b) \<le> length buf - pos"
    "drop (pos + (12 + length (snd b))) buf = r"
proof -
  let ?n = "12 + length (snd b)"
  have at: "drop pos buf = le_bytes 4 (unat (fst b)) @ le_bytes 4 ?n @ snd b @ le_bytes 4 ?n @ r"
    using assms(2) by (simp add: block_bytes_def write_block_def Let_def)
  show "le32 (drop pos buf) 0 = Some (fst b)"
    using le32_cursor [of 0 "drop pos buf"] at by simp
  have at4: "drop 4 (drop pos buf) = le_bytes 4 ?n @ snd b @ le_bytes 4 ?n @ r"
    unfolding at by simp
  then show "le32 (drop pos buf) 4 = Some (word_of_nat ?n)" by (rule le32_cursor)
  show "unat (word_of_nat ?n :: u32) = ?n"
    using assms(1) unfolding unat_of_nat block_ok_def by simp
  have "drop 8 (drop pos buf) = snd b @ le_bytes 4 ?n @ r" unfolding at by simp
  then show "take (length (snd b)) (drop (pos + 8) buf) = snd b" by (simp add: add.commute)
  have "length (drop pos buf) = ?n + length r" unfolding assms(2) by (simp add: length_block_bytes)
  then show "?n \<le> length buf - pos" by simp
  have "drop ?n (drop pos buf) = r" unfolding assms(2) by (simp add: length_block_bytes)
  then show "drop (pos + ?n) buf = r" by (simp add: add.commute)
qed

lemma push_loop_stop:
  assumes "t = [] \<or> (\<exists>b. block_ok b \<and> strict_prefix t (block_bytes b))" and "drop pos buf = t" and "pos \<le> length buf"
  shows "push_loop envs i buf pos s out = Got (\<lparr>pn_buf = t, pn_reader = s\<rparr>, out)"
proof (cases "length t < 12")
  case True
  then have "length buf - pos < 12" using assms(2) by (metis length_drop)
  then show ?thesis using assms(2,3) by (subst push_loop.simps) simp
next
  case False
  then have "t \<noteq> []" by auto
  then obtain b where ok: "block_ok b" "strict_prefix t (block_bytes b)" using assms(1) by blast
  then obtain r where b: "block_ok b" "block_bytes b = t @ r" "r \<noteq> []"
    by (metis append_Nil2 prefixE strict_prefix_def)
  have whole: "drop 0 (t @ r) = block_bytes b @ []" using b by simp
  have heads: "le32 t 0 = le32 (t @ r) 0" "le32 t 4 = le32 (t @ r) 4"
  proof -
    have "get_at (t @ r) i = get_at t i" if "i < 12" for i
      using that False by (simp add: get_at_def nth_append)
    then show "le32 t 0 = le32 (t @ r) 0" "le32 t 4 = le32 (t @ r) 4" by (simp_all add: le32_def)
  qed
  have len: "length t < 12 + length (snd b)"
    using arg_cong [OF b(2), of length] b(3) by (simp add: length_block_bytes)
  have "12 + length (snd b) \<le> 2 ^ 26" using b(1) by (simp add: block_ok_def)
  moreover have "length buf - pos = length t" using assms(2) by (metis length_drop)
  ultimately show ?thesis
    using False len assms(2,3) heads block_header(1,2,3) [OF b(1) whole]
    by (subst push_loop.simps) (simp add: Let_def)
qed

lemma push_loop_blocks:
  assumes "\<forall>b \<in> set bs. block_ok b" and "t = [] \<or> (\<exists>b. block_ok b \<and> strict_prefix t (block_bytes b))"
    and "drop pos buf = concat (map block_bytes bs) @ t" and "pos \<le> length buf"
  shows "push_loop (\<lambda>_. env) i buf pos s out
    = map_got (\<lambda>r. (\<lparr>pn_buf = t, pn_reader = fst r\<rparr>, out @ snd r)) (run_blocks (reader_block env) bs s)"
  using assms(1,3,4)
proof (induction bs arbitrary: i pos s out)
  case Nil
  then show ?case using push_loop_stop [OF assms(2)] by simp
next
  case (Cons b bs)
  let ?n = "12 + length (snd b)"
  have ok: "block_ok b" using Cons.prems(1) by simp
  have at: "drop pos buf = block_bytes b @ (concat (map block_bytes bs) @ t)" using Cons.prems(2) by simp
  note head = block_header [OF ok at]
  have body: "slice buf (pos + 8) (pos + ?n - 4) = Got (snd b)"
    using head(4,5) Cons.prems(3) by simp
  have small: "?n \<le> 2 ^ 26" using ok by (simp add: block_ok_def)
  have step: "push_loop (\<lambda>_. env) i buf pos s out = andthen (reader_block env b s) (\<lambda>r.
      push_loop (\<lambda>_. env) (i + 1) buf (pos + ?n) (fst r) (out @ snd r))"
    using head(1,2,3,5) body small Cons.prems(3)
    by (subst push_loop.simps) (simp add: Let_def del: slice_Got)
  have "push_loop (\<lambda>_. env) (i + 1) buf (pos + ?n) s' out'
      = map_got (\<lambda>r. (\<lparr>pn_buf = t, pn_reader = fst r\<rparr>, out' @ snd r)) (run_blocks (reader_block env) bs s')" for s' out'
    using Cons.prems head by (intro Cons.IH) auto
  then show ?case
    unfolding step by (simp add: map_got_andthen(3) andthen_assoc)
qed

interpretation reader_stream: block_stream block_bytes block_ok "reader_block env" "reader_push (\<lambda>_. env)"
    "\<lambda>buf s. \<lparr>pn_buf = buf, pn_reader = s\<rparr>" for env
proof
  fix b :: "u32 \<times> bytes"
  show "block_bytes b \<noteq> []" using length_block_bytes [of b] by auto
next
  fix bs t buf chunk s
  assume "\<forall>b \<in> set bs. block_ok b" "t = [] \<or> (\<exists>b. block_ok b \<and> strict_prefix t (block_bytes b))"
    "buf @ chunk = concat (map block_bytes bs) @ t"
  then show "reader_push (\<lambda>_. env) chunk \<lparr>pn_buf = buf, pn_reader = s\<rparr>
      = map_got (\<lambda>r. (\<lparr>pn_buf = t, pn_reader = fst r\<rparr>, snd r)) (run_blocks (reader_block env) bs s)"
    by (simp add: reader_push_def push_loop_blocks)
qed

section \<open>Properties\<close>

text \<open>
  C23. The reader of the capture stream does not depend on how the stream is cut: when the
  blocks that a capture writes arrive in chunks of any sizes, the reader ends with an empty
  buffer and with the packets, link types and parser state of handling the blocks one by one,
  in their order; none is lost, split or read twice.
\<close>

theorem pcapng_chunking:
  assumes "\<forall>b \<in> set bs. block_ok b" and "concat chunks = concat (map block_bytes bs)"
  shows "run_blocks (reader_push (\<lambda>_. env)) chunks \<lparr>pn_buf = [], pn_reader = s\<rparr>
    = map_got (\<lambda>r. (\<lparr>pn_buf = [], pn_reader = fst r\<rparr>, snd r)) (run_blocks (reader_block env) bs s)"
  using assms by (rule reader_stream.chunking)

theorem pcapng_chunking_witness:
  "run_blocks (reader_push (\<lambda>_. sample_env))
      [take 5 (block_bytes (1, [1, 0, 0, 0])), drop 5 (block_bytes (1, [1, 0, 0, 0])) @ block_bytes (7, [])] reader_new
    = map_got (\<lambda>r. (\<lparr>pn_buf = [], pn_reader = fst r\<rparr>, snd r))
        (run_blocks (reader_block sample_env) [(1, [1, 0, 0, 0]), (7, [])] (pn_reader reader_new))"
  using pcapng_chunking [of "[(1, [1, 0, 0, 0]), (7, [])]"
      "[take 5 (block_bytes (1, [1, 0, 0, 0])), drop 5 (block_bytes (1, [1, 0, 0, 0])) @ block_bytes (7, [])]"
      sample_env "\<lparr>rd_linktypes = [], rd_parsers = fresh_parsers\<rparr>"]
  by (simp add: block_ok_def reader_new_def del: run_blocks.simps)

end
