(* ===== verification/Annotate.thy ===== *)
theory Annotate
  imports Pcapng
begin

text \<open>
  The rewriting of a finished capture: \<^verbatim>\<open>src/src/annotate.rs\<close>. Every packet gets a comment
  with the process and the domain it belongs to, and, on request, only the packets of the
  selected group are kept. The blocks written are a list; the file is their concatenation.
  Errors of the code are the constructors of \<open>annotate_error\<close>; \<open>Crash\<close> stands for an index
  out of range.
\<close>

section \<open>Data\<close>

record Owner =
  ow_label :: "string option"
  ow_keep :: bool

record Plan =
  pl_owners :: "(ConnKey, Owner) hmap"
  pl_only_group :: bool
  pl_comment :: string

record Stats =
  st_packets :: nat
  st_kept :: nat
  st_labeled :: nat

definition SHB :: u32 where "SHB = 0x0A0D0D0A"
definition IDB :: u32 where "IDB = 1"
definition EPB :: u32 where "EPB = 6"
definition MAGIC :: u32 where "MAGIC = 0x1A2B3C4D"

datatype annotate_error = ShortRead | CorruptBlock | LengthsDisagree | BigEndian | CorruptPacket | NoSection
  | IoError | Crash

section \<open>Options\<close>

definition round4 :: "nat \<Rightarrow> nat" where
  "round4 n = (n + 3) div 4 * 4"

definition opt_comment :: "string \<Rightarrow> bytes" where
  "opt_comment text =
     (let t = bytes_of text; t = take (min (length t) (65535 - 3)) t;
          opt = le_bytes 2 1 @ le_bytes 2 (length t) @ t in
      opt @ replicate (round4 (length opt) - length opt) 0)"

text \<open>\<open>None\<close> when \<open>fixed\<close> is beyond the body, where the code would panic.\<close>

definition with_comment :: "bytes \<Rightarrow> nat \<Rightarrow> string \<Rightarrow> bytes option" where
  "with_comment body fixed text =
     (if length body < fixed then None
      else Some (take fixed body @ opt_comment text
        @ (if fixed < length body then drop fixed body else replicate 4 0)))"

section \<open>The plan\<close>

definition plan_lookup :: "Plan \<Rightarrow> Packet \<Rightarrow> Owner option" where
  "plan_lookup plan p =
     (let fwd = \<lparr>k_proto = pk_proto p, k_local = pk_src p, k_lport = pk_sport p, k_remote = pk_dst p, k_rport = pk_dport p\<rparr>;
          back = \<lparr>k_proto = pk_proto p, k_local = pk_dst p, k_lport = pk_dport p, k_remote = pk_src p, k_rport = pk_sport p\<rparr> in
      case hm_get (pl_owners plan) fwd of Some o' \<Rightarrow> Some o' | None \<Rightarrow> hm_get (pl_owners plan) back)"

definition judge :: "frame_env \<Rightarrow> Plan \<Rightarrow> u16 \<Rightarrow> bytes \<Rightarrow> (bool \<times> string option) option" where
  "judge env plan linktype frame =
     (case parse_link env linktype frame of
        Panic \<Rightarrow> None
      | Absent \<Rightarrow> Some (\<not> pl_only_group plan, None)
      | Got p \<Rightarrow>
          (case plan_lookup plan p of
             Some o' \<Rightarrow> Some (\<not> pl_only_group plan \<or> ow_keep o', ow_label o')
           | None \<Rightarrow> Some (\<not> pl_only_group plan, None)))"

section \<open>One block\<close>

record annotate_state =
  an_linktypes :: "u16 list"
  an_saw_header :: bool
  an_stats :: Stats
  an_out :: "(u32 \<times> bytes) list"

definition emit :: "u32 \<Rightarrow> bytes \<Rightarrow> annotate_state \<Rightarrow> annotate_state" where
  "emit ty body s = s\<lparr>an_out := an_out s @ [(ty, body)]\<rparr>"

definition annotate_packet :: "frame_env \<Rightarrow> Plan \<Rightarrow> bytes \<Rightarrow> annotate_state \<Rightarrow> annotate_error + annotate_state" where
  "annotate_packet env plan body s0 =
     (let s = s0\<lparr>an_stats := (an_stats s0)\<lparr>st_packets := st_packets (an_stats s0) + 1\<rparr>\<rparr> in
      case (le32 body 12, le32 body 0) of
        (Some cap, Some iface) \<Rightarrow>
          let caplen = unat cap; fixed = 20 + round4 caplen in
          if length body < fixed then Inl CorruptPacket
          else
            let lt = (case get_at (an_linktypes s) (unat iface) of None \<Rightarrow> 1 | Some lt \<Rightarrow> lt) in
            (case get_range body 20 (20 + caplen) of
               None \<Rightarrow> Inl Crash
             | Some frame \<Rightarrow>
                 (case judge env plan lt frame of
                    None \<Rightarrow> Inl Crash
                  | Some (keep, label) \<Rightarrow>
                      if \<not> keep then Inr s
                      else
                        let s = s\<lparr>an_stats := (an_stats s)\<lparr>st_kept := st_kept (an_stats s) + 1\<rparr>\<rparr> in
                        (case label of
                           Some l \<Rightarrow>
                             let s = s\<lparr>an_stats := (an_stats s)\<lparr>st_labeled := st_labeled (an_stats s) + 1\<rparr>\<rparr> in
                             (case with_comment body fixed l of
                                None \<Rightarrow> Inl Crash
                              | Some body' \<Rightarrow> Inr (emit EPB body' s))
                         | None \<Rightarrow> Inr (emit EPB body s))))
      | _ \<Rightarrow> Inl Crash)"

definition annotate_block :: "frame_env \<Rightarrow> Plan \<Rightarrow> u32 \<times> bytes \<Rightarrow> annotate_state \<Rightarrow> annotate_error + annotate_state" where
  "annotate_block env plan b s =
     (let ty = fst b; body = snd b in
      if ty = SHB then
        (if length body < 16 \<or> le32 body 0 \<noteq> Some MAGIC then Inl BigEndian
         else
           (case with_comment body 16 (pl_comment plan) of
              None \<Rightarrow> Inl Crash
            | Some body' \<Rightarrow> Inr (emit ty body' (s\<lparr>an_saw_header := True, an_linktypes := []\<rparr>))))
      else if ty = IDB then
        (case (get_at body 0, get_at body 1) of
           (Some x, Some y) \<Rightarrow> Inr (emit ty body (s\<lparr>an_linktypes := an_linktypes s @ [u16_le x y]\<rparr>))
         | _ \<Rightarrow> Inr (emit ty body s))
      else if ty = EPB \<and> 20 \<le> length body then annotate_packet env plan body s
      else Inr (emit ty body s))"

section \<open>The file\<close>

text \<open>The read loop of \<^verbatim>\<open>apply\<close>; \<open>src\<close> is what is left of the input.\<close>

function annotate_loop :: "frame_env \<Rightarrow> Plan \<Rightarrow> bytes \<Rightarrow> annotate_state \<Rightarrow> annotate_error + annotate_state" where
  "annotate_loop env plan src s =
     (if src = [] then Inr s
      else if length src < 8 then Inl ShortRead
      else
        case (le32 src 0, le32 src 4) of
          (Some ty, Some len32) \<Rightarrow>
            let len = unat len32 in
            if \<not> (12 \<le> len \<and> len \<le> 2 ^ 26) \<or> len mod 4 \<noteq> 0 then Inl CorruptBlock
            else if length src - 8 < len - 8 then Inl ShortRead
            else
              let body = take (len - 8) (drop 8 src) in
              (case le32 body (length body - 4) of
                 None \<Rightarrow> Inl Crash
               | Some len' \<Rightarrow>
                   if unat len' \<noteq> len then Inl LengthsDisagree
                   else
                     (case annotate_block env plan (ty, take (len - 12) body) s of
                        Inl e \<Rightarrow> Inl e
                      | Inr s' \<Rightarrow> annotate_loop env plan (drop len src) s'))
        | _ \<Rightarrow> Inl Crash)"
  by pat_completeness auto
termination
  by (relation "measure (\<lambda>(env, plan, src, s). length src)") auto

declare annotate_loop.simps [simp del]

definition annotate_start :: annotate_state where
  "annotate_start = \<lparr>an_linktypes = [], an_saw_header = False,
     an_stats = \<lparr>st_packets = 0, st_kept = 0, st_labeled = 0\<rparr>, an_out = []\<rparr>"

definition plan_apply :: "frame_env \<Rightarrow> Plan \<Rightarrow> bytes \<Rightarrow> annotate_error + (Stats \<times> bytes)" where
  "plan_apply env plan src =
     (case annotate_loop env plan src annotate_start of
        Inl e \<Rightarrow> Inl e
      | Inr s \<Rightarrow> if an_saw_header s then Inr (an_stats s, concat (map block_bytes (an_out s))) else Inl NoSection)"

text \<open>
  \<^verbatim>\<open>rewrite\<close> on a file system that maps paths to contents. \<open>perm_ok\<close>, \<open>write_ok\<close> and
  \<open>rename_ok\<close> are the outcomes of the calls that may fail in the operating system.
\<close>

type_synonym files = "string \<Rightarrow> bytes option"

definition plan_rewrite :: "frame_env \<Rightarrow> Plan \<Rightarrow> bool \<Rightarrow> bool \<Rightarrow> bool \<Rightarrow> string \<Rightarrow> files
    \<Rightarrow> (annotate_error + Stats) \<times> files" where
  "plan_rewrite env plan perm_ok write_ok rename_ok path fs =
     (let tmp = path @ ''.part'' in
      case fs path of
        None \<Rightarrow> (Inl IoError, fs)
      | Some src \<Rightarrow>
          if fs tmp \<noteq> None then (Inl IoError, fs)
          else
            let res = (if \<not> perm_ok then Inl IoError
                       else case plan_apply env plan src of
                         Inl e \<Rightarrow> Inl e
                       | Inr r \<Rightarrow> if write_ok \<and> rename_ok then Inr r else Inl IoError) in
            (case res of
               Inr (st, out) \<Rightarrow> (Inr st, (fs(tmp \<mapsto> out))(path \<mapsto> out, tmp := None))
             | Inl e \<Rightarrow> (Inl e, (fs(tmp \<mapsto> []))(tmp := None))))"

section \<open>Labels\<close>

definition label :: "string option \<Rightarrow> int option \<Rightarrow> string option \<Rightarrow> string option" where
  "label pname pid domain =
     (let who = (case (pname, pid) of
                   (Some n, Some p) \<Rightarrow> Some (n @ '' ['' @ show_int p @ '']'')
                 | (Some n, None) \<Rightarrow> Some n
                 | (None, Some p) \<Rightarrow> Some (''['' @ show_int p @ '']'')
                 | (None, None) \<Rightarrow> None) in
      case (who, domain) of
        (Some w, Some d) \<Rightarrow> Some (w @ '' -> '' @ d)
      | (Some w, None) \<Rightarrow> Some w
      | (None, Some d) \<Rightarrow> Some (''-> '' @ d)
      | (None, None) \<Rightarrow> None)"


section \<open>Block by block\<close>

fun annotate_blocks :: "frame_env \<Rightarrow> Plan \<Rightarrow> (u32 \<times> bytes) list \<Rightarrow> annotate_state \<Rightarrow> annotate_error + annotate_state" where
  "annotate_blocks env plan [] s = Inr s"
| "annotate_blocks env plan (b # bs) s =
     (case annotate_block env plan b s of Inl e \<Rightarrow> Inl e | Inr s' \<Rightarrow> annotate_blocks env plan bs s')"

definition aligned_block :: "u32 \<times> bytes \<Rightarrow> bool" where
  "aligned_block b \<longleftrightarrow> block_ok b \<and> length (snd b) mod 4 = 0"

lemma block_trailer:
  assumes "block_ok b"
  shows "take (12 + length (snd b) - 8) (drop 8 (block_bytes b @ r)) = snd b @ le_bytes 4 (12 + length (snd b))"
    "le32 (snd b @ le_bytes 4 (12 + length (snd b))) (length (snd b)) = Some (word_of_nat (12 + length (snd b)))"
proof -
  let ?n = "12 + length (snd b)"
  have "drop 8 (block_bytes b @ r) = snd b @ le_bytes 4 ?n @ r"
    by (simp add: block_bytes_def write_block_def Let_def)
  then show "take (?n - 8) (drop 8 (block_bytes b @ r)) = snd b @ le_bytes 4 ?n" by simp
  show "le32 (snd b @ le_bytes 4 ?n) (length (snd b)) = Some (word_of_nat ?n)"
    by (rule le32_cursor [where r = "[]"]) simp
qed

lemma annotate_loop_blocks:
  assumes "\<forall>b \<in> set bs. aligned_block b"
  shows "annotate_loop env plan (concat (map block_bytes bs)) s = annotate_blocks env plan bs s"
  using assms
proof (induction bs arbitrary: s)
  case Nil
  then show ?case by (simp add: annotate_loop.simps)
next
  case (Cons b bs)
  let ?n = "12 + length (snd b)"
  let ?src = "block_bytes b @ concat (map block_bytes bs)"
  have ok: "block_ok b" "length (snd b) mod 4 = 0" using Cons.prems by (auto simp: aligned_block_def)
  note head = block_header [OF ok(1), where pos = 0 and buf = ?src and r = "concat (map block_bytes bs)", unfolded drop_0, OF refl]
  note tail = block_trailer [OF ok(1)]
  have small: "?n \<le> 2 ^ 26" using ok by (simp add: block_ok_def)
  have mod4: "?n mod 4 = 0" using ok(2) by presburger
  have pos: "?src \<noteq> []" "\<not> length ?src < 8" "\<not> length ?src - 8 < ?n - 8"
    using arg_cong [of _ _ length, OF refl [of ?src]] by (auto simp: length_block_bytes dest: arg_cong [of _ _ length])
  have drop: "drop ?n ?src = concat (map block_bytes bs)" by (simp add: length_block_bytes)
  have body: "length (snd b @ le_bytes 4 ?n) - 4 = length (snd b)" "take (?n - 12) (snd b @ le_bytes 4 ?n) = snd b"
    by simp_all
  have "annotate_loop env plan ?src s = (case annotate_block env plan b s of Inl e \<Rightarrow> Inl e
      | Inr s' \<Rightarrow> annotate_loop env plan (concat (map block_bytes bs)) s')"
    unfolding annotate_loop.simps [of env plan ?src] if_not_P [OF pos(1)] if_not_P [OF pos(2)] head(1,2)
      prod.case option.case Let_def head(3) if_not_P [OF pos(3)] tail(1) body tail(2) drop prod.collapse
    using small mod4 by simp
  then show ?case using Cons by (simp split: sum.split)
qed

definition is_packet :: "u32 \<times> bytes \<Rightarrow> bool" where
  "is_packet b \<longleftrightarrow> fst b = EPB \<and> 20 \<le> length (snd b)"

text \<open>The captured bytes of a packet block.\<close>

definition packet_frame :: "bytes \<Rightarrow> bytes" where
  "packet_frame body = take (le_nat (take 4 (drop 12 body))) (drop 20 body)"

text \<open>\<open>b'\<close> is \<open>b\<close> with, at most, a comment option inserted behind its fixed part.\<close>

definition decorated :: "u32 \<times> bytes \<Rightarrow> u32 \<times> bytes \<Rightarrow> bool" where
  "decorated b b' \<longleftrightarrow> fst b' = fst b \<and> (snd b' = snd b
     \<or> (\<exists>text. is_packet b \<and> with_comment (snd b) (20 + round4 (le_nat (take 4 (drop 12 (snd b))))) text = Some (snd b'))
     \<or> (\<exists>text. fst b = SHB \<and> with_comment (snd b) 16 text = Some (snd b')))"

text \<open>The packet of the block belongs to a connection that the plan keeps.\<close>

definition owned_packet :: "frame_env \<Rightarrow> Plan \<Rightarrow> u32 \<times> bytes \<Rightarrow> bool" where
  "owned_packet env plan b \<longleftrightarrow> (\<exists>lt p o'. parse_link env lt (packet_frame (snd b)) = Got p
     \<and> plan_lookup plan p = Some o' \<and> ow_keep o')"

lemma round4_ge: "n \<le> round4 n"
  unfolding round4_def by presburger

lemma le32_unat: "le32 b i = Some w \<Longrightarrow> i + 3 < length b \<and> unat w = le_nat (take 4 (drop i b))"
proof -
  assume le: "le32 b i = Some w"
  then have i: "i + 3 < length b" by (auto simp: le32_def bind_eq_Some_conv)
  have "take 4 (drop i b) = [b ! i, b ! (i + 1), b ! (i + 2), b ! (i + 3)]"
    using i by (intro nth_equalityI) (auto simp: less_Suc_eq numeral_eq_Suc)
  moreover have "w = word_of_nat (le_nat [b ! i, b ! (i + 1), b ! (i + 2), b ! (i + 3)])"
    using le by (auto simp: le32_def bind_eq_Some_conv)
  moreover have "le_nat [b ! i, b ! (i + 1), b ! (i + 2), b ! (i + 3)] < 2 ^ 32"
    using le_nat_less [of "[b ! i, b ! (i + 1), b ! (i + 2), b ! (i + 3)]"] by simp
  ultimately show ?thesis using i by (simp only: unat_of_nat) simp
qed

lemma le32_total: "i + 3 < length b \<Longrightarrow> \<exists>w. le32 b i = Some w"
  by (auto simp: le32_def get_at_def)

lemma judge_total: "\<exists>r. judge env plan lt frame = Some r"
  using parse_link_safe [of env lt frame]
  by (cases "parse_link env lt frame") (auto simp: judge_def split: option.split)

lemma judge_owned:
  "judge env plan lt frame = Some (True, l) \<Longrightarrow> pl_only_group plan \<Longrightarrow>
   \<exists>p o'. parse_link env lt frame = Got p \<and> plan_lookup plan p = Some o' \<and> ow_keep o'"
  by (auto simp: judge_def split: fallible.splits option.splits)

text \<open>What a packet block does: it is dropped, or written, decorated, and counted.\<close>

lemma annotate_packet_cases:
  assumes "20 \<le> length body"
  shows "annotate_packet env plan body s = Inl CorruptPacket
    \<or> (pl_only_group plan \<and> (\<exists>s'. annotate_packet env plan body s = Inr s' \<and> an_out s' = an_out s
        \<and> an_saw_header s' = an_saw_header s
        \<and> an_stats s' = (an_stats s)\<lparr>st_packets := st_packets (an_stats s) + 1\<rparr>))
    \<or> (\<exists>s' body' lab. annotate_packet env plan body s = Inr s' \<and> an_out s' = an_out s @ [(EPB, body')]
        \<and> an_saw_header s' = an_saw_header s \<and> decorated (EPB, body) (EPB, body')
        \<and> (pl_only_group plan \<longrightarrow> owned_packet env plan (EPB, body)) \<and> lab \<le> (1 :: nat)
        \<and> an_stats s' = \<lparr>st_packets = st_packets (an_stats s) + 1, st_kept = st_kept (an_stats s) + 1,
             st_labeled = st_labeled (an_stats s) + lab\<rparr>)"
proof -
  obtain cap iface where le: "le32 body 12 = Some cap" "le32 body 0 = Some iface"
    using assms le32_total [of 12 body] le32_total [of 0 body] by auto
  have cap: "unat cap = le_nat (take 4 (drop 12 body))" using le32_unat [OF le(1)] by simp
  let ?fixed = "20 + round4 (unat cap)"
  show ?thesis
  proof (cases "length body < ?fixed")
    case True
    then show ?thesis by (simp add: annotate_packet_def le Let_def)
  next
    case fits: False
    let ?lt = "case get_at (an_linktypes s) (unat iface) of None \<Rightarrow> 1 | Some lt \<Rightarrow> lt"
    have frame: "get_range body 20 (20 + unat cap) = Some (packet_frame body)"
      using fits round4_ge [of "unat cap"] by (simp add: packet_frame_def cap)
    obtain keep lab where judge: "judge env plan ?lt (packet_frame body) = Some (keep, lab)"
      using judge_total by (metis surj_pair)
    note step = annotate_packet_def [of env plan body s, unfolded le prod.case option.case Let_def annotate_state.simps
        if_not_P [OF fits] frame]
    show ?thesis
    proof (cases keep)
      case False
      then have "pl_only_group plan" using judge by (auto simp: judge_def split: fallible.splits option.splits)
      then show ?thesis using False judge by (simp add: step)
    next
      case True
      then have owned: "pl_only_group plan \<longrightarrow> owned_packet env plan (EPB, body)"
        using judge judge_owned [of env plan ?lt "packet_frame body" lab] by (auto simp: owned_packet_def)
      show ?thesis
      proof (cases lab)
        case None
        then show ?thesis
          using True judge owned
          by (intro disjI2, intro exI [of _ "emit EPB body (s\<lparr>an_stats := (an_stats s)\<lparr>st_packets := st_packets (an_stats s) + 1,
              st_kept := st_kept (an_stats s) + 1\<rparr>\<rparr>)"] exI [of _ body] exI [of _ 0])
            (simp add: step emit_def decorated_def)
      next
        case (Some l)
        obtain body' where body': "with_comment body ?fixed l = Some body'"
          using fits by (simp add: with_comment_def)
        then have "decorated (EPB, body) (EPB, body')"
          using assms by (auto simp: decorated_def is_packet_def cap)
        then show ?thesis
          using True judge owned Some body'
          by (intro disjI2, intro exI [of _ "emit EPB body' (s\<lparr>an_stats := (an_stats s)\<lparr>st_packets := st_packets (an_stats s) + 1,
              st_kept := st_kept (an_stats s) + 1, st_labeled := st_labeled (an_stats s) + 1\<rparr>\<rparr>)"] exI [of _ body'] exI [of _ 1])
            (simp add: step emit_def)
      qed
    qed
  qed
qed

lemma take_drop_prefix:
  assumes "n + k \<le> m" and "m \<le> length xs"
  shows "take k (drop n (take m xs @ ys)) = take k (drop n xs)"
  using assms by (auto simp: drop_take min_def)

lemma decorated_frame:
  assumes "decorated b b'" and "is_packet b"
  shows "packet_frame (snd b') = packet_frame (snd b)"
proof -
  let ?cap = "le_nat (take 4 (drop 12 (snd b)))"
  let ?fixed = "20 + round4 ?cap"
  have "snd b' = snd b \<or> (\<exists>text. with_comment (snd b) ?fixed text = Some (snd b'))"
    using assms by (auto simp: decorated_def is_packet_def EPB_def SHB_def)
  then show ?thesis
  proof
    assume "\<exists>text. with_comment (snd b) ?fixed text = Some (snd b')"
    then obtain cm where wc: "with_comment (snd b) ?fixed cm = Some (snd b')" by blast
    then have len: "?fixed \<le> length (snd b)" by (simp add: with_comment_def split: if_splits)
    define rest where "rest = opt_comment cm @ (if ?fixed < length (snd b) then drop ?fixed (snd b) else replicate 4 0)"
    have rest: "snd b' = take ?fixed (snd b) @ rest"
      using wc len by (simp add: with_comment_def rest_def)
    have head: "take 4 (drop 12 (snd b')) = take 4 (drop 12 (snd b))"
      unfolding rest using len by (intro take_drop_prefix) simp_all
    have "take ?cap (drop 20 (snd b')) = take ?cap (drop 20 (snd b))"
      unfolding rest using len round4_ge [of ?cap] by (intro take_drop_prefix) simp_all
    then show ?thesis by (simp only: packet_frame_def head)
  qed simp
qed

lemma decorated_packet: "decorated b b' \<Longrightarrow> is_packet b' \<Longrightarrow> is_packet b"
  by (auto simp: decorated_def is_packet_def EPB_def SHB_def)

lemma decorated_owned:
  "decorated b b' \<Longrightarrow> is_packet b \<Longrightarrow> owned_packet env plan b \<Longrightarrow> owned_packet env plan b'"
  by (simp add: owned_packet_def decorated_frame)

text \<open>
  What the loop has done: \<open>kept\<close> are the blocks it kept, \<open>outs\<close> what it wrote for them.
\<close>

definition annotated :: "frame_env \<Rightarrow> Plan \<Rightarrow> (u32 \<times> bytes) list \<Rightarrow> (u32 \<times> bytes) list \<Rightarrow> (u32 \<times> bytes) list \<Rightarrow> bool" where
  "annotated env plan bs kept outs \<longleftrightarrow> subseq kept bs \<and> list_all2 decorated kept outs
     \<and> filter (\<lambda>b. \<not> is_packet b) kept = filter (\<lambda>b. \<not> is_packet b) bs
     \<and> (if pl_only_group plan then \<forall>b \<in> set outs. is_packet b \<longrightarrow> owned_packet env plan b else kept = bs)"

definition packets_in :: "(u32 \<times> bytes) list \<Rightarrow> nat" where
  "packets_in bs = length (filter is_packet bs)"

lemma annotated_keep:
  assumes "annotated env plan bs kept outs" and "decorated b b'"
    and "pl_only_group plan \<Longrightarrow> is_packet b \<Longrightarrow> owned_packet env plan b"
  shows "annotated env plan (b # bs) (b # kept) (b' # outs)"
proof -
  have "is_packet b' \<Longrightarrow> pl_only_group plan \<Longrightarrow> owned_packet env plan b'"
    using assms(3) decorated_packet [OF assms(2)] decorated_owned [OF assms(2)] by blast
  then show ?thesis using assms(1,2) by (simp add: annotated_def split: if_splits)
qed

lemma annotated_drop:
  "annotated env plan bs kept outs \<Longrightarrow> is_packet b \<Longrightarrow> pl_only_group plan \<Longrightarrow> annotated env plan (b # bs) kept outs"
  unfolding annotated_def by auto

text \<open>A block that is not a packet is written as it is, or with the comment of the section.\<close>

lemma annotate_other:
  assumes "\<not> is_packet b" and "annotate_block env plan b s = Inr s'"
  shows "\<exists>b'. an_out s' = an_out s @ [b'] \<and> decorated b b' \<and> an_stats s' = an_stats s"
proof (cases b)
  case (Pair ty body)
  show ?thesis
  proof (cases "ty = SHB")
    case True
    then obtain body' where "with_comment body 16 (pl_comment plan) = Some body'" "an_out s' = an_out s @ [(ty, body')]"
      "an_stats s' = an_stats s"
      using assms(2) Pair by (auto simp: annotate_block_def emit_def split: if_splits option.splits)
    then show ?thesis using True Pair by (intro exI [of _ "(ty, body')"]) (auto simp: decorated_def)
  next
    case False
    then have "an_out s' = an_out s @ [b] \<and> an_stats s' = an_stats s"
      using assms Pair by (auto simp: annotate_block_def emit_def is_packet_def Let_def split: if_splits option.splits)
    then show ?thesis by (intro exI [of _ b]) (simp add: decorated_def)
  qed
qed

lemma annotate_blocks_spec:
  "annotate_blocks env plan bs s = Inr s' \<Longrightarrow> \<exists>kept outs lab. an_out s' = an_out s @ outs \<and> annotated env plan bs kept outs
     \<and> lab \<le> packets_in kept
     \<and> an_stats s' = \<lparr>st_packets = st_packets (an_stats s) + packets_in bs, st_kept = st_kept (an_stats s) + packets_in kept,
          st_labeled = st_labeled (an_stats s) + lab\<rparr>"
proof (induction bs arbitrary: s)
  case Nil
  then show ?case by (intro exI [of _ "[]"] exI [of _ 0]) (auto simp: annotated_def packets_in_def)
next
  case (Cons b bs)
  obtain s1 where s1: "annotate_block env plan b s = Inr s1" "annotate_blocks env plan bs s1 = Inr s'"
    using Cons.prems by (auto split: sum.splits)
  obtain kept outs lab where ih: "an_out s' = an_out s1 @ outs" "annotated env plan bs kept outs" "lab \<le> packets_in kept"
    "an_stats s' = \<lparr>st_packets = st_packets (an_stats s1) + packets_in bs, st_kept = st_kept (an_stats s1) + packets_in kept,
       st_labeled = st_labeled (an_stats s1) + lab\<rparr>"
    using Cons.IH [OF s1(2)] by blast
  show ?case
  proof (cases "is_packet b")
    case False
    obtain b' where b': "an_out s1 = an_out s @ [b']" "decorated b b'" "an_stats s1 = an_stats s"
      using annotate_other [OF False s1(1)] by blast
    have "annotated env plan (b # bs) (b # kept) (b' # outs)"
      using ih(2) b'(2) False by (intro annotated_keep) auto
    then show ?thesis using ih b' False
      by (intro exI [of _ "b # kept"] exI [of _ "b' # outs"] exI [of _ lab]) (simp add: packets_in_def)
  next
    case True
    then have b: "b = (EPB, snd b)" "20 \<le> length (snd b)" by (auto simp: is_packet_def prod_eq_iff)
    have block: "annotate_packet env plan (snd b) s = Inr s1"
      using s1(1) True by (auto simp: annotate_block_def is_packet_def EPB_def SHB_def IDB_def)
    from annotate_packet_cases [OF b(2), of env plan s] block consider
      "pl_only_group plan" "an_out s1 = an_out s" "an_stats s1 = (an_stats s)\<lparr>st_packets := st_packets (an_stats s) + 1\<rparr>"
    | body' l where "an_out s1 = an_out s @ [(EPB, body')]" "decorated (EPB, snd b) (EPB, body')"
      "pl_only_group plan \<longrightarrow> owned_packet env plan (EPB, snd b)" "l \<le> (1 :: nat)"
      "an_stats s1 = \<lparr>st_packets = st_packets (an_stats s) + 1, st_kept = st_kept (an_stats s) + 1,
         st_labeled = st_labeled (an_stats s) + l\<rparr>"
      by auto
    then show ?thesis
    proof cases
      case 1
      then show ?thesis using ih annotated_drop [OF ih(2) True] True
        by (intro exI [of _ kept] exI [of _ outs] exI [of _ lab]) (simp add: packets_in_def)
    next
      case 2
      have "annotated env plan (b # bs) (b # kept) ((EPB, body') # outs)"
        using ih(2) 2 b(1) by (intro annotated_keep) auto
      then show ?thesis using ih 2 True
        by (intro exI [of _ "b # kept"] exI [of _ "(EPB, body') # outs"] exI [of _ "lab + l"]) (simp add: packets_in_def)
    qed
  qed
qed

lemma annotate_block_no_crash: "annotate_block env plan b s \<noteq> Inl Crash"
proof (cases "is_packet b")
  case True
  then have "20 \<le> length (snd b)" by (simp add: is_packet_def)
  from annotate_packet_cases [OF this, of env plan s] show ?thesis
    using True by (auto simp: annotate_block_def is_packet_def EPB_def SHB_def IDB_def)
next
  case False
  then show ?thesis
    by (auto simp: annotate_block_def is_packet_def with_comment_def Let_def split: option.splits)
qed

lemma annotate_loop_no_crash: "annotate_loop env plan src s \<noteq> Inl Crash"
proof (induction "length src" arbitrary: src s rule: less_induct)
  case less
  show ?case
  proof (cases "length src < 8")
    case True
    then show ?thesis by (subst annotate_loop.simps) simp
  next
    case False
    then obtain ty len where le: "le32 src 0 = Some ty" "le32 src 4 = Some len"
      using le32_total [of 0 src] le32_total [of 4 src] by auto
    let ?n = "unat len"
    let ?body = "take (?n - 8) (drop 8 src)"
    show ?thesis
    proof (cases "\<not> (12 \<le> ?n \<and> ?n \<le> 2 ^ 26) \<or> ?n mod 4 \<noteq> 0 \<or> length src - 8 < ?n - 8")
      case True
      then have "annotate_loop env plan src s \<in> {Inr s, Inl CorruptBlock, Inl ShortRead}"
        using False le by (subst annotate_loop.simps) (auto simp: Let_def)
      then show ?thesis by auto
    next
      case fits: False
      then have "length ?body = ?n - 8" "12 \<le> ?n" by auto
      then have "length ?body - 4 + 3 < length ?body" by linarith
      then obtain len' where len': "le32 ?body (length ?body - 4) = Some len'"
        using le32_total by blast
      have "length (drop ?n src) < length src" using fits False by auto
      from less.hyps [OF this] show ?thesis
        using False fits le len' annotate_block_no_crash [of env plan "(ty, take (?n - 12) ?body)" s]
        by (subst annotate_loop.simps) (auto simp: Let_def split: sum.split)
    qed
  qed
qed

section \<open>Properties\<close>



definition sample_plan :: Plan where
  "sample_plan = \<lparr>pl_owners = [], pl_only_group = True, pl_comment = ''x''\<rparr>"

definition sample_capture :: "(u32 \<times> bytes) list" where
  "sample_capture = [(SHB, le_bytes 4 (unat MAGIC) @ replicate 12 0), (EPB, replicate 24 0), (7, [1, 2, 3, 4])]"

lemma sample_capture_run:
  "\<exists>st file. plan_apply env sample_plan (concat (map block_bytes sample_capture)) = Inr (st, file) \<and> st_packets st = 1"
proof -
  have ok: "\<forall>b \<in> set sample_capture. aligned_block b"
    by (simp add: sample_capture_def aligned_block_def block_ok_def)
  have magic: "le32 (le_bytes 4 (unat MAGIC) @ replicate 12 0) 0 = Some MAGIC"
    using le32_cursor [of 0 "le_bytes 4 (unat MAGIC) @ replicate 12 0" "unat MAGIC" "replicate 12 0"] by simp
  have zero: "le32 (replicate 24 0) 12 = Some 0" "le32 (replicate 24 0) 0 = Some 0"
    by (simp_all add: le32_def get_at_def)
  have frame: "parse_link env 1 [] = Absent"
    by (simp add: parse_link_def parse_link_state_def link_header_def be16_eval)
  have "\<exists>s. annotate_blocks env sample_plan sample_capture annotate_start = Inr s \<and> an_saw_header s
      \<and> st_packets (an_stats s) = 1"
    by (simp add: sample_capture_def annotate_block_def annotate_packet_def magic zero with_comment_def SHB_def EPB_def IDB_def
        emit_def annotate_start_def sample_plan_def judge_def round4_def access frame)
  then show ?thesis
    by (auto simp: plan_apply_def annotate_loop_blocks [OF ok])
qed


end
