(* ===== verification/Store_Data.thy ===== *)
theory Store_Data
  imports Net Tables "HOL-Library.Multiset"
begin

text \<open>
  The state of the program and its connection history: \<^verbatim>\<open>Conn\<close>, \<^verbatim>\<open>Store\<close>,
  \<^verbatim>\<open>update_recording\<close>, \<^verbatim>\<open>evict\<close> and \<^verbatim>\<open>entry\<close> of
  \<^verbatim>\<open>src/src/state.rs\<close>. Times are milliseconds; every reading of \<^verbatim>\<open>now_ms\<close> is an
  argument.
\<close>

section \<open>Data\<close>

record DnsName =
  dn_name :: string
  dn_expires :: u64

record DnsEntry =
  de_names :: "DnsName list"
  de_overflow_until :: u64

definition dns_entry_default :: DnsEntry where
  "dns_entry_default = \<lparr>de_names = [], de_overflow_until = 0\<rparr>"

record Conn =
  c_id :: string
  c_proto :: string
  c_local :: string
  c_lport :: u16
  c_remote :: string
  c_rport :: u16
  c_state :: string
  c_pid :: "int option"
  c_owner_started :: "u64 option"
  c_pname :: "string option"
  c_domain :: "string option"
  c_sni :: "string option"
  c_ptr :: "string option"
  c_asn :: "string option"
  c_owner :: "string option"
  c_first_seen :: u64
  c_last_seen :: u64
  c_tx_bytes :: u64
  c_rx_bytes :: u64
  c_tx_pkts :: u64
  c_rx_pkts :: u64
  c_from_packets_only :: bool
  c_closed :: bool
  c_scope :: string
  c_udp_generation :: "u64 option"
  c_tcp_cookie :: "u64 option"
  c_owner_ambiguous :: bool

record UdpSocket =
  us_entry :: SockEntry
  us_owner_started :: "u64 option"
  us_generation :: u64
  us_since :: u64

record UdpOwner =
  uo_generation :: u64
  uo_since :: u64
  uo_pid :: "int option"
  uo_started :: "u64 option"

datatype UdpMatch = Missing | Ambiguous | Unique UdpOwner

definition MAX_CONNS :: nat where "MAX_CONNS = 20000"
definition MAX_NAMES :: nat where "MAX_NAMES = 20000"
definition PACKET_ONLY_IDLE_MS :: u64 where "PACKET_ONLY_IDLE_MS = 60000"

type_synonym conn_map = "(ConnKey, Conn) hmap"
type_synonym proc_map = "(int, ProcInfo) hmap"

record Store =
  s_conns :: conn_map
  s_dns :: "(IpAddr, DnsEntry) hmap"
  s_local_ips :: "IpAddr list"
  s_packets_seen :: u64
  s_udp_sockets :: "(u16, UdpSocket list) hmap"
  s_socket_generation :: u64
  s_sockets_at :: u64

definition store_default :: "u64 \<Rightarrow> Store" where
  "store_default now = \<lparr>s_conns = [], s_dns = [], s_local_ips = [], s_packets_seen = 0, s_udp_sockets = [],
     s_socket_generation = 0, s_sockets_at = now\<rparr>"

text \<open>\<^verbatim>\<open>a.or(b)\<close>, and \<^verbatim>\<open>a.zip(b).is_some_and(|(a, b)| a != b)\<close>.\<close>

definition opt_or :: "'a option \<Rightarrow> 'a option \<Rightarrow> 'a option" where
  "opt_or a b = (case a of Some x \<Rightarrow> Some x | None \<Rightarrow> b)"

definition both_differ :: "'a option \<Rightarrow> 'a option \<Rightarrow> bool" where
  "both_differ a b = (case (a, b) of (Some x, Some y) \<Rightarrow> x \<noteq> y | _ \<Rightarrow> False)"

section \<open>Ownership of a record\<close>

text \<open>The owner is withdrawn, for good: \<^verbatim>\<open>owner_ambiguous\<close> is never reset.\<close>

definition disown :: "Conn \<Rightarrow> Conn" where
  "disown c = c\<lparr>c_owner_ambiguous := True, c_pid := None, c_owner_started := None, c_pname := None\<rparr>"

definition update_recording :: "Conn \<Rightarrow> Conn \<Rightarrow> Conn" where
  "update_recording self current =
     (let same_udp_socket = (c_udp_generation self \<noteq> None \<and> c_udp_generation self = c_udp_generation current);
          ambiguous = (c_owner_ambiguous self \<or> c_owner_ambiguous current
            \<or> (c_first_seen self \<noteq> c_first_seen current \<and> \<not> same_udp_socket)
            \<or> (c_pid self \<noteq> None \<and> c_pid self \<noteq> c_pid current)
            \<or> (c_owner_started self \<noteq> None \<and> c_owner_started self \<noteq> c_owner_started current)
            \<or> (c_udp_generation self \<noteq> None \<and> c_udp_generation self \<noteq> c_udp_generation current)) in
      if ambiguous then disown current else current)"

section \<open>The history and its limit\<close>

definition evict :: "conn_map \<Rightarrow> conn_map" where
  "evict conns =
     (if length conns < MAX_CONNS then conns
      else
        let target = MAX_CONNS * 9 div 10;
            closed = sort_key fst (map (\<lambda>e. (c_last_seen (snd e), fst e)) (filter (\<lambda>e. c_closed (snd e)) conns));
            conns1 = fold (\<lambda>e m. hm_del (snd e) m) (take (length conns - target) closed) conns in
        if MAX_CONNS < length conns1 then
          let all = sort_key fst (map (\<lambda>e. (c_last_seen (snd e), fst e)) conns1) in
          fold (\<lambda>e m. hm_del (snd e) m) (take (length conns1 - target) all) conns1
        else conns1)"

definition new_conn :: "u64 \<Rightarrow> ConnKey \<Rightarrow> bool \<Rightarrow> Conn" where
  "new_conn t k from_packets =
     \<lparr>c_id = key_id k, c_proto = proto_as_str (k_proto k), c_local = ip_to_string (k_local k), c_lport = k_lport k,
      c_remote = ip_to_string (k_remote k), c_rport = k_rport k, c_state = ''NEW'', c_pid = None,
      c_owner_started = None, c_pname = None, c_domain = None, c_sni = None, c_ptr = None, c_asn = None,
      c_owner = None, c_first_seen = t, c_last_seen = t, c_tx_bytes = 0, c_rx_bytes = 0, c_tx_pkts = 0,
      c_rx_pkts = 0, c_from_packets_only = from_packets, c_closed = False, c_scope = classify (k_remote k),
      c_udp_generation = None, c_tcp_cookie = None, c_owner_ambiguous = False\<rparr>"

definition conn_room :: "ConnKey \<Rightarrow> conn_map \<Rightarrow> conn_map" where
  "conn_room k conns = (if hm_has conns k then conns else evict conns)"

text \<open>\<^verbatim>\<open>entry\<close>, followed by the change \<open>f\<close> of the record it returns.\<close>

definition entry :: "u64 \<Rightarrow> ConnKey \<Rightarrow> bool \<Rightarrow> (Conn \<Rightarrow> Conn) \<Rightarrow> Store \<Rightarrow> Store" where
  "entry t k from_packets f s =
     s\<lparr>s_conns := hm_entry k (new_conn t k from_packets) f (conn_room k (s_conns s))\<rparr>"

section \<open>Deleting many keys\<close>

lemma hm_get_del_all:
  "hm_get (fold (\<lambda>e m. hm_del (snd e) m) es m) k = (if k \<in> snd ` set es then None else hm_get m k)"
  by (induction es arbitrary: m) (auto simp: hm_get_del)

lemma hm_wf_del_all: "hm_wf m \<Longrightarrow> hm_wf (fold (\<lambda>e m. hm_del (snd e) m) es m)"
  by (induction es arbitrary: m) (auto simp: hm_wf_del)

lemma del_all_filter: "fold (\<lambda>e m. hm_del (snd e) m) es m = filter (\<lambda>x. fst x \<notin> snd ` set es) m"
  by (induction es arbitrary: m) (auto simp: hm_del_def intro!: filter_cong)

lemma length_del_all_le: "length (fold (\<lambda>e m. hm_del (snd e) m) es m) \<le> length m"
  by (simp add: del_all_filter)

lemma length_del_all:
  assumes "hm_wf m" and "distinct (map snd es)" and "snd ` set es \<subseteq> fst ` set m"
  shows "length (fold (\<lambda>e m. hm_del (snd e) m) es m) = length m - length es"
proof -
  have keys: "map fst (filter (\<lambda>x. fst x \<notin> K) xs) = filter (\<lambda>k. k \<notin> K) (map fst xs)" for K and xs :: "('a, 'b) hmap"
    by (induction xs) auto
  have "length (fold (\<lambda>e m. hm_del (snd e) m) es m) = length (filter (\<lambda>k. k \<notin> snd ` set es) (map fst m))"
    unfolding del_all_filter keys [symmetric] by simp
  also have "\<dots> = card (set (map fst m) - snd ` set es)"
  proof -
    have "distinct (filter (\<lambda>k. k \<notin> snd ` set es) (map fst m))"
      using assms(1) by (simp add: hm_wf_def)
    then show ?thesis by (simp only: distinct_card [symmetric] set_filter) (rule arg_cong [of _ _ card], auto)
  qed
  also have "\<dots> = card (set (map fst m)) - card (snd ` set es)"
    using assms(3) by (intro card_Diff_subset) auto
  also have "card (snd ` set es) = length es"
    using assms(2) distinct_card [OF assms(2)] by simp
  also have "card (set (map fst m)) = length m"
    using assms(1) distinct_card [of "map fst m"] by (simp add: hm_wf_def)
  finally show ?thesis .
qed

section \<open>The limit holds\<close>

text \<open>
  The table may exceed \<^verbatim>\<open>MAX_CONNS\<close> by one: with exactly \<^verbatim>\<open>MAX_CONNS\<close> live records
  \<^verbatim>\<open>evict\<close> removes none, because its second stage asks for more than \<^verbatim>\<open>MAX_CONNS\<close>.
\<close>

lemma evict_subset: "hm_wf m \<Longrightarrow> hm_get (evict m) k = Some c \<Longrightarrow> hm_get m k = Some c"
  by (auto simp: evict_def Let_def hm_get_del_all split: if_splits)

lemma evict_wf: "hm_wf m \<Longrightarrow> hm_wf (evict m)"
  by (auto simp: evict_def Let_def hm_wf_del_all)

lemma sorted_keys: "mset (map snd (sort_key fst (map (\<lambda>e. (f e, fst e)) m))) = mset (map fst m)"
  by (simp add: multiset.map_comp comp_def)

lemma trim_oldest:
  fixes m :: conn_map
  assumes "hm_wf m"
  shows "length (fold (\<lambda>e m. hm_del (snd e) m)
    (take (length m - n) (sort_key fst (map (\<lambda>e. (c_last_seen (snd e), fst e)) m))) m) \<le> n"
proof -
  let ?all = "sort_key fst (map (\<lambda>e. (c_last_seen (snd e), fst e)) m)"
  have "distinct (map snd ?all)"
    using assms unfolding hm_wf_def mset_eq_imp_distinct_iff [OF sorted_keys [of "\<lambda>e. c_last_seen (snd e)" m]] .
  then have "distinct (map snd (take (length m - n) ?all))"
    unfolding take_map [symmetric] by (rule distinct_take)
  moreover have "snd ` set (take (length m - n) ?all) \<subseteq> fst ` set m"
    by (auto dest!: in_set_takeD)
  ultimately have "length (fold (\<lambda>e m. hm_del (snd e) m) (take (length m - n) ?all) m)
      = length m - length (take (length m - n) ?all)"
    by (rule length_del_all [OF assms])
  also have "length (take (length m - n) ?all) = length m - n" by simp
  also have "length m - (length m - n) \<le> n" by arith
  finally show ?thesis .
qed

lemma evict_bound:
  assumes "hm_wf m"
  shows "length (evict m) \<le> MAX_CONNS"
proof -
  have "MAX_CONNS * 9 div 10 \<le> MAX_CONNS" by simp
  then show ?thesis
    unfolding evict_def Let_def
    using order_trans [OF trim_oldest [OF hm_wf_del_all [OF assms]]] by auto
qed

interpretation conn_table: bounded_table "MAX_CONNS + 1" conn_room
proof
  fix m :: conn_map and k k' v
  show "hm_has m k \<Longrightarrow> conn_room k m = m"
    by (simp add: conn_room_def)
  show "hm_wf m \<Longrightarrow> hm_wf (conn_room k m)"
    by (simp add: conn_room_def evict_wf)
  show "hm_wf m \<Longrightarrow> hm_get (conn_room k m) k' = Some v \<Longrightarrow> hm_get m k' = Some v"
    by (auto simp: conn_room_def dest: evict_subset split: if_splits)
  show "hm_wf m \<Longrightarrow> length m \<le> MAX_CONNS + 1 \<Longrightarrow> \<not> hm_has m k \<Longrightarrow> length (conn_room k m) < MAX_CONNS + 1"
    using evict_bound [of m] by (simp add: conn_room_def)
qed

end
