(* ===== verification/Store_Ops.thy ===== *)
theory Store_Ops
  imports Store_Data
begin

text \<open>
  The operations of the store (\<^verbatim>\<open>src/src/state.rs\<close>): attribution of UDP sockets, snapshots
  of the socket table, packets, and the map of names. \<open>clk i\<close> is the \<open>i\<close>-th reading of
  \<^verbatim>\<open>now_ms\<close> in a call.
\<close>

section \<open>DNS names\<close>

definition dns_unique :: "DnsEntry \<Rightarrow> u64 \<Rightarrow> string option" where
  "dns_unique e now =
     (if now < de_overflow_until e then None
      else
        case filter (\<lambda>n. now < dn_expires n) (de_names e) of
          [n] \<Rightarrow> Some (dn_name n)
        | _ \<Rightarrow> None)"

definition trim_ip_map :: "(IpAddr, 'v) hmap \<Rightarrow> conn_map \<Rightarrow> nat \<Rightarrow> (IpAddr, 'v) hmap" where
  "trim_ip_map m conns limit =
     (let excess = length m - limit * 9 div 10 in
      if excess = 0 then m
      else
        let used = map k_remote (hm_keys conns);
            unused = take excess (filter (\<lambda>ip. ip \<notin> set used) (hm_keys m)) in
        fold hm_del unused m)"

definition max_expires :: "DnsName list \<Rightarrow> u64" where
  "max_expires ns = fold (\<lambda>n acc. max acc (dn_expires n)) ns 0"

definition restore_dns :: "u64 \<Rightarrow> IpAddr \<Rightarrow> DnsEntry \<Rightarrow> Store \<Rightarrow> bool \<times> Store" where
  "restore_dns now ip e s =
     (let kept = filter (\<lambda>n. now < dn_expires n \<and> dn_name n \<noteq> [] \<and> length (dn_name n) \<le> 253) (de_names e);
          e1 = (if 8 < length kept
                then \<lparr>de_names = take 8 kept, de_overflow_until = max (de_overflow_until e) (max_expires (drop 8 kept))\<rparr>
                else \<lparr>de_names = kept, de_overflow_until = de_overflow_until e\<rparr>) in
      if (de_names e1 = [] \<and> de_overflow_until e1 \<le> now) \<or> MAX_NAMES \<le> length (s_dns s) then (False, s)
      else (True, s\<lparr>s_dns := hm_put ip e1 (s_dns s)\<rparr>))"

definition remember_entry :: "u64 \<Rightarrow> string \<Rightarrow> u32 \<Rightarrow> DnsEntry \<Rightarrow> DnsEntry" where
  "remember_entry now name ttl e =
     (let kept = filter (\<lambda>n. now < dn_expires n \<and> dn_name n \<noteq> name) (de_names e);
          e1 = e\<lparr>de_names := kept\<rparr> in
      if ttl = 0 then e1
      else
        let expires = sat_add64 now (min (ucast ttl) 86400 * 1000) in
        if length kept < 8 then e1\<lparr>de_names := kept @ [\<lparr>dn_name = name, dn_expires = expires\<rparr>]\<rparr>
        else e1\<lparr>de_overflow_until := max (de_overflow_until e1) expires\<rparr>)"

definition remember_name_for :: "u64 \<Rightarrow> IpAddr \<Rightarrow> string \<Rightarrow> u32 \<Rightarrow> Store \<Rightarrow> Store" where
  "remember_name_for now ip name ttl s =
     (if name = [] \<or> 253 < length name then s
      else
        let full = (MAX_NAMES \<le> length (s_dns s) \<and> \<not> hm_has (s_dns s) ip);
            dns = (if full then trim_ip_map (s_dns s) (s_conns s) MAX_NAMES else s_dns s) in
        if full \<and> MAX_NAMES \<le> length dns then s\<lparr>s_dns := dns\<rparr>
        else s\<lparr>s_dns := hm_entry ip dns_entry_default (remember_entry now (to_ascii_lowercase name) ttl) dns\<rparr>)"

section \<open>Owners of UDP sockets\<close>

text \<open>\<^verbatim>\<open>Vec::swap_remove\<close> and \<^verbatim>\<open>Iterator::position\<close>.\<close>

definition swap_remove :: "nat \<Rightarrow> 'a list \<Rightarrow> 'a list" where
  "swap_remove i xs = butlast (xs[i := last xs])"

fun position :: "('a \<Rightarrow> bool) \<Rightarrow> 'a list \<Rightarrow> nat option" where
  "position p [] = None"
| "position p (x # xs) = (if p x then Some 0 else map_option Suc (position p xs))"

definition started_of :: "proc_map \<Rightarrow> int option \<Rightarrow> u64 option" where
  "started_of procs pid = (case pid of None \<Rightarrow> None | Some p \<Rightarrow> map_option p_started (hm_get procs p))"

definition name_of :: "proc_map \<Rightarrow> int option \<Rightarrow> string option" where
  "name_of procs pid = (case pid of None \<Rightarrow> None | Some p \<Rightarrow> map_option p_name (hm_get procs p))"

definition same_udp_socket :: "proc_map \<Rightarrow> SockEntry \<Rightarrow> UdpSocket \<Rightarrow> bool" where
  "same_udp_socket procs s old \<longleftrightarrow>
     (let e = us_entry old in
      se_local e = se_local s \<and> se_remote e = se_remote s \<and> se_rport e = se_rport s \<and> se_cookie e = se_cookie s
      \<and> \<not> both_differ (us_owner_started old) (started_of procs (se_pid s))
      \<and> (se_pid s = None \<or> se_pid e = None \<or> se_pid e = se_pid s))"

definition refreshed_socket :: "proc_map \<Rightarrow> SockEntry \<Rightarrow> UdpSocket \<Rightarrow> UdpSocket" where
  "refreshed_socket procs s old =
     (let pid = opt_or (se_pid s) (se_pid (us_entry old));
          ambiguous = (se_ambiguous s \<or> se_ambiguous (us_entry old)) in
      old\<lparr>us_entry := s\<lparr>se_ambiguous := ambiguous, se_pid := (if ambiguous then None else pid)\<rparr>,
          us_owner_started := opt_or (started_of procs pid) (us_owner_started old)\<rparr>)"

definition refresh_one :: "proc_map \<Rightarrow> SockEntry \<Rightarrow> (u16, UdpSocket list) hmap \<times> Store
    \<Rightarrow> (u16, UdpSocket list) hmap \<times> Store" where
  "refresh_one procs sk ps =
     (let previous = fst ps; st = snd ps;
          entries = (case hm_get previous (se_lport sk) of None \<Rightarrow> [] | Some es \<Rightarrow> es) in
      case position (same_udp_socket procs sk) entries of
        Some i \<Rightarrow>
          (hm_put (se_lport sk) (swap_remove i entries) previous,
           st\<lparr>s_udp_sockets := hm_entry (se_lport sk) [] (\<lambda>v. v @ [refreshed_socket procs sk (entries ! i)]) (s_udp_sockets st)\<rparr>)
      | None \<Rightarrow>
          let gen = s_socket_generation st + 1;
              socket = \<lparr>us_entry = sk, us_owner_started = started_of procs (se_pid sk), us_generation = gen,
                        us_since = s_sockets_at st\<rparr> in
          (previous,
           st\<lparr>s_socket_generation := gen,
              s_udp_sockets := hm_entry (se_lport sk) [] (\<lambda>v. v @ [socket]) (s_udp_sockets st)\<rparr>))"

definition refresh_udp_sockets :: "SockEntry list \<Rightarrow> proc_map \<Rightarrow> u64 \<Rightarrow> Store \<Rightarrow> Store" where
  "refresh_udp_sockets socks procs t st =
     (let previous = s_udp_sockets st;
          st1 = snd (fold (refresh_one procs) (filter (\<lambda>s. se_proto s = Udp) socks) (previous, st\<lparr>s_udp_sockets := []\<rparr>)) in
      st1\<lparr>s_sockets_at := t\<rparr>)"

definition socket_covers :: "ConnKey \<Rightarrow> UdpSocket \<Rightarrow> bool" where
  "socket_covers k sk \<longleftrightarrow>
     (let e = us_entry sk in
      (se_local e = k_local k \<or> (is_unspecified (se_local e) \<and> is_ipv4 (se_local e) = is_ipv4 (k_local k)))
      \<and> (se_rport e = 0 \<or> (se_remote e = k_remote k \<and> se_rport e = k_rport k)))"

definition udp_owner :: "Store \<Rightarrow> ConnKey \<Rightarrow> UdpMatch" where
  "udp_owner st k =
     (if k_local k \<notin> set (s_local_ips st) then Missing
      else
        case hm_get (s_udp_sockets st) (k_lport k) of
          None \<Rightarrow> Missing
        | Some entries \<Rightarrow>
            (case filter (socket_covers k) entries of
               [] \<Rightarrow> Missing
             | sk # others \<Rightarrow>
                 if se_ambiguous (us_entry sk) \<or> others \<noteq> [] then Ambiguous
                 else Unique \<lparr>uo_generation = us_generation sk, uo_since = us_since sk,
                              uo_pid = se_pid (us_entry sk), uo_started = us_owner_started sk\<rparr>))"

definition attribute_udp :: "UdpMatch \<Rightarrow> proc_map option \<Rightarrow> Conn \<Rightarrow> Conn" where
  "attribute_udp owner procs c =
     (if c_owner_ambiguous c then c
      else
        case owner of
          Unique u \<Rightarrow>
            if uo_since u \<le> c_first_seen c
               \<and> (case c_udp_generation c of None \<Rightarrow> True | Some g \<Rightarrow> g = uo_generation u)
            then
              let c1 = c\<lparr>c_udp_generation := Some (uo_generation u)\<rparr> in
              (case uo_pid u of
                 None \<Rightarrow> c1
               | Some pid \<Rightarrow>
                   let c2 = c1\<lparr>c_pid := Some pid, c_owner_started := opt_or (uo_started u) (c_owner_started c1)\<rparr> in
                   (case procs of None \<Rightarrow> c2 | Some ps \<Rightarrow> c2\<lparr>c_pname := name_of ps (Some pid)\<rparr>))
            else disown c
        | Missing \<Rightarrow> if c_udp_generation c = None then c else disown c
        | Ambiguous \<Rightarrow> disown c)"

section \<open>Socket snapshots\<close>

definition set_local_ips :: "IpAddr list option \<Rightarrow> Store \<Rightarrow> Store" where
  "set_local_ips ips s =
     (case ips of
        None \<Rightarrow> s
      | Some ips \<Rightarrow> s\<lparr>s_local_ips := filter (\<lambda>ip. \<not> is_unspecified ip \<and> \<not> is_multicast ip) ips\<rparr>)"

definition sock_key :: "SockEntry \<Rightarrow> ConnKey" where
  "sock_key s = \<lparr>k_proto = se_proto s, k_local = se_local s, k_lport = se_lport s, k_remote = se_remote s, k_rport = se_rport s\<rparr>"

definition is_terminal :: "string \<Rightarrow> bool" where
  "is_terminal st \<longleftrightarrow> st = ''TIME_WAIT'' \<or> st = ''CLOSE'' \<or> st = ''DELETE_TCB''"

text \<open>The tuple now belongs to another socket than the one the record was made for.\<close>

definition tcp_reused :: "SockEntry \<Rightarrow> u64 option \<Rightarrow> Conn \<Rightarrow> bool" where
  "tcp_reused s owner_started c \<longleftrightarrow>
     both_differ (c_pid c) (se_pid s) \<or> both_differ (c_owner_started c) owner_started \<or> se_ambiguous s
     \<or> both_differ (c_tcp_cookie c) (se_cookie s)
     \<or> (c_closed c \<and> \<not> is_terminal (se_state s) \<and> \<not> c_from_packets_only c)"

definition apply_socket_conn :: "u64 \<Rightarrow> proc_map \<Rightarrow> UdpMatch \<Rightarrow> SockEntry \<Rightarrow> Conn \<Rightarrow> Conn" where
  "apply_socket_conn t procs owner s c =
     (let pid = se_pid s; pname = name_of procs pid; owner_started = started_of procs pid;
          c1 = (if se_proto s = Tcp then
                  let c' = (if tcp_reused s owner_started c then (disown c)\<lparr>c_sni := None, c_domain := None\<rparr> else c) in
                  c'\<lparr>c_tcp_cookie := opt_or (se_cookie s) (c_tcp_cookie c')\<rparr>
                else c);
          c2 = c1\<lparr>c_state := se_state s, c_last_seen := t, c_from_packets_only := False, c_closed := is_terminal (se_state s)\<rparr> in
      if se_proto s = Udp then attribute_udp owner (Some procs) c2
      else if pid \<noteq> None \<and> \<not> c_owner_ambiguous c2 then
        c2\<lparr>c_pid := pid, c_owner_started := opt_or owner_started (c_owner_started c2), c_pname := pname\<rparr>
      else c2)"

text \<open>One socket of the snapshot: the keys seen alive and the store. \<open>t'\<close> is the time \<^verbatim>\<open>entry\<close> reads.\<close>

definition apply_socket :: "u64 \<Rightarrow> u64 \<Rightarrow> proc_map \<Rightarrow> SockEntry \<Rightarrow> ConnKey list \<times> Store \<Rightarrow> ConnKey list \<times> Store" where
  "apply_socket t t' procs s as =
     (let alive = fst as; st = snd as; k = sock_key s in
      if se_rport s = 0 then as
      else if se_state s = ''TIME_WAIT'' \<and> \<not> hm_has (s_conns st) k then as
      else (hs_add k alive, entry t' k False (apply_socket_conn t procs (udp_owner st k) s) st))"

definition close_conn :: "Conn \<Rightarrow> Conn" where
  "close_conn c = c\<lparr>c_closed := True, c_state := ''CLOSED''\<rparr>"

text \<open>The second pass, over every record: what is not in the snapshot any more is closed.\<close>

definition sweep_conn :: "u64 \<Rightarrow> proc_map \<Rightarrow> ConnKey list \<Rightarrow> UdpMatch \<Rightarrow> ConnKey \<Rightarrow> Conn \<Rightarrow> Conn" where
  "sweep_conn t procs alive owner k c =
     (if k_proto k = Udp \<and> k \<notin> set alive then
        let active = (case owner of
                        Unique u \<Rightarrow> (case c_udp_generation c of None \<Rightarrow> True | Some g \<Rightarrow> g = uo_generation u)
                      | _ \<Rightarrow> False);
            c1 = (if \<not> c_closed c \<and> active then (attribute_udp owner (Some procs) c)\<lparr>c_state := ''ACTIVE''\<rparr> else c) in
        if \<not> active then close_conn c1 else c1
      else if c_closed c \<or> k \<in> set alive then c
      else if c_state c \<noteq> ''NEW'' then
        let c1 = c\<lparr>c_closed := True\<rparr> in
        if c_state c1 \<noteq> ''TIME_WAIT'' then c1\<lparr>c_state := ''CLOSED''\<rparr> else c1
      else if PACKET_ONLY_IDLE_MS < sat_sub64 t (c_last_seen c) then close_conn c
      else c)"

fun apply_socket_list :: "(nat \<Rightarrow> u64) \<Rightarrow> nat \<Rightarrow> proc_map \<Rightarrow> SockEntry list \<Rightarrow> ConnKey list \<times> Store
    \<Rightarrow> ConnKey list \<times> Store" where
  "apply_socket_list clk i procs [] as = as"
| "apply_socket_list clk i procs (s # ss) as =
     apply_socket_list clk (Suc i) procs ss (apply_socket (clk 0) (clk i) procs s as)"

definition apply_sockets :: "(nat \<Rightarrow> u64) \<Rightarrow> SockEntry list \<Rightarrow> proc_map \<Rightarrow> Store \<Rightarrow> Store" where
  "apply_sockets clk socks procs st =
     (let t = clk 0;
          ips = fold (\<lambda>s acc. if \<not> is_unspecified (se_local s) \<and> \<not> is_multicast (se_local s) then hs_add (se_local s) acc else acc)
                  socks (s_local_ips st);
          st1 = refresh_udp_sockets socks procs t (st\<lparr>s_local_ips := ips\<rparr>);
          as = apply_socket_list clk 1 procs socks ([], st1);
          alive = fst as; st2 = snd as in
      st2\<lparr>s_conns := hm_map (\<lambda>k c. sweep_conn t procs alive (udp_owner st2 k) k c) (s_conns st2)\<rparr>)"

section \<open>Packets\<close>

definition packet_outgoing :: "Packet \<Rightarrow> Store \<Rightarrow> bool" where
  "packet_outgoing p s \<longleftrightarrow> pk_src p \<in> set (s_local_ips s) \<or> pk_dst p \<notin> set (s_local_ips s)"

definition packet_key :: "Packet \<Rightarrow> Store \<Rightarrow> ConnKey" where
  "packet_key p s =
     (if packet_outgoing p s
      then \<lparr>k_proto = pk_proto p, k_local = pk_src p, k_lport = pk_sport p, k_remote = pk_dst p, k_rport = pk_dport p\<rparr>
      else \<lparr>k_proto = pk_proto p, k_local = pk_dst p, k_lport = pk_dport p, k_remote = pk_src p, k_rport = pk_sport p\<rparr>)"

fun remember_all :: "(nat \<Rightarrow> u64) \<Rightarrow> nat \<Rightarrow> (string \<times> IpAddr \<times> u32) list \<Rightarrow> Store \<Rightarrow> Store" where
  "remember_all clk i [] s = s"
| "remember_all clk i ((name, ip, ttl) # rest) s = remember_all clk (Suc i) rest (remember_name_for (clk i) ip name ttl s)"

definition apply_packet_conn :: "u64 \<Rightarrow> bool \<Rightarrow> UdpMatch \<Rightarrow> Packet \<Rightarrow> Conn \<Rightarrow> Conn" where
  "apply_packet_conn now outgoing owner p c =
     (let c1 = (if pk_proto p = Udp then (attribute_udp owner None c)\<lparr>c_closed := False, c_state := ''NEW''\<rparr>
                else if c_closed c \<and> c_from_packets_only c then c\<lparr>c_closed := False, c_state := ''NEW''\<rparr>
                else c);
          c2 = c1\<lparr>c_last_seen := now\<rparr>;
          c3 = (if outgoing
                then c2\<lparr>c_tx_bytes := c_tx_bytes c2 + ucast (pk_bytes p), c_tx_pkts := c_tx_pkts c2 + 1\<rparr>
                else c2\<lparr>c_rx_bytes := c_rx_bytes c2 + ucast (pk_bytes p), c_rx_pkts := c_rx_pkts c2 + 1\<rparr>) in
      case pk_sni p of
        None \<Rightarrow> c3
      | Some sni \<Rightarrow> c3\<lparr>c_sni := Some sni, c_domain := Some sni\<rparr>)"

definition apply_packet :: "(nat \<Rightarrow> u64) \<Rightarrow> Packet \<Rightarrow> Store \<Rightarrow> ConnKey \<times> Store" where
  "apply_packet clk p s =
     (let n = length (pk_dns_addrs p);
          s1 = remember_all clk 0 (pk_dns_addrs p) (s\<lparr>s_packets_seen := s_packets_seen s + 1\<rparr>);
          k = packet_key p s1;
          known = hm_has (s_conns s1) k;
          owner = udp_owner s1 k in
      (k, entry (clk n) k (\<not> known) (apply_packet_conn (clk (n + 1)) (packet_outgoing p s1) owner p) s1))"

end
