(* ===== verification/Store_Names.thy ===== *)
theory Store_Names
  imports Store_Ops
begin

text \<open>
  Names of the remote side: \<^verbatim>\<open>enrich_names\<close> of \<^verbatim>\<open>src/src/state.rs\<close>, and the
  lookups of \<^verbatim>\<open>src/src/main.rs\<close> (\<^verbatim>\<open>whois_targets\<close>, the bookkeeping of
  \<^verbatim>\<open>whois_loop\<close>, \<^verbatim>\<open>apply_whois\<close>, the trimming of \<^verbatim>\<open>cache_loop\<close>).
  \<open>parse_ip\<close> is the standard library's \<^verbatim>\<open>str::parse::<IpAddr>\<close>, \<open>ru\<close> the language of the
  interface.
\<close>

section \<open>The best known name\<close>

definition is_label :: "(string \<times> string) option \<Rightarrow> string \<Rightarrow> bool" where
  "is_label known d = (case known of None \<Rightarrow> False | Some (en, ru_text) \<Rightarrow> d = en \<or> d = ru_text)"

text \<open>A DNS name the record already has is kept; a PTR name or a label may still be replaced.\<close>

definition frozen_name :: "(string \<times> string) option \<Rightarrow> Conn \<Rightarrow> bool" where
  "frozen_name known c =
     (case c_domain c of None \<Rightarrow> False | Some d \<Rightarrow> c_ptr c \<noteq> Some d \<and> \<not> is_label known d)"

definition enrich_conn :: "(string \<Rightarrow> IpAddr option) \<Rightarrow> bool \<Rightarrow> (IpAddr, DnsEntry) hmap \<Rightarrow> u64 \<Rightarrow> Conn \<Rightarrow> Conn" where
  "enrich_conn parse_ip ru dns now c =
     (if c_sni c \<noteq> None then c
      else
        let ip = parse_ip (c_remote c);
            known = (case ip of None \<Rightarrow> None | Some a \<Rightarrow> well_known_label a (c_rport c));
            dns_name = (case ip of None \<Rightarrow> None
                        | Some a \<Rightarrow> (case hm_get dns a of None \<Rightarrow> None | Some d \<Rightarrow> dns_unique d now)) in
        case (if frozen_name known c then None else dns_name) of
          Some name \<Rightarrow> c\<lparr>c_domain := Some name\<rparr>
        | None \<Rightarrow>
            (case c_domain c of
               Some d \<Rightarrow>
                 (case known of
                    Some (en, ru_text) \<Rightarrow>
                      if d = en \<or> d = ru_text then c\<lparr>c_domain := Some (tr ru en ru_text)\<rparr> else c
                  | None \<Rightarrow> c)
             | None \<Rightarrow>
                 (case c_ptr c of
                    Some ptr \<Rightarrow> c\<lparr>c_domain := Some ptr\<rparr>
                  | None \<Rightarrow>
                      (case known of
                         Some (en, ru_text) \<Rightarrow> c\<lparr>c_domain := Some (tr ru en ru_text)\<rparr>
                       | None \<Rightarrow> c))))"

text \<open>\<open>clk k\<close> is the time read while the record of \<open>k\<close> is visited.\<close>

definition enrich_names :: "(string \<Rightarrow> IpAddr option) \<Rightarrow> bool \<Rightarrow> (ConnKey \<Rightarrow> u64) \<Rightarrow> Store \<Rightarrow> Store" where
  "enrich_names parse_ip ru clk s =
     s\<lparr>s_conns := hm_map (\<lambda>k c. enrich_conn parse_ip ru (s_dns s) (clk k) c) (s_conns s)\<rparr>"

section \<open>Lookups\<close>

record Whois =
  w_ptr :: "string option"
  w_asn :: "string option"
  w_owner :: "string option"
  w_failed :: bool

definition whois_default :: Whois where
  "whois_default = \<lparr>w_ptr = None, w_asn = None, w_owner = None, w_failed = False\<rparr>"

definition WHOIS_BATCH :: nat where "WHOIS_BATCH = 8"
definition MAX_RETRIES :: u8 where "MAX_RETRIES = 3"
definition RETRY_AFTER :: nat where "RETRY_AFTER = 600 * 10 ^ 9"

text \<open>The first occurrence of every element: \<^verbatim>\<open>filter(|ip| seen.insert(*ip))\<close>.\<close>

fun first_seen_only :: "'a list \<Rightarrow> 'a list \<Rightarrow> 'a list" where
  "first_seen_only seen [] = []"
| "first_seen_only seen (x # xs) =
     (if x \<in> set seen then first_seen_only seen xs else x # first_seen_only (x # seen) xs)"

definition whois_targets :: "Store \<Rightarrow> (IpAddr, Whois) hmap \<Rightarrow> (IpAddr \<Rightarrow> bool) \<Rightarrow> IpAddr list" where
  "whois_targets s whois retry =
     take WHOIS_BATCH (first_seen_only []
       (filter (\<lambda>ip. \<not> hm_has whois ip \<and> retry ip)
         (filter (\<lambda>ip. classify ip = ''public'' \<and> \<not> is_unspecified ip)
           (map k_remote (hm_keys (s_conns s))))))"

text \<open>Failures per address: how many, and when the last one was (in ns).\<close>

type_synonym fail_map = "(IpAddr, u8 \<times> nat) hmap"

definition recent_fails :: "nat \<Rightarrow> fail_map \<Rightarrow> fail_map" where
  "recent_fails now fails = hm_retain (\<lambda>_ e. now - snd e < RETRY_AFTER) fails"

definition may_retry :: "fail_map \<Rightarrow> IpAddr \<Rightarrow> bool" where
  "may_retry fails ip = (case hm_get fails ip of None \<Rightarrow> True | Some e \<Rightarrow> fst e < MAX_RETRIES)"

definition count_failure :: "nat \<Rightarrow> IpAddr \<Rightarrow> fail_map \<Rightarrow> fail_map" where
  "count_failure now ip fails = hm_entry ip (0, now) (\<lambda>e. (fst e + 1, now)) fails"

definition lookup_conn :: "IpAddr \<Rightarrow> Whois \<Rightarrow> Conn \<Rightarrow> Conn" where
  "lookup_conn ip w c =
     (if c_remote c = ip_to_string ip then
        let c1 = (if w_ptr w \<noteq> None then c\<lparr>c_ptr := w_ptr w\<rparr> else c);
            c2 = (if w_asn w \<noteq> None then c1\<lparr>c_asn := w_asn w, c_owner := w_owner w\<rparr> else c1) in
        if c_domain c2 = None then c2\<lparr>c_domain := w_ptr w\<rparr> else c2
      else c)"

text \<open>One finished lookup: the failures, the cache and the records.\<close>

definition whois_done :: "nat \<Rightarrow> IpAddr \<Rightarrow> Whois \<Rightarrow> fail_map \<times> (IpAddr, Whois) hmap \<times> Store
    \<Rightarrow> fail_map \<times> (IpAddr, Whois) hmap \<times> Store" where
  "whois_done now ip w g =
     (case g of (fails, whois, s) \<Rightarrow>
        let fails' = (if w_failed w then count_failure now ip fails else hm_del ip fails) in
        if w_failed w \<and> w_asn w = None \<and> w_ptr w = None then (fails', whois, s)
        else (fails', if w_failed w then whois else hm_put ip w whois,
              s\<lparr>s_conns := hm_map (\<lambda>_ c. lookup_conn ip w c) (s_conns s)\<rparr>))"

text \<open>One pass of \<^verbatim>\<open>whois_loop\<close>: \<open>look\<close> is the lookup of an address, \<^verbatim>\<open>None\<close> when its task failed.\<close>

definition whois_pass :: "nat \<Rightarrow> (IpAddr \<Rightarrow> Whois option) \<Rightarrow> fail_map \<times> (IpAddr, Whois) hmap \<times> Store
    \<Rightarrow> fail_map \<times> (IpAddr, Whois) hmap \<times> Store" where
  "whois_pass now look g =
     (case g of (fails, whois, s) \<Rightarrow>
        let fails0 = recent_fails now fails;
            targets = whois_targets s whois (may_retry fails0) in
        fold (\<lambda>ip acc. case look ip of None \<Rightarrow> acc | Some w \<Rightarrow> whois_done now ip w acc) targets (fails0, whois, s))"

definition apply_whois_conn :: "(string \<Rightarrow> IpAddr option) \<Rightarrow> (IpAddr, Whois) hmap \<Rightarrow> Conn \<Rightarrow> Conn" where
  "apply_whois_conn parse_ip whois c =
     (if c_asn c \<noteq> None \<and> c_domain c \<noteq> None then c
      else
        case parse_ip (c_remote c) of
          None \<Rightarrow> c
        | Some ip \<Rightarrow>
            (case hm_get whois ip of
               None \<Rightarrow> c
             | Some w \<Rightarrow>
                 let c1 = (if c_ptr c = None then c\<lparr>c_ptr := w_ptr w\<rparr> else c);
                     c2 = (if c_asn c1 = None then c1\<lparr>c_asn := w_asn w, c_owner := w_owner w\<rparr> else c1) in
                 if c_domain c2 = None then c2\<lparr>c_domain := w_ptr w\<rparr> else c2))"

definition apply_whois :: "(string \<Rightarrow> IpAddr option) \<Rightarrow> (IpAddr, Whois) hmap \<Rightarrow> Store \<Rightarrow> Store" where
  "apply_whois parse_ip whois s =
     (if whois = [] then s
      else s\<lparr>s_conns := hm_map (\<lambda>_ c. apply_whois_conn parse_ip whois c) (s_conns s)\<rparr>)"

text \<open>The cache part of \<^verbatim>\<open>cache_loop\<close>, in round \<open>round\<close>.\<close>

definition cache_round :: "u32 \<Rightarrow> Store \<Rightarrow> (IpAddr, Whois) hmap \<Rightarrow> (IpAddr, Whois) hmap" where
  "cache_round round s whois =
     (let kept = (if unat round mod 8 = 0 then hm_retain (\<lambda>_ w. w_ptr w \<noteq> None \<or> w_asn w \<noteq> None) whois else whois) in
      if MAX_NAMES < length kept then trim_ip_map kept (s_conns s) MAX_NAMES else kept)"

end
