(* ===== verification/Store_Facts.thy ===== *)
theory Store_Facts
  imports Store_Names
begin

text \<open>
  What holds of the store after any sequence of its operations. \<open>store_step\<close> is the step
  relation of every change the program makes to it; the locale \<open>record_invariant\<close> lifts a fact
  about one record, kept by the four operations on records, to every reachable store.
\<close>

section \<open>All records\<close>

definition store_all :: "(ConnKey \<Rightarrow> Conn \<Rightarrow> bool) \<Rightarrow> Store \<Rightarrow> bool" where
  "store_all P s \<longleftrightarrow> (\<forall>e \<in> set (s_conns s). P (fst e) (snd e))"

definition store_wf :: "Store \<Rightarrow> bool" where
  "store_wf s \<longleftrightarrow> hm_wf (s_conns s) \<and> length (s_conns s) \<le> MAX_CONNS + 1"

lemma store_all_get: "store_wf s \<Longrightarrow> store_all P s \<longleftrightarrow> (\<forall>k c. hm_get (s_conns s) k = Some c \<longrightarrow> P k c)"
  by (fastforce simp: store_all_def store_wf_def dest: hm_get_in_set hm_get_of_set)

lemma store_all_conns: "s_conns s = s_conns s' \<Longrightarrow> store_all P s = store_all P s'"
  by (simp add: store_all_def)

lemma store_wf_conns: "s_conns s = s_conns s' \<Longrightarrow> store_wf s = store_wf s'"
  by (simp add: store_wf_def)

named_theorems conns_kept \<open>operations that leave the records alone\<close>

lemma conns_remember_name [conns_kept, simp]: "s_conns (remember_name_for now ip name ttl s) = s_conns s"
  by (simp add: remember_name_for_def Let_def)

lemma conns_remember_all [conns_kept, simp]: "s_conns (remember_all clk i ps s) = s_conns s"
  by (induction clk i ps s rule: remember_all.induct) simp_all

lemma conns_refresh_one [conns_kept, simp]: "s_conns (snd (refresh_one procs sk ps)) = s_conns (snd ps)"
  by (simp add: refresh_one_def Let_def split: option.splits)

lemma conns_refresh_fold: "s_conns (snd (fold (refresh_one procs) sks ps)) = s_conns (snd ps)"
  by (induction sks arbitrary: ps) simp_all

lemma conns_refresh [conns_kept, simp]: "s_conns (refresh_udp_sockets sks procs t s) = s_conns s"
  by (simp add: refresh_udp_sockets_def Let_def conns_refresh_fold)

lemma conns_local_ips [conns_kept, simp]: "s_conns (set_local_ips ips s) = s_conns s"
  by (simp add: set_local_ips_def split: option.splits)

lemma conns_restore [conns_kept, simp]: "s_conns (snd (restore_dns now ip e s)) = s_conns s"
  by (simp add: restore_dns_def Let_def)

section \<open>One record changed\<close>

lemma entry_wf: "store_wf s \<Longrightarrow> store_wf (entry t k b f s)"
  unfolding store_wf_def entry_def
  using conn_table.entry_bound [of "s_conns s"] conn_table.room_wf [of "s_conns s"]
  by (simp add: hm_wf_entry)

lemma entry_get:
  assumes "store_wf s" and "hm_get (s_conns (entry t k b f s)) k' = Some c'"
  shows "if k' = k then c' = f (case hm_get (s_conns s) k of None \<Rightarrow> new_conn t k b | Some c \<Rightarrow> c)
         else hm_get (s_conns s) k' = Some c'"
proof -
  have wf: "hm_wf (s_conns s)" using assms(1) by (simp add: store_wf_def)
  have same: "hm_get (conn_room k (s_conns s)) k = hm_get (s_conns s) k"
  proof (cases "hm_get (s_conns s) k")
    case None
    then show ?thesis using conn_table.room_subset [OF wf, of k k] by (cases "hm_get (conn_room k (s_conns s)) k") auto
  next
    case (Some c)
    then show ?thesis by (simp add: conn_table.room_known hm_has_get)
  qed
  show ?thesis
    using assms(2) conn_table.room_subset [OF wf] by (auto simp: entry_def hm_get_entry same split: if_splits)
qed

lemma entry_lookup:
  "store_wf s \<Longrightarrow> hm_get (s_conns (entry t k b f s)) k
     = Some (f (case hm_get (s_conns s) k of None \<Rightarrow> new_conn t k b | Some c \<Rightarrow> c))"
  using entry_get [of s t k b f k] by (simp add: entry_def hm_get_entry)

lemma entry_all:
  assumes "store_wf s" and "store_all P s" and "P k (f (new_conn t k b))"
    and "\<And>c. P k c \<Longrightarrow> P k (f c)"
  shows "store_all P (entry t k b f s)"
  unfolding store_all_get [OF entry_wf [OF assms(1)]]
proof (intro allI impI)
  fix k' c'
  assume "hm_get (s_conns (entry t k b f s)) k' = Some c'"
  from entry_get [OF assms(1) this] show "P k' c'"
    using assms(2-4) unfolding store_all_get [OF assms(1)] by (auto split: if_splits option.splits)
qed

lemma map_conns_wf: "store_wf s \<Longrightarrow> store_wf (s\<lparr>s_conns := hm_map f (s_conns s)\<rparr>)"
  by (simp add: store_wf_def hm_wf_map length_hm_map)

lemma map_conns_all:
  "store_all P s \<Longrightarrow> (\<And>k c. P k c \<Longrightarrow> P k (f k c)) \<Longrightarrow> store_all P (s\<lparr>s_conns := hm_map f (s_conns s)\<rparr>)"
  by (auto simp: store_all_def hm_map_def)

section \<open>Well-formedness of every operation\<close>

lemma apply_socket_wf: "store_wf (snd as) \<Longrightarrow> store_wf (snd (apply_socket t t' procs s as))"
  by (simp add: apply_socket_def Let_def entry_wf)

lemma apply_socket_list_wf: "store_wf (snd as) \<Longrightarrow> store_wf (snd (apply_socket_list clk i procs ss as))"
  by (induction clk i procs ss as rule: apply_socket_list.induct) (simp_all add: apply_socket_wf)

lemma apply_sockets_wf: "store_wf s \<Longrightarrow> store_wf (apply_sockets clk socks procs s)"
  unfolding apply_sockets_def Let_def
  by (intro map_conns_wf apply_socket_list_wf) (simp add: store_wf_def)

lemma apply_packet_wf: "store_wf s \<Longrightarrow> store_wf (snd (apply_packet clk p s))"
  unfolding apply_packet_def Let_def snd_conv
  by (rule entry_wf) (simp add: store_wf_def)

lemma enrich_names_wf: "store_wf s \<Longrightarrow> store_wf (enrich_names parse_ip ru clk s)"
  unfolding enrich_names_def by (rule map_conns_wf)

lemma apply_whois_wf: "store_wf s \<Longrightarrow> store_wf (apply_whois parse_ip whois s)"
  by (simp add: apply_whois_def map_conns_wf)

section \<open>Facts about every record\<close>

locale record_invariant =
  fixes P :: "ConnKey \<Rightarrow> Conn \<Rightarrow> bool"
  assumes fresh: "P k (new_conn t k b)"
    and socket_step: "k = sock_key s \<Longrightarrow> P k c \<Longrightarrow> P k (apply_socket_conn t procs owner s c)"
    and sweep_step: "P k c \<Longrightarrow> P k (sweep_conn t procs alive owner k c)"
    and packet_step: "k_proto k = pk_proto p \<Longrightarrow> P k c \<Longrightarrow> P k (apply_packet_conn t out owner p c)"
    and enrich_step: "P k c \<Longrightarrow> P k (enrich_conn parse_ip ru dns t c)"
    and lookup_step: "P k c \<Longrightarrow> P k (lookup_conn ip w c)"
    and whois_step: "P k c \<Longrightarrow> P k (apply_whois_conn parse_ip whois c)"
begin

lemma apply_socket_keeps:
  assumes "store_wf (snd as)" and "store_all P (snd as)"
  shows "store_all P (snd (apply_socket t t' procs s as))"
  using assms unfolding apply_socket_def Let_def
  by (auto intro!: entry_all socket_step fresh)

lemma apply_socket_list_keeps:
  "store_wf (snd as) \<Longrightarrow> store_all P (snd as) \<Longrightarrow> store_all P (snd (apply_socket_list clk i procs ss as))"
  by (induction clk i procs ss as rule: apply_socket_list.induct) (simp_all add: apply_socket_wf apply_socket_keeps)

lemma apply_sockets_keeps: "store_wf s \<Longrightarrow> store_all P s \<Longrightarrow> store_all P (apply_sockets clk socks procs s)"
  unfolding apply_sockets_def Let_def
  by (intro map_conns_all apply_socket_list_keeps sweep_step) (simp_all add: store_wf_def store_all_def)

lemma apply_packet_keeps: "store_wf s \<Longrightarrow> store_all P s \<Longrightarrow> store_all P (snd (apply_packet clk p s))"
  unfolding apply_packet_def Let_def snd_conv
  by (intro entry_all packet_step fresh) (simp_all add: store_wf_def store_all_def packet_key_def)

lemma enrich_names_keeps: "store_all P s \<Longrightarrow> store_all P (enrich_names parse_ip ru clk s)"
  unfolding enrich_names_def by (intro map_conns_all enrich_step)

lemma apply_whois_keeps: "store_all P s \<Longrightarrow> store_all P (apply_whois parse_ip whois s)"
  by (auto simp: apply_whois_def intro!: map_conns_all whois_step)

lemma whois_done_keeps: "store_all P s \<Longrightarrow> store_all P (snd (snd (whois_done now ip w (fails, whois, s))))"
  by (auto simp: whois_done_def Let_def intro!: map_conns_all lookup_step)

end


section \<open>The history as a state machine\<close>

text \<open>
  Every change \<^verbatim>\<open>main.rs\<close> makes to the store: \<^verbatim>\<open>poll_loop\<close> (addresses, snapshot, names,
  whois), the packet loop, \<^verbatim>\<open>dnscache_loop\<close>, \<^verbatim>\<open>whois_loop\<close>, the cache loaded
  at the start and \<^verbatim>\<open>api_clear\<close>, in any order.
\<close>

definition clear_history :: "Store \<Rightarrow> Store" where
  "clear_history s = s\<lparr>s_conns := [], s_packets_seen := 0\<rparr>"

inductive store_step :: "Store \<Rightarrow> Store \<Rightarrow> bool" where
  addresses: "store_step s (set_local_ips ips s)"
| snapshot: "store_step s (apply_sockets clk socks procs s)"
| packet: "store_step s (snd (apply_packet clk p s))"
| named: "store_step s (remember_name_for now ip name ttl s)"
| restored: "store_step s (snd (restore_dns now ip e s))"
| enriched: "store_step s (enrich_names parse_ip ru reads s)"
| whois: "store_step s (apply_whois parse_ip cache s)"
| looked_up: "store_step s (snd (snd (whois_done at ip w (fails, cache, s))))"
| cleared: "store_step s (clear_history s)"

inductive reachable :: "Store \<Rightarrow> bool" where
  start: "reachable (store_default now)"
| step: "reachable s \<Longrightarrow> store_step s s' \<Longrightarrow> reachable s'"

lemma store_default_wf: "store_wf (store_default now)"
  by (simp add: store_wf_def store_default_def)

lemma whois_done_wf: "store_wf s \<Longrightarrow> store_wf (snd (snd (whois_done now ip w (fails, whois, s))))"
  by (simp add: whois_done_def Let_def map_conns_wf)

lemma step_wf: "store_step s s' \<Longrightarrow> store_wf s \<Longrightarrow> store_wf s'"
proof (induction rule: store_step.induct)
  case (cleared s)
  then show ?case by (simp add: clear_history_def store_wf_def)
qed (simp_all add: apply_sockets_wf apply_packet_wf enrich_names_wf apply_whois_wf whois_done_wf,
  simp_all add: store_wf_def)

lemma reachable_wf: "reachable s \<Longrightarrow> store_wf s"
  by (induction rule: reachable.induct) (auto intro: step_wf store_default_wf)

context record_invariant
begin

lemma step_keeps: "store_step s s' \<Longrightarrow> store_wf s \<Longrightarrow> store_all P s \<Longrightarrow> store_all P s'"
proof (induction rule: store_step.induct)
  case (cleared s)
  then show ?case by (simp add: clear_history_def store_all_def)
qed (simp_all add: apply_sockets_keeps apply_packet_keeps enrich_names_keeps apply_whois_keeps whois_done_keeps,
  simp_all add: store_all_def)

lemma reachable_keeps: "reachable s \<Longrightarrow> store_all P s"
proof (induction rule: reachable.induct)
  case (start now)
  show ?case by (simp add: store_all_def store_default_def)
next
  case (step s s')
  then show ?case by (blast intro: step_keeps reachable_wf)
qed

lemma reachable_record: "reachable s \<Longrightarrow> hm_get (s_conns s) k = Some c \<Longrightarrow> P k c"
  using reachable_keeps [of s] store_all_get [OF reachable_wf, of s P] by blast

end

section \<open>A record describes its key\<close>

definition key_fields :: "ConnKey \<Rightarrow> Conn \<Rightarrow> bool" where
  "key_fields k c \<longleftrightarrow>
     c_id c = key_id k \<and> c_proto c = proto_as_str (k_proto k) \<and> c_local c = ip_to_string (k_local k)
     \<and> c_lport c = k_lport k \<and> c_remote c = ip_to_string (k_remote k) \<and> c_rport c = k_rport k
     \<and> c_scope c = classify (k_remote k)"

definition disowned_blank :: "ConnKey \<Rightarrow> Conn \<Rightarrow> bool" where
  "disowned_blank k c \<longleftrightarrow> (c_owner_ambiguous c \<longrightarrow> c_pid c = None \<and> c_owner_started c = None \<and> c_pname c = None)
     \<and> (k_proto k = Tcp \<longrightarrow> c_udp_generation c = None) \<and> (k_proto k = Udp \<longrightarrow> c_tcp_cookie c = None)"

lemmas record_ops = apply_socket_conn_def sweep_conn_def apply_packet_conn_def enrich_conn_def lookup_conn_def
  apply_whois_conn_def attribute_udp_def disown_def close_conn_def Let_def

interpretation key_record: record_invariant key_fields
proof
  show "key_fields k (new_conn t k b)" for k t b
    by (simp add: key_fields_def new_conn_def)
  show "key_fields k (apply_socket_conn t procs owner s c)" if "key_fields k c" for k c t procs owner s
    using that by (auto simp: key_fields_def record_ops split: UdpMatch.split option.split)
  show "key_fields k (sweep_conn t procs alive owner k c)" if "key_fields k c" for k c t procs alive owner
    using that by (auto simp: key_fields_def record_ops split: UdpMatch.split option.split)
  show "key_fields k (apply_packet_conn t out owner p c)" if "key_fields k c" for k c t out owner p
    using that by (auto simp: key_fields_def record_ops split: UdpMatch.split option.split)
  show "key_fields k (enrich_conn parse_ip ru dns t c)" if "key_fields k c" for k c parse_ip ru dns t
    using that by (auto simp: key_fields_def record_ops split: option.split)
  show "key_fields k (lookup_conn ip w c)" if "key_fields k c" for k c ip w
    using that by (auto simp: key_fields_def record_ops)
  show "key_fields k (apply_whois_conn parse_ip whois c)" if "key_fields k c" for k c parse_ip whois
    using that by (auto simp: key_fields_def record_ops split: option.split)
qed

interpretation blank_record: record_invariant disowned_blank
proof
  show "disowned_blank k (new_conn t k b)" for k t b
    by (simp add: disowned_blank_def new_conn_def)
  show "disowned_blank k (apply_socket_conn t procs owner s c)" if "k = sock_key s" "disowned_blank k c" for k c t procs owner s
    using that by (auto simp: disowned_blank_def sock_key_def record_ops split: UdpMatch.split option.split)
  show "disowned_blank k (sweep_conn t procs alive owner k c)" if "disowned_blank k c" for k c t procs alive owner
    using that by (auto simp: disowned_blank_def record_ops split: UdpMatch.split option.split)
  show "disowned_blank k (apply_packet_conn t out owner p c)" if "k_proto k = pk_proto p" "disowned_blank k c" for k c t out owner p
    using that by (auto simp: disowned_blank_def record_ops split: UdpMatch.split option.split)
  show "disowned_blank k (enrich_conn parse_ip ru dns t c)" if "disowned_blank k c" for k c parse_ip ru dns t
    using that by (auto simp: disowned_blank_def record_ops split: option.split)
  show "disowned_blank k (lookup_conn ip w c)" if "disowned_blank k c" for k c ip w
    using that by (auto simp: disowned_blank_def record_ops)
  show "disowned_blank k (apply_whois_conn parse_ip whois c)" if "disowned_blank k c" for k c parse_ip whois
    using that by (auto simp: disowned_blank_def record_ops split: option.split)
qed


section \<open>The limit of the history\<close>

definition tcp_sample :: Packet where
  "tcp_sample = \<lparr>pk_proto = Tcp, pk_src = V4 192 0 2 10, pk_sport = 40000, pk_dst = V4 198 51 100 20,
     pk_dport = 443, pk_bytes = 60, pk_sni = None, pk_dns_addrs = []\<rparr>"

text \<open>
  C3. History invariant. In every store the program can reach, by any sequence of snapshots,
  packets, names, lookups and clearings: the connection table has distinct keys and at most
  \<^verbatim>\<open>MAX_CONNS\<close> + 1 records; every record shows the protocol, the addresses, the ports, the
  id and the address class of its key; and a record whose owner is disputed names no process.
\<close>

theorem history_invariant:
  assumes "reachable s"
  shows "hm_wf (s_conns s) \<and> length (s_conns s) \<le> MAX_CONNS + 1 \<and>
    (\<forall>k c. hm_get (s_conns s) k = Some c \<longrightarrow> key_fields k c \<and>
      (c_owner_ambiguous c \<longrightarrow> c_pid c = None \<and> c_owner_started c = None \<and> c_pname c = None))"
  using reachable_wf [OF assms] key_record.reachable_record [OF assms] blank_record.reachable_record [OF assms]
  by (auto simp: store_wf_def disowned_blank_def)

theorem history_invariant_witness:
  "hm_wf (s_conns (snd (apply_packet (\<lambda>_. 1) tcp_sample (store_default 0))))"
  using history_invariant [OF reachable.step [OF reachable.start store_step.packet]] by blast

lemma evict_live:
  assumes "length m \<le> MAX_CONNS" and "\<forall>e \<in> set m. \<not> c_closed (snd e)"
  shows "evict m = m"
proof -
  have "filter (\<lambda>e. c_closed (snd e)) m = []" using assms(2) by simp
  then show ?thesis using assms(1) by (simp add: evict_def)
qed

definition tcp_packet :: "nat \<Rightarrow> Packet" where
  "tcp_packet n = \<lparr>pk_proto = Tcp, pk_src = V4 192 0 2 10, pk_sport = word_of_nat n, pk_dst = V4 198 51 100 20,
     pk_dport = 443, pk_bytes = 60, pk_sni = None, pk_dns_addrs = []\<rparr>"

definition packet_store :: "nat \<Rightarrow> Store" where
  "packet_store n = fold (\<lambda>i s. snd (apply_packet (\<lambda>_. 1) (tcp_packet i) s)) [0..<n] (store_default 0)"

lemma packet_store_reachable: "reachable (packet_store n)"
  by (induction n) (auto simp: packet_store_def intro: reachable.intros store_step.packet)

lemma tcp_packet_key: "s_local_ips s = [] \<Longrightarrow> packet_key (tcp_packet n) s =
   \<lparr>k_proto = Tcp, k_local = V4 192 0 2 10, k_lport = word_of_nat n, k_remote = V4 198 51 100 20, k_rport = 443\<rparr>"
  by (simp add: packet_key_def packet_outgoing_def tcp_packet_def)

lemma packet_store_length:
  "n \<le> MAX_CONNS + 1 \<Longrightarrow>
     length (s_conns (packet_store n)) = n \<and> s_local_ips (packet_store n) = []
     \<and> (\<forall>e \<in> set (s_conns (packet_store n)). \<not> c_closed (snd e) \<and> unat (k_lport (fst e)) < n)"
proof (induction n)
  case 0
  show ?case by (simp add: packet_store_def store_default_def)
next
  case (Suc n)
  let ?s = "packet_store n"
  let ?st = "?s\<lparr>s_packets_seen := s_packets_seen ?s + 1\<rparr>"
  let ?k = "packet_key (tcp_packet n) ?s"
  have live: "\<forall>e \<in> set (s_conns ?s). \<not> c_closed (snd e) \<and> unat (k_lport (fst e)) < n"
    and len: "length (s_conns ?s) = n" and ips: "s_local_ips ?s = []"
    using Suc by auto
  have port: "unat (k_lport ?k) = n"
    using Suc.prems by (simp add: tcp_packet_key [OF ips] unat_of_nat MAX_CONNS_def)
  have new: "\<not> hm_has (s_conns ?s) ?k"
    using live port by (auto simp: hm_has_def)
  have room: "conn_room ?k (s_conns ?s) = s_conns ?s"
    using Suc.prems live len by (simp add: conn_room_def evict_live)
  have key: "packet_key (tcp_packet n) ?st = ?k"
    by (simp add: packet_key_def packet_outgoing_def)
  have unfolded: "packet_store (Suc n) = snd (apply_packet (\<lambda>_. 1) (tcp_packet n) ?s)"
    by (simp add: packet_store_def)
  have addrs: "pk_dns_addrs (tcp_packet n) = []" by (simp add: tcp_packet_def)
  have next_store: "packet_store (Suc n) = entry 1 ?k True
      (apply_packet_conn 1 (packet_outgoing (tcp_packet n) ?st) (udp_owner ?st ?k) (tcp_packet n)) ?st"
    unfolding unfolded apply_packet_def Let_def addrs by (simp add: key new)
  let ?c = "apply_packet_conn 1 (packet_outgoing (tcp_packet n) ?st) (udp_owner ?st ?k) (tcp_packet n) (new_conn 1 ?k True)"
  have conns: "s_conns (packet_store (Suc n)) = hm_put ?k ?c (s_conns ?s)"
    unfolding next_store entry_def using new room by (simp add: hm_entry_def flip: hm_get_None)
  have open_conn: "\<not> c_closed ?c"
    by (simp add: apply_packet_conn_def tcp_packet_def Let_def new_conn_def)
  have ips': "s_local_ips (packet_store (Suc n)) = []"
    unfolding next_store entry_def using ips by simp
  have "length (s_conns (packet_store (Suc n))) = Suc n"
    unfolding conns using new len by (simp add: length_hm_put)
  moreover have "\<not> c_closed (snd e) \<and> unat (k_lport (fst e)) < Suc n" if "e \<in> set (s_conns (packet_store (Suc n)))" for e
    using set_hm_put [OF that [unfolded conns]] live open_conn port by auto
  ultimately show ?case using ips' by blast
qed

text \<open>
  The limit is exceeded by one. A run of 20,001 packets of distinct live connections leaves
  \<^verbatim>\<open>MAX_CONNS\<close> + 1 records: with exactly \<^verbatim>\<open>MAX_CONNS\<close> live records
  \<^verbatim>\<open>evict\<close> removes nothing, because its second stage compares with \<^verbatim>\<open>>\<close>.
\<close>

theorem limit_exceeded_by_one: "\<exists>s. reachable s \<and> length (s_conns s) = MAX_CONNS + 1"
  using packet_store_reachable [of "MAX_CONNS + 1"] packet_store_length [of "MAX_CONNS + 1"] by auto

end
