(* ===== verification/Store_Owners.thy ===== *)
theory Store_Owners
  imports Store_Facts
begin

text \<open>
  Who owns a connection: what a packet and a snapshot of the socket table do to the records
  (\<^verbatim>\<open>apply_packet\<close>, \<^verbatim>\<open>apply_sockets\<close>, \<^verbatim>\<open>udp_owner\<close> and
  \<^verbatim>\<open>attribute_udp\<close> of \<^verbatim>\<open>src/src/state.rs\<close>).
\<close>

section \<open>The sockets a record is matched with\<close>

lemma sockets_remember_name [simp]:
  "s_udp_sockets (remember_name_for now ip name ttl s) = s_udp_sockets s"
  "s_local_ips (remember_name_for now ip name ttl s) = s_local_ips s"
  "s_packets_seen (remember_name_for now ip name ttl s) = s_packets_seen s"
  by (simp_all add: remember_name_for_def Let_def)

lemma sockets_remember_all [simp]:
  "s_udp_sockets (remember_all clk i ps s) = s_udp_sockets s"
  "s_local_ips (remember_all clk i ps s) = s_local_ips s"
  "s_packets_seen (remember_all clk i ps s) = s_packets_seen s"
  by (induction clk i ps s rule: remember_all.induct) simp_all

lemma sockets_entry [simp]:
  "s_udp_sockets (entry t k b f s) = s_udp_sockets s"
  "s_local_ips (entry t k b f s) = s_local_ips s"
  "s_packets_seen (entry t k b f s) = s_packets_seen s"
  by (simp_all add: entry_def)

lemma udp_owner_cong:
  "s_udp_sockets s = s_udp_sockets s' \<Longrightarrow> s_local_ips s = s_local_ips s' \<Longrightarrow> udp_owner s k = udp_owner s' k"
  by (simp add: udp_owner_def)

lemma udp_owner_remember [simp]: "udp_owner (remember_all clk i ps s) k = udp_owner s k"
  by (rule udp_owner_cong) simp_all

lemma udp_owner_entry [simp]: "udp_owner (entry t k' b f s) k = udp_owner s k"
  by (rule udp_owner_cong) simp_all

text \<open>The one open socket that covers a key: no second one does, and no process disputes it.\<close>

definition sole_owner :: "Store \<Rightarrow> ConnKey \<Rightarrow> UdpSocket \<Rightarrow> bool" where
  "sole_owner s k sk \<longleftrightarrow> k_local k \<in> set (s_local_ips s) \<and> \<not> se_ambiguous (us_entry sk) \<and>
     (\<exists>entries. hm_get (s_udp_sockets s) (k_lport k) = Some entries \<and> filter (socket_covers k) entries = [sk])"

lemma udp_owner_Unique:
  "udp_owner s k = Unique u \<longleftrightarrow>
     (\<exists>sk. sole_owner s k sk \<and> u = \<lparr>uo_generation = us_generation sk, uo_since = us_since sk,
        uo_pid = se_pid (us_entry sk), uo_started = us_owner_started sk\<rparr>)"
  by (auto simp: udp_owner_def sole_owner_def split: option.split list.split)

lemma sole_owner_unique: "sole_owner s k sk \<Longrightarrow> sole_owner s k sk' \<Longrightarrow> sk = sk'"
  by (auto simp: sole_owner_def)

section \<open>Attribution of one record\<close>

definition owned_by :: "UdpMatch \<Rightarrow> Conn \<Rightarrow> bool" where
  "owned_by owner c \<longleftrightarrow> (c_pid c \<noteq> None \<longrightarrow>
     (\<exists>u. owner = Unique u \<and> c_udp_generation c = Some (uo_generation u) \<and> uo_since u \<le> c_first_seen c
        \<and> (uo_pid u = None \<or> uo_pid u = c_pid c)))"

definition udp_proved :: "ConnKey \<Rightarrow> Conn \<Rightarrow> bool" where
  "udp_proved k c \<longleftrightarrow> (k_proto k = Udp \<longrightarrow> c_pid c \<noteq> None \<longrightarrow> c_udp_generation c \<noteq> None \<and> \<not> c_owner_ambiguous c)"

lemma attribute_udp_owned:
  assumes "c_pid c \<noteq> None \<longrightarrow> c_udp_generation c \<noteq> None \<and> \<not> c_owner_ambiguous c"
  shows "owned_by owner (attribute_udp owner procs c)"
  using assms by (auto simp: owned_by_def attribute_udp_def disown_def Let_def split: UdpMatch.split option.split)

lemma owned_sole:
  assumes "owned_by (udp_owner s k) c" and "c_pid c = Some pid"
  shows "\<exists>sk. sole_owner s k sk \<and> c_udp_generation c = Some (us_generation sk) \<and> us_since sk \<le> c_first_seen c
     \<and> (se_pid (us_entry sk) = Some pid \<or> se_pid (us_entry sk) = None)"
  using assms by (auto simp: owned_by_def udp_owner_Unique)

interpretation udp_record: record_invariant udp_proved
proof
  show "udp_proved k (new_conn t k b)" for k t b
    by (simp add: udp_proved_def new_conn_def)
  show "udp_proved k (apply_socket_conn t procs owner s c)" if "k = sock_key s" "udp_proved k c" for k c t procs owner s
    using that by (auto simp: udp_proved_def sock_key_def record_ops split: UdpMatch.split option.split)
  show "udp_proved k (sweep_conn t procs alive owner k c)" if "udp_proved k c" for k c t procs alive owner
    using that by (auto simp: udp_proved_def record_ops split: UdpMatch.split option.split)
  show "udp_proved k (apply_packet_conn t out owner p c)" if "k_proto k = pk_proto p" "udp_proved k c" for k c t out owner p
    using that by (auto simp: udp_proved_def record_ops split: UdpMatch.split option.split)
  show "udp_proved k (enrich_conn parse_ip ru dns t c)" if "udp_proved k c" for k c parse_ip ru dns t
    using that by (auto simp: udp_proved_def record_ops split: option.split)
  show "udp_proved k (lookup_conn ip w c)" if "udp_proved k c" for k c ip w
    using that by (auto simp: udp_proved_def record_ops)
  show "udp_proved k (apply_whois_conn parse_ip whois c)" if "udp_proved k c" for k c parse_ip whois
    using that by (auto simp: udp_proved_def record_ops split: option.split)
qed

section \<open>Packets\<close>

lemma evict_small: "length m < MAX_CONNS \<Longrightarrow> evict m = m"
  by (simp add: evict_def)

lemma packet_conn_owned:
  assumes "pk_proto p = Udp" and "c_pid c \<noteq> None \<longrightarrow> c_udp_generation c \<noteq> None \<and> \<not> c_owner_ambiguous c"
  shows "owned_by owner (apply_packet_conn t out owner p c)"
  using attribute_udp_owned [OF assms(2), of owner None] assms(1)
  by (auto simp: owned_by_def apply_packet_conn_def Let_def split: option.split)

lemma packet_conn_counters:
  "c_tx_bytes (apply_packet_conn t out owner p c) = c_tx_bytes c + (if out then ucast (pk_bytes p) else 0)"
  "c_rx_bytes (apply_packet_conn t out owner p c) = c_rx_bytes c + (if out then 0 else ucast (pk_bytes p))"
  "c_tx_pkts (apply_packet_conn t out owner p c) = c_tx_pkts c + (if out then 1 else 0)"
  "c_rx_pkts (apply_packet_conn t out owner p c) = c_rx_pkts c + (if out then 0 else 1)"
  "c_first_seen (apply_packet_conn t out owner p c) = c_first_seen c"
  "c_last_seen (apply_packet_conn t out owner p c) = t"
  "c_sni (apply_packet_conn t out owner p c) = (case pk_sni p of None \<Rightarrow> c_sni c | Some n \<Rightarrow> Some n)"
  by (auto simp: record_ops split: UdpMatch.split option.split)

lemma packet_outgoing_cong: "s_local_ips s = s_local_ips s' \<Longrightarrow> packet_outgoing p s = packet_outgoing p s'"
  by (simp add: packet_outgoing_def)

lemma packet_key_cong: "s_local_ips s = s_local_ips s' \<Longrightarrow> packet_key p s = packet_key p s'"
  unfolding packet_key_def by (simp add: packet_outgoing_def)

text \<open>\<^verbatim>\<open>apply_packet\<close> without the names: the record of the packet's key, in a store with the same records.\<close>

lemma apply_packet_entry:
  assumes "apply_packet clk p s = (k, s')"
  obtains s1 where "k = packet_key p s"
    and "s' = entry (clk (length (pk_dns_addrs p))) k (\<not> hm_has (s_conns s) k)
       (apply_packet_conn (clk (length (pk_dns_addrs p) + 1)) (packet_outgoing p s) (udp_owner s k) p) s1"
    and "s_conns s1 = s_conns s" and "s_packets_seen s1 = s_packets_seen s + 1"
    and "\<And>k. udp_owner s1 k = udp_owner s k"
proof
  let ?t = "remember_all clk 0 (pk_dns_addrs p) (s\<lparr>s_packets_seen := s_packets_seen s + 1\<rparr>)"
  have key: "packet_key p ?t = packet_key p s" by (rule packet_key_cong) simp
  have out: "packet_outgoing p ?t = packet_outgoing p s" by (rule packet_outgoing_cong) simp
  show owner: "udp_owner ?t k = udp_owner s k" for k by (rule udp_owner_cong) simp_all
  show k: "k = packet_key p s" using assms by (auto simp: apply_packet_def Let_def key)
  show "s' = entry (clk (length (pk_dns_addrs p))) k (\<not> hm_has (s_conns s) k)
       (apply_packet_conn (clk (length (pk_dns_addrs p) + 1)) (packet_outgoing p s) (udp_owner s k) p) ?t"
    using assms unfolding k by (simp add: apply_packet_def Let_def key out owner del: udp_owner_remember)
  show "s_conns ?t = s_conns s" and "s_packets_seen ?t = s_packets_seen s + 1" by simp_all
qed

text \<open>
  Packet accounting. A packet changes exactly one record, the one of its key: the counters of
  its one direction grow by its bytes and by one, the other direction and the first sighting stay,
  and an SNI it carries becomes the record's. Every other record that remains is as it was, and
  none is lost unless the table was full.
\<close>

theorem packet_accounting:
  assumes "store_wf s" and "apply_packet clk p s = (k, s')"
  shows "k = packet_key p s \<and> s_packets_seen s' = s_packets_seen s + 1 \<and>
    (\<exists>c0 c. c0 = (case hm_get (s_conns s) k of None \<Rightarrow> new_conn (clk (length (pk_dns_addrs p))) k True | Some c0 \<Rightarrow> c0)
       \<and> hm_get (s_conns s') k = Some c
       \<and> c_tx_bytes c = c_tx_bytes c0 + (if packet_outgoing p s then ucast (pk_bytes p) else 0)
       \<and> c_rx_bytes c = c_rx_bytes c0 + (if packet_outgoing p s then 0 else ucast (pk_bytes p))
       \<and> c_tx_pkts c = c_tx_pkts c0 + (if packet_outgoing p s then 1 else 0)
       \<and> c_rx_pkts c = c_rx_pkts c0 + (if packet_outgoing p s then 0 else 1)
       \<and> c_first_seen c = c_first_seen c0
       \<and> c_sni c = (case pk_sni p of None \<Rightarrow> c_sni c0 | Some n \<Rightarrow> Some n)) \<and>
    (\<forall>k' c'. k' \<noteq> k \<longrightarrow> hm_get (s_conns s') k' = Some c' \<longrightarrow> hm_get (s_conns s) k' = Some c') \<and>
    (hm_has (s_conns s) k \<or> length (s_conns s) < MAX_CONNS \<longrightarrow>
       (\<forall>k'. k' \<noteq> k \<longrightarrow> hm_get (s_conns s') k' = hm_get (s_conns s) k'))"
proof -
  let ?k = "packet_key p s" and ?n = "length (pk_dns_addrs p)"
  let ?f = "apply_packet_conn (clk (?n + 1)) (packet_outgoing p s) (udp_owner s ?k) p"
  obtain s1 where k: "k = ?k" and s': "s' = entry (clk ?n) k (\<not> hm_has (s_conns s) k) ?f s1"
    and s1: "s_conns s1 = s_conns s" "s_packets_seen s1 = s_packets_seen s + 1"
    using apply_packet_entry [OF assms(2)] by metis
  have wf: "store_wf s1" using assms(1) s1(1) by (simp add: store_wf_def)
  let ?c0 = "case hm_get (s_conns s) k of None \<Rightarrow> new_conn (clk ?n) k True | Some c0 \<Rightarrow> c0"
  have "hm_get (s_conns s') k = Some (?f ?c0)"
    using entry_lookup [OF wf] by (auto simp: s' s1 hm_has_get split: option.split)
  then have rec: "\<exists>c0 c. c0 = ?c0 \<and> hm_get (s_conns s') k = Some c
       \<and> c_tx_bytes c = c_tx_bytes c0 + (if packet_outgoing p s then ucast (pk_bytes p) else 0)
       \<and> c_rx_bytes c = c_rx_bytes c0 + (if packet_outgoing p s then 0 else ucast (pk_bytes p))
       \<and> c_tx_pkts c = c_tx_pkts c0 + (if packet_outgoing p s then 1 else 0)
       \<and> c_rx_pkts c = c_rx_pkts c0 + (if packet_outgoing p s then 0 else 1)
       \<and> c_first_seen c = c_first_seen c0
       \<and> c_sni c = (case pk_sni p of None \<Rightarrow> c_sni c0 | Some n \<Rightarrow> Some n)"
    unfolding packet_conn_counters by (intro exI [of _ ?c0] exI [of _ "?f ?c0"]) (simp add: packet_conn_counters)
  have others: "hm_get (s_conns s) k' = Some c'" if "k' \<noteq> k" "hm_get (s_conns s') k' = Some c'" for k' c'
    using entry_get [OF wf that(2) [unfolded s']] that(1) by (simp add: s1)
  have kept: "hm_get (s_conns s') k' = hm_get (s_conns s) k'"
    if "hm_has (s_conns s) k \<or> length (s_conns s) < MAX_CONNS" "k' \<noteq> k" for k'
  proof -
    have "conn_room k (s_conns s) = s_conns s" using that(1) by (auto simp: conn_room_def evict_small)
    then show ?thesis using that(2) by (simp add: s' entry_def hm_get_entry s1)
  qed
  have seen: "s_packets_seen s' = s_packets_seen s + 1" by (simp add: s' s1)
  show ?thesis
    by (intro conjI allI impI) (rule k, rule seen, rule rec, erule (1) others, erule (1) kept)
qed

theorem packet_accounting_witness:
  "\<exists>c. hm_get (s_conns (snd (apply_packet (\<lambda>_. 1) (tcp_packet 0) (store_default 0)))) (packet_key (tcp_packet 0) (store_default 0)) = Some c
     \<and> c_tx_pkts c = 1 \<and> c_tx_bytes c = 60 \<and> c_rx_pkts c = 0"
proof -
  have "fst (apply_packet (\<lambda>_. 1) (tcp_packet 0) (store_default 0)) = packet_key (tcp_packet 0) (store_default 0)"
    and "packet_outgoing (tcp_packet 0) (store_default 0)"
    using packet_accounting [OF store_default_wf surjective_pairing, of "\<lambda>_. 1" "tcp_packet 0" 0]
    by (simp_all add: packet_outgoing_def store_default_def)
  then show ?thesis
    using packet_accounting [OF store_default_wf surjective_pairing, of "\<lambda>_. 1" "tcp_packet 0" 0]
    by (auto simp: store_default_def new_conn_def tcp_packet_def)
qed

text \<open>
  C11. UDP attribution of a packet. When the record of a UDP packet names a process, exactly one
  socket covers its key, on an address of this host and not disputed; the record was made for that
  very socket (its generation) and no earlier than the socket could have existed; and the process
  is the one found for the socket, unless the table no longer shows one for it.
\<close>

theorem udp_packet_owner:
  assumes "reachable s" and "pk_proto p = Udp" and "apply_packet clk p s = (k, s')"
    and "hm_get (s_conns s') k = Some c" and "c_pid c = Some pid"
  shows "\<exists>sk. sole_owner s' k sk \<and> c_udp_generation c = Some (us_generation sk) \<and> us_since sk \<le> c_first_seen c
     \<and> (se_pid (us_entry sk) = Some pid \<or> se_pid (us_entry sk) = None)"
proof -
  let ?n = "length (pk_dns_addrs p)"
  let ?f = "apply_packet_conn (clk (?n + 1)) (packet_outgoing p s) (udp_owner s k) p"
  obtain s1 where k: "k = packet_key p s" and s': "s' = entry (clk ?n) k (\<not> hm_has (s_conns s) k) ?f s1"
    and s1: "s_conns s1 = s_conns s" and same: "udp_owner s1 k = udp_owner s k"
    using apply_packet_entry [OF assms(3)] by metis
  have wf: "store_wf s1" using reachable_wf [OF assms(1)] s1 by (simp add: store_wf_def)
  let ?c = "case hm_get (s_conns s) k of None \<Rightarrow> new_conn (clk ?n) k (\<not> hm_has (s_conns s) k) | Some c0 \<Rightarrow> c0"
  have c: "c = ?f ?c" using entry_lookup [OF wf] assms(4) by (simp add: s' s1)
  have "k_proto k = Udp" using assms(2) by (simp add: k packet_key_def)
  then have "c_pid ?c \<noteq> None \<longrightarrow> c_udp_generation ?c \<noteq> None \<and> \<not> c_owner_ambiguous ?c"
    using udp_record.reachable_record [OF assms(1), of k] by (auto simp: udp_proved_def new_conn_def split: option.split)
  then have "owned_by (udp_owner s k) c" unfolding c by (rule packet_conn_owned [OF assms(2)])
  moreover have "udp_owner s' k = udp_owner s k" by (simp add: s' same)
  ultimately show ?thesis using owned_sole [of s' k] assms(5) by simp
qed

section \<open>Snapshots of the socket table\<close>

text \<open>The records of the keys seen so far agree with the rows that named them.\<close>

definition row_open :: "SockEntry list \<Rightarrow> ConnKey \<Rightarrow> bool" where
  "row_open socks k \<longleftrightarrow> (\<exists>row \<in> set socks. sock_key row = k \<and> \<not> is_terminal (se_state row))"

definition snapshot_ok :: "Store \<Rightarrow> SockEntry list \<Rightarrow> ConnKey list \<times> Store \<Rightarrow> bool" where
  "snapshot_ok s0 socks as \<longleftrightarrow>
     store_wf (snd as) \<and> (\<forall>k. udp_owner (snd as) k = udp_owner s0 k) \<and> s_udp_sockets (snd as) = s_udp_sockets s0 \<and>
     (\<forall>k c. hm_get (s_conns (snd as)) k = Some c \<longrightarrow> udp_proved k c \<and>
       (k \<in> set (fst as) \<longrightarrow> (k_proto k = Udp \<longrightarrow> owned_by (udp_owner s0 k) c)
          \<and> (\<not> c_closed c \<longrightarrow> row_open socks k)))"

lemma udp_proved_new: "udp_proved k (new_conn t k b)"
  by (simp add: udp_proved_def new_conn_def)

lemma socket_conn_owned:
  assumes "udp_proved (sock_key row) c" and "se_proto row = Udp"
  shows "owned_by owner (apply_socket_conn t procs owner row c)"
  unfolding apply_socket_conn_def Let_def using assms
  by (auto intro!: attribute_udp_owned simp: udp_proved_def sock_key_def)

lemma attribute_udp_keeps [simp]:
  "c_closed (attribute_udp owner procs c) = c_closed c" "c_first_seen (attribute_udp owner procs c) = c_first_seen c"
  "c_state (attribute_udp owner procs c) = c_state c" "c_last_seen (attribute_udp owner procs c) = c_last_seen c"
  "c_tx_bytes (attribute_udp owner procs c) = c_tx_bytes c" "c_rx_bytes (attribute_udp owner procs c) = c_rx_bytes c"
  "c_tx_pkts (attribute_udp owner procs c) = c_tx_pkts c" "c_rx_pkts (attribute_udp owner procs c) = c_rx_pkts c"
  "c_sni (attribute_udp owner procs c) = c_sni c" "c_domain (attribute_udp owner procs c) = c_domain c"
  by (auto simp: attribute_udp_def disown_def Let_def split: UdpMatch.split option.split)

lemma socket_conn_closed: "c_closed (apply_socket_conn t procs owner row c) = is_terminal (se_state row)"
  by (simp add: apply_socket_conn_def Let_def)

lemma apply_socket_ok:
  assumes "snapshot_ok s0 socks as" and "row \<in> set socks"
  shows "snapshot_ok s0 socks (apply_socket t t' procs row as)"
proof (cases "se_rport row = 0 \<or> (se_state row = ''TIME_WAIT'' \<and> \<not> hm_has (s_conns (snd as)) (sock_key row))")
  case True
  then have "apply_socket t t' procs row as = as" by (auto simp: apply_socket_def Let_def)
  then show ?thesis using assms(1) by simp
next
  case False
  let ?k = "sock_key row" and ?st = "snd as"
  let ?f = "apply_socket_conn t procs (udp_owner ?st ?k) row"
  have eq: "apply_socket t t' procs row as = (hs_add ?k (fst as), entry t' ?k False ?f ?st)"
    using False by (auto simp: apply_socket_def Let_def)
  have wf: "store_wf ?st" and owner: "\<And>k. udp_owner ?st k = udp_owner s0 k"
    and sockets: "s_udp_sockets ?st = s_udp_sockets s0" using assms(1) by (auto simp: snapshot_ok_def)
  have "udp_proved k c \<and> (k \<in> set (hs_add ?k (fst as)) \<longrightarrow>
      (k_proto k = Udp \<longrightarrow> owned_by (udp_owner s0 k) c) \<and> (\<not> c_closed c \<longrightarrow> row_open socks k))"
    if got: "hm_get (s_conns (entry t' ?k False ?f ?st)) k = Some c" for k c
  proof (cases "k = ?k")
    case True
    obtain c0 where c0: "c = ?f c0" "udp_proved ?k c0"
      using entry_get [OF wf got] True assms(1) udp_proved_new [of ?k t' False]
      by (auto simp: snapshot_ok_def split: option.splits)
    moreover have "k_proto ?k = Udp \<longrightarrow> owned_by (udp_owner s0 ?k) c"
      using socket_conn_owned [OF c0(2)] c0(1) owner by (simp add: sock_key_def)
    moreover have "udp_proved ?k c" using udp_record.socket_step [OF refl c0(2)] c0(1) by simp
    moreover have "\<not> c_closed c \<longrightarrow> row_open socks ?k"
      using c0(1) assms(2) by (auto simp: socket_conn_closed row_open_def)
    ultimately show ?thesis using True by simp
  next
    case False
    then show ?thesis using entry_get [OF wf got] assms(1) by (simp add: snapshot_ok_def)
  qed
  then show ?thesis
    unfolding snapshot_ok_def eq fst_conv snd_conv by (simp add: entry_wf wf owner sockets)
qed

lemma apply_socket_list_ok:
  "snapshot_ok s0 socks as \<Longrightarrow> set rows \<subseteq> set socks \<Longrightarrow> snapshot_ok s0 socks (apply_socket_list clk i procs rows as)"
  by (induction clk i procs rows as rule: apply_socket_list.induct) (simp_all add: apply_socket_ok)

text \<open>Every socket of the refreshed table is a row of the snapshot.\<close>

definition rows_only :: "SockEntry list \<Rightarrow> (u16, UdpSocket list) hmap \<Rightarrow> bool" where
  "rows_only socks m \<longleftrightarrow> (\<forall>port entries sk. hm_get m port = Some entries \<longrightarrow> sk \<in> set entries \<longrightarrow>
     (\<exists>row \<in> set socks. se_proto row = Udp \<and> sock_key row = sock_key (us_entry sk)))"

lemma rows_only_add:
  assumes "rows_only socks m" and "row \<in> set socks" and "se_proto row = Udp" and "sock_key (us_entry sk) = sock_key row"
  shows "rows_only socks (hm_entry port [] (\<lambda>v. v @ [sk]) m)"
  unfolding rows_only_def
proof (intro allI impI)
  fix p entries sk'
  assume "hm_get (hm_entry port [] (\<lambda>v. v @ [sk]) m) p = Some entries" and "sk' \<in> set entries"
  then have "sk' = sk \<or> (\<exists>old. hm_get m p = Some old \<and> sk' \<in> set old)"
    by (auto simp: hm_get_entry split: option.splits if_splits)
  then show "\<exists>row \<in> set socks. se_proto row = Udp \<and> sock_key row = sock_key (us_entry sk')"
    using assms by (fastforce simp: rows_only_def)
qed

lemma refresh_one_rows:
  assumes "rows_only socks (s_udp_sockets (snd ps))" and "row \<in> set socks" and "se_proto row = Udp"
  shows "rows_only socks (s_udp_sockets (snd (refresh_one procs row ps)))"
  using rows_only_add [OF assms]
  by (simp add: refresh_one_def Let_def refreshed_socket_def sock_key_def split: option.split)

lemma refresh_rows: "rows_only socks (s_udp_sockets (refresh_udp_sockets socks procs t s))"
proof -
  have "rows_only socks (s_udp_sockets (snd (fold (refresh_one procs) rows ps)))"
    if "set rows \<subseteq> {s \<in> set socks. se_proto s = Udp}" "rows_only socks (s_udp_sockets (snd ps))" for rows ps
    using that by (induction rows arbitrary: ps) (simp_all add: refresh_one_rows)
  from this [of "filter (\<lambda>s. se_proto s = Udp) socks" "(s_udp_sockets s, s\<lparr>s_udp_sockets := []\<rparr>)"] show ?thesis
    by (auto simp: refresh_udp_sockets_def Let_def rows_only_def)
qed

text \<open>What the second pass leaves open.\<close>

lemma sweep_open:
  assumes "udp_proved k c" and "\<not> c_closed (sweep_conn t procs alive owner k c)"
  shows "k \<in> set alive \<and> sweep_conn t procs alive owner k c = c
    \<or> k_proto k = Udp \<and> owned_by owner (sweep_conn t procs alive owner k c) \<and> (\<exists>u. owner = Unique u)
    \<or> k_proto k = Tcp \<and> sweep_conn t procs alive owner k c = c \<and> c_state c = ''NEW''
       \<and> sat_sub64 t (c_last_seen c) \<le> PACKET_ONLY_IDLE_MS"
proof (cases "k_proto k")
  case Tcp
  then show ?thesis using assms(2) by (auto simp: sweep_conn_def close_conn_def Let_def split: if_splits)
next
  case Udp
  show ?thesis
  proof (cases "k \<in> set alive")
    case True
    then show ?thesis by (simp add: sweep_conn_def)
  next
    case False
    then obtain u where u: "owner = Unique u" and eq: "sweep_conn t procs alive owner k c
        = (attribute_udp owner (Some procs) c)\<lparr>c_state := ''ACTIVE''\<rparr>"
      using assms(2) Udp
      by (auto simp: sweep_conn_def close_conn_def Let_def split: if_splits UdpMatch.splits)
    have "owned_by owner (attribute_udp owner (Some procs) c)"
      using assms(1) Udp by (intro attribute_udp_owned) (simp add: udp_proved_def)
    then have "owned_by owner (sweep_conn t procs alive owner k c)"
      unfolding eq by (simp add: owned_by_def)
    then show ?thesis using Udp u by blast
  qed
qed

text \<open>\<^verbatim>\<open>apply_sockets\<close> in two passes.\<close>

lemma apply_sockets_passes:
  assumes "store_wf s" and "store_all udp_proved s"
  obtains alive st where
    "apply_sockets clk socks procs s
       = st\<lparr>s_conns := hm_map (\<lambda>k c. sweep_conn (clk 0) procs alive (udp_owner st k) k c) (s_conns st)\<rparr>"
    and "snapshot_ok st socks (alive, st)" and "rows_only socks (s_udp_sockets st)"
proof -
  let ?ips = "fold (\<lambda>s acc. if \<not> is_unspecified (se_local s) \<and> \<not> is_multicast (se_local s) then hs_add (se_local s) acc else acc)
                  socks (s_local_ips s)"
  let ?s1 = "refresh_udp_sockets socks procs (clk 0) (s\<lparr>s_local_ips := ?ips\<rparr>)"
  let ?as = "apply_socket_list clk 1 procs socks ([], ?s1)"
  have "store_wf ?s1" using assms(1) by (simp add: store_wf_def)
  moreover have "store_all udp_proved ?s1" using assms(2) by (simp add: store_all_def)
  ultimately have "snapshot_ok ?s1 socks ([], ?s1)"
    using store_all_get [of ?s1 udp_proved] by (simp add: snapshot_ok_def)
  then have ok: "snapshot_ok ?s1 socks ?as" by (rule apply_socket_list_ok) simp
  then have same: "udp_owner (snd ?as) = udp_owner ?s1" and sockets: "s_udp_sockets (snd ?as) = s_udp_sockets ?s1"
    by (simp_all add: snapshot_ok_def fun_eq_iff)
  show ?thesis
  proof (rule that)
    show "apply_sockets clk socks procs s = (snd ?as)\<lparr>s_conns :=
       hm_map (\<lambda>k c. sweep_conn (clk 0) procs (fst ?as) (udp_owner (snd ?as) k) k c) (s_conns (snd ?as))\<rparr>"
      by (simp add: apply_sockets_def Let_def)
    show "snapshot_ok (snd ?as) socks (fst ?as, snd ?as)"
      using ok by (simp add: snapshot_ok_def same sockets)
    show "rows_only socks (s_udp_sockets (snd ?as))"
      unfolding sockets by (rule refresh_rows)
  qed
qed

text \<open>
  UDP attribution of a snapshot. After every poll, an open UDP record that names a process is
  covered by exactly one socket of the table, that socket is a UDP row of the snapshot just taken,
  the record belongs to its generation and is not older than it, and the process is the socket's,
  unless the partial snapshot shows none.
\<close>

theorem udp_snapshot_owner:
  assumes "reachable s" and "hm_get (s_conns (apply_sockets clk socks procs s)) k = Some c"
    and "k_proto k = Udp" and "\<not> c_closed c" and "c_pid c = Some pid"
  shows "\<exists>sk row. sole_owner (apply_sockets clk socks procs s) k sk \<and> row \<in> set socks \<and> se_proto row = Udp
     \<and> sock_key row = sock_key (us_entry sk) \<and> c_udp_generation c = Some (us_generation sk)
     \<and> us_since sk \<le> c_first_seen c \<and> (se_pid (us_entry sk) = Some pid \<or> se_pid (us_entry sk) = None)"
proof -
  obtain alive st where eq: "apply_sockets clk socks procs s
       = st\<lparr>s_conns := hm_map (\<lambda>k c. sweep_conn (clk 0) procs alive (udp_owner st k) k c) (s_conns st)\<rparr>"
    and ok: "snapshot_ok st socks (alive, st)" and rows: "rows_only socks (s_udp_sockets st)"
    by (rule apply_sockets_passes [OF reachable_wf [OF assms(1)] udp_record.reachable_keeps [OF assms(1)]])
  obtain c0 where c0: "hm_get (s_conns st) k = Some c0" and c: "c = sweep_conn (clk 0) procs alive (udp_owner st k) k c0"
    using assms(2) by (auto simp: eq hm_get_map)
  have proved: "udp_proved k c0" and seen: "k \<in> set alive \<Longrightarrow> owned_by (udp_owner st k) c0"
    using ok c0 assms(3) by (auto simp: snapshot_ok_def)
  have "owned_by (udp_owner st k) c"
    using sweep_open [OF proved, of "clk 0" procs alive "udp_owner st k"] seen assms(3,4) by (auto simp: c)
  then obtain sk where sk: "sole_owner st k sk" "c_udp_generation c = Some (us_generation sk)" "us_since sk \<le> c_first_seen c"
      "se_pid (us_entry sk) = Some pid \<or> se_pid (us_entry sk) = None"
    using owned_sole assms(5) by blast
  have "\<exists>entries. hm_get (s_udp_sockets st) (k_lport k) = Some entries \<and> sk \<in> set entries"
    using sk(1) by (auto simp: sole_owner_def filter_eq_Cons_iff)
  then obtain row where "row \<in> set socks" "se_proto row = Udp" "sock_key row = sock_key (us_entry sk)"
    using rows unfolding rows_only_def by blast
  moreover have "sole_owner (apply_sockets clk socks procs s) k sk"
    using sk(1) by (simp add: eq sole_owner_def)
  ultimately show ?thesis using sk(2-4) by blast
qed

text \<open>
  A snapshot closes what it does not show. After a poll a record is open only if a row of the
  snapshot named its key in a state that is not terminal, or it is UDP traffic covered by exactly
  one socket, or it is a TCP connection known from packets alone that was silent for no longer than
  \<^verbatim>\<open>PACKET_ONLY_IDLE_MS\<close>.
\<close>

theorem snapshot_closes:
  assumes "reachable s" and "hm_get (s_conns (apply_sockets clk socks procs s)) k = Some c" and "\<not> c_closed c"
  shows "row_open socks k \<or> (k_proto k = Udp \<and> (\<exists>sk. sole_owner (apply_sockets clk socks procs s) k sk))
    \<or> (k_proto k = Tcp \<and> c_state c = ''NEW'' \<and> sat_sub64 (clk 0) (c_last_seen c) \<le> PACKET_ONLY_IDLE_MS)"
proof -
  obtain alive st where eq: "apply_sockets clk socks procs s
       = st\<lparr>s_conns := hm_map (\<lambda>k c. sweep_conn (clk 0) procs alive (udp_owner st k) k c) (s_conns st)\<rparr>"
    and ok: "snapshot_ok st socks (alive, st)" and "rows_only socks (s_udp_sockets st)"
    by (rule apply_sockets_passes [OF reachable_wf [OF assms(1)] udp_record.reachable_keeps [OF assms(1)]])
  obtain c0 where c0: "hm_get (s_conns st) k = Some c0" and c: "c = sweep_conn (clk 0) procs alive (udp_owner st k) k c0"
    using assms(2) by (auto simp: eq hm_get_map)
  have proved: "udp_proved k c0" and seen: "k \<in> set alive \<Longrightarrow> \<not> c_closed c0 \<Longrightarrow> row_open socks k"
    using ok c0 by (auto simp: snapshot_ok_def)
  have "sole_owner (apply_sockets clk socks procs s) k sk" if "sole_owner st k sk" for sk
    using that by (simp add: eq sole_owner_def)
  then show ?thesis
    using sweep_open [OF proved, of "clk 0" procs alive "udp_owner st k"] seen assms(3)
    by (auto simp: c udp_owner_Unique)
qed

section \<open>Nothing is forgotten below the limit\<close>

text \<open>What an operation keeps of a record: its first sighting, its counters and a disputed owner.\<close>

definition descends :: "Conn \<Rightarrow> Conn \<Rightarrow> bool" where
  "descends c c' \<longleftrightarrow> c_first_seen c' = c_first_seen c \<and> c_tx_bytes c' = c_tx_bytes c \<and> c_rx_bytes c' = c_rx_bytes c
     \<and> c_tx_pkts c' = c_tx_pkts c \<and> c_rx_pkts c' = c_rx_pkts c \<and> c_ptr c' = c_ptr c \<and> c_asn c' = c_asn c
     \<and> (c_owner_ambiguous c \<longrightarrow> c_owner_ambiguous c')
     \<and> (\<not> c_owner_ambiguous c' \<longrightarrow> c_sni c' = c_sni c \<and> c_domain c' = c_domain c)"

lemma descends_refl: "descends c c"
  by (simp add: descends_def)

lemma descends_trans: "descends a b \<Longrightarrow> descends b c \<Longrightarrow> descends a c"
  by (auto simp: descends_def)

lemma socket_conn_descends: "descends c (apply_socket_conn t procs owner row c)"
  by (auto simp: descends_def record_ops split: UdpMatch.split option.split)

lemma sweep_conn_descends: "descends c (sweep_conn t procs alive owner k c)"
  by (auto simp: descends_def record_ops split: UdpMatch.split option.split)

lemma apply_socket_kept:
  assumes "length (s_conns (snd as)) < MAX_CONNS" and "hm_get (s_conns (snd as)) k = Some c"
  shows "\<exists>c'. hm_get (s_conns (snd (apply_socket t t' procs row as))) k = Some c' \<and> descends c c'"
proof -
  have "conn_room k' (s_conns (snd as)) = s_conns (snd as)" for k'
    using assms(1) by (simp add: conn_room_def evict_small)
  then show ?thesis
    using assms(2) by (auto simp: apply_socket_def Let_def entry_def hm_get_entry descends_refl socket_conn_descends)
qed

lemma apply_socket_length:
  assumes "length (s_conns (snd as)) < MAX_CONNS"
  shows "length (s_conns (snd (apply_socket t t' procs row as))) \<le> Suc (length (s_conns (snd as)))"
proof -
  have "conn_room k' (s_conns (snd as)) = s_conns (snd as)" for k'
    using assms(1) by (simp add: conn_room_def evict_small)
  then show ?thesis by (simp add: apply_socket_def Let_def entry_def length_hm_entry)
qed

lemma apply_socket_list_kept:
  "length (s_conns (snd as)) + length rows \<le> MAX_CONNS \<Longrightarrow> hm_get (s_conns (snd as)) k = Some c \<Longrightarrow>
   \<exists>c'. hm_get (s_conns (snd (apply_socket_list clk i procs rows as))) k = Some c' \<and> descends c c'"
proof (induction clk i procs rows as arbitrary: c rule: apply_socket_list.induct)
  case (1 clk i procs as)
  then show ?case by (simp add: descends_refl)
next
  case (2 clk i procs row rows as)
  then have small: "length (s_conns (snd as)) < MAX_CONNS" by simp
  obtain c1 where c1: "hm_get (s_conns (snd (apply_socket (clk 0) (clk i) procs row as))) k = Some c1" "descends c c1"
    using apply_socket_kept [OF small 2(3)] by blast
  have "length (s_conns (snd (apply_socket (clk 0) (clk i) procs row as))) + length rows \<le> MAX_CONNS"
    using apply_socket_length [OF small, of "clk 0" "clk i" procs row] 2(2) by simp
  from 2(1) [OF this c1(1)] c1(2) show ?case by (auto intro: descends_trans)
qed

text \<open>
  A poll forgets nothing below the limit. While the history has room for the rows of the
  snapshot, every record survives it with its first sighting, its counters, PTR name and network;
  a disputed owner stays disputed; and the names SNI and DNS gave it change only when its owner is
  withdrawn.
\<close>

theorem snapshot_keeps_history:
  assumes "length (s_conns s) + length socks \<le> MAX_CONNS" and "hm_get (s_conns s) k = Some c"
  shows "\<exists>c'. hm_get (s_conns (apply_sockets clk socks procs s)) k = Some c' \<and> descends c c'"
proof -
  let ?ips = "fold (\<lambda>s acc. if \<not> is_unspecified (se_local s) \<and> \<not> is_multicast (se_local s) then hs_add (se_local s) acc else acc)
                  socks (s_local_ips s)"
  let ?s1 = "refresh_udp_sockets socks procs (clk 0) (s\<lparr>s_local_ips := ?ips\<rparr>)"
  obtain c' where "hm_get (s_conns (snd (apply_socket_list clk 1 procs socks ([], ?s1)))) k = Some c'" "descends c c'"
    using apply_socket_list_kept [of "([], ?s1)" socks k c clk 1 procs] assms by auto
  then show ?thesis
    by (auto simp: apply_sockets_def Let_def hm_get_map intro: descends_trans sweep_conn_descends)
qed


section \<open>A concrete history\<close>

text \<open>A wildcard UDP socket of process 100, and a packet it sends.\<close>

definition game_row :: SockEntry where
  "game_row = \<lparr>se_proto = Udp, se_local = V4 192 0 2 10, se_lport = 40000, se_remote = V4 0 0 0 0, se_rport = 0,
     se_state = ''UNCONNECTED'', se_pid = Some 100, se_ambiguous = False, se_cookie = Some 1\<rparr>"

definition game_packet :: Packet where
  "game_packet = \<lparr>pk_proto = Udp, pk_src = V4 192 0 2 10, pk_sport = 40000, pk_dst = V4 198 51 100 20,
     pk_dport = 27015, pk_bytes = 128, pk_sni = None, pk_dns_addrs = []\<rparr>"

definition game_key :: ConnKey where
  "game_key = \<lparr>k_proto = Udp, k_local = V4 192 0 2 10, k_lport = 40000, k_remote = V4 198 51 100 20, k_rport = 27015\<rparr>"

definition game_store :: Store where
  "game_store = apply_sockets (\<lambda>_. 5) [game_row] [] (store_default 0)"

lemma game_store_eval:
  "game_store = \<lparr>s_conns = [], s_dns = [], s_local_ips = [V4 192 0 2 10], s_packets_seen = 0,
     s_udp_sockets = [(40000, [\<lparr>us_entry = game_row, us_owner_started = None, us_generation = 1, us_since = 0\<rparr>])],
     s_socket_generation = 1, s_sockets_at = 5\<rparr>"
  by (simp add: game_store_def apply_sockets_def Let_def store_default_def game_row_def refresh_udp_sockets_def
      refresh_one_def hm_entry_def hm_put_def apply_socket_def hm_map_def started_of_def hs_add_def)

lemma game_store_reachable: "reachable game_store"
  unfolding game_store_def by (rule reachable.step [OF reachable.start store_step.snapshot])

lemma game_packet_eval:
  "\<exists>c. apply_packet (\<lambda>_. 6) game_packet game_store = (game_key, game_store\<lparr>s_conns := [(game_key, c)], s_packets_seen := 1\<rparr>)
     \<and> c_pid c = Some 100 \<and> \<not> c_closed c \<and> c_first_seen c = 6 \<and> c_udp_generation c = Some 1"
  by (simp add: game_store_eval apply_packet_def Let_def game_packet_def packet_key_def packet_outgoing_def game_key_def
      udp_owner_def hm_get_def socket_covers_def game_row_def entry_def conn_room_def hm_has_def evict_small MAX_CONNS_def
      hm_entry_def hm_put_def apply_packet_conn_def attribute_udp_def new_conn_def)

definition played_store :: Store where
  "played_store = snd (apply_packet (\<lambda>_. 6) game_packet game_store)"

lemma played_store_reachable: "reachable played_store"
  unfolding played_store_def by (rule reachable.step [OF game_store_reachable store_step.packet])

lemma played_conn:
  obtains c where "played_store = game_store\<lparr>s_conns := [(game_key, c)], s_packets_seen := 1\<rparr>"
    and "apply_packet (\<lambda>_. 6) game_packet game_store = (game_key, played_store)"
    and "hm_get (s_conns played_store) game_key = Some c"
    and "c_pid c = Some 100" and "\<not> c_closed c" and "c_first_seen c = 6" and "c_udp_generation c = Some 1"
proof -
  obtain c where c: "apply_packet (\<lambda>_. 6) game_packet game_store = (game_key, game_store\<lparr>s_conns := [(game_key, c)], s_packets_seen := 1\<rparr>)"
    and facts: "c_pid c = Some 100" "\<not> c_closed c" "c_first_seen c = 6" "c_udp_generation c = Some 1"
    using game_packet_eval by blast
  then have "played_store = game_store\<lparr>s_conns := [(game_key, c)], s_packets_seen := 1\<rparr>"
    by (simp add: played_store_def)
  moreover have "hm_get (s_conns played_store) game_key = Some c"
    unfolding calculation by (simp add: hm_get_def)
  moreover have "apply_packet (\<lambda>_. 6) game_packet game_store = (game_key, played_store)"
    by (simp add: c played_store_def)
  ultimately show ?thesis using facts that by blast
qed

lemma played_lookup: "\<exists>c. hm_get (s_conns played_store) game_key = Some c \<and> c_pid c = Some 100 \<and> \<not> c_closed c \<and> c_first_seen c = 6"
  by (rule played_conn) blast

lemma played_snapshot:
  "\<exists>c. hm_get (s_conns (apply_sockets (\<lambda>_. 7) [game_row] [] played_store)) game_key = Some c \<and> \<not> c_closed c \<and> c_pid c = Some 100"
proof (rule played_conn)
  fix c
  assume c: "played_store = game_store\<lparr>s_conns := [(game_key, c)], s_packets_seen := 1\<rparr>"
    "hm_get (s_conns played_store) game_key = Some c"
    "c_pid c = Some 100" "\<not> c_closed c" "c_first_seen c = 6" "c_udp_generation c = Some 1"
  let ?u = "Unique \<lparr>uo_generation = 1, uo_since = 0, uo_pid = Some 100, uo_started = None\<rparr>"
  have ambiguous: "\<not> c_owner_ambiguous c"
    using udp_record.reachable_record [OF played_store_reachable c(2)] c(3)
    by (simp add: udp_proved_def game_key_def)
  have "s_conns (apply_sockets (\<lambda>_. 7) [game_row] [] played_store)
      = [(game_key, sweep_conn 7 [] [] ?u game_key c)]"
    unfolding c(1)
    by (simp add: game_store_eval apply_sockets_def Let_def game_row_def refresh_udp_sockets_def refresh_one_def
        hm_get_def hm_entry_def hm_put_def apply_socket_def hm_map_def started_of_def hs_add_def swap_remove_def
        same_udp_socket_def both_differ_def refreshed_socket_def opt_or_def udp_owner_def game_key_def socket_covers_def)
  then show ?thesis
    using c ambiguous by (simp add: hm_get_def sweep_conn_def game_key_def attribute_udp_def Let_def)
qed

theorem udp_packet_owner_witness:
  "\<exists>sk. sole_owner played_store game_key sk \<and> us_since sk \<le> 6"
proof -
  obtain c where c: "apply_packet (\<lambda>_. 6) game_packet game_store = (game_key, played_store)"
      "hm_get (s_conns played_store) game_key = Some c" "c_pid c = Some 100" "c_first_seen c = 6"
    by (rule played_conn)
  show ?thesis
    using udp_packet_owner [OF game_store_reachable _ c(1-3)] c(4) by (auto simp: game_packet_def)
qed

theorem udp_snapshot_owner_witness:
  "\<exists>sk. sole_owner (apply_sockets (\<lambda>_. 7) [game_row] [] played_store) game_key sk \<and> sock_key game_row = sock_key (us_entry sk)"
proof -
  obtain c where "hm_get (s_conns (apply_sockets (\<lambda>_. 7) [game_row] [] played_store)) game_key = Some c"
      "\<not> c_closed c" "c_pid c = Some 100"
    using played_snapshot by blast
  from udp_snapshot_owner [OF played_store_reachable this(1) _ this(2,3)] show ?thesis
    by (auto simp: game_key_def)
qed

theorem snapshot_closes_witness:
  "\<exists>sk. sole_owner (apply_sockets (\<lambda>_. 7) [game_row] [] played_store) game_key sk"
proof -
  obtain c where "hm_get (s_conns (apply_sockets (\<lambda>_. 7) [game_row] [] played_store)) game_key = Some c" "\<not> c_closed c"
    using played_snapshot by blast
  from snapshot_closes [OF played_store_reachable this] show ?thesis
    by (auto simp: game_key_def row_open_def game_row_def sock_key_def)
qed

theorem snapshot_keeps_history_witness:
  "\<exists>c'. hm_get (s_conns (apply_sockets (\<lambda>_. 7) [] [] played_store)) game_key = Some c' \<and> c_first_seen c' = 6"
proof -
  obtain c where c: "hm_get (s_conns played_store) game_key = Some c" "c_first_seen c = 6"
    using played_lookup by blast
  have "length (s_conns played_store) + length ([] :: SockEntry list) \<le> MAX_CONNS"
    by (rule played_conn, erule ssubst) (simp add: MAX_CONNS_def)
  from snapshot_keeps_history [OF this c(1), of "\<lambda>_. 7" "[]"] c(2) show ?thesis
    by (auto simp: descends_def)
qed


end
