(* ===== verification/Names_Facts.thy ===== *)
theory Names_Facts
  imports Store_Owners
begin

text \<open>
  Names: the bounds of the DNS map, when an address has a name, which source of a name wins, and
  what a lookup may disclose (\<^verbatim>\<open>src/src/state.rs\<close>, \<^verbatim>\<open>src/src/main.rs\<close>).
\<close>

section \<open>Trimming a map of addresses\<close>

lemma fold_hm_del: "fold hm_del ks m = filter (\<lambda>e. fst e \<notin> set ks) m"
  by (induction ks arbitrary: m) (auto simp: hm_del_def intro!: filter_cong)

lemma hm_get_fold_del: "hm_get (fold hm_del ks m) k = (if k \<in> set ks then None else hm_get m k)"
  by (induction ks arbitrary: m) (auto simp: hm_get_del)

lemma trim_wf: "hm_wf m \<Longrightarrow> hm_wf (trim_ip_map m conns limit)"
  by (simp add: trim_ip_map_def Let_def fold_hm_del hm_wf_filter)

lemma trim_length: "length (trim_ip_map m conns limit) \<le> length m"
  by (simp add: trim_ip_map_def Let_def fold_hm_del)

lemma trim_subset: "hm_get (trim_ip_map m conns limit) k = Some v \<Longrightarrow> hm_get m k = Some v"
  by (auto simp: trim_ip_map_def Let_def hm_get_fold_del split: if_splits)

lemma length_remove_keys:
  assumes "hm_wf m" and "distinct ks" and "set ks \<subseteq> fst ` set m"
  shows "length (fold hm_del ks m) = length m - length ks"
proof -
  have keys: "map fst (filter (\<lambda>e. fst e \<notin> K) xs) = filter (\<lambda>k. k \<notin> K) (map fst xs)" for K and xs :: "('a, 'b) hmap"
    by (induction xs) auto
  have "length (fold hm_del ks m) = length (filter (\<lambda>k. k \<notin> set ks) (map fst m))"
    unfolding fold_hm_del keys [symmetric] by simp
  also have "\<dots> = card (set (map fst m) - set ks)"
  proof -
    have "distinct (filter (\<lambda>k. k \<notin> set ks) (map fst m))"
      using assms(1) by (simp add: hm_wf_def)
    then show ?thesis by (simp only: distinct_card [symmetric] set_filter) (rule arg_cong [of _ _ card], auto)
  qed
  also have "\<dots> = card (set (map fst m)) - card (set ks)"
    using assms(3) by (intro card_Diff_subset) auto
  finally show ?thesis
    using assms(1,2) distinct_card [of "map fst m"] distinct_card [of ks] by (simp add: hm_wf_def)
qed

text \<open>
  Trimming keeps what is in use. \<^verbatim>\<open>trim_ip_map\<close> never drops an address of the connection
  history, adds nothing, and brings the map to nine tenths of its limit unless only addresses in
  use are left.
\<close>

theorem trim_keeps_used:
  assumes "hm_wf m"
  shows "(ip \<in> k_remote ` set (hm_keys conns) \<longrightarrow> hm_get (trim_ip_map m conns limit) ip = hm_get m ip)
    \<and> (\<forall>v. hm_get (trim_ip_map m conns limit) ip = Some v \<longrightarrow> hm_get m ip = Some v)
    \<and> (length (trim_ip_map m conns limit) \<le> limit * 9 div 10
       \<or> fst ` set (trim_ip_map m conns limit) \<subseteq> k_remote ` set (hm_keys conns))"
proof -
  let ?excess = "length m - limit * 9 div 10"
  let ?unused = "filter (\<lambda>ip. ip \<notin> set (map k_remote (hm_keys conns))) (hm_keys m)"
  have bound: "length (trim_ip_map m conns limit) \<le> limit * 9 div 10
       \<or> fst ` set (trim_ip_map m conns limit) \<subseteq> k_remote ` set (hm_keys conns)"
  proof (cases "?excess = 0")
    case True
    then show ?thesis by (simp add: trim_ip_map_def Let_def)
  next
    case False
    then have trim: "trim_ip_map m conns limit = fold hm_del (take ?excess ?unused) m"
      by (simp add: trim_ip_map_def Let_def)
    show ?thesis
    proof (cases "?excess \<le> length ?unused")
      case True
      have "distinct (take ?excess ?unused)"
        using assms by (simp add: hm_wf_def hm_keys_def)
      moreover have "set (take ?excess ?unused) \<subseteq> fst ` set m"
        by (auto dest!: in_set_takeD simp: hm_keys_def)
      ultimately have "length (fold hm_del (take ?excess ?unused) m) = length m - length (take ?excess ?unused)"
        by (rule length_remove_keys [OF assms])
      moreover have "length (take ?excess ?unused) = ?excess" using True by simp
      ultimately show ?thesis unfolding trim by linarith
    next
      case False
      then have all: "take ?excess ?unused = ?unused" by simp
      have "fst ` set (fold hm_del ?unused m) \<subseteq> k_remote ` set (hm_keys conns)"
        unfolding fold_hm_del by (auto simp: hm_keys_def)
      then show ?thesis unfolding trim all ..
    qed
  qed
  have used: "hm_get (trim_ip_map m conns limit) ip = hm_get m ip" if "ip \<in> k_remote ` set (hm_keys conns)"
    using that by (auto simp: trim_ip_map_def Let_def hm_get_fold_del dest!: in_set_takeD)
  have subset: "\<forall>v. hm_get (trim_ip_map m conns limit) ip = Some v \<longrightarrow> hm_get m ip = Some v"
    by (intro allI impI) (rule trim_subset)
  show ?thesis by (rule conjI [OF impI [OF used] conjI [OF subset bound]])
qed

theorem trim_keeps_used_witness:
  "hm_get (trim_ip_map [(V4 192 0 2 1, ()), (V4 192 0 2 2, ())] [(game_key\<lparr>k_remote := V4 192 0 2 1\<rparr>, new_conn 0 game_key True)] 1)
     (V4 192 0 2 1) = Some ()"
  using trim_keeps_used [of "[(V4 192 0 2 1, ()), (V4 192 0 2 2, ())]" "V4 192 0 2 1"
      "[(game_key\<lparr>k_remote := V4 192 0 2 1\<rparr>, new_conn 0 game_key True)]" 1]
  by (simp add: hm_wf_def hm_keys_def hm_get_def)

section \<open>The map of names\<close>

definition entry_ok :: "DnsEntry \<Rightarrow> bool" where
  "entry_ok e \<longleftrightarrow> length (de_names e) \<le> 8 \<and> (\<forall>n \<in> set (de_names e). 0 < length (dn_name n) \<and> length (dn_name n) \<le> 253)"

definition dns_ok :: "(IpAddr, DnsEntry) hmap \<Rightarrow> bool" where
  "dns_ok m \<longleftrightarrow> hm_wf m \<and> length m \<le> MAX_NAMES \<and> (\<forall>e \<in> set m. entry_ok (snd e))"

lemma remember_entry_ok:
  assumes "entry_ok e" and "name \<noteq> []" and "length name \<le> 253"
  shows "entry_ok (remember_entry now name ttl e)"
proof -
  let ?kept = "filter (\<lambda>n. now < dn_expires n \<and> dn_name n \<noteq> name) (de_names e)"
  have "length ?kept \<le> 8"
    using assms(1) length_filter_le [of "\<lambda>n. now < dn_expires n \<and> dn_name n \<noteq> name" "de_names e"]
    unfolding entry_ok_def by linarith
  then show ?thesis using assms by (auto simp: entry_ok_def remember_entry_def Let_def)
qed

lemma dns_ok_get: "dns_ok m \<Longrightarrow> hm_get m ip = Some e \<Longrightarrow> entry_ok e"
  by (fastforce simp: dns_ok_def dest: hm_get_in_set)

lemma dns_ok_put:
  assumes "dns_ok m" and "entry_ok e" and "hm_has m ip \<or> length m < MAX_NAMES"
  shows "dns_ok (hm_put ip e m)"
proof -
  have "entry_ok (snd x)" if "x \<in> set (hm_put ip e m)" for x
    using set_hm_put [OF that] assms(1,2) by (auto simp: dns_ok_def)
  then show ?thesis using assms by (auto simp: dns_ok_def hm_wf_put length_hm_put)
qed

lemma trim_ok: "dns_ok m \<Longrightarrow> dns_ok (trim_ip_map m conns limit)"
  using trim_length [of m conns limit]
  by (auto simp: dns_ok_def trim_wf) (auto simp: trim_ip_map_def Let_def fold_hm_del split: if_splits)

lemma remember_ok: "dns_ok (s_dns s) \<Longrightarrow> dns_ok (s_dns (remember_name_for now ip name ttl s))"
proof -
  assume ok: "dns_ok (s_dns s)"
  have default: "entry_ok dns_entry_default" by (simp add: entry_ok_def dns_entry_default_def)
  have put: "dns_ok (hm_entry ip dns_entry_default (remember_entry now (to_ascii_lowercase name) ttl) m)"
    if "dns_ok m" "hm_has m ip \<or> length m < MAX_NAMES" "name \<noteq> []" "length name \<le> 253" for m
    unfolding hm_entry_def using that default
    by (intro dns_ok_put remember_entry_ok) (auto split: option.split dest: dns_ok_get)
  show ?thesis
    using put [OF ok] put [OF trim_ok [OF ok]] trim_ok [OF ok] ok
    by (auto simp: remember_name_for_def Let_def)
qed

lemma remember_all_ok: "dns_ok (s_dns s) \<Longrightarrow> dns_ok (s_dns (remember_all clk i ps s))"
  by (induction clk i ps s rule: remember_all.induct) (simp_all add: remember_ok)

lemma restore_ok: "dns_ok (s_dns s) \<Longrightarrow> dns_ok (s_dns (snd (restore_dns now ip e s)))"
  by (auto simp: restore_dns_def Let_def intro!: dns_ok_put)
    (auto simp: entry_ok_def dest: in_set_takeD)

text \<open>Operations that leave the names alone.\<close>

lemma dns_refresh_one: "s_dns (snd (refresh_one procs row ps)) = s_dns (snd ps)"
  by (simp add: refresh_one_def Let_def split: option.split)

lemma dns_refresh: "s_dns (refresh_udp_sockets socks procs t s) = s_dns s"
proof -
  have "s_dns (snd (fold (refresh_one procs) rows ps)) = s_dns (snd ps)" for rows ps
    by (induction rows arbitrary: ps) (simp_all add: dns_refresh_one)
  then show ?thesis by (simp add: refresh_udp_sockets_def Let_def)
qed

lemma dns_entry [simp]: "s_dns (entry t k b f s) = s_dns s"
  by (simp add: entry_def)

lemma dns_socket_list: "s_dns (snd (apply_socket_list clk i procs rows as)) = s_dns (snd as)"
  by (induction clk i procs rows as rule: apply_socket_list.induct) (simp_all add: apply_socket_def Let_def)

lemma dns_apply_sockets: "s_dns (apply_sockets clk socks procs s) = s_dns s"
  by (simp add: apply_sockets_def Let_def dns_socket_list dns_refresh)

lemma step_dns_ok: "store_step s s' \<Longrightarrow> dns_ok (s_dns s) \<Longrightarrow> dns_ok (s_dns s')"
proof (induction rule: store_step.induct)
  case (packet s clk p)
  then show ?case by (simp add: apply_packet_def Let_def remember_all_ok)
qed (simp_all add: dns_apply_sockets remember_ok restore_ok enrich_names_def apply_whois_def whois_done_def
    clear_history_def Let_def set_local_ips_def split: option.split)

lemma reachable_dns_ok: "reachable s \<Longrightarrow> dns_ok (s_dns s)"
proof (induction rule: reachable.induct)
  case (start now)
  show ?case by (simp add: dns_ok_def store_default_def)
qed (rule step_dns_ok)

text \<open>
  Bounds of the names. In every reachable store the map of names has at most
  \<^verbatim>\<open>MAX_NAMES\<close> addresses, each at most eight names, each name between 1 and 253 bytes.
\<close>

theorem names_bounded:
  assumes "reachable s"
  shows "length (s_dns s) \<le> MAX_NAMES \<and> (\<forall>ip e. hm_get (s_dns s) ip = Some e \<longrightarrow>
     length (de_names e) \<le> 8 \<and> (\<forall>n \<in> set (de_names e). 0 < length (dn_name n) \<and> length (dn_name n) \<le> 253))"
  using reachable_dns_ok [OF assms] dns_ok_get unfolding dns_ok_def entry_ok_def by blast

theorem names_bounded_witness:
  "length (s_dns (remember_name_for 0 (V4 192 0 2 1) ''a.example'' 60 (store_default 0))) \<le> MAX_NAMES"
  using names_bounded [OF reachable.step [OF reachable.start store_step.named]] by blast

section \<open>An address shared by two names has none\<close>

lemma two_names_none:
  assumes "n \<in> set (de_names e)" and "m \<in> set (de_names e)" and "dn_name n \<noteq> dn_name m"
    and "now < dn_expires n" and "now < dn_expires m"
  shows "dns_unique e now = None"
proof -
  have "n \<in> set (filter (\<lambda>n. now < dn_expires n) (de_names e))" "m \<in> set (filter (\<lambda>n. now < dn_expires n) (de_names e))"
    using assms by auto
  then have "filter (\<lambda>n. now < dn_expires n) (de_names e) \<noteq> [x]" for x
    using assms(3) by (metis empty_iff empty_set set_ConsD)
  then show ?thesis by (auto simp: dns_unique_def split: list.split)
qed

lemma dns_unique_Some:
  "dns_unique e now = Some name \<Longrightarrow> \<exists>n. filter (\<lambda>n. now < dn_expires n) (de_names e) = [n] \<and> dn_name n = name"
  by (auto simp: dns_unique_def split: if_splits list.splits)

text \<open>
  A shared address has no name. While an answer that gave an address one name is still valid,
  another answer with a different name and a positive lifetime takes the name away: until one of
  the two expires, \<^verbatim>\<open>DnsEntry::unique\<close> returns nothing, also when the entry already holds
  eight names.
\<close>

theorem shared_address_unnamed:
  assumes "hm_get (s_dns s) ip = Some e" and "n \<in> set (de_names e)" and "dn_name n \<noteq> to_ascii_lowercase name"
    and "now < dn_expires n" and "later < dn_expires n" and "ttl \<noteq> 0" and "name \<noteq> []" and "length name \<le> 253"
    and "later < sat_add64 now (min (ucast ttl) 86400 * 1000)"
  shows "\<exists>e'. hm_get (s_dns (remember_name_for now ip name ttl s)) ip = Some e' \<and> dns_unique e' later = None"
proof -
  let ?name = "to_ascii_lowercase name" and ?expires = "sat_add64 now (min (ucast ttl) 86400 * 1000)"
  let ?kept = "filter (\<lambda>n. now < dn_expires n \<and> dn_name n \<noteq> ?name) (de_names e)"
  have get: "hm_get (s_dns (remember_name_for now ip name ttl s)) ip = Some (remember_entry now ?name ttl e)"
    using assms(1,7,8) by (simp add: remember_name_for_def Let_def hm_get_entry hm_has_get)
  have "dns_unique (remember_entry now ?name ttl e) later = None"
  proof (cases "length ?kept < 8")
    case True
    then have names: "de_names (remember_entry now ?name ttl e) = ?kept @ [\<lparr>dn_name = ?name, dn_expires = ?expires\<rparr>]"
      using assms(6) by (simp add: remember_entry_def Let_def)
    show ?thesis
      by (rule two_names_none [of n _ "\<lparr>dn_name = ?name, dn_expires = ?expires\<rparr>"]) (use assms in \<open>simp_all add: names\<close>)
  next
    case False
    then have "?expires \<le> de_overflow_until (remember_entry now ?name ttl e)"
      using assms(6) by (simp add: remember_entry_def Let_def)
    then have "later < de_overflow_until (remember_entry now ?name ttl e)"
      using assms(9) by (rule less_le_trans [rotated])
    then show ?thesis by (simp add: dns_unique_def)
  qed
  with get show ?thesis by blast
qed

theorem shared_address_unnamed_witness:
  "\<exists>e'. hm_get (s_dns (remember_name_for 0 (V4 192 0 2 1) ''b.example'' 60
      (remember_name_for 0 (V4 192 0 2 1) ''a.example'' 60 (store_default 0)))) (V4 192 0 2 1) = Some e' \<and> dns_unique e' 1 = None"
proof -
  let ?s = "remember_name_for 0 (V4 192 0 2 1) ''a.example'' 60 (store_default 0)"
  have lower: "to_ascii_lowercase ''a.example'' = ''a.example''" "to_ascii_lowercase ''b.example'' = ''b.example''"
    by code_simp+
  have get: "hm_get (s_dns ?s) (V4 192 0 2 1) = Some \<lparr>de_names = [\<lparr>dn_name = ''a.example'', dn_expires = 60000\<rparr>], de_overflow_until = 0\<rparr>"
    by (simp add: remember_name_for_def store_default_def MAX_NAMES_def hm_entry_def hm_get_put Let_def remember_entry_def
        dns_entry_default_def sat_add64_def lower)
  show ?thesis
    by (rule shared_address_unnamed [OF get, of "\<lparr>dn_name = ''a.example'', dn_expires = 60000\<rparr>"])
      (simp_all add: lower sat_add64_def)
qed

section \<open>Which name wins\<close>

lemma enrich_conn_only_domain: "enrich_conn parse_ip ru dns now c = c\<lparr>c_domain := c_domain (enrich_conn parse_ip ru dns now c)\<rparr>"
  unfolding enrich_conn_def Let_def by (simp split: option.split)

text \<open>Where a name that was not there before comes from.\<close>

definition name_source :: "(string \<Rightarrow> IpAddr option) \<Rightarrow> bool \<Rightarrow> (IpAddr, DnsEntry) hmap \<Rightarrow> u64 \<Rightarrow> Conn \<Rightarrow> string \<Rightarrow> bool" where
  "name_source parse_ip ru dns now c d \<longleftrightarrow> c_ptr c = Some d \<or>
     (\<exists>ip. parse_ip (c_remote c) = Some ip \<and>
        ((\<exists>e. hm_get dns ip = Some e \<and> dns_unique e now = Some d)
         \<or> (\<exists>en ru_text. well_known_label ip (c_rport c) = Some (en, ru_text) \<and> d = tr ru en ru_text)))"

lemma enrich_conn_source:
  assumes "c_domain (enrich_conn parse_ip ru dns now c) \<noteq> c_domain c"
  shows "\<exists>d. c_domain (enrich_conn parse_ip ru dns now c) = Some d \<and> name_source parse_ip ru dns now c d \<and> c_sni c = None"
proof -
  let ?known = "case parse_ip (c_remote c) of None \<Rightarrow> None | Some a \<Rightarrow> well_known_label a (c_rport c)"
  let ?dns = "case parse_ip (c_remote c) of None \<Rightarrow> None
      | Some a \<Rightarrow> (case hm_get dns a of None \<Rightarrow> None | Some d \<Rightarrow> dns_unique d now)"
  have known: "name_source parse_ip ru dns now c (tr ru en ru_text)" if "?known = Some (en, ru_text)" for en ru_text
    using that by (auto simp: name_source_def split: option.splits)
  have dns: "name_source parse_ip ru dns now c d" if "?dns = Some d" for d
    using that by (auto simp: name_source_def split: option.splits)
  have ptr: "name_source parse_ip ru dns now c d" if "c_ptr c = Some d" for d
    using that by (simp add: name_source_def)
  have sni: "c_sni c = None" using assms by (cases "c_sni c") (simp_all add: enrich_conn_def)
  define known where "known = ?known"
  define dns_name where "dns_name = (if frozen_name known c then None else ?dns)"
  have eq: "enrich_conn parse_ip ru dns now c = (case dns_name of Some name \<Rightarrow> c\<lparr>c_domain := Some name\<rparr>
        | None \<Rightarrow> (case c_domain c of
               Some d \<Rightarrow> (case known of
                    Some (en, ru_text) \<Rightarrow>
                      if d = en \<or> d = ru_text then c\<lparr>c_domain := Some (tr ru en ru_text)\<rparr> else c
                  | None \<Rightarrow> c)
             | None \<Rightarrow> (case c_ptr c of
                    Some ptr \<Rightarrow> c\<lparr>c_domain := Some ptr\<rparr>
                  | None \<Rightarrow> (case known of
                         Some (en, ru_text) \<Rightarrow> c\<lparr>c_domain := Some (tr ru en ru_text)\<rparr>
                       | None \<Rightarrow> c))))"
    unfolding enrich_conn_def Let_def dns_name_def known_def by (simp add: sni)
  have "dns_name = Some d \<Longrightarrow> ?dns = Some d" for d by (simp add: dns_name_def split: if_splits)
  then show ?thesis
    using assms sni dns known ptr unfolding eq known_def [symmetric]
    by (auto split: option.splits if_splits)
qed

lemma enrich_conn_frozen:
  assumes "c_sni c = None" and "c_domain c = Some d" and "c_ptr c \<noteq> Some d"
    and "\<And>ip en ru_text. parse_ip (c_remote c) = Some ip \<Longrightarrow> well_known_label ip (c_rport c) = Some (en, ru_text) \<Longrightarrow> d \<noteq> en \<and> d \<noteq> ru_text"
  shows "enrich_conn parse_ip ru dns now c = c"
  using assms
  by (auto simp: enrich_conn_def frozen_name_def is_label_def Let_def split: option.split)

text \<open>
  C13. Priority of names. A pass over the names changes nothing of a record but its domain; a record
  with an SNI, or with a DNS name (one that is neither its PTR name nor the label of its address),
  keeps it; a name never disappears; and a new one is the PTR name, the only valid DNS name of the
  remote address, or the label of that address.
\<close>

theorem name_priority:
  assumes "hm_get (s_conns s) k = Some c"
  shows "\<exists>d. hm_get (s_conns (enrich_names parse_ip ru clk s)) k = Some (c\<lparr>c_domain := d\<rparr>)
     \<and> (c_sni c \<noteq> None \<longrightarrow> d = c_domain c)
     \<and> (\<forall>name. c_domain c = Some name \<longrightarrow> c_ptr c \<noteq> Some name \<longrightarrow>
          (\<forall>ip en ru_text. parse_ip (c_remote c) = Some ip \<longrightarrow> well_known_label ip (c_rport c) = Some (en, ru_text) \<longrightarrow>
             name \<noteq> en \<and> name \<noteq> ru_text) \<longrightarrow> d = Some name)
     \<and> (d \<noteq> c_domain c \<longrightarrow> (\<exists>name. d = Some name \<and> name_source parse_ip ru (s_dns s) (clk k) c name))"
proof -
  let ?c = "enrich_conn parse_ip ru (s_dns s) (clk k) c"
  have "hm_get (s_conns (enrich_names parse_ip ru clk s)) k = Some ?c"
    using assms by (simp add: enrich_names_def hm_get_map)
  then have get: "hm_get (s_conns (enrich_names parse_ip ru clk s)) k = Some (c\<lparr>c_domain := c_domain ?c\<rparr>)"
    by (simp only: enrich_conn_only_domain [symmetric])
  have "c_domain ?c = Some name" if "c_domain c = Some name" "c_ptr c \<noteq> Some name"
      "\<forall>ip en ru_text. parse_ip (c_remote c) = Some ip \<longrightarrow> well_known_label ip (c_rport c) = Some (en, ru_text) \<longrightarrow>
             name \<noteq> en \<and> name \<noteq> ru_text" for name
  proof (cases "c_sni c")
    case None
    then show ?thesis using enrich_conn_frozen [OF None that(1,2)] that(1,3) by simp
  next
    case (Some sni)
    then show ?thesis using that(1) by (simp add: enrich_conn_def)
  qed
  moreover have "c_sni c \<noteq> None \<longrightarrow> c_domain ?c = c_domain c" by (simp add: enrich_conn_def)
  ultimately show ?thesis
    using get enrich_conn_source [of parse_ip ru "s_dns s" "clk k" c] by blast
qed

theorem name_priority_witness:
  "\<exists>d. hm_get (s_conns (enrich_names (\<lambda>_. Some (V4 198 51 100 20)) False (\<lambda>_. 1)
      (store_default 0\<lparr>s_conns := [(game_key, new_conn 0 game_key True\<lparr>c_sni := Some ''a.example''\<rparr>)]\<rparr>))) game_key
     = Some (new_conn 0 game_key True\<lparr>c_sni := Some ''a.example'', c_domain := d\<rparr>) \<and> d = None"
proof -
  let ?c = "new_conn 0 game_key True\<lparr>c_sni := Some ''a.example''\<rparr>"
  have "hm_get (s_conns (store_default 0\<lparr>s_conns := [(game_key, ?c)]\<rparr>)) game_key = Some ?c"
    by (simp add: hm_get_def)
  from name_priority [OF this, of "\<lambda>_. Some (V4 198 51 100 20)" False "\<lambda>_. 1"] show ?thesis
    by (auto simp: new_conn_def)
qed

section \<open>What a lookup may disclose\<close>

lemma set_first_seen_only: "set (first_seen_only seen xs) = set xs - set seen"
  by (induction seen xs rule: first_seen_only.induct) auto

lemma distinct_first_seen_only: "distinct (first_seen_only seen xs)"
  by (induction seen xs rule: first_seen_only.induct) (auto simp: set_first_seen_only)

lemma hm_keys_has: "k \<in> set (hm_keys m) \<longleftrightarrow> hm_has m k"
  by (simp add: hm_keys_def hm_has_def)

lemma lookups_public_facts:
  "distinct (whois_targets s whois retry)" "\<forall>ip \<in> set (whois_targets s whois retry). retry ip"
  by (auto simp: whois_targets_def distinct_first_seen_only set_first_seen_only dest!: in_set_takeD)

text \<open>
  Only public addresses are looked up. The addresses handed to the resolver are at most eight,
  without repetition, remote addresses of the history, of class public, not yet known, and still
  allowed to be tried.
\<close>

theorem lookups_public_only:
  "length (whois_targets s whois retry) \<le> 8 \<and> distinct (whois_targets s whois retry)
   \<and> set (whois_targets s whois retry) \<subseteq>
       {ip. classify ip = ''public'' \<and> (\<exists>k. hm_has (s_conns s) k \<and> k_remote k = ip) \<and> \<not> hm_has whois ip \<and> retry ip}"
  by (auto simp: whois_targets_def WHOIS_BATCH_def distinct_first_seen_only set_first_seen_only hm_keys_has
      dest!: in_set_takeD) blast+

text \<open>Failures are counted up to the limit, and a pass tries an address at most once.\<close>

definition fails_ok :: "fail_map \<Rightarrow> bool" where
  "fails_ok fails \<longleftrightarrow> hm_wf fails \<and> (\<forall>ip e. hm_get fails ip = Some e \<longrightarrow> fst e \<le> MAX_RETRIES)"

lemma recent_fails_ok: "fails_ok fails \<Longrightarrow> fails_ok (recent_fails now fails)"
  by (auto simp: fails_ok_def recent_fails_def hm_wf_retain hm_get_retain split: option.splits if_splits)

lemma count_below: "n < MAX_RETRIES \<Longrightarrow> n + 1 \<le> MAX_RETRIES"
  by (simp add: MAX_RETRIES_def inc_le)

lemma whois_done_fails:
  assumes "fails_ok (fst g)" and "may_retry (fst g) ip"
  shows "fails_ok (fst (whois_done now ip w g))"
    and "ip' \<noteq> ip \<Longrightarrow> may_retry (fst (whois_done now ip w g)) ip' = may_retry (fst g) ip'"
proof -
  obtain fails whois s where g: "g = (fails, whois, s)" by (cases g)
  have "fails_ok (count_failure now ip fails)"
    using assms count_below [of 0]
    by (auto simp: g fails_ok_def count_failure_def hm_wf_entry hm_get_entry may_retry_def MAX_RETRIES_def
        intro: count_below [unfolded MAX_RETRIES_def] split: option.splits if_splits)
  moreover have "fails_ok (hm_del ip fails)"
    using assms(1) by (auto simp: g fails_ok_def hm_wf_del hm_get_del split: if_splits)
  ultimately show "fails_ok (fst (whois_done now ip w g))"
    by (simp add: g whois_done_def Let_def)
  show "ip' \<noteq> ip \<Longrightarrow> may_retry (fst (whois_done now ip w g)) ip' = may_retry (fst g) ip'"
    by (simp add: g whois_done_def Let_def may_retry_def count_failure_def hm_get_entry hm_get_del)
qed

text \<open>
  Lookups of an address end. Across a pass of the lookup loop no failure count exceeds
  \<^verbatim>\<open>MAX_RETRIES\<close>, so a counter never wraps, and an address that reached the limit is left alone
  until its last failure is ten minutes old.
\<close>

theorem retries_bounded:
  assumes "fails_ok fails"
  shows "fails_ok (fst (whois_pass now look (fails, whois, s)))
    \<and> (\<forall>ip at. hm_get fails ip = Some (MAX_RETRIES, at) \<longrightarrow> now - at < RETRY_AFTER \<longrightarrow>
         ip \<notin> set (whois_targets s whois (may_retry (recent_fails now fails))))"
proof -
  let ?fails = "recent_fails now fails" and ?targets = "whois_targets s whois (may_retry (recent_fails now fails))"
  let ?step = "\<lambda>ip acc. case look ip of None \<Rightarrow> acc | Some w \<Rightarrow> whois_done now ip w acc"
  have "fails_ok (fst (fold ?step ips g))"
    if "fails_ok (fst g)" "distinct ips" "\<forall>ip \<in> set ips. may_retry (fst g) ip" for ips g
    using that
  proof (induction ips arbitrary: g)
    case (Cons ip ips)
    have "fails_ok (fst (?step ip g))"
      using Cons.prems by (auto split: option.split intro: whois_done_fails)
    moreover have "\<forall>ip' \<in> set ips. may_retry (fst (?step ip g)) ip'"
    proof
      fix ip'
      assume "ip' \<in> set ips"
      then have "ip' \<noteq> ip" "may_retry (fst g) ip'" using Cons.prems by auto
      then show "may_retry (fst (?step ip g)) ip'"
        using Cons.prems by (simp split: option.split add: whois_done_fails(2))
    qed
    ultimately show ?case using Cons by simp
  qed simp
  from this [of "(?fails, whois, s)" ?targets] have "fails_ok (fst (whois_pass now look (fails, whois, s)))"
    using recent_fails_ok [OF assms] lookups_public_facts [of s whois "may_retry ?fails"]
    by (auto simp: whois_pass_def Let_def)
  moreover have "\<not> may_retry ?fails ip" if "hm_get fails ip = Some (MAX_RETRIES, at)" "now - at < RETRY_AFTER" for ip at
    using that assms by (simp add: may_retry_def recent_fails_def hm_get_retain fails_ok_def)
  ultimately show ?thesis using lookups_public_facts [of s whois "may_retry ?fails"] by blast
qed

theorem retries_bounded_witness:
  "fails_ok (fst (whois_pass 5 (\<lambda>_. None) ([(V4 8 8 8 8, (3, 0))], [], store_default 0)))"
proof -
  have "fails_ok [(V4 8 8 8 8, (3, 0))]" by (simp add: fails_ok_def hm_wf_def hm_get_def MAX_RETRIES_def)
  from retries_bounded [OF this] show ?thesis by blast
qed

end
