(* ===== verification/Numerals.thy ===== *)
theory Numerals
  imports Strings
begin

text \<open>
  Reading text: white space and words (\<^verbatim>\<open>trim\<close>, \<^verbatim>\<open>split_whitespace\<close>,
  \<^verbatim>\<open>lines\<close>) and the integer parsers of the Rust standard library
  (\<^verbatim>\<open>from_str_radix\<close>, \<^verbatim>\<open>str::parse\<close>) on the radices and types the program uses.
\<close>

section \<open>White space, words, lines\<close>

text \<open>
  The length in bytes of the white space character a text begins with, 0 when it begins with none:
  the characters of Unicode's \<^verbatim>\<open>White_Space\<close> in UTF-8.
\<close>

definition ws_len :: "string \<Rightarrow> nat" where
  "ws_len s =
     (case map char_code (take 3 s) of
        [] \<Rightarrow> 0
      | a # rest \<Rightarrow>
          if (9 \<le> a \<and> a \<le> 13) \<or> a = 32 then 1
          else if a = 0xC2 \<and> rest \<noteq> [] \<and> (hd rest = 0x85 \<or> hd rest = 0xA0) then 2
          else if (a = 0xE1 \<and> rest = [0x9A, 0x80]) \<or> (a = 0xE2 \<and> rest = [0x81, 0x9F]) \<or> (a = 0xE3 \<and> rest = [0x80, 0x80]) then 3
          else if a = 0xE2 \<and> length rest = 2 \<and> hd rest = 0x80
             \<and> (rest ! 1 \<le> 0x8A \<or> rest ! 1 = 0xA8 \<or> rest ! 1 = 0xA9 \<or> rest ! 1 = 0xAF) then 3
          else 0)"

lemma ws_len_Nil [simp]: "ws_len [] = 0"
  by (simp add: ws_len_def)

function split_words :: "string \<Rightarrow> string \<Rightarrow> string list" where
  "split_words word [] = (if word = [] then [] else [word])"
| "split_words word (c # cs) =
     (if ws_len (c # cs) = 0 then split_words (word @ [c]) cs
      else (if word = [] then [] else [word]) @ split_words [] (drop (ws_len (c # cs)) (c # cs)))"
  by pat_completeness auto
termination by (relation "measure (\<lambda>(word, s). length s)") auto

definition split_whitespace :: "string \<Rightarrow> string list" where
  "split_whitespace s = split_words [] s"

function trim_front :: "string \<Rightarrow> string" where
  "trim_front s = (if ws_len s = 0 then s else trim_front (drop (ws_len s) s))"
  by pat_completeness auto
termination
proof (relation "measure length", goal_cases)
  case (2 s)
  then have "s \<noteq> []" by auto
  then show ?case using 2 by simp
qed simp

declare trim_front.simps [simp del]

text \<open>The back of a text is trimmed from the first point after which there is only white space.\<close>

fun trim_back :: "string \<Rightarrow> string" where
  "trim_back [] = []"
| "trim_back (c # cs) = (if trim_front (c # cs) = [] then [] else c # trim_back cs)"

definition trim :: "string \<Rightarrow> string" where
  "trim s = trim_back (trim_front s)"

text \<open>\<^verbatim>\<open>str::lines\<close>: at line feeds, without a carriage return before them and without an empty last line.\<close>

definition strip_cr :: "string \<Rightarrow> string" where
  "strip_cr l = (if l \<noteq> [] \<and> last l = char_of (13 :: nat) then butlast l else l)"

definition text_lines :: "string \<Rightarrow> string list" where
  "text_lines s =
     (let pieces = split_on (\<lambda>c. c = char_of (10 :: nat)) s in
      map strip_cr (butlast pieces) @ (if last pieces = [] then [] else [last pieces]))"

lemma ws_len_plain: "char_code c \<ge> 33 \<Longrightarrow> char_code c < 128 \<Longrightarrow> ws_len (c # cs) = 0"
  by (simp add: ws_len_def)

lemma split_words_plain:
  "\<forall>c \<in> set w. 33 \<le> char_code c \<and> char_code c < 128 \<Longrightarrow>
   split_words word (w @ CHR '' '' # s) = (if word @ w = [] then [] else [word @ w]) @ split_words [] s"
proof (induction w arbitrary: word)
  case Nil
  have "ws_len (CHR '' '' # s) = 1" by (simp add: ws_len_def char_code_def)
  then show ?case by simp
qed (auto simp: ws_len_plain)

lemma split_words_end:
  "\<forall>c \<in> set w. 33 \<le> char_code c \<and> char_code c < 128 \<Longrightarrow>
   split_words word w = (if word @ w = [] then [] else [word @ w])"
  by (induction w arbitrary: word) (auto simp: ws_len_plain)

section \<open>Digits\<close>

definition digit_value :: "char \<Rightarrow> nat option" where
  "digit_value c =
     (let n = char_code c in
      if 48 \<le> n \<and> n \<le> 57 then Some (n - 48)
      else if 97 \<le> n \<and> n \<le> 122 then Some (n - 87)
      else if 65 \<le> n \<and> n \<le> 90 then Some (n - 55)
      else None)"

fun parse_digits :: "nat \<Rightarrow> nat \<Rightarrow> string \<Rightarrow> nat option" where
  "parse_digits radix acc [] = Some acc"
| "parse_digits radix acc (c # cs) =
     (case digit_value c of
        None \<Rightarrow> None
      | Some d \<Rightarrow> if d < radix then parse_digits radix (acc * radix + d) cs else None)"

text \<open>A number below the bound; one leading plus sign is accepted, an empty number is not.\<close>

definition parse_unsigned :: "nat \<Rightarrow> nat \<Rightarrow> string \<Rightarrow> nat option" where
  "parse_unsigned radix bound s =
     (let digits = (if s \<noteq> [] \<and> hd s = CHR ''+'' then tl s else s) in
      if digits = [] then None
      else case parse_digits radix 0 digits of
             None \<Rightarrow> None
           | Some n \<Rightarrow> if n < bound then Some n else None)"

definition parse_i32 :: "string \<Rightarrow> int option" where
  "parse_i32 s =
     (if s \<noteq> [] \<and> hd s = CHR ''-''
      then (if tl s = [] then None
            else case parse_digits 10 0 (tl s) of
                   None \<Rightarrow> None
                 | Some n \<Rightarrow> if n \<le> 2 ^ 31 then Some (- int n) else None)
      else map_option int (parse_unsigned 10 (2 ^ 31) s))"

definition parse_u64 :: "string \<Rightarrow> u64 option" where
  "parse_u64 s = map_option word_of_nat (parse_unsigned 10 (2 ^ 64) s)"

definition parse_u16_hex :: "string \<Rightarrow> u16 option" where
  "parse_u16_hex s = map_option word_of_nat (parse_unsigned 16 (2 ^ 16) s)"

definition parse_u32_hex :: "string \<Rightarrow> u32 option" where
  "parse_u32_hex s = map_option word_of_nat (parse_unsigned 16 (2 ^ 32) s)"

definition parse_u8_hex :: "string \<Rightarrow> u8 option" where
  "parse_u8_hex s = map_option word_of_nat (parse_unsigned 16 (2 ^ 8) s)"

definition parse_u16 :: "string \<Rightarrow> u16 option" where
  "parse_u16 s = map_option word_of_nat (parse_unsigned 10 (2 ^ 16) s)"

section \<open>What is printed is read back\<close>

lemma digit_value_digit [simp]: "n < 16 \<Longrightarrow> digit_value (digit_char n) = Some n"
  by (auto simp: digit_value_def char_code_digit)

lemma parse_digits_append:
  "parse_digits radix acc (xs @ ys) =
     (case parse_digits radix acc xs of None \<Rightarrow> None | Some a \<Rightarrow> parse_digits radix a ys)"
  by (induction radix acc xs rule: parse_digits.induct) (auto split: option.split)

lemma parse_show_base: "2 \<le> b \<Longrightarrow> b \<le> 16 \<Longrightarrow> parse_digits b 0 (show_base b n) = Some n"
proof (induction n rule: less_induct)
  case (less n)
  show ?case
  proof (cases "n < b")
    case True
    then show ?thesis using less.prems by (simp add: show_base.simps [of b n])
  next
    case False
    then have "n div b < n" using less.prems by simp
    moreover have "n mod b < b" using less.prems by simp
    moreover from this have "n mod b < 16" using less.prems by linarith
    ultimately show ?thesis
      using less False by (simp add: show_base.simps [of b n] parse_digits_append)
  qed
qed

lemma show_nat_no_sign: "hd (show_nat n) \<noteq> CHR ''+''" "hd (show_nat n) \<noteq> CHR ''-''"
proof -
  have "is_ascii_digit (hd (show_nat n))" by (rule show_nat_digits [of _ n]) simp
  then show "hd (show_nat n) \<noteq> CHR ''+''" "hd (show_nat n) \<noteq> CHR ''-''"
    by (auto simp: is_ascii_digit_def char_code_def)
qed

lemma parse_show_nat: "n < bound \<Longrightarrow> parse_unsigned 10 bound (show_nat n) = Some n"
  by (simp add: parse_unsigned_def show_nat_no_sign parse_show_base [of 10, folded show_nat_def])

lemma parse_u64_show: "parse_u64 (show_nat (unat w)) = Some w"
  using unat_less_64 [of w] by (simp add: parse_u64_def parse_show_nat)

lemma parse_i32_show:
  assumes "- (2 ^ 31) \<le> i" and "i < 2 ^ 31"
  shows "parse_i32 (show_int i) = Some i"
proof (cases "i < 0")
  case True
  then have "nat (- i) \<le> 2 ^ 31" using assms by simp
  then show ?thesis
    using True by (simp add: parse_i32_def show_int_def parse_show_base [of 10, folded show_nat_def])
next
  case False
  then have "parse_unsigned 10 (2 ^ 31) (show_nat (nat i)) = Some (nat i)"
    using assms by (intro parse_show_nat) simp
  then show ?thesis
    using False by (simp add: parse_i32_def show_int_def show_nat_no_sign)
qed

text \<open>Fixed-width upper-case hexadecimal, as the kernel's \<^verbatim>\<open>%08X\<close> prints it.\<close>

definition upper_digit :: "nat \<Rightarrow> char" where
  "upper_digit n = char_of (if n < 10 then 48 + n else 55 + n)"

fun hex_fixed :: "nat \<Rightarrow> nat \<Rightarrow> string" where
  "hex_fixed 0 n = []"
| "hex_fixed (Suc w) n = hex_fixed w (n div 16) @ [upper_digit (n mod 16)]"

lemma length_hex_fixed [simp]: "length (hex_fixed w n) = w"
  by (induction w arbitrary: n) auto

lemma char_code_upper: "n < 16 \<Longrightarrow> char_code (upper_digit n) = (if n < 10 then 48 + n else 55 + n)"
  by (simp add: upper_digit_def char_code_char_of)

lemma digit_value_upper [simp]: "n < 16 \<Longrightarrow> digit_value (upper_digit n) = Some n"
  by (auto simp: digit_value_def char_code_upper)

lemma hex_fixed_chars: "c \<in> set (hex_fixed w n) \<Longrightarrow> \<exists>d < 16. c = upper_digit d"
proof (induction w arbitrary: n)
  case (Suc w)
  have "n mod 16 < 16" by simp
  then show ?case using Suc by (auto intro: exI [of _ "n mod 16"])
qed simp

lemma parse_hex_fixed: "parse_digits 16 0 (hex_fixed w n) = Some (n mod 16 ^ w)"
proof (induction w arbitrary: n)
  case (Suc w)
  have "n div 16 mod 16 ^ w * 16 + n mod 16 = n mod 16 ^ Suc w"
    using mod_mult2_eq [of n 16 "16 ^ w"] by simp
  with Suc show ?case by (simp add: parse_digits_append)
qed simp

lemma parse_unsigned_hex_fixed:
  assumes "0 < w" and "16 ^ w \<le> bound"
  shows "parse_unsigned 16 bound (hex_fixed w n) = Some (n mod 16 ^ w)"
proof -
  have ne: "hex_fixed w n \<noteq> []" using assms(1) by (metis length_hex_fixed less_numeral_extra(3) list.size(3))
  then have "hd (hex_fixed w n) \<in> set (hex_fixed w n)" by simp
  then obtain d where "d < 16" "hd (hex_fixed w n) = upper_digit d" using hex_fixed_chars by blast
  then have "hd (hex_fixed w n) \<noteq> CHR ''+''"
    using char_code_upper [of d] by (auto simp: char_code_def split: if_splits)
  moreover have "n mod 16 ^ w < bound" using assms(2) by (meson le_less_trans mod_less_divisor not_le zero_less_numeral zero_less_power less_le_trans)
  ultimately show ?thesis using ne by (simp add: parse_unsigned_def parse_hex_fixed)
qed

end
