(* ===== verification/Procs.thy ===== *)
theory Procs
  imports Numerals Net Tables
begin

text \<open>
  Processes: the tree of \<^verbatim>\<open>src/src/procs/mod.rs\<close> and the scanners of
  \<^verbatim>\<open>src/src/procs/linux.rs\<close> and \<^verbatim>\<open>src/src/procs/windows.rs\<close>. What the system
  answers (the files of \<^verbatim>\<open>/proc\<close>, the Toolhelp list, the start times) is an argument.
\<close>

section \<open>The tree of processes\<close>

definition children_of :: "ProcInfo list \<Rightarrow> (int, int list) hmap" where
  "children_of procs = fold (\<lambda>p m. hm_entry (p_ppid p) [] (\<lambda>kids. kids @ [p_pid p]) m) procs []"

definition kids_of :: "(int, int list) hmap \<Rightarrow> int \<Rightarrow> int list" where
  "kids_of children pid = (case hm_get children pid of None \<Rightarrow> [] | Some kids \<Rightarrow> kids)"

text \<open>The children not seen yet are noted, reported and pushed. The head of the stack is its top.\<close>

fun push_kids :: "int list \<Rightarrow> int list \<times> int list \<times> int list \<Rightarrow> int list \<times> int list \<times> int list" where
  "push_kids [] g = g"
| "push_kids (k # ks) (seen, out, stack) =
     push_kids ks (if k \<in> set seen then (seen, out, stack) else (hs_add k seen, out @ [k], k # stack))"

definition unseen :: "(int, int list) hmap \<Rightarrow> int list \<Rightarrow> nat" where
  "unseen children seen = card ((\<Union>e \<in> set children. set (snd e)) - set seen)"

lemma push_kids_measure:
  assumes "set ks \<subseteq> K" and "finite K"
  shows "(case push_kids ks (seen, out, stack) of (seen', _, stack') \<Rightarrow>
     length stack' + card (K - set seen') \<le> length stack + card (K - set seen))"
  using assms(1)
proof (induction ks arbitrary: seen out stack)
  case (Cons k ks)
  show ?case
  proof (cases "k \<in> set seen")
    case True
    then show ?thesis using Cons.IH [where seen = seen and out = out and stack = stack] Cons.prems by simp
  next
    case False
    then have "k \<in> K - set seen" and eq: "K - set (hs_add k seen) = K - set seen - {k}"
      using Cons.prems by auto
    then have "Suc (card (K - set (hs_add k seen))) = card (K - set seen)"
      unfolding eq using assms(2) by (intro card_Suc_Diff1) auto
    then show ?thesis
      using False Cons.IH [where seen = "hs_add k seen" and out = "out @ [k]" and stack = "k # stack"] Cons.prems by (simp split: prod.splits)
  qed
qed simp

lemma kids_subset: "set (kids_of children pid) \<subseteq> (\<Union>e \<in> set children. set (snd e))"
  by (cases "hm_get children pid") (auto simp: kids_of_def dest!: hm_get_in_set intro: bexI [rotated])

function walk :: "(int, int list) hmap \<Rightarrow> int list \<Rightarrow> int list \<Rightarrow> int list \<Rightarrow> int list" where
  "walk children seen out [] = out"
| "walk children seen out (pid # stack) =
     (case push_kids (kids_of children pid) (seen, out, stack) of
        (seen', out', stack') \<Rightarrow> walk children seen' out' stack')"
  by pat_completeness auto
termination
proof (relation "measure (\<lambda>(children, seen, out, stack). length stack + unseen children seen)", goal_cases)
  case (2 children seen out pid stack seen' y out' stack')
  then have "push_kids (kids_of children pid) (seen, out, stack) = (seen', out', stack')" by simp
  then show ?case
    using push_kids_measure [OF kids_subset [of children pid], where seen = seen and out = out and stack = stack]
    by (simp add: unseen_def)
qed simp

fun dedup_roots :: "int list \<Rightarrow> int list \<Rightarrow> int list" where
  "dedup_roots seen [] = []"
| "dedup_roots seen (r # rs) = (if r \<in> set seen then dedup_roots seen rs else r # dedup_roots (hs_add r seen) rs)"

definition descendants_from :: "ProcInfo list \<Rightarrow> int list \<Rightarrow> int list" where
  "descendants_from procs roots =
     (let out = dedup_roots [] roots in walk (children_of procs) out out (rev out))"

definition descendants :: "ProcInfo list \<Rightarrow> int \<Rightarrow> int list" where
  "descendants procs root = descendants_from procs [root]"

section \<open>The tree is walked completely\<close>

definition parent_rel :: "ProcInfo list \<Rightarrow> (int \<times> int) set" where
  "parent_rel procs = {(p_ppid p, p_pid p) | p. p \<in> set procs}"

lemma kids_children: "k \<in> set (kids_of (children_of procs) pid) \<longleftrightarrow> (pid, k) \<in> parent_rel procs"
proof -
  have "k \<in> set (kids_of (fold (\<lambda>p m. hm_entry (p_ppid p) [] (\<lambda>kids. kids @ [p_pid p]) m) procs m) pid)
    \<longleftrightarrow> (pid, k) \<in> parent_rel procs \<or> k \<in> set (kids_of m pid)" for m
  proof (induction procs arbitrary: m)
    case (Cons p procs)
    show ?case
      unfolding fold.simps o_apply Cons.IH
      by (auto simp: kids_of_def hm_get_entry parent_rel_def split: option.splits)
  qed (simp add: parent_rel_def)
  from this [of "[]"] show ?thesis by (simp add: children_of_def kids_of_def)
qed

lemma push_kids_result:
  "push_kids ks (seen, out, stack) = (seen', out', stack') \<Longrightarrow> set seen = set out \<Longrightarrow> distinct out \<Longrightarrow>
   set seen' = set out' \<and> set out' = set out \<union> set ks \<and> distinct out' \<and> set stack' = set stack \<union> (set ks - set out)"
proof (induction ks arbitrary: seen out stack)
  case (Cons k ks)
  show ?case
  proof (cases "k \<in> set seen")
    case True
    then show ?thesis using Cons.IH [of seen out stack] Cons.prems by auto
  next
    case False
    then show ?thesis using Cons.IH [of "hs_add k seen" "out @ [k]" "k # stack"] Cons.prems by auto
  qed
qed auto

text \<open>
  The walk marks what is reachable: every reported process is reachable, and a child of a reported
  process is reported or its parent still waits on the stack.
\<close>

lemma walk_reaches:
  assumes "set seen = set out" and "distinct out" and "set stack \<subseteq> set out"
    and "\<And>q k. q \<in> set out \<Longrightarrow> q \<notin> set stack \<Longrightarrow> k \<in> set (kids_of children q) \<Longrightarrow> k \<in> set out"
  shows "distinct (walk children seen out stack)
    \<and> set (walk children seen out stack) = {q. \<exists>r \<in> set out. (r, q) \<in> {(p, k). k \<in> set (kids_of children p)}\<^sup>*}"
  using assms
proof (induction children seen out stack rule: walk.induct)
  case (1 children seen out)
  have "q \<in> set out" if "r \<in> set out" "(r, q) \<in> {(p, k). k \<in> set (kids_of children p)}\<^sup>*" for r q
    using that(2,1) by (induction rule: rtrancl_induct) (auto intro: 1(4))
  then have "set out = {q. \<exists>r \<in> set out. (r, q) \<in> {(p, k). k \<in> set (kids_of children p)}\<^sup>*}" by blast
  then show ?case using 1(2) by simp
next
  case (2 children seen out pid stack)
  let ?R = "{(p, k). k \<in> set (kids_of children p)}"
  obtain seen' out' stack' where step: "push_kids (kids_of children pid) (seen, out, stack) = (seen', out', stack')"
    by (cases "push_kids (kids_of children pid) (seen, out, stack)")
  have facts: "set seen' = set out'" "set out' = set out \<union> set (kids_of children pid)" "distinct out'"
      "set stack' = set stack \<union> (set (kids_of children pid) - set out)"
    using push_kids_result [OF step 2(2,3)] by auto
  have pid: "pid \<in> set out" using 2(4) by simp
  have closed: "k \<in> set out'" if "q \<in> set out'" "q \<notin> set stack'" "k \<in> set (kids_of children q)" for q k
  proof (cases "q \<in> set out")
    case True
    then show ?thesis using that facts 2(5) [OF True] by (cases "q = pid") auto
  next
    case False
    then show ?thesis using that facts 2(2) by auto
  qed
  have "distinct (walk children seen' out' stack') \<and>
      set (walk children seen' out' stack') = {q. \<exists>r \<in> set out'. (r, q) \<in> ?R\<^sup>*}"
  proof (rule 2(1) [OF step [symmetric] refl])
    show "set stack' \<subseteq> set out'" using facts 2(4) by auto
  qed (use facts closed in simp_all)
  moreover have "{q. \<exists>r \<in> set out'. (r, q) \<in> ?R\<^sup>*} = {q. \<exists>r \<in> set out. (r, q) \<in> ?R\<^sup>*}"
  proof
    show "{q. \<exists>r \<in> set out'. (r, q) \<in> ?R\<^sup>*} \<subseteq> {q. \<exists>r \<in> set out. (r, q) \<in> ?R\<^sup>*}"
      using facts(2) pid by (auto intro: converse_rtrancl_into_rtrancl)
  qed (use facts(2) in auto)
  ultimately show ?case by (simp add: step)
qed

lemma dedup_roots: "distinct (dedup_roots seen rs) \<and> set (dedup_roots seen rs) = set rs - set seen"
  by (induction seen rs rule: dedup_roots.induct) auto

lemma descendants_from_set:
  "distinct (descendants_from procs roots)
   \<and> set (descendants_from procs roots) = {q. \<exists>r \<in> set roots. (r, q) \<in> (parent_rel procs)\<^sup>*}"
proof -
  let ?out = "dedup_roots [] roots"
  have "{(p, k). k \<in> set (kids_of (children_of procs) p)} = parent_rel procs"
    by (auto simp: kids_children)
  then show ?thesis
    using walk_reaches [of ?out ?out "rev ?out" "children_of procs"] dedup_roots [of "[]" roots]
    by (simp add: descendants_from_def Let_def)
qed

text \<open>
  C15. Descendants. The walk over the process table ends, reports every process that is reachable
  from a root by parent links exactly once, and no other, also when the links form a cycle or a
  root is not in the table.
\<close>

theorem descendants_reachable:
  "distinct (descendants_from procs roots)
   \<and> set (descendants_from procs roots) = {q. \<exists>r \<in> set roots. (r, q) \<in> (parent_rel procs)\<^sup>*}"
  by (rule descendants_from_set)

end
