(* ===== verification/Proc_Scan.thy ===== *)
theory Proc_Scan
  imports Procs
begin

text \<open>
  The scanners of the process table, \<^verbatim>\<open>src/src/procs/linux.rs\<close> and
  \<^verbatim>\<open>src/src/procs/windows.rs\<close>. A scanner keeps the expensive part of a process (name and
  command line) as long as its cheap part says that it is the same process.
\<close>

section \<open>Linux: the line of a process\<close>

record Stat =
  st_comm :: string
  st_ppid :: int
  st_started :: u64

fun find_char :: "char \<Rightarrow> string \<Rightarrow> nat option" where
  "find_char x [] = None"
| "find_char x (c # cs) = (if c = x then Some 0 else map_option Suc (find_char x cs))"

definition rfind_char :: "char \<Rightarrow> string \<Rightarrow> nat option" where
  "rfind_char x s = map_option (\<lambda>i. length s - 1 - i) (find_char x (rev s))"

definition parse_stat :: "string \<Rightarrow> Stat option" where
  "parse_stat s = do {
     from \<leftarrow> find_char CHR ''('' s;
     close \<leftarrow> rfind_char CHR '')'' s;
     comm \<leftarrow> get_range s (from + 1) close;
     rest \<leftarrow> get_from s (close + 1);
     let fields = split_whitespace rest;
     f1 \<leftarrow> get_at fields 1;
     ppid \<leftarrow> parse_i32 f1;
     f2 \<leftarrow> get_at fields 19;
     started \<leftarrow> parse_u64 f2;
     Some \<lparr>st_comm = comm, st_ppid = ppid, st_started = started\<rparr>
   }"

definition exe_from_cmdline :: "string \<Rightarrow> string option" where
  "exe_from_cmdline cmdline =
     (let names = map (\<lambda>t. trim_end (\<lambda>c. c = CHR 0x22) (trim_start (\<lambda>c. c = CHR 0x22)
                        (last (split_on (\<lambda>c. c = CHR ''/'' \<or> c = CHR 0x5C) t))))
          (filter (\<lambda>t. ends_with (to_ascii_lowercase t) ''.exe'') (split_whitespace cmdline)) in
      if names = [] then None else Some (last names))"

definition read_proc :: "int \<Rightarrow> Stat \<Rightarrow> bytes \<Rightarrow> ProcInfo option" where
  "read_proc pid st raw_cmd =
     (let comm = st_comm st in
      if comm = [] then None
      else
        let cmdline = trim (map (\<lambda>c. if c = CHR 0x00 then CHR '' '' else c) (from_utf8_lossy raw_cmd));
            lower = to_ascii_lowercase cmdline;
            proton = (contains_str lower ''proton'' \<or> contains_str lower ''/wine'' \<or> contains_str lower ''pressure-vessel''
                      \<or> starts_with comm ''wine'' \<or> ends_with comm ''.exe'');
            name = (if proton then (case exe_from_cmdline cmdline of Some n \<Rightarrow> n | None \<Rightarrow> comm) else comm) in
        Some \<lparr>p_pid = pid, p_started = st_started st, p_ppid = st_ppid st, p_comm = comm, p_name = name,
              p_cmdline = cmdline, p_proton = proton\<rparr>)"

section \<open>Linux: the scanner\<close>

text \<open>
  The system: the text of \<^verbatim>\<open>/proc/<pid>/stat\<close> when it can be read, the bytes of
  \<^verbatim>\<open>cmdline\<close> (none when it cannot), and the names in \<^verbatim>\<open>/proc\<close>.
\<close>

record ProcFs =
  fs_stat :: "int \<Rightarrow> string option"
  fs_cmdline :: "int \<Rightarrow> bytes"
  fs_names :: "string list option"

record ScanEntry =
  sc_info :: ProcInfo
  sc_started :: u64

type_synonym scanner = "(int, ScanEntry) hmap"

definition current_stat :: "ProcFs \<Rightarrow> int \<Rightarrow> Stat option" where
  "current_stat fs pid = Option.bind (fs_stat fs pid) parse_stat"

definition scan_update :: "ProcFs \<Rightarrow> int \<Rightarrow> scanner \<Rightarrow> scanner" where
  "scan_update fs pid cache =
     (case current_stat fs pid of
        None \<Rightarrow> hm_del pid cache
      | Some st \<Rightarrow>
          let reread = (case read_proc pid st (fs_cmdline fs pid) of
                 Some info \<Rightarrow> hm_put pid \<lparr>sc_info = info, sc_started = st_started st\<rparr> cache
               | None \<Rightarrow> hm_del pid cache) in
          (case hm_get cache pid of
             Some e \<Rightarrow>
               if sc_started e = st_started st \<and> p_comm (sc_info e) = st_comm st
               then hm_put pid (e\<lparr>sc_info := (sc_info e)\<lparr>p_ppid := st_ppid st\<rparr>\<rparr>) cache
               else reread
           | None \<Rightarrow> reread))"

fun listed_pids :: "string list \<Rightarrow> int list" where
  "listed_pids [] = []"
| "listed_pids (n # ns) = (case parse_i32 n of Some pid \<Rightarrow> pid # listed_pids ns | None \<Rightarrow> listed_pids ns)"

definition scan_refresh :: "ProcFs \<Rightarrow> scanner \<Rightarrow> ProcInfo list \<times> scanner" where
  "scan_refresh fs cache =
     (case fs_names fs of
        None \<Rightarrow> ([], cache)
      | Some names \<Rightarrow>
          let pids = listed_pids names;
              cache1 = fold (scan_update fs) pids cache;
              cache2 = hm_retain (\<lambda>pid _. pid \<in> set pids) cache1 in
          (sort_key p_pid (map (\<lambda>e. sc_info (snd e)) cache2), cache2))"

fun cached_infos :: "scanner \<Rightarrow> int list \<Rightarrow> ProcInfo list" where
  "cached_infos cache [] = []"
| "cached_infos cache (pid # pids) =
     (case hm_get cache pid of Some e \<Rightarrow> sc_info e # cached_infos cache pids | None \<Rightarrow> cached_infos cache pids)"

definition scan_refresh_pids :: "ProcFs \<Rightarrow> int list \<Rightarrow> scanner \<Rightarrow> ProcInfo list \<times> scanner" where
  "scan_refresh_pids fs pids cache =
     (let cache1 = fold (scan_update fs) pids cache in (cached_infos cache1 pids, cache1))"

section \<open>Windows: the scanner\<close>

record WinEntry =
  we_info :: ProcInfo
  we_exe :: string
  we_started :: u64

text \<open>
  What opening a process gives: its start time and command line or image path; \<^verbatim>\<open>None\<close> when it
  cannot be opened. The command line is empty when the system gives none.
\<close>

type_synonym win_system = "int \<Rightarrow> (u64 \<times> string option \<times> string option) option"

definition process_start :: "win_system \<Rightarrow> int \<Rightarrow> u64" where
  "process_start sys pid = (case sys pid of None \<Rightarrow> 0 | Some (started, _, _) \<Rightarrow> started)"

definition win_read :: "win_system \<Rightarrow> int \<Rightarrow> int \<Rightarrow> string \<Rightarrow> WinEntry" where
  "win_read sys pid ppid exe =
     (let started = process_start sys pid;
          line = (case sys pid of
                    None \<Rightarrow> []
                  | Some (_, cmd, img) \<Rightarrow> (case cmd of Some l \<Rightarrow> l | None \<Rightarrow> (case img of Some p \<Rightarrow> p | None \<Rightarrow> [])));
          cmdline = (if line = [] then exe else line) in
      \<lparr>we_info = \<lparr>p_pid = pid, p_started = started, p_ppid = ppid, p_comm = exe, p_name = exe, p_cmdline = cmdline,
                   p_proton = False\<rparr>,
       we_exe = exe, we_started = started\<rparr>)"

definition win_update :: "win_system \<Rightarrow> int \<times> int \<times> string \<Rightarrow> (int, WinEntry) hmap \<Rightarrow> (int, WinEntry) hmap" where
  "win_update sys row cache =
     (case row of (pid, ppid, exe) \<Rightarrow>
        let fresh = (case hm_get cache pid of
               Some e \<Rightarrow> we_exe e \<noteq> exe \<or> p_ppid (we_info e) \<noteq> ppid \<or> we_started e \<noteq> process_start sys pid
             | None \<Rightarrow> True) in
        if fresh then hm_put pid (win_read sys pid ppid exe) cache else cache)"

text \<open>A parent that is gone, or that started after its child, is not the parent.\<close>

definition true_parent :: "(int, WinEntry) hmap \<Rightarrow> WinEntry \<Rightarrow> ProcInfo" where
  "true_parent cache e =
     (let p = we_info e;
          ps = (case hm_get cache (p_ppid p) of None \<Rightarrow> 0 | Some parent \<Rightarrow> we_started parent) in
      if \<not> hm_has cache (p_ppid p) \<or> (ps \<noteq> 0 \<and> we_started e \<noteq> 0 \<and> we_started e < ps)
      then p\<lparr>p_ppid := 0\<rparr> else p)"

definition win_refresh_list :: "win_system \<Rightarrow> (int \<times> int \<times> string) list \<Rightarrow> int list option
    \<Rightarrow> (int, WinEntry) hmap \<Rightarrow> ProcInfo list \<times> (int, WinEntry) hmap" where
  "win_refresh_list sys rows among cache =
     (let seen = map fst rows;
          cache1 = fold (win_update sys) rows cache;
          cache2 = hm_retain (\<lambda>pid _. (case among of Some pids \<Rightarrow> pid \<notin> set pids | None \<Rightarrow> False) \<or> pid \<in> set seen) cache1;
          picked = filter (\<lambda>e. case among of None \<Rightarrow> True | Some pids \<Rightarrow> p_pid (we_info (snd e)) \<in> set pids) cache2 in
      (sort_key p_pid (map (\<lambda>e. true_parent cache2 (snd e)) picked), cache2))"

definition win_refresh :: "win_system \<Rightarrow> (int \<times> int \<times> string) list \<Rightarrow> (int, WinEntry) hmap
    \<Rightarrow> ProcInfo list \<times> (int, WinEntry) hmap" where
  "win_refresh sys toolhelp cache = win_refresh_list sys toolhelp None cache"

definition win_refresh_pids :: "win_system \<Rightarrow> (int \<times> int \<times> string) list \<Rightarrow> int list \<Rightarrow> (int, WinEntry) hmap
    \<Rightarrow> ProcInfo list \<times> (int, WinEntry) hmap" where
  "win_refresh_pids sys toolhelp pids cache =
     win_refresh_list sys (filter (\<lambda>(pid, _, _). pid \<in> set pids) toolhelp) (Some pids) cache"

section \<open>What a scan reports\<close>

definition scan_ok :: "scanner \<Rightarrow> bool" where
  "scan_ok cache \<longleftrightarrow> hm_wf cache \<and> (\<forall>pid e. hm_get cache pid = Some e \<longrightarrow>
     p_pid (sc_info e) = pid \<and> p_started (sc_info e) = sc_started e \<and> p_comm (sc_info e) \<noteq> [])"

text \<open>A process as the system shows it now: parent, image and start time.\<close>

definition displays :: "ProcFs \<Rightarrow> int \<Rightarrow> ProcInfo \<Rightarrow> bool" where
  "displays fs pid info \<longleftrightarrow> p_pid info = pid \<and> (\<exists>st. current_stat fs pid = Some st \<and> st_comm st \<noteq> [] \<and>
     p_comm info = st_comm st \<and> p_ppid info = st_ppid st \<and> p_started info = st_started st)"

lemma read_proc_displays: "read_proc pid st raw = Some info \<Longrightarrow>
   p_pid info = pid \<and> st_comm st \<noteq> [] \<and> p_comm info = st_comm st \<and> p_ppid info = st_ppid st \<and> p_started info = st_started st"
  by (auto simp: read_proc_def Let_def split: if_splits)

lemma read_proc_None: "read_proc pid st raw = None \<longleftrightarrow> st_comm st = []"
  by (simp add: read_proc_def Let_def)

lemma scan_update_ok: "scan_ok cache \<Longrightarrow> scan_ok (scan_update fs pid cache)"
  by (auto simp: scan_ok_def scan_update_def Let_def hm_wf_put hm_wf_del hm_get_put hm_get_del
      dest: read_proc_displays split: option.splits if_splits)

lemma scan_update_other: "q \<noteq> pid \<Longrightarrow> hm_get (scan_update fs pid cache) q = hm_get cache q"
  by (simp add: scan_update_def Let_def hm_get_put hm_get_del split: option.split)

lemma scan_update_this:
  assumes "scan_ok cache"
  shows "(case hm_get (scan_update fs pid cache) pid of
      Some e \<Rightarrow> displays fs pid (sc_info e)
    | None \<Rightarrow> (case current_stat fs pid of None \<Rightarrow> True | Some st \<Rightarrow> st_comm st = []))"
proof (cases "current_stat fs pid")
  case None
  then show ?thesis by (simp add: scan_update_def hm_get_del)
next
  case (Some st)
  show ?thesis
  proof (cases "read_proc pid st (fs_cmdline fs pid)")
    case None
    then have "st_comm st = []" by (simp add: read_proc_None)
    then show ?thesis
      using Some None assms
      by (auto simp: scan_update_def Let_def hm_get_put hm_get_del scan_ok_def split: option.splits)
  next
    case (Some info)
    then show ?thesis
      using \<open>current_stat fs pid = Some st\<close> assms read_proc_displays [OF Some]
      by (auto simp: scan_update_def Let_def hm_get_put scan_ok_def displays_def split: option.splits)
  qed
qed

lemma scan_fold_ok: "scan_ok cache \<Longrightarrow> scan_ok (fold (scan_update fs) pids cache)"
  by (induction pids arbitrary: cache) (simp_all add: scan_update_ok)

lemma scan_fold_this:
  assumes "scan_ok cache" and "pid \<in> set pids"
  shows "(case hm_get (fold (scan_update fs) pids cache) pid of
      Some e \<Rightarrow> displays fs pid (sc_info e)
    | None \<Rightarrow> (case current_stat fs pid of None \<Rightarrow> True | Some st \<Rightarrow> st_comm st = []))"
proof -
  have other: "hm_get (fold (scan_update fs) qs c) pid = hm_get c pid" if "pid \<notin> set qs" for qs c
    using that by (induction qs arbitrary: c) (simp_all add: scan_update_other)
  show ?thesis
    using assms
  proof (induction pids arbitrary: cache)
    case (Cons q pids)
    show ?case
    proof (cases "pid \<in> set pids")
      case True
      then show ?thesis using Cons scan_update_ok [of cache fs q] by simp
    next
      case False
      then have "q = pid" using Cons.prems by simp
      then show ?thesis using scan_update_this [OF Cons.prems(1)] other [OF False] by simp
    qed
  qed simp
qed

text \<open>
  C16. A scan is current. However old its cache, a full scan lists, sorted by PID and each once,
  exactly the processes of \<^verbatim>\<open>/proc\<close> whose state can be read and that have a name, each with the
  parent, the image and the start time it has now; so a reused PID is never taken for the process
  that had it before.
\<close>

theorem scan_current:
  assumes "scan_ok cache" and "fs_names fs = Some names" and "scan_refresh fs cache = (out, cache')"
  shows "scan_ok cache' \<and> sorted (map p_pid out) \<and> distinct (map p_pid out)
    \<and> (\<forall>info \<in> set out. displays fs (p_pid info) info)
    \<and> p_pid ` set out = {pid \<in> set (listed_pids names). \<exists>st. current_stat fs pid = Some st \<and> st_comm st \<noteq> []}"
proof -
  let ?pids = "listed_pids names" and ?c = "fold (scan_update fs) (listed_pids names) cache"
  have c': "cache' = hm_retain (\<lambda>pid _. pid \<in> set ?pids) ?c"
    and out: "out = sort_key p_pid (map (\<lambda>e. sc_info (snd e)) cache')"
    using assms(2,3) by (auto simp: scan_refresh_def Let_def)
  have ok: "scan_ok ?c" by (rule scan_fold_ok [OF assms(1)])
  have get: "hm_get cache' pid = Some e \<longleftrightarrow> pid \<in> set ?pids \<and> hm_get ?c pid = Some e" for pid e
    using ok by (auto simp: c' scan_ok_def hm_get_retain split: option.splits)
  have ok': "scan_ok cache'"
    using ok get unfolding scan_ok_def c' by (auto simp: hm_wf_retain)
  then have wf: "hm_wf cache'" by (simp add: scan_ok_def)
  have entry: "p_pid (sc_info (snd e)) = fst e \<and> displays fs (fst e) (sc_info (snd e)) \<and> fst e \<in> set ?pids" if "e \<in> set cache'" for e
  proof -
    have "hm_get cache' (fst e) = Some (snd e)" using that hm_get_of_set [OF wf] by simp
    then show ?thesis using get ok' scan_fold_this [OF assms(1), of "fst e" ?pids fs] by (auto simp: scan_ok_def)
  qed
  have pids: "map p_pid (map (\<lambda>e. sc_info (snd e)) cache') = map fst cache'"
    using entry by simp
  have "distinct (map p_pid out)"
  proof -
    have "distinct (map p_pid (map (\<lambda>e. sc_info (snd e)) cache'))"
      unfolding pids using wf by (simp add: hm_wf_def)
    then show ?thesis unfolding out by (auto simp: distinct_map inj_on_def)
  qed
  moreover have "p_pid ` set out = {pid \<in> set ?pids. \<exists>st. current_stat fs pid = Some st \<and> st_comm st \<noteq> []}"
  proof
    show "p_pid ` set out \<subseteq> {pid \<in> set ?pids. \<exists>st. current_stat fs pid = Some st \<and> st_comm st \<noteq> []}"
      using entry unfolding displays_def out by fastforce
    show "{pid \<in> set ?pids. \<exists>st. current_stat fs pid = Some st \<and> st_comm st \<noteq> []} \<subseteq> p_pid ` set out"
    proof
      fix pid
      assume "pid \<in> {pid \<in> set ?pids. \<exists>st. current_stat fs pid = Some st \<and> st_comm st \<noteq> []}"
      then obtain e where "hm_get cache' pid = Some e"
        using scan_fold_this [OF assms(1), of pid ?pids fs] get by (cases "hm_get ?c pid") auto
      then have "(pid, e) \<in> set cache'" by (rule hm_get_in_set)
      then have "sc_info e \<in> set out" by (force simp: out)
      then show "pid \<in> p_pid ` set out" using entry [OF \<open>(pid, e) \<in> set cache'\<close>] by (metis fst_conv imageI snd_conv)
    qed
  qed
  moreover have "\<forall>info \<in> set out. displays fs (p_pid info) info" using entry by (auto simp: out)
  moreover have "sorted (map p_pid out)" by (simp add: out)
  ultimately show ?thesis using ok' by blast
qed


text \<open>A process table with one readable process, whose name has blanks and parentheses.\<close>

definition sample_fs :: ProcFs where
  "sample_fs = \<lparr>fs_stat = (\<lambda>pid. if pid = 42 then Some ''42 (Web (a) x) S 17 0 0 0 0 0 0 0 0 0 0 0 0 0 0 0 0 0 987 0'' else None),
     fs_cmdline = (\<lambda>_. []), fs_names = Some [''42'', ''self'', ''43'']\<rparr>"

theorem scan_current_witness:
  "p_pid ` set (fst (scan_refresh sample_fs []))
    = {pid \<in> set (listed_pids [''42'', ''self'', ''43'']). \<exists>st. current_stat sample_fs pid = Some st \<and> st_comm st \<noteq> []}"
proof -
  have "scan_ok []" by (simp add: scan_ok_def)
  then show ?thesis
    by (rule scan_current [OF _ _ surjective_pairing, THEN conjunct2, THEN conjunct2, THEN conjunct2, THEN conjunct2])
      (simp add: sample_fs_def)
qed

text \<open>Windows: a parent that the list shows started no later than its child.\<close>

lemma true_parent_older:
  assumes "p_ppid (true_parent cache e) \<noteq> 0"
  shows "\<exists>parent. hm_get cache (p_ppid (we_info e)) = Some parent
    \<and> (we_started parent = 0 \<or> we_started e = 0 \<or> we_started parent \<le> we_started e)"
  using assms by (auto simp: true_parent_def Let_def hm_has_get split: option.splits if_splits)

end
