(* ===== verification/Sockets.thy ===== *)
theory Sockets
  imports Numerals Net Tables
begin

text \<open>
  The socket table: \<^verbatim>\<open>src/src/sockets/linux.rs\<close> (the text of \<^verbatim>\<open>/proc/net\<close> and
  the owners of its inodes) and \<^verbatim>\<open>src/src/sockets/windows.rs\<close> (the rows of IP Helper). The
  contents of files and tables are arguments.
\<close>

section \<open>Linux: the text of a table\<close>

definition tcp_state :: "u8 \<Rightarrow> string" where
  "tcp_state code =
     (if code = 0x01 then ''ESTABLISHED'' else if code = 0x02 then ''SYN_SENT'' else if code = 0x03 then ''SYN_RECV''
      else if code = 0x04 then ''FIN_WAIT1'' else if code = 0x05 then ''FIN_WAIT2'' else if code = 0x06 then ''TIME_WAIT''
      else if code = 0x07 then ''CLOSE'' else if code = 0x08 then ''CLOSE_WAIT'' else if code = 0x09 then ''LAST_ACK''
      else if code = 0x0A then ''LISTEN'' else if code = 0x0B then ''CLOSING'' else ''UNKNOWN'')"

text \<open>\<^verbatim>\<open>&s[a..b]\<close> of a \<^verbatim>\<open>str\<close>: a panic out of range and inside a character.\<close>

definition char_boundary :: "string \<Rightarrow> nat \<Rightarrow> bool" where
  "char_boundary s i \<longleftrightarrow> i = length s \<or> (i < length s \<and> \<not> is_cont (char_code (s ! i)))"

definition str_slice :: "string \<Rightarrow> nat \<Rightarrow> nat \<Rightarrow> string fallible" where
  "str_slice s a b = (if a \<le> b \<and> char_boundary s a \<and> char_boundary s b then Got (take (b - a) (drop a s)) else Panic)"

definition v4_of_le :: "u32 \<Rightarrow> IpAddr" where
  "v4_of_le w = (case le_bytes 4 (unat w) of [a, b, c, d] \<Rightarrow> V4 a b c d | _ \<Rightarrow> V4 0 0 0 0)"

definition unmap_v6 :: "bytes \<Rightarrow> IpAddr" where
  "unmap_v6 octets =
     (let v = word_of_nat (be_nat octets) in
      case to_ipv4_mapped v of Some v4 \<Rightarrow> v4 | None \<Rightarrow> V6 v)"

fun addr_words :: "nat list \<Rightarrow> string \<Rightarrow> bytes \<Rightarrow> bytes fallible" where
  "addr_words [] addr acc = Got acc"
| "addr_words (w # ws) addr acc =
     andthen (str_slice addr (w * 8) (w * 8 + 8)) (\<lambda>part.
     andthen (of_option (parse_u32_hex part)) (\<lambda>v.
     addr_words ws addr (acc @ le_bytes 4 (unat v))))"

definition parse_addr :: "string \<Rightarrow> (IpAddr \<times> u16) fallible" where
  "parse_addr s =
     andthen (of_option (split_once '':'' s)) (\<lambda>(addr, port).
     andthen (of_option (parse_u16_hex port)) (\<lambda>port.
     if length addr = 8 then map_got (\<lambda>v. (v4_of_le v, port)) (of_option (parse_u32_hex addr))
     else if length addr = 32 then map_got (\<lambda>octets. (unmap_v6 octets, port)) (addr_words [0, 1, 2, 3] addr [])
     else Absent))"

definition parse_row :: "Proto \<Rightarrow> string \<Rightarrow> (SockEntry \<times> u64) fallible" where
  "parse_row proto line =
     (let f = split_whitespace line in
      if length f < 10 then Absent
      else
        andthen (parse_addr (f ! 1)) (\<lambda>(local, lport).
        andthen (parse_addr (f ! 2)) (\<lambda>(remote, rport).
        let st = (case parse_u8_hex (f ! 3) of Some v \<Rightarrow> v | None \<Rightarrow> 0);
            state = (case proto of Tcp \<Rightarrow> tcp_state st | Udp \<Rightarrow> udp_state rport);
            inode = (case parse_u64 (f ! 9) of Some v \<Rightarrow> v | None \<Rightarrow> 0) in
        Got (\<lparr>se_proto = proto, se_local = local, se_lport = lport, se_remote = remote, se_rport = rport, se_state = state,
              se_pid = None, se_ambiguous = False, se_cookie = (if inode \<noteq> 0 then Some inode else None)\<rparr>, inode))))"

text \<open>A row that does not parse is skipped; a panic ends the poll.\<close>

fun parse_rows :: "Proto \<Rightarrow> string list \<Rightarrow> (SockEntry \<times> u64) list fallible" where
  "parse_rows proto [] = Got []"
| "parse_rows proto (l # ls) =
     (case parse_row proto l of
        Panic \<Rightarrow> Panic
      | Absent \<Rightarrow> parse_rows proto ls
      | Got row \<Rightarrow> map_got (\<lambda>rows. row # rows) (parse_rows proto ls))"

definition parse_table :: "string option \<Rightarrow> Proto \<Rightarrow> (SockEntry \<times> u64) list fallible" where
  "parse_table data proto = (case data of None \<Rightarrow> Got [] | Some d \<Rightarrow> parse_rows proto (drop 1 (text_lines d)))"

section \<open>Linux: the owners of the inodes\<close>

text \<open>
  The links a process has open (\<^verbatim>\<open>None\<close> when its directory cannot be read) and the text of its
  \<^verbatim>\<open>comm\<close>, as each is read in one snapshot.
\<close>

record FdFs =
  ff_links :: "int \<Rightarrow> string list option"
  ff_comm :: "int \<Rightarrow> string option"

definition is_wineserver :: "FdFs \<Rightarrow> int \<Rightarrow> bool" where
  "is_wineserver fs pid = (case ff_comm fs pid of None \<Rightarrow> False | Some c \<Rightarrow> trim_back c = ''wineserver'')"

definition link_inode :: "string \<Rightarrow> u64 option" where
  "link_inode t =
     (if starts_with t ''socket:['' then parse_u64 (trim_end (\<lambda>c. c = CHR '']'') (drop 8 t)) else None)"

definition claim_inode :: "(int \<Rightarrow> bool) \<Rightarrow> int \<Rightarrow> int list \<Rightarrow> int list" where
  "claim_inode wine pid owners =
     (if wine pid \<and> (\<exists>p \<in> set owners. \<not> wine p) then owners
      else hs_add pid (if wine pid then owners else filter (\<lambda>p. \<not> wine p) owners))"

definition claim_link :: "(int \<Rightarrow> bool) \<Rightarrow> int \<Rightarrow> string \<Rightarrow> (u64, int list) hmap \<Rightarrow> (u64, int list) hmap" where
  "claim_link wine pid target m =
     (case link_inode target of None \<Rightarrow> m | Some ino \<Rightarrow> hm_entry ino [] (claim_inode wine pid) m)"

definition inode_owners :: "FdFs \<Rightarrow> int list \<Rightarrow> (u64, int list) hmap" where
  "inode_owners fs pids =
     fold (\<lambda>pid m. case ff_links fs pid of
                     None \<Rightarrow> m
                   | Some links \<Rightarrow> fold (claim_link (is_wineserver fs) pid) links m) pids []"

definition attach_owner :: "(u64, int list) hmap \<Rightarrow> SockEntry \<times> u64 \<Rightarrow> SockEntry" where
  "attach_owner owners row =
     (case hm_get owners (snd row) of
        None \<Rightarrow> fst row
      | Some pids \<Rightarrow> (fst row)\<lparr>se_ambiguous := 1 < length pids,
                               se_pid := (if length pids = 1 then Some (hd pids) else None)\<rparr>)"

text \<open>The four tables, in the order in which they are read, and the owners among the scanned processes.\<close>

definition linux_snapshot :: "string option \<Rightarrow> string option \<Rightarrow> string option \<Rightarrow> string option \<Rightarrow> FdFs \<Rightarrow> int list
    \<Rightarrow> SockEntry list fallible" where
  "linux_snapshot tcp tcp6 udp udp6 fs scan_pids =
     andthen (parse_table tcp Tcp) (\<lambda>a.
     andthen (parse_table tcp6 Tcp) (\<lambda>b.
     andthen (parse_table udp Udp) (\<lambda>c.
     andthen (parse_table udp6 Udp) (\<lambda>d.
     Got (map (attach_owner (inode_owners fs scan_pids)) (a @ b @ c @ d))))))"

section \<open>Windows: the rows of IP Helper\<close>

definition win_tcp_state :: "u32 \<Rightarrow> string" where
  "win_tcp_state code =
     (if code = 1 then ''CLOSE'' else if code = 2 then ''LISTEN'' else if code = 3 then ''SYN_SENT''
      else if code = 4 then ''SYN_RECV'' else if code = 5 then ''ESTABLISHED'' else if code = 6 then ''FIN_WAIT1''
      else if code = 7 then ''FIN_WAIT2'' else if code = 8 then ''CLOSE_WAIT'' else if code = 9 then ''CLOSING''
      else if code = 10 then ''LAST_ACK'' else if code = 11 then ''TIME_WAIT'' else if code = 12 then ''DELETE_TCB''
      else ''UNKNOWN'')"

text \<open>\<^verbatim>\<open>u16::from_be\<close> of the low half, on a little-endian host: the two bytes change places.\<close>

definition win_port :: "u32 \<Rightarrow> u16" where
  "win_port dw = push_bit 8 (ucast dw) OR drop_bit 8 (ucast dw)"

definition win_owner :: "u32 \<Rightarrow> int option" where
  "win_owner pid = (if pid = 0 then None else Some (sint pid))"

text \<open>
  \<^verbatim>\<open>fetch\<close>: \<open>call i\<close> is the \<open>i\<close>-th answer of the system for a buffer of that many bytes: the
  return code, the size it asks for and the bytes of the table.
\<close>

fun fetch_loop :: "nat \<Rightarrow> (nat \<Rightarrow> nat \<Rightarrow> u32 \<times> nat \<times> bytes) \<Rightarrow> nat \<Rightarrow> nat \<Rightarrow> bytes option" where
  "fetch_loop 0 call i len = None"
| "fetch_loop (Suc n) call i len =
     (case call i len of (rc, need, table) \<Rightarrow>
        if rc = 0 then Some table
        else if rc \<noteq> 122 then None
        else fetch_loop n call (Suc i) ((need + need div 8 + 256 + 7) div 8 * 8))"

definition fetch_table :: "(nat \<Rightarrow> nat \<Rightarrow> u32 \<times> nat \<times> bytes) \<Rightarrow> bytes option" where
  "fetch_table call = fetch_loop 8 call 0 0"

text \<open>\<^verbatim>\<open>rows\<close>: the count in the first four bytes, never more rows than the buffer holds.\<close>

definition table_rows :: "nat \<Rightarrow> nat \<Rightarrow> bytes \<Rightarrow> bytes list" where
  "table_rows align row_size buf =
     (let n = le_nat (take 4 buf); off = max align 4; avail = (length buf - off) div row_size in
      map (\<lambda>i. take row_size (drop (off + i * row_size) buf)) [0..<min n avail])"

record WinRow =
  wr_local :: IpAddr
  wr_lport :: u32
  wr_remote :: IpAddr
  wr_rport :: u32
  wr_state :: u32
  wr_pid :: u32
  wr_created :: u64

definition win_tcp_entry :: "WinRow \<Rightarrow> SockEntry" where
  "win_tcp_entry r = \<lparr>se_proto = Tcp, se_local = wr_local r, se_lport = win_port (wr_lport r), se_remote = wr_remote r,
     se_rport = win_port (wr_rport r), se_state = win_tcp_state (wr_state r), se_pid = win_owner (wr_pid r),
     se_ambiguous = False, se_cookie = None\<rparr>"

definition win_udp_entry :: "IpAddr \<Rightarrow> bool \<Rightarrow> WinRow \<Rightarrow> SockEntry" where
  "win_udp_entry unspecified module r = \<lparr>se_proto = Udp, se_local = wr_local r, se_lport = win_port (wr_lport r),
     se_remote = unspecified, se_rport = 0, se_state = udp_state 0, se_pid = win_owner (wr_pid r), se_ambiguous = False,
     se_cookie = (if module \<and> wr_created r \<noteq> 0 then Some (wr_created r) else None)\<rparr>"

text \<open>A table that cannot be read is left out; the UDP table without creation times replaces the one with them.\<close>

definition win_udp_rows :: "IpAddr \<Rightarrow> WinRow list option \<Rightarrow> WinRow list option \<Rightarrow> SockEntry list" where
  "win_udp_rows unspecified module_rows pid_rows =
     (case module_rows of
        Some rows \<Rightarrow> map (win_udp_entry unspecified True) rows
      | None \<Rightarrow> (case pid_rows of Some rows \<Rightarrow> map (win_udp_entry unspecified False) rows | None \<Rightarrow> []))"

definition win_snapshot :: "WinRow list option \<Rightarrow> WinRow list option \<Rightarrow> WinRow list option \<Rightarrow> WinRow list option
    \<Rightarrow> WinRow list option \<Rightarrow> WinRow list option \<Rightarrow> SockEntry list" where
  "win_snapshot tcp4 tcp6 udp4 udp4_pid udp6 udp6_pid =
     (case tcp4 of Some rows \<Rightarrow> map win_tcp_entry rows | None \<Rightarrow> [])
     @ (case tcp6 of Some rows \<Rightarrow> map win_tcp_entry rows | None \<Rightarrow> [])
     @ win_udp_rows (V4 0 0 0 0) udp4 udp4_pid @ win_udp_rows (V6 0) udp6 udp6_pid"

section \<open>The addresses of this host\<close>

text \<open>
  A node of \<^verbatim>\<open>getifaddrs\<close>, which may have no address, or a row of \<^verbatim>\<open>GetUnicastIpAddressTable\<close>, by its
  family; \<^verbatim>\<open>None\<close> when the call fails. Only Windows turns a mapped address into the IPv4 address.
\<close>

datatype SockAddr = Inet u8 u8 u8 u8 | Inet6 bytes | OtherFamily

definition linux_local_addresses :: "SockAddr option list option \<Rightarrow> IpAddr list option" where
  "linux_local_addresses nodes =
     map_option (\<lambda>ns. fold (\<lambda>n ips. case n of
                               Some (Inet a b c d) \<Rightarrow> hs_add (V4 a b c d) ips
                             | Some (Inet6 octets) \<Rightarrow> hs_add (v6_of_octets octets) ips
                             | _ \<Rightarrow> ips) ns []) nodes"

definition win_local_addresses :: "SockAddr list option \<Rightarrow> IpAddr list option" where
  "win_local_addresses rows =
     map_option (\<lambda>rs. fold (\<lambda>r ips. case r of
                               Inet a b c d \<Rightarrow> hs_add (V4 a b c d) ips
                             | Inet6 octets \<Rightarrow> hs_add (unmap_v6 octets) ips
                             | OtherFamily \<Rightarrow> ips) rs []) rows"

section \<open>The owner of a socket\<close>

text \<open>The processes of a scan that hold an inode, and those of them that count.\<close>

definition holds :: "FdFs \<Rightarrow> u64 \<Rightarrow> int \<Rightarrow> bool" where
  "holds fs ino pid \<longleftrightarrow> (\<exists>links t. ff_links fs pid = Some links \<and> t \<in> set links \<and> link_inode t = Some ino)"

definition true_owners :: "(int \<Rightarrow> bool) \<Rightarrow> int set \<Rightarrow> int set" where
  "true_owners wine H = (if \<exists>p \<in> H. \<not> wine p then {p \<in> H. \<not> wine p} else H)"

definition owners_are :: "(int \<Rightarrow> bool) \<Rightarrow> int set \<Rightarrow> int list option \<Rightarrow> bool" where
  "owners_are wine H owners \<longleftrightarrow>
     (case owners of None \<Rightarrow> H = {} | Some ps \<Rightarrow> H \<noteq> {} \<and> distinct ps \<and> set ps = true_owners wine H)"

lemma claim_owners:
  assumes "owners_are wine H owners"
  shows "owners_are wine (insert pid H) (Some (claim_inode wine pid (case owners of None \<Rightarrow> [] | Some ps \<Rightarrow> ps)))"
proof (cases owners)
  case None
  then show ?thesis using assms by (auto simp: owners_are_def true_owners_def claim_inode_def hs_add_def)
next
  case (Some ps)
  then have ps: "distinct ps" "set ps = true_owners wine H" and "H \<noteq> {}" using assms by (auto simp: owners_are_def)
  have "distinct (claim_inode wine pid ps)" using ps(1) by (simp add: claim_inode_def)
  moreover have "set (claim_inode wine pid ps) = true_owners wine (insert pid H)"
  proof (cases "\<exists>p \<in> H. \<not> wine p")
    case True
    then have "set ps = {p \<in> H. \<not> wine p}" using ps(2) by (simp add: true_owners_def)
    then show ?thesis using True by (auto simp: claim_inode_def true_owners_def)
  next
    case False
    then have "set ps = H" using ps(2) by (simp add: true_owners_def)
    then show ?thesis using False by (auto simp: claim_inode_def true_owners_def)
  qed
  ultimately show ?thesis by (simp add: Some owners_are_def)
qed

lemma claim_link_owners:
  assumes "owners_are wine H (hm_get m ino)"
  shows "owners_are wine (if link_inode t = Some ino then insert pid H else H) (hm_get (claim_link wine pid t m) ino)"
  using assms claim_owners [OF assms, of pid]
  by (auto simp: claim_link_def hm_get_entry split: option.split)

lemma claim_links_owners:
  "owners_are wine H (hm_get m ino) \<Longrightarrow>
   owners_are wine (if \<exists>t \<in> set links. link_inode t = Some ino then insert pid H else H)
     (hm_get (fold (claim_link wine pid) links m) ino)"
proof (induction links arbitrary: m H)
  case (Cons t links)
  show ?case
    using Cons.IH [OF claim_link_owners [OF Cons.prems, of t pid]] by (auto simp: insert_absorb split: if_splits)
qed simp

lemma inode_owners_are:
  "owners_are (is_wineserver fs) {pid \<in> set pids. holds fs ino pid} (hm_get (inode_owners fs pids) ino)"
proof -
  let ?step = "\<lambda>pid m. case ff_links fs pid of None \<Rightarrow> m | Some links \<Rightarrow> fold (claim_link (is_wineserver fs) pid) links m"
  have "owners_are (is_wineserver fs) (H \<union> {pid \<in> set pids. holds fs ino pid}) (hm_get (fold ?step pids m) ino)"
    if "owners_are (is_wineserver fs) H (hm_get m ino)" for H m
    using that
  proof (induction pids arbitrary: H m)
    case (Cons pid pids)
    let ?H = "if holds fs ino pid then insert pid H else H"
    have "owners_are (is_wineserver fs) ?H (hm_get (?step pid m) ino)"
    proof (cases "ff_links fs pid")
      case None
      then show ?thesis using Cons.prems by (simp add: holds_def)
    next
      case (Some links)
      then have "holds fs ino pid \<longleftrightarrow> (\<exists>t \<in> set links. link_inode t = Some ino)" by (auto simp: holds_def)
      then show ?thesis using Some claim_links_owners [OF Cons.prems, of links pid] by simp
    qed
    from Cons.IH [OF this] have "owners_are (is_wineserver fs) (?H \<union> {pid \<in> set pids. holds fs ino pid})
        (hm_get (fold ?step pids (?step pid m)) ino)" .
    moreover have "?H \<union> {pid \<in> set pids. holds fs ino pid} = H \<union> {q \<in> set (pid # pids). holds fs ino q}" by auto
    ultimately show ?case by simp
  qed simp
  from this [of "{}" "[]"] show ?thesis by (simp add: inode_owners_def owners_are_def)
qed

text \<open>
  C17. The owner of a socket. Whatever the order in which processes and descriptors are read, a row
  is attributed to a process exactly when it is the only scanned process that counts as a holder of
  the row's inode; it is marked disputed exactly when several do. Wine's server counts only when no
  other process holds the inode. Nothing else of a row changes.
\<close>

theorem socket_owner_rule:
  assumes "se_pid s = None" and "\<not> se_ambiguous s"
  shows "let H = true_owners (is_wineserver fs) {pid \<in> set pids. holds fs ino pid};
             row = attach_owner (inode_owners fs pids) (s, ino) in
      (\<forall>pid. se_pid row = Some pid \<longleftrightarrow> H = {pid}) \<and> (se_ambiguous row \<longleftrightarrow> 1 < card H)
      \<and> row = s\<lparr>se_pid := se_pid row, se_ambiguous := se_ambiguous row\<rparr>"
proof (cases "hm_get (inode_owners fs pids) ino")
  case None
  then have "{pid \<in> set pids. holds fs ino pid} = {}"
    using inode_owners_are [of fs pids ino] by (simp add: owners_are_def)
  then have "true_owners (is_wineserver fs) {pid \<in> set pids. holds fs ino pid} = {}"
    by (simp only: true_owners_def) simp
  then show ?thesis using None assms by (simp add: attach_owner_def Let_def)
next
  case (Some ps)
  let ?H = "true_owners (is_wineserver fs) {pid \<in> set pids. holds fs ino pid}"
  have ps: "distinct ps" "set ps = ?H"
    using inode_owners_are [of fs pids ino] Some by (auto simp: owners_are_def)
  have card: "card ?H = length ps" using distinct_card [OF ps(1)] ps(2) by simp
  have only: "(length ps = 1 \<and> hd ps = pid) \<longleftrightarrow> ?H = {pid}" for pid
  proof
    assume "length ps = 1 \<and> hd ps = pid"
    then have "ps = [pid]" by (cases ps) auto
    then show "?H = {pid}" unfolding ps(2) [symmetric] by simp
  next
    assume single: "?H = {pid}"
    have "set ps = {pid}" unfolding ps(2) by (rule single)
    moreover have "length ps = 1" unfolding card [symmetric] single by simp
    ultimately show "length ps = 1 \<and> hd ps = pid" by (cases ps) auto
  qed
  let ?row = "attach_owner (inode_owners fs pids) (s, ino)"
  have row: "?row = s\<lparr>se_ambiguous := 1 < length ps, se_pid := (if length ps = 1 then Some (hd ps) else None)\<rparr>"
    using Some by (simp add: attach_owner_def)
  have "se_pid ?row = Some pid \<longleftrightarrow> length ps = 1 \<and> hd ps = pid" for pid by (simp add: row)
  moreover have "se_ambiguous ?row \<longleftrightarrow> 1 < card ?H" unfolding card by (simp add: row)
  moreover have "?row = s\<lparr>se_pid := se_pid ?row, se_ambiguous := se_ambiguous ?row\<rparr>" by (simp add: row)
  ultimately show ?thesis unfolding Let_def only [symmetric] by blast
qed

theorem socket_owner_rule_witness:
  "se_pid (attach_owner (inode_owners \<lparr>ff_links = (\<lambda>pid. Some [''socket:[7]'']), ff_comm = (\<lambda>pid. if pid = 1 then Some ''wineserver'' else None)\<rparr> [1, 2])
      (\<lparr>se_proto = Udp, se_local = V4 0 0 0 0, se_lport = 1, se_remote = V4 0 0 0 0, se_rport = 0, se_state = ''UNCONNECTED'',
        se_pid = None, se_ambiguous = False, se_cookie = Some 7\<rparr>, 7)) = Some 2"
proof -
  let ?fs = "\<lparr>ff_links = (\<lambda>pid :: int. Some [''socket:[7]'']), ff_comm = (\<lambda>pid. if pid = 1 then Some ''wineserver'' else None)\<rparr>"
  let ?s = "\<lparr>se_proto = Udp, se_local = V4 0 0 0 0, se_lport = 1, se_remote = V4 0 0 0 0, se_rport = 0, se_state = ''UNCONNECTED'',
        se_pid = None, se_ambiguous = False, se_cookie = Some 7\<rparr>"
  have "link_inode ''socket:[7]'' = Some 7"
    by (simp add: link_inode_def starts_with_def trim_end_def parse_u64_def parse_unsigned_def digit_value_def char_code_def)
  then have "{pid \<in> set [1, 2]. holds ?fs 7 pid} = {1, 2}" by (auto simp: holds_def)
  moreover have "trim_back ''wineserver'' = ''wineserver''"
    by (simp add: trim_front.simps ws_len_def char_code_def)
  ultimately have "true_owners (is_wineserver ?fs) {pid \<in> set [1, 2]. holds ?fs 7 pid} = {2}"
    by (auto simp: true_owners_def is_wineserver_def)
  moreover have "se_pid ?s = None" and "\<not> se_ambiguous ?s" by simp_all
  ultimately show ?thesis
    using socket_owner_rule [of ?s ?fs "[1, 2]" 7] unfolding Let_def by simp
qed

section \<open>Addresses are read as the kernel prints them\<close>

text \<open>
  The kernel prints an address as 32-bit words of host order (little-endian) and the port in
  hexadecimal.
\<close>

definition kernel_word :: "bytes \<Rightarrow> string" where
  "kernel_word bs = hex_fixed 8 (le_nat bs)"

fun kernel_addr :: "IpAddr \<Rightarrow> u16 \<Rightarrow> string" where
  "kernel_addr (V4 a b c d) port = kernel_word [a, b, c, d] @ '':'' @ hex_fixed 4 (unat port)"
| "kernel_addr (V6 v) port =
     (let bs = be_bytes 16 (unat v) in
      kernel_word (take 4 bs) @ kernel_word (take 4 (drop 4 bs)) @ kernel_word (take 4 (drop 8 bs))
      @ kernel_word (drop 12 bs) @ '':'' @ hex_fixed 4 (unat port))"

definition plain_ip :: "IpAddr \<Rightarrow> IpAddr" where
  "plain_ip ip = (case ip of V4 a b c d \<Rightarrow> V4 a b c d
     | V6 v \<Rightarrow> (case to_ipv4_mapped v of Some v4 \<Rightarrow> v4 | None \<Rightarrow> V6 v))"

lemma hex_no_colon: "CHR '':'' \<notin> set (hex_fixed w n)"
proof
  assume "CHR '':'' \<in> set (hex_fixed w n)"
  then obtain d where d: "d < 16" "CHR '':'' = upper_digit d" using hex_fixed_chars by blast
  have "char_code CHR '':'' = 58" by (simp add: char_code_def)
  then show False using d char_code_upper [of d] by (auto split: if_splits)
qed

lemma split_once_char: "c \<notin> set a \<Longrightarrow> split_once [c] (a @ c # b) = Some (a, b)"
  by (induction a) auto

lemma parse_port: "parse_u16_hex (hex_fixed 4 (unat port)) = Some port"
  by (simp add: parse_u16_hex_def parse_unsigned_hex_fixed)

lemma parse_word: "length bs = 4 \<Longrightarrow> parse_u32_hex (kernel_word bs) = Some (word_of_nat (le_nat bs))"
  using le_nat_less [of bs] by (simp add: parse_u32_hex_def kernel_word_def parse_unsigned_hex_fixed)

lemma le_bytes_word: "length bs = 4 \<Longrightarrow> le_bytes 4 (unat (word_of_nat (le_nat bs) :: u32)) = bs"
  using le_nat_less [of bs] le_bytes_le_nat [of bs] by (simp add: unat_of_nat)

lemma hex_not_cont: "i < length (hex_fixed w n) \<Longrightarrow> \<not> is_cont (char_code (hex_fixed w n ! i))"
proof -
  assume "i < length (hex_fixed w n)"
  then obtain d where "d < 16" "hex_fixed w n ! i = upper_digit d" using hex_fixed_chars nth_mem by blast
  then show ?thesis by (auto simp: is_cont_def char_code_upper)
qed

lemma length_kernel_word [simp]: "length (kernel_word bs) = 8"
  by (simp add: kernel_word_def)

lemma str_slice_ascii:
  assumes "\<forall>c \<in> set s. \<not> is_cont (char_code c)" and "a \<le> b" and "b \<le> length s"
  shows "str_slice s a b = Got (take (b - a) (drop a s))"
  using assms by (auto simp: str_slice_def char_boundary_def)

lemma unmap_be_bytes: "unmap_v6 (be_bytes 16 (unat (v :: 128 word))) = plain_ip (V6 v)"
proof -
  have "unat v < 256 ^ 16" using unsigned_less [of v, where ?'a = nat] by simp
  then have "be_nat (be_bytes 16 (unat v)) = unat v" by (simp add: be_bytes_def be_nat_rev le_nat_le_bytes)
  then show ?thesis by (simp add: unmap_v6_def plain_ip_def Let_def)
qed

text \<open>
  Kernel addresses. An IPv4 or IPv6 address and port printed the way \<^verbatim>\<open>/proc/net\<close>
  prints them are read back as that address and port; only an IPv4-mapped address becomes the IPv4
  address it stands for.
\<close>

theorem proc_addr_roundtrip: "parse_addr (kernel_addr ip port) = Got (plain_ip ip, port)"
proof (cases ip)
  case (V4 a b c d)
  have "CHR '':'' \<notin> set (kernel_word [a, b, c, d])" by (simp add: kernel_word_def hex_no_colon)
  then show ?thesis
    using parse_word [of "[a, b, c, d]"] le_bytes_word [of "[a, b, c, d]"]
    by (simp add: V4 parse_addr_def split_once_char parse_port v4_of_le_def plain_ip_def del: le_bytes.simps)
next
  case (V6 v)
  define bs where "bs = be_bytes 16 (unat v)"
  have len: "length bs = 16" by (simp add: bs_def)
  define w0 w1 w2 w3 where w: "w0 = kernel_word (take 4 bs)" "w1 = kernel_word (take 4 (drop 4 bs))"
    "w2 = kernel_word (take 4 (drop 8 bs))" "w3 = kernel_word (drop 12 bs)"
  let ?addr = "w0 @ w1 @ w2 @ w3"
  have eq: "kernel_addr ip port = ?addr @ CHR '':'' # hex_fixed 4 (unat port)"
    by (simp add: V6 w bs_def Let_def)
  have colon: "CHR '':'' \<notin> set ?addr" by (simp add: w kernel_word_def hex_no_colon)
  have pieces: "split_once '':'' (w0 @ w1 @ w2 @ w3 @ CHR '':'' # hex_fixed 4 (unat port)) = Some (?addr, hex_fixed 4 (unat port))"
    using split_once_char [OF colon] by simp
  have "\<not> is_cont (char_code c)" if "c \<in> set (kernel_word x)" for c x
    using that hex_not_cont [of _ 8 "le_nat x"] by (auto simp: kernel_word_def in_set_conv_nth)
  then have ascii: "\<forall>c \<in> set ?addr. \<not> is_cont (char_code c)" by (auto simp: w)
  have len8: "length w0 = 8" "length w1 = 8" "length w2 = 8" "length w3 = 8" by (simp_all add: w)
  have parts: "str_slice ?addr 0 8 = Got w0" "str_slice ?addr 8 16 = Got w1" "str_slice ?addr 16 24 = Got w2"
      "str_slice ?addr 24 32 = Got w3"
    by (simp_all add: str_slice_ascii [OF ascii] len8)
  have bytes: "take 4 bs @ take 4 (drop 4 bs) @ take 4 (drop 8 bs) @ drop 12 bs = bs"
    by (rule nth_equalityI) (auto simp: len nth_append)
  have "addr_words [0, 1, 2, 3] ?addr [] = Got bs"
    using parts bytes by (simp add: w parse_word len le_bytes_word del: le_bytes.simps)
  then have "parse_addr (kernel_addr ip port) = Got (unmap_v6 bs, port)"
    unfolding eq by (simp add: parse_addr_def pieces parse_port len8 del: addr_words.simps)
  then show ?thesis unfolding bs_def unmap_be_bytes V6 .
qed

text \<open>Windows: no row lies outside the buffer, whatever count the system reports.\<close>

lemma table_rows_inside:
  "0 < row_size \<Longrightarrow> r \<in> set (table_rows align row_size buf) \<Longrightarrow> length r = row_size"
proof -
  assume pos: "0 < row_size" and r: "r \<in> set (table_rows align row_size buf)"
  let ?off = "max align 4"
  obtain i where i: "i < (length buf - ?off) div row_size" "r = take row_size (drop (?off + i * row_size) buf)"
    using r by (auto simp: table_rows_def Let_def)
  from i(1) have "Suc i * row_size \<le> length buf - ?off"
    by (metis Suc_leI div_times_less_eq_dividend mult_le_mono1 order_trans)
  moreover have "row_size \<le> Suc i * row_size" by simp
  ultimately have "?off + Suc i * row_size \<le> length buf" using pos by linarith
  then have "?off + i * row_size + row_size \<le> length buf" by simp
  then show ?thesis using i(2) by simp
qed

end
