(* ===== verification/Capture.thy ===== *)
theory Capture
  imports Pcapng Numerals
begin

text \<open>
  Capture (\<^verbatim>\<open>src/src/capture.rs\<close>, \<^verbatim>\<open>src/src/capture/unix.rs\<close>,
  \<^verbatim>\<open>src/src/capture/windows.rs\<close>): the bounded queue between capture and accounting, the
  dumpcap process, the live stream and the recording to a file. What the child process and the
  system answer is an argument; \<open>envs\<close> are the clock and cryptography the packet parser sees.
\<close>

section \<open>The queue and its counters\<close>

definition QUEUE_CAPACITY :: nat where "QUEUE_CAPACITY = 8192"

record Metrics =
  m_dropped :: u64
  m_accepted :: u64
  m_processed :: u64

definition metrics_default :: Metrics where
  "metrics_default = \<lparr>m_dropped = 0, m_accepted = 0, m_processed = 0\<rparr>"

text \<open>The channel: what waits in it, and whether its receiver is gone.\<close>

record Channel =
  ch_queue :: "Packet list"
  ch_closed :: bool
  ch_metrics :: Metrics

text \<open>\<^verbatim>\<open>PacketSender::send\<close>: false when the receiver is gone.\<close>

definition sender_send :: "nat \<Rightarrow> Packet \<Rightarrow> Channel \<Rightarrow> bool \<times> Channel" where
  "sender_send cap p ch =
     (let m = ch_metrics ch in
      if ch_closed ch then (False, ch)
      else if length (ch_queue ch) < cap
      then (True, ch\<lparr>ch_queue := ch_queue ch @ [p], ch_metrics := m\<lparr>m_accepted := m_accepted m + 1\<rparr>\<rparr>)
      else (True, ch\<lparr>ch_metrics := m\<lparr>m_dropped := m_dropped m + 1\<rparr>\<rparr>))"

text \<open>\<^verbatim>\<open>recv_many\<close>, and the counter after the batch was accounted.\<close>

definition BATCH :: nat where "BATCH = 256"

definition take_batch :: "Channel \<Rightarrow> Packet list \<times> Channel" where
  "take_batch ch = (take BATCH (ch_queue ch), ch\<lparr>ch_queue := drop BATCH (ch_queue ch)\<rparr>)"

text \<open>A batch that ends in a panic is counted as lost, then as processed.\<close>

definition batch_done :: "nat \<Rightarrow> bool \<Rightarrow> Metrics \<Rightarrow> Metrics" where
  "batch_done n panicked m =
     (let m1 = (if panicked then m\<lparr>m_dropped := m_dropped m + word_of_nat n\<rparr> else m) in
      m1\<lparr>m_processed := m_processed m1 + word_of_nat n\<rparr>)"

section \<open>The dumpcap process\<close>

text \<open>\<^verbatim>\<open>iface_args\<close> and \<^verbatim>\<open>command\<close>.\<close>

definition iface_args :: "string \<Rightarrow> string list" where
  "iface_args iface =
     concat (map (\<lambda>n. [''-i'', n]) (filter (\<lambda>n. n \<noteq> []) (map trim (split_on (\<lambda>c. c = CHR '','') iface))))"

definition command_args :: "string \<Rightarrow> string \<Rightarrow> string \<Rightarrow> string list" where
  "command_args iface snaplen flt = [''-s'', snaplen, ''-f'', flt, ''-p''] @ iface_args iface @ [''-q'']"

definition NO_LOOPBACK :: string where
  "NO_LOOPBACK = ''not ((net 127.0.0.0/8 or host ::1) and not port 53)''"

datatype cap_error =
    AlreadyRecording | ChildFailed string | StartTimeout | StopTimeout | OsError string
  | CaptureNotRunning | CaptureStopped | StreamEnded | WorkerStopped

text \<open>What \<^verbatim>\<open>try_wait\<close> answers, and how a bounded wait for the child ends.\<close>

datatype wait_status = Running | Exited bool | WaitError string
datatype wait_outcome = Ended bool | WaitFailed string | WaitTimeout

text \<open>The child's error text: no chunk is added once 4096 bytes are there.\<close>

definition collect_stderr :: "bytes \<Rightarrow> string \<Rightarrow> string" where
  "collect_stderr chunk txt' = (if length txt' < 4096 then txt' @ from_utf8_lossy chunk else txt')"

definition process_failure :: "string \<Rightarrow> cap_error" where
  "process_failure stderr = ChildFailed (trim stderr)"

definition process_check :: "wait_status \<Rightarrow> string \<Rightarrow> cap_error option" where
  "process_check status stderr =
     (case status of
        WaitError e \<Rightarrow> Some (OsError e)
      | Exited _ \<Rightarrow> Some (process_failure stderr)
      | Running \<Rightarrow> None)"

definition START_TIMEOUT :: nat where "START_TIMEOUT = 3 * 10 ^ 9"

text \<open>
  \<^verbatim>\<open>Process::ready\<close>: every 20 ms the child, the condition and the deadline are looked at.
  \<open>obs i\<close> is what round \<open>i\<close> sees: the child's state and error text, the condition, the clock in ns.
  The recursion has fuel, since only the clock ends the loop.
\<close>

fun ready_loop :: "nat \<Rightarrow> (nat \<Rightarrow> wait_status \<times> string \<times> bool \<times> nat) \<Rightarrow> nat \<Rightarrow> nat \<Rightarrow> (cap_error option) option" where
  "ready_loop 0 obs deadline i = None"
| "ready_loop (Suc n) obs deadline i =
     (case obs i of (status, stderr, ready, now) \<Rightarrow>
        case process_check status stderr of
          Some e \<Rightarrow> Some (Some e)
        | None \<Rightarrow>
            if ready then Some None
            else if deadline \<le> now then Some (Some StartTimeout)
            else ready_loop n obs deadline (Suc i))"

definition process_ready :: "nat \<Rightarrow> (nat \<Rightarrow> wait_status \<times> string \<times> bool \<times> nat) \<Rightarrow> nat \<Rightarrow> (cap_error option) option" where
  "process_ready fuel obs now = ready_loop fuel obs (now + START_TIMEOUT) 0"

definition process_stop :: "wait_status \<Rightarrow> wait_outcome \<Rightarrow> string \<Rightarrow> cap_error option" where
  "process_stop status outcome stderr =
     (case status of
        WaitError e \<Rightarrow> Some (OsError e)
      | Exited ok \<Rightarrow> if ok then None else Some (process_failure stderr)
      | Running \<Rightarrow>
          (case outcome of
             Ended True \<Rightarrow> None
           | Ended False \<Rightarrow> Some (process_failure stderr)
           | WaitFailed e \<Rightarrow> Some (OsError e)
           | WaitTimeout \<Rightarrow> Some StopTimeout))"

section \<open>The live stream\<close>

record Live =
  lv_reader :: pcapng
  lv_prefix :: bytes
  lv_started :: bool
  lv_closed :: bool
  lv_channel :: Channel

definition MAGIC_PREFIX :: bytes where "MAGIC_PREFIX = [0x0a, 0x0d, 0x0d, 0x0a]"

fun send_all :: "nat \<Rightarrow> Packet list \<Rightarrow> Channel \<Rightarrow> bool \<times> Channel" where
  "send_all cap [] ch = (True, ch)"
| "send_all cap (p # ps) ch =
     (case sender_send cap p ch of (ok, ch') \<Rightarrow> if ok then send_all cap ps ch' else (False, ch'))"

text \<open>
  One read of the child's output. The first four bytes must be those of a pcapng file. \<^verbatim>\<open>None\<close>
  ends the task.
\<close>

definition live_read :: "(nat \<Rightarrow> frame_env) \<Rightarrow> nat \<Rightarrow> bytes option \<Rightarrow> Live \<Rightarrow> (bool \<times> Live) fallible" where
  "live_read envs cap input lv =
     (case input of
        None \<Rightarrow> Got (False, lv\<lparr>lv_closed := True\<rparr>)
      | Some data \<Rightarrow>
          if data = [] then Got (False, lv\<lparr>lv_closed := True\<rparr>)
          else
            let looking = length (lv_prefix lv) < 4;
                prefix = (if looking then lv_prefix lv @ take (4 - length (lv_prefix lv)) data else lv_prefix lv);
                complete = (looking \<and> length prefix = 4);
                lv1 = lv\<lparr>lv_prefix := prefix\<rparr> in
            if complete \<and> prefix \<noteq> MAGIC_PREFIX then Got (False, lv1\<lparr>lv_closed := True\<rparr>)
            else
              let lv2 = (if complete then lv1\<lparr>lv_started := True\<rparr> else lv1) in
              andthen (reader_push envs data (lv_reader lv2)) (\<lambda>r.
                case send_all cap (snd r) (lv_channel lv2) of
                  (ok, ch) \<Rightarrow>
                    let lv3 = lv2\<lparr>lv_reader := fst r, lv_channel := ch\<rparr> in
                    if ok then Got (True, lv3) else Got (False, lv3\<lparr>lv_closed := True\<rparr>)))"

definition live_check :: "wait_status \<Rightarrow> string \<Rightarrow> Live \<Rightarrow> cap_error option" where
  "live_check status stderr lv =
     (case process_check status stderr of
        Some e \<Rightarrow> Some e
      | None \<Rightarrow> if lv_closed lv then Some StreamEnded else None)"

section \<open>The recording\<close>

text \<open>Linux: the child that writes the file, by its process id.\<close>

record Dump =
  du_process :: "nat option"
  du_error :: "cap_error option"
  du_path :: "string option"
  du_started_ms :: "u64 option"

definition dump_default :: Dump where
  "dump_default = \<lparr>du_process = None, du_error = None, du_path = None, du_started_ms = None\<rparr>"

definition dump_is_running :: "Dump \<Rightarrow> bool" where
  "dump_is_running d \<longleftrightarrow> du_process d \<noteq> None \<and> du_error d = None"

text \<open>\<open>checked\<close> is what \<^verbatim>\<open>Process::check\<close> says of the child now.\<close>

definition dump_poll_error :: "cap_error option \<Rightarrow> Dump \<Rightarrow> cap_error option \<times> Dump" where
  "dump_poll_error checked d =
     (let d1 = (if du_error d = None \<and> du_process d \<noteq> None \<and> checked \<noteq> None then d\<lparr>du_error := checked\<rparr> else d) in
      (du_error d1, d1))"

text \<open>\<open>spawned\<close> is the child or the reason it did not start; \<open>ready\<close> what waiting for its file gave.\<close>

definition dump_start :: "u64 \<Rightarrow> string + nat \<Rightarrow> cap_error option \<Rightarrow> string \<Rightarrow> Dump \<Rightarrow> cap_error option \<times> Dump" where
  "dump_start now spawned ready path d =
     (if du_process d \<noteq> None then (Some AlreadyRecording, d)
      else
        let d1 = d\<lparr>du_error := None\<rparr> in
        case spawned of
          Inl e \<Rightarrow> (Some (OsError e), d1)
        | Inr pid \<Rightarrow>
            (case ready of
               Some e \<Rightarrow> (Some e, d1)
             | None \<Rightarrow> (None, d1\<lparr>du_path := Some path, du_process := Some pid, du_started_ms := Some now\<rparr>)))"

definition dump_stop :: "cap_error option \<Rightarrow> Dump \<Rightarrow> (cap_error + string option) \<times> Dump" where
  "dump_stop stopped d =
     (case du_process d of
        None \<Rightarrow> (Inr None, d)
      | Some _ \<Rightarrow>
          let d1 = d\<lparr>du_process := None, du_started_ms := None\<rparr> in
          (case stopped of Some e \<Rightarrow> (Inl e, d1) | None \<Rightarrow> (Inr (du_path d1), d1)))"

text \<open>Windows: the writer lives in the ETW worker; \<open>etw\<close> values are its answers.\<close>

record WinDump =
  wd_recording :: bool
  wd_path :: "string option"
  wd_started_ms :: "u64 option"

definition win_dump_running :: "cap_error option \<Rightarrow> WinDump \<Rightarrow> bool" where
  "win_dump_running etw_error d \<longleftrightarrow> wd_recording d \<and> etw_error = None"

definition win_dump_poll_error :: "cap_error option \<Rightarrow> WinDump \<Rightarrow> cap_error option" where
  "win_dump_poll_error etw_error d = (if wd_recording d then etw_error else None)"

definition win_dump_start :: "u64 \<Rightarrow> cap_error option \<Rightarrow> string \<Rightarrow> WinDump \<Rightarrow> cap_error option \<times> WinDump" where
  "win_dump_start now etw_start path d =
     (if wd_recording d then (Some AlreadyRecording, d)
      else case etw_start of
             Some e \<Rightarrow> (Some e, d)
           | None \<Rightarrow> (None, \<lparr>wd_recording = True, wd_path = Some path, wd_started_ms = Some now\<rparr>))"

definition win_dump_stop :: "cap_error option \<Rightarrow> cap_error option \<Rightarrow> WinDump \<Rightarrow> (cap_error + string option) \<times> WinDump" where
  "win_dump_stop etw_error etw_stop d =
     (if \<not> wd_recording d then (Inr None, d)
      else
        let d1 = d\<lparr>wd_recording := False, wd_started_ms := None\<rparr> in
        case etw_stop of
          Some e \<Rightarrow> (Inl e, d1)
        | None \<Rightarrow> (case etw_error of Some e \<Rightarrow> (Inl e, d1) | None \<Rightarrow> (Inr (wd_path d1), d1)))"

section \<open>Accounting\<close>

text \<open>What happens to the queue: a packet is offered, or a batch is taken and accounted.\<close>

datatype queue_event = Offer Packet | Account bool

definition queue_step :: "nat \<Rightarrow> queue_event \<Rightarrow> Channel \<Rightarrow> Channel" where
  "queue_step cap ev ch =
     (case ev of
        Offer p \<Rightarrow> snd (sender_send cap p ch)
      | Account panicked \<Rightarrow>
          (let (batch, ch') = take_batch ch in
           ch'\<lparr>ch_metrics := batch_done (length batch) panicked (ch_metrics ch')\<rparr>))"

definition queue_ok :: "nat \<Rightarrow> Channel \<Rightarrow> bool" where
  "queue_ok cap ch \<longleftrightarrow> length (ch_queue ch) \<le> cap
     \<and> m_accepted (ch_metrics ch) = m_processed (ch_metrics ch) + word_of_nat (length (ch_queue ch))"

lemma queue_step_ok:
  assumes "queue_ok cap ch"
  shows "queue_ok cap (queue_step cap ev ch)"
proof (cases ev)
  case (Offer p)
  then show ?thesis using assms by (auto simp: queue_step_def queue_ok_def sender_send_def Let_def)
next
  case (Account panicked)
  let ?q = "ch_queue ch"
  have "length ?q = length (take BATCH ?q) + length (drop BATCH ?q)"
    by (metis append_take_drop_id length_append)
  then have "(word_of_nat (length ?q) :: u64) = word_of_nat (length (take BATCH ?q)) + word_of_nat (length (drop BATCH ?q))"
    by (metis of_nat_add)
  then show ?thesis
    using assms Account by (simp add: queue_step_def queue_ok_def take_batch_def batch_done_def Let_def del: length_take length_drop)
      (auto simp: add.assoc)
qed

definition empty_channel :: Channel where
  "empty_channel = \<lparr>ch_queue = [], ch_closed = False, ch_metrics = metrics_default\<rparr>"

definition offers :: "queue_event list \<Rightarrow> nat" where
  "offers evs = length (filter (\<lambda>ev. case ev of Offer _ \<Rightarrow> True | _ \<Rightarrow> False) evs)"


definition some_packet :: Packet where
  "some_packet = \<lparr>pk_proto = Udp, pk_src = V4 192 0 2 10, pk_sport = 40000, pk_dst = V4 198 51 100 20, pk_dport = 27015,
     pk_bytes = 128, pk_sni = None, pk_dns_addrs = []\<rparr>"

definition some_events :: "queue_event list" where
  "some_events = [Offer some_packet, Offer some_packet, Offer some_packet, Account False]"


text \<open>Waiting for the child ends.\<close>

text \<open>What round \<open>k\<close> sees: the child runs, the condition, the clock.\<close>

abbreviation round_error :: "(nat \<Rightarrow> wait_status \<times> string \<times> bool \<times> nat) \<Rightarrow> nat \<Rightarrow> cap_error option" where
  "round_error obs k \<equiv> process_check (fst (obs k)) (fst (snd (obs k)))"

abbreviation round_ready :: "(nat \<Rightarrow> wait_status \<times> string \<times> bool \<times> nat) \<Rightarrow> nat \<Rightarrow> bool" where
  "round_ready obs k \<equiv> fst (snd (snd (obs k)))"

abbreviation round_clock :: "(nat \<Rightarrow> wait_status \<times> string \<times> bool \<times> nat) \<Rightarrow> nat \<Rightarrow> nat" where
  "round_clock obs k \<equiv> snd (snd (snd (obs k)))"

lemma ready_loop_Suc:
  "ready_loop (Suc n) obs deadline i =
     (case round_error obs i of
        Some e \<Rightarrow> Some (Some e)
      | None \<Rightarrow> if round_ready obs i then Some None
                else if deadline \<le> round_clock obs i then Some (Some StartTimeout)
                else ready_loop n obs deadline (Suc i))"
  by (simp add: split_beta)

text \<open>A round decides: the child has failed, or the capture has begun, or the time is over.\<close>

definition round_decides :: "(nat \<Rightarrow> wait_status \<times> string \<times> bool \<times> nat) \<Rightarrow> nat \<Rightarrow> nat \<Rightarrow> cap_error option \<Rightarrow> bool" where
  "round_decides obs deadline k r \<longleftrightarrow>
     (case round_error obs k of
        Some e \<Rightarrow> r = Some e
      | None \<Rightarrow> if round_ready obs k then r = None else deadline \<le> round_clock obs k \<and> r = Some StartTimeout)"

definition round_waits :: "(nat \<Rightarrow> wait_status \<times> string \<times> bool \<times> nat) \<Rightarrow> nat \<Rightarrow> nat \<Rightarrow> bool" where
  "round_waits obs deadline k \<longleftrightarrow> round_error obs k = None \<and> \<not> round_ready obs k \<and> round_clock obs k < deadline"

lemma ready_loop_waits: "round_waits obs deadline i \<Longrightarrow> ready_loop (Suc n) obs deadline i = ready_loop n obs deadline (Suc i)"
  unfolding ready_loop_Suc round_waits_def by simp

lemma ready_loop_decides:
  "\<not> round_waits obs deadline i \<Longrightarrow> \<exists>r. ready_loop (Suc n) obs deadline i = Some r \<and> round_decides obs deadline i r"
  unfolding ready_loop_Suc round_waits_def round_decides_def by (auto split: option.splits)

lemma ready_loop_answer:
  assumes "\<And>i. start + i * 20000000 \<le> round_clock obs i"
  shows "deadline \<le> start + (i + n) * 20000000 \<Longrightarrow>
    \<exists>k r. i \<le> k \<and> (\<forall>j. i \<le> j \<and> j < k \<longrightarrow> round_waits obs deadline j) \<and> ready_loop (Suc n) obs deadline i = Some r
      \<and> round_decides obs deadline k r"
proof (induction n arbitrary: i)
  case 0
  then have "\<not> round_waits obs deadline i" using assms [of i] by (simp add: round_waits_def)
  from ready_loop_decides [OF this] show ?case by fastforce
next
  case (Suc n)
  show ?case
  proof (cases "round_waits obs deadline i")
    case True
    have "deadline \<le> start + (Suc i + n) * 20000000" using Suc.prems by simp
    from Suc.IH [OF this] obtain k r where k: "Suc i \<le> k" "\<forall>j. Suc i \<le> j \<and> j < k \<longrightarrow> round_waits obs deadline j"
      "ready_loop (Suc n) obs deadline (Suc i) = Some r" "round_decides obs deadline k r"
      by blast
    moreover have "round_waits obs deadline j" if "i \<le> j" "j < k" for j
      using k(2) True that by (cases "j = i") auto
    moreover note ready_loop_waits [OF True, of "Suc n"]
    ultimately show ?thesis by (metis Suc_leD)
  next
    case False
    from ready_loop_decides [OF this] show ?thesis by fastforce
  qed
qed

text \<open>
  C19. Waiting for dumpcap ends with the first thing that happens. When the clock advances by the pause of
  each round, \<^verbatim>\<open>Process::ready\<close> returns within 152 rounds. Before the round that decides, the child
  ran, the capture had not begun and the three seconds were not over; in it the child has failed, which
  is the answer, or the capture has begun, or the time is over.
\<close>

theorem process_ready_returns:
  assumes "\<And>i. start + i * 20000000 \<le> snd (snd (snd (obs i)))"
  shows "\<exists>k r. (\<forall>j < k. round_waits obs (start + START_TIMEOUT) j) \<and> process_ready 152 obs start = Some r
    \<and> round_decides obs (start + START_TIMEOUT) k r"
proof -
  have "start + START_TIMEOUT \<le> start + (0 + 151) * 20000000" by (simp add: START_TIMEOUT_def)
  note loop = ready_loop_answer [OF assms this]
  have "process_ready 152 obs start = ready_loop (Suc 151) obs (start + START_TIMEOUT) 0"
    by (simp add: process_ready_def del: ready_loop.simps)
  then show ?thesis using loop by (simp only: le0 simp_thms)
qed

theorem process_ready_returns_witness: "process_ready 152 (\<lambda>i. (Running, [], 3 \<le> i, i * 20000000)) 0 = Some None"
proof -
  let ?obs = "\<lambda>i :: nat. (Running, [] :: string, 3 \<le> i, i * 20000000)"
  obtain k r where k: "\<forall>j < k. round_waits ?obs START_TIMEOUT j" "process_ready 152 ?obs 0 = Some r"
    "round_decides ?obs START_TIMEOUT k r"
    using process_ready_returns [of 0 ?obs] by auto
  have "\<not> round_waits ?obs START_TIMEOUT 3" by (simp add: round_waits_def)
  then have "k \<le> 3" using k(1) not_le by blast
  then have "r = None"
    using k(3) by (auto simp: round_decides_def process_check_def START_TIMEOUT_def split: if_splits)
  then show ?thesis using k(2) by simp
qed

end
