(* ===== verification/App_State.thy ===== *)
theory App_State
  imports Annotate Names_Facts Proc_Scan Sockets Capture
begin

text \<open>
  The shared state of the program (\<^verbatim>\<open>App\<close> of \<^verbatim>\<open>src/src/main.rs\<close>) and what its tasks do to it
  under the lock: the accounting of a batch of packets, a round of \<^verbatim>\<open>poll_loop\<close>, the choice of a
  process, and the bookkeeping of a recording (\<^verbatim>\<open>remember_dump_conn\<close>, \<^verbatim>\<open>record_dump\<close>,
  \<^verbatim>\<open>track_dump\<close>). The fields that only the window and the HTTP server read (the capture hint, the
  elevation flag) are in \<^verbatim>\<open>Program\<close>.
\<close>

section \<open>Data\<close>

definition DUMP_IDLE_MS :: u64 where "DUMP_IDLE_MS = 15000"
definition MAX_DUMP_CONNS :: nat where "MAX_DUMP_CONNS = 40000"
definition MAX_DUMP_PROCS :: nat where "MAX_DUMP_PROCS = 4096"

record DumpMeta =
  dm_process :: "ProcInfo option"
  dm_only_group :: bool
  dm_pids :: "int list"
  dm_instances :: "Identity list"
  dm_limit_reached :: bool
  dm_dropped_at_start :: u64
  dm_started :: u64
  dm_last_alive :: u64
  dm_conns :: conn_map

datatype DumpPhase = Idle | Starting | Recording | Finishing

text \<open>The messages of the code, which joins those of one outcome with semicolons.\<close>

datatype rec_error =
    AlreadyActive | CaptureOff | NoProcessSelected | GroupTooLarge | CaptureError cap_error | NothingToStop
  | NotAccounted | MetadataLimit | DataLost | OwnershipIncomplete | FilterFailed annotate_error
  | ProcessingFailed annotate_error | SidecarFailed string | NoFileOrMetadata

record DumpOutcome =
  oc_ok :: bool
  oc_path :: "string option"
  oc_size :: u64
  oc_sidecar :: "string option"
  oc_error :: "rec_error list option"
  oc_unfiltered :: bool

definition outcome_default :: DumpOutcome where
  "outcome_default = \<lparr>oc_ok = False, oc_path = None, oc_size = 0, oc_sidecar = None, oc_error = None, oc_unfiltered = False\<rparr>"

definition outcome_failed :: "rec_error \<Rightarrow> DumpOutcome" where
  "outcome_failed e = outcome_default\<lparr>oc_error := Some [e]\<rparr>"

record App =
  a_store :: Store
  a_procs :: "ProcInfo list"
  a_active_pids :: "int list"
  a_selected :: "int option"
  a_selected_instance :: "Identity option"
  a_metrics :: Metrics
  a_group :: "int list"
  a_dump :: Dump
  a_phase :: DumpPhase
  a_outcome :: "DumpOutcome option"
  a_meta :: "DumpMeta option"
  a_auto_stopped :: "string option"
  a_capture_on :: bool
  a_iface :: string
  a_whois :: "(IpAddr, Whois) hmap"
  a_self_roots :: "int list"
  a_self_pids :: "int list"
  a_port :: u16

definition app_new :: "u64 \<Rightarrow> int \<Rightarrow> string \<Rightarrow> u16 \<Rightarrow> App" where
  "app_new now me iface port = \<lparr>a_store = store_default now, a_procs = [], a_active_pids = [], a_selected = None,
     a_selected_instance = None, a_metrics = metrics_default, a_group = [], a_dump = dump_default, a_phase = Idle,
     a_outcome = None, a_meta = None, a_auto_stopped = None, a_capture_on = False, a_iface = iface, a_whois = [],
     a_self_roots = [me], a_self_pids = [me], a_port = port\<rparr>"

section \<open>The selected process\<close>

text \<open>A list of processes as a map; the last one wins.\<close>

definition proc_map_of :: "ProcInfo list \<Rightarrow> proc_map" where
  "proc_map_of ps = fold (\<lambda>p m. hm_put (p_pid p) p m) ps []"

definition find_proc :: "ProcInfo list \<Rightarrow> int \<Rightarrow> ProcInfo option" where
  "find_proc ps pid = List.find (\<lambda>p. p_pid p = pid) ps"

definition api_select :: "int option \<Rightarrow> App \<Rightarrow> App" where
  "api_select chosen g = g\<lparr>
     a_selected := chosen,
     a_selected_instance := (case chosen of None \<Rightarrow> None | Some pid \<Rightarrow> map_option identity (find_proc (a_procs g) pid)),
     a_group := (case chosen of Some pid \<Rightarrow> descendants (a_procs g) pid | None \<Rightarrow> [])\<rparr>"

definition refresh_selected_group :: "ProcInfo list \<Rightarrow> bool \<Rightarrow> App \<Rightarrow> App" where
  "refresh_selected_group processes full g =
     (case a_selected g of
        None \<Rightarrow> g
      | Some pid \<Rightarrow>
          (case find_proc processes pid of
             Some process \<Rightarrow>
               if Some (identity process) = a_selected_instance g
               then (if full then g\<lparr>a_group := descendants processes pid\<rparr> else g)
               else g\<lparr>a_selected := None, a_selected_instance := None, a_group := []\<rparr>
           | None \<Rightarrow> g\<lparr>a_group := []\<rparr>))"

section \<open>The connections of a recording\<close>

definition dump_owns :: "DumpMeta \<Rightarrow> Conn \<Rightarrow> bool" where
  "dump_owns m c =
     (case (c_pid c, c_owner_started c) of
        (Some pid, Some started) \<Rightarrow> \<lparr>id_pid = pid, id_started = started\<rparr> \<in> set (dm_instances m)
      | _ \<Rightarrow> False)"

definition remember_dump_conn :: "ConnKey \<Rightarrow> Conn \<Rightarrow> DumpMeta \<Rightarrow> DumpMeta" where
  "remember_dump_conn key c m =
     (if c_last_seen c < dm_started m then m
      else
        case hm_get (dm_conns m) key of
          Some old \<Rightarrow> m\<lparr>dm_conns := hm_put key (update_recording old c) (dm_conns m)\<rparr>
        | None \<Rightarrow>
            if \<not> dm_only_group m \<or> dump_owns m c then
              (if MAX_DUMP_CONNS \<le> length (dm_conns m) then m\<lparr>dm_limit_reached := True\<rparr>
               else m\<lparr>dm_conns := hm_put key c (dm_conns m)\<rparr>)
            else m)"

definition record_dump_conn :: "ConnKey \<Rightarrow> App \<Rightarrow> App" where
  "record_dump_conn key g =
     (case (a_meta g, hm_get (s_conns (a_store g)) key) of
        (Some m, Some c) \<Rightarrow> g\<lparr>a_meta := Some (remember_dump_conn key c m)\<rparr>
      | _ \<Rightarrow> g)"

definition remember_store :: "Store \<Rightarrow> DumpMeta \<Rightarrow> DumpMeta" where
  "remember_store s m = fold (\<lambda>e. remember_dump_conn (fst e) (snd e)) (s_conns s) m"

definition record_dump :: "App \<Rightarrow> App" where
  "record_dump g = g\<lparr>a_meta := map_option (remember_store (a_store g)) (a_meta g)\<rparr>"

section \<open>The processes of a recording\<close>

fun track_pids :: "proc_map \<Rightarrow> int list \<Rightarrow> DumpMeta \<Rightarrow> DumpMeta" where
  "track_pids live [] m = m"
| "track_pids live (pid # pids) m =
     (case hm_get live pid of
        None \<Rightarrow> track_pids live pids m
      | Some p \<Rightarrow>
          if p_started p = 0 then track_pids live pids m
          else if identity p \<notin> set (dm_instances m) \<and> MAX_DUMP_PROCS \<le> length (dm_instances m)
          then m\<lparr>dm_limit_reached := True\<rparr>
          else track_pids live pids
                 (m\<lparr>dm_instances := hs_add (identity p) (dm_instances m), dm_pids := hs_add pid (dm_pids m)\<rparr>))"

definition live_roots :: "proc_map \<Rightarrow> DumpMeta \<Rightarrow> int list" where
  "live_roots live m =
     map id_pid (filter (\<lambda>i. case hm_get live (id_pid i) of None \<Rightarrow> False | Some p \<Rightarrow> identity p = i) (dm_instances m))"

definition track_meta :: "u64 \<Rightarrow> ProcInfo list \<Rightarrow> DumpMeta \<Rightarrow> DumpMeta" where
  "track_meta now ps m =
     (case dm_process m of
        None \<Rightarrow> m
      | Some _ \<Rightarrow>
          let live = proc_map_of ps; roots = live_roots live m;
              m1 = (if roots \<noteq> [] then m\<lparr>dm_last_alive := now\<rparr> else m) in
          track_pids live (descendants_from ps roots) m1)"

definition track_dump :: "u64 \<Rightarrow> ProcInfo list \<Rightarrow> App \<Rightarrow> App" where
  "track_dump now ps g = g\<lparr>a_meta := map_option (track_meta now ps) (a_meta g)\<rparr>"

section \<open>Packets\<close>

text \<open>One packet of a batch, with its readings of the clock; a batch is accounted under one lock.\<close>

definition account_packet :: "(nat \<Rightarrow> u64) \<times> Packet \<Rightarrow> App \<Rightarrow> App" where
  "account_packet x g =
     (case apply_packet (fst x) (snd x) (a_store g) of
        (key, s) \<Rightarrow> record_dump_conn key (g\<lparr>a_store := s\<rparr>))"

definition packet_batch :: "((nat \<Rightarrow> u64) \<times> Packet) list \<Rightarrow> App \<Rightarrow> App" where
  "packet_batch batch g =
     (let g1 = fold account_packet batch g in
      g1\<lparr>a_metrics := batch_done (length batch) False (a_metrics g1)\<rparr>)"

section \<open>A round of the poll loop\<close>

text \<open>The processes scanned in a round that is not full: the group and the processes of the recording.\<close>

definition poll_group :: "App \<Rightarrow> int list" where
  "poll_group g = remdups (sort (a_group g @ (case a_meta g of None \<Rightarrow> [] | Some m \<Rightarrow> dm_pids m)))"

text \<open>
  What a round has read: all processes when it is full, those of the group otherwise, the sockets, the
  addresses of the interfaces, and its readings of the clock.
\<close>

record PollInput =
  pi_all :: "ProcInfo list option"
  pi_partial :: "ProcInfo list"
  pi_scanned :: "int list"
  pi_socks :: "SockEntry list"
  pi_local_ips :: "IpAddr list option"
  pi_track_now :: u64
  pi_sock_clk :: "nat \<Rightarrow> u64"
  pi_now :: u64
  pi_name_clk :: "ConnKey \<Rightarrow> u64"

definition poll_processes :: "PollInput \<Rightarrow> App \<Rightarrow> App" where
  "poll_processes inp g =
     (case pi_all inp of
        Some ps \<Rightarrow>
          let g1 = refresh_selected_group ps True g;
              mine = fold (\<lambda>r acc. fold hs_add (descendants ps r) acc) (a_self_roots g1) (a_self_roots g1);
              g2 = track_dump (pi_track_now inp) ps (g1\<lparr>a_self_pids := mine\<rparr>) in
          g2\<lparr>a_procs := ps\<rparr>
      | None \<Rightarrow>
          let processes = filter (\<lambda>p. p_pid p \<notin> set (pi_scanned inp)) (a_procs g) @ pi_partial inp;
              g1 = refresh_selected_group processes False (g\<lparr>a_procs := processes\<rparr>) in
          track_dump (pi_track_now inp) processes g1)"

definition active_pids :: "u64 \<Rightarrow> SockEntry list \<Rightarrow> Store \<Rightarrow> int list" where
  "active_pids recent socks s =
     fold (\<lambda>e acc. case c_pid (snd e) of None \<Rightarrow> acc | Some pid \<Rightarrow> hs_add pid acc)
       (filter (\<lambda>e. c_proto (snd e) = ''UDP'' \<and> \<not> c_closed (snd e) \<and> recent \<le> c_last_seen (snd e)) (s_conns s))
       (fold (\<lambda>e acc. case se_pid e of None \<Rightarrow> acc | Some pid \<Rightarrow> hs_add pid acc)
          (filter (\<lambda>e. se_rport e \<noteq> 0) socks) [])"

definition poll_store :: "(string \<Rightarrow> IpAddr option) \<Rightarrow> bool \<Rightarrow> PollInput \<Rightarrow> App \<Rightarrow> App" where
  "poll_store parse_ip ru inp g =
     (let s1 = apply_sockets (pi_sock_clk inp) (pi_socks inp) (proc_map_of (a_procs g))
                 (set_local_ips (pi_local_ips inp) (a_store g));
          g1 = g\<lparr>a_store := s1,
                 a_active_pids := (if pi_all inp = None then a_active_pids g
                                   else active_pids (sat_sub64 (pi_now inp) 5000) (pi_socks inp) s1)\<rparr> in
      g1\<lparr>a_store := apply_whois parse_ip (a_whois g1) (enrich_names parse_ip ru (pi_name_clk inp) (a_store g1))\<rparr>)"

definition poll_round :: "(string \<Rightarrow> IpAddr option) \<Rightarrow> bool \<Rightarrow> PollInput \<Rightarrow> App \<Rightarrow> App" where
  "poll_round parse_ip ru inp g = record_dump (poll_store parse_ip ru inp (poll_processes inp g))"

definition api_clear :: "App \<Rightarrow> App" where
  "api_clear g = g\<lparr>a_store := clear_history (a_store g)\<rparr>"

end
