(* ===== verification/Recording.thy ===== *)
theory Recording
  imports App_State "HOL-Library.List_Lexorder" "HOL-Library.Char_ord"
begin

text \<open>
  Recordings (\<^verbatim>\<open>start_dump\<close>, \<^verbatim>\<open>finish_dump\<close>, \<^verbatim>\<open>dump_plan\<close>,
  \<^verbatim>\<open>process_dump_file\<close>, \<^verbatim>\<open>auto_stop_dump\<close> of \<^verbatim>\<open>src/src/main.rs\<close>). Both operations
  give up the lock while they wait for the capture, so each is a chain of locked steps; what a step
  carries to the next is a ticket. What the system answers (the child process, the disk) is an argument.
\<close>

section \<open>The name of the file\<close>

text \<open>The characters of a text. \<open>wide\<close> is \<^verbatim>\<open>char::is_alphanumeric\<close> beyond ASCII.\<close>

function utf8_chars :: "string \<Rightarrow> string list" where
  "utf8_chars s =
     (if s = [] then [] else
        let n = snd (utf8_step (bytes_of s)) in take n s # utf8_chars (drop n s))"
  by pat_completeness auto
termination
  by (relation "measure length") (use utf8_step_pos in \<open>auto simp: neq_Nil_conv\<close>)

declare utf8_chars.simps [simp del]

definition stem_char :: "(string \<Rightarrow> bool) \<Rightarrow> string \<Rightarrow> string" where
  "stem_char wide c =
     (if length c = 1 \<and> (is_ascii_alphanumeric (hd c) \<or> hd c = CHR ''.'' \<or> hd c = CHR ''-'') then c
      else if 1 < length c \<and> wide c then c
      else ''_'')"

fun stem_loop :: "(string \<Rightarrow> bool) \<Rightarrow> string list \<Rightarrow> string \<Rightarrow> string" where
  "stem_loop wide [] out = out"
| "stem_loop wide (c # cs) out =
     (let d = stem_char wide c in
      if 64 < length out + length d then out else stem_loop wide cs (out @ d))"

definition dump_file_stem :: "(string \<Rightarrow> bool) \<Rightarrow> string \<Rightarrow> string" where
  "dump_file_stem wide name = stem_loop wide (utf8_chars name) []"

definition dump_path :: "(string \<Rightarrow> bool) \<Rightarrow> string \<Rightarrow> string \<Rightarrow> string \<Rightarrow> string \<Rightarrow> string" where
  "dump_path wide dir name stamp nanos =
     dir @ ''/'' @ dump_file_stem wide name @ ''-'' @ stamp @ ''-'' @ nanos @ ''.pcapng''"

section \<open>Beginning a recording\<close>

record StartTicket =
  tk_dump :: Dump
  tk_iface :: string
  tk_name :: string
  tk_process :: "ProcInfo option"
  tk_filtered :: bool
  tk_pids :: "int list"
  tk_instances :: "Identity list"
  tk_dropped :: u64

definition selected_process :: "App \<Rightarrow> ProcInfo option" where
  "selected_process g =
     (case a_selected g of
        None \<Rightarrow> None
      | Some pid \<Rightarrow> List.find (\<lambda>p. p_pid p = pid \<and> Some (identity p) = a_selected_instance g) (a_procs g))"

definition start_begin :: "bool \<Rightarrow> App \<Rightarrow> (rec_error + StartTicket) \<times> App" where
  "start_begin filtered g =
     (if a_phase g \<noteq> Idle then (Inl AlreadyActive, g)
      else if \<not> a_capture_on g then (Inl CaptureOff, g)
      else
        let process = selected_process g in
        if filtered \<and> (case process of None \<Rightarrow> True | Some p \<Rightarrow> p_started p = 0) then (Inl NoProcessSelected, g)
        else if MAX_DUMP_PROCS < length (a_group g) then (Inl GroupTooLarge, g)
        else
          (Inr \<lparr>tk_dump = a_dump g, tk_iface = a_iface g,
                tk_name = (case process of Some p \<Rightarrow> p_name p | None \<Rightarrow> ''host''), tk_process = process,
                tk_filtered = filtered, tk_pids = fold hs_add (a_group g) [],
                tk_instances = fold (\<lambda>p acc. hs_add (identity p) acc)
                  (filter (\<lambda>p. p_pid p \<in> set (a_group g) \<and> p_started p \<noteq> 0) (a_procs g)) [],
                tk_dropped = m_dropped (a_metrics g)\<rparr>,
           g\<lparr>a_phase := Starting, a_dump := dump_default\<rparr>))"

text \<open>
  The capture begins without the lock: the directory is created (\<open>dir_error\<close>), then the child is
  started; its outcome and the handle come back.
\<close>

definition start_capture :: "string option \<Rightarrow> u64 \<Rightarrow> string + nat \<Rightarrow> cap_error option \<Rightarrow> string \<Rightarrow> StartTicket
    \<Rightarrow> cap_error option \<times> Dump" where
  "start_capture dir_error now spawned ready path t =
     (case dir_error of
        Some e \<Rightarrow> (Some (OsError e), tk_dump t)
      | None \<Rightarrow> dump_start now spawned ready path (tk_dump t))"

definition start_end :: "u64 \<Rightarrow> cap_error option \<times> Dump \<Rightarrow> StartTicket \<Rightarrow> App \<Rightarrow> rec_error option \<times> App" where
  "start_end now res t g =
     (let g1 = g\<lparr>a_dump := snd res\<rparr> in
      case fst res of
        Some e \<Rightarrow>
          (Some (CaptureError e), g1\<lparr>a_phase := Idle, a_outcome := Some (outcome_failed (CaptureError e))\<rparr>)
      | None \<Rightarrow>
          let began = (case du_started_ms (snd res) of Some at \<Rightarrow> at | None \<Rightarrow> now) in
          (None, record_dump (g1\<lparr>
             a_meta := Some \<lparr>dm_process = tk_process t, dm_only_group = tk_filtered t, dm_pids = tk_pids t,
               dm_instances = tk_instances t, dm_limit_reached = False, dm_dropped_at_start = tk_dropped t,
               dm_started = began, dm_last_alive = began, dm_conns = []\<rparr>,
             a_phase := Recording, a_outcome := None, a_auto_stopped := None\<rparr>)))"

section \<open>The plan for the file\<close>

text \<open>The record of the connections that is saved beside the capture; times are turned to text when it is printed.\<close>

record DumpInfo =
  di_dump :: string
  di_from :: u64
  di_until :: u64
  di_only_process :: bool
  di_process :: "(int \<times> string \<times> string) option"
  di_pids :: "int list"
  di_conns :: "Conn list"
  di_packets :: "Stats option"
  di_requested_only :: bool
  di_ok :: bool
  di_complete :: bool
  di_errors :: "rec_error list"

definition merge_recorded :: "DumpMeta \<Rightarrow> Store \<Rightarrow> conn_map" where
  "merge_recorded m s =
     fold (\<lambda>e rec. if c_last_seen (snd e) < dm_started m then rec
                   else case hm_get rec (fst e) of
                          Some old \<Rightarrow> hm_put (fst e) (update_recording old (snd e)) rec
                        | None \<Rightarrow> hm_put (fst e) (snd e) rec)
       (s_conns s) (dm_conns m)"

definition plan_owner :: "DumpMeta \<Rightarrow> Conn \<Rightarrow> Owner" where
  "plan_owner m c = \<lparr>ow_label = label (c_pname c) (c_pid c) (c_domain c), ow_keep = dump_owns m c\<rparr>"

definition plan_comment :: "bool \<Rightarrow> DumpMeta \<Rightarrow> string" where
  "plan_comment ru m =
     (case dm_process m of
        Some p \<Rightarrow>
          let who = p_name p @ '' ['' @ show_int (p_pid p) @ '']'' in
          if dm_only_group m
          then tr ru (''SocketTrail: only traffic of '' @ who @ '' and its child processes'')
                 (utf8_text [83, 111, 99, 107, 101, 116, 84, 114, 97, 105, 108, 58, 32, 209, 130, 208, 190, 208, 187,
       209, 140, 208, 186, 208, 190, 32, 209, 130, 209, 128, 208, 176, 209, 132, 208, 184, 208, 186, 32] @ who @
                  utf8_text [32, 208, 184, 32, 208, 181, 208, 179, 208, 190, 32, 208, 180, 208, 190, 209, 135, 208,
       181, 209, 128, 208, 189, 208, 184, 209, 133, 32, 208, 191, 209, 128, 208, 190, 209, 134, 208, 181,
       209, 129, 209, 129, 208, 190, 208, 178])
          else tr ru (''SocketTrail: all traffic of the computer, selected '' @ who)
                 (utf8_text [83, 111, 99, 107, 101, 116, 84, 114, 97, 105, 108, 58, 32, 208, 178, 208, 181, 209, 129,
       209, 140, 32, 209, 130, 209, 128, 208, 176, 209, 132, 208, 184, 208, 186, 32, 208, 186, 208, 190,
       208, 188, 208, 191, 209, 140, 209, 142, 209, 130, 208, 181, 209, 128, 208, 176, 44, 32, 208, 178,
       209, 139, 208, 177, 209, 128, 208, 176, 208, 189, 32] @ who)
      | None \<Rightarrow> tr ru ''SocketTrail: all traffic of the computer''
                 (utf8_text [83, 111, 99, 107, 101, 116, 84, 114, 97, 105, 108, 58, 32, 208, 178, 208, 181, 209, 129,
       209, 140, 32, 209, 130, 209, 128, 208, 176, 209, 132, 208, 184, 208, 186, 32, 208, 186, 208, 190,
       208, 188, 208, 191, 209, 140, 209, 142, 209, 130, 208, 181, 209, 128, 208, 176]))"

definition by_last_seen :: "Conn list \<Rightarrow> Conn list" where
  "by_last_seen cs = sort_key (\<lambda>c. - int (unat (c_last_seen c))) (sort_key c_id cs)"

definition dump_plan :: "bool \<Rightarrow> u64 \<Rightarrow> App \<Rightarrow> DumpMeta \<Rightarrow> string \<Rightarrow> Plan \<times> DumpInfo" where
  "dump_plan ru now g m path =
     (let recorded = filter (\<lambda>e. dm_started m \<le> c_last_seen (snd e)) (merge_recorded m (a_store g));
          listed = filter (\<lambda>c. (dump_owns m c \<or> \<not> dm_only_group m)
                     \<and> \<not> (case c_pid c of None \<Rightarrow> False | Some p \<Rightarrow> p \<in> set (a_self_pids g))) (map snd recorded) in
      (\<lparr>pl_owners = map (\<lambda>e. (fst e, plan_owner m (snd e))) recorded, pl_only_group = dm_only_group m,
        pl_comment = plan_comment ru m\<rparr>,
       \<lparr>di_dump = path, di_from = dm_started m, di_until = now, di_only_process = dm_only_group m,
        di_process = map_option (\<lambda>p. (p_pid p, p_name p, p_cmdline p)) (dm_process m), di_pids = sort (dm_pids m),
        di_conns = by_last_seen listed, di_packets = None, di_requested_only = False, di_ok = False,
        di_complete = False, di_errors = []\<rparr>))"

section \<open>The file after the recording\<close>

text \<open>\<^verbatim>\<open>s.trim_end_matches(pat)\<close> for a text.\<close>

function trim_suffix :: "string \<Rightarrow> string \<Rightarrow> string" where
  "trim_suffix pat s =
     (if pat \<noteq> [] \<and> suffix pat s then trim_suffix pat (take (length s - length pat) s) else s)"
  by pat_completeness auto
termination
  by (relation "measure (\<lambda>(pat, s). length s)") (auto simp: suffix_def)

declare trim_suffix.simps [simp del]

text \<open>
  What the system does while the file is worked on: the outcomes of the calls of \<^verbatim>\<open>rewrite\<close>, and of
  writing the record; \<open>json\<close> is the JSON printer of serde.
\<close>

record FileEnv =
  fv_frames :: frame_env
  fv_perm :: bool
  fv_write :: bool
  fv_rename :: bool
  fv_sidecar :: "string option"
  fv_json :: "DumpInfo \<Rightarrow> bytes"

definition process_dump_file :: "FileEnv \<Rightarrow> Plan \<Rightarrow> DumpInfo \<Rightarrow> string \<Rightarrow> bool \<Rightarrow> bool \<Rightarrow> files
    \<Rightarrow> (string option \<times> bool \<times> rec_error list) \<times> files" where
  "process_dump_file env plan info path only_group complete fs =
     (let rw = (if only_group \<and> \<not> complete then (Inl OwnershipIncomplete, fs)
                else case plan_rewrite (fv_frames env) plan (fv_perm env) (fv_write env) (fv_rename env) path fs of
                       (Inl e, fs1) \<Rightarrow> (Inl (if only_group then FilterFailed e else ProcessingFailed e), fs1)
                     | (Inr st, fs1) \<Rightarrow> (Inr st, fs1));
          filtered = (case fst rw of Inl _ \<Rightarrow> False | Inr _ \<Rightarrow> True);
          errors = (case fst rw of Inl e \<Rightarrow> [e] | Inr _ \<Rightarrow> []);
          info1 = info\<lparr>di_packets := (case fst rw of Inl _ \<Rightarrow> None | Inr st \<Rightarrow> Some st), di_requested_only := only_group,
                       di_only_process := only_group \<and> filtered, di_ok := filtered, di_complete := complete,
                       di_errors := errors\<rparr>;
          jp = trim_suffix ''.pcapng'' path @ ''.json'' in
      case fv_sidecar env of
        None \<Rightarrow> ((Some jp, only_group \<and> \<not> filtered, errors), (snd rw)(jp \<mapsto> fv_json env info1))
      | Some e \<Rightarrow> ((None, only_group \<and> \<not> filtered, errors @ [SidecarFailed e]), snd rw))"

section \<open>Ending a recording\<close>

record FinishTicket =
  fk_dump :: Dump
  fk_meta :: "DumpMeta option"
  fk_automatic :: bool

text \<open>\<open>checked\<close> is what the child says when it is polled; the answer of a refusal is the outcome.\<close>

definition should_stop :: "bool \<Rightarrow> u64 \<Rightarrow> DumpMeta option \<Rightarrow> bool" where
  "should_stop failed now meta \<longleftrightarrow>
     failed
     \<or> (case meta of None \<Rightarrow> False | Some m \<Rightarrow> dm_only_group m \<and> DUMP_IDLE_MS < sat_sub64 now (dm_last_alive m))
     \<or> (case meta of None \<Rightarrow> False | Some m \<Rightarrow> dm_limit_reached m)"

definition finish_begin :: "bool \<Rightarrow> cap_error option \<Rightarrow> u64 \<Rightarrow> App \<Rightarrow> (DumpOutcome + FinishTicket) \<times> App" where
  "finish_begin automatic checked now g =
     (if a_phase g \<noteq> Recording then
        (Inl (if automatic then outcome_default else outcome_failed NothingToStop), g)
      else
        let polled = (if automatic then dump_poll_error checked (a_dump g) else (None, a_dump g));
            g1 = g\<lparr>a_dump := snd polled\<rparr> in
        if automatic \<and> \<not> should_stop (fst polled \<noteq> None) now (a_meta g1) then (Inl outcome_default, g1)
        else
          let g2 = record_dump (g1\<lparr>a_phase := Finishing\<rparr>); d = a_dump g2 in
          (Inr \<lparr>fk_dump = d, fk_meta = a_meta g2, fk_automatic = automatic\<rparr>,
           g2\<lparr>a_dump := dump_default\<lparr>du_path := du_path d\<rparr>, a_meta := None\<rparr>))"

text \<open>
  \<^verbatim>\<open>wait_packet_accounting\<close>: until the packets accepted before are processed, at most two seconds.
  \<open>obs i\<close> is what round \<open>i\<close> sees: the counter and the clock in ns. The recursion has fuel, since only
  the clock ends the loop.
\<close>

fun account_loop :: "nat \<Rightarrow> u64 \<Rightarrow> (nat \<Rightarrow> u64 \<times> nat) \<Rightarrow> nat \<Rightarrow> nat \<Rightarrow> bool option" where
  "account_loop 0 target obs deadline i = None"
| "account_loop (Suc n) target obs deadline i =
     (if \<not> fst (obs i) < target then Some True
      else if deadline \<le> snd (obs i) then Some False
      else account_loop n target obs deadline (Suc i))"

definition wait_packet_accounting :: "nat \<Rightarrow> u64 \<Rightarrow> (nat \<Rightarrow> u64 \<times> nat) \<Rightarrow> nat \<Rightarrow> bool option" where
  "wait_packet_accounting fuel target obs now = account_loop fuel target obs (now + 2 * 10 ^ 9) 0"

text \<open>
  The wait for the accounting ends: when the clock advances by the pause of each round, 401 rounds are
  enough. The answer is yes exactly when the packets were processed in some round before which the two
  seconds were not over.
\<close>

lemma account_loop_ends:
  assumes "\<And>i. start + i * 5000000 \<le> snd (obs i)"
  shows "deadline \<le> start + (i + n) * 5000000 \<Longrightarrow> account_loop (Suc n) target obs deadline i \<noteq> None"
proof (induction n arbitrary: i)
  case 0
  then show ?case using assms [of i] by auto
next
  case (Suc n)
  then show ?case using Suc.IH [of "Suc i"] by (auto simp: algebra_simps)
qed

lemma account_loop_answer:
  "account_loop n target obs deadline i = Some r \<Longrightarrow>
     r \<longleftrightarrow> (\<exists>k \<ge> i. target \<le> fst (obs k) \<and> (\<forall>j. i \<le> j \<and> j < k \<longrightarrow> snd (obs j) < deadline))"
proof (induction n arbitrary: i)
  case (Suc n)
  show ?case
  proof (cases "fst (obs i) < target \<and> snd (obs i) < deadline")
    case True
    then have r: "r \<longleftrightarrow> (\<exists>k \<ge> Suc i. target \<le> fst (obs k) \<and> (\<forall>j. Suc i \<le> j \<and> j < k \<longrightarrow> snd (obs j) < deadline))"
      using Suc by simp
    show ?thesis
    proof
      assume r
      then obtain k where k: "Suc i \<le> k" "target \<le> fst (obs k)" "\<And>j. Suc i \<le> j \<and> j < k \<Longrightarrow> snd (obs j) < deadline" using r by blast
      have "snd (obs j) < deadline" if "i \<le> j" "j < k" for j using k(3) [of j] True that by (cases "j = i") auto
      then show "\<exists>k \<ge> i. target \<le> fst (obs k) \<and> (\<forall>j. i \<le> j \<and> j < k \<longrightarrow> snd (obs j) < deadline)"
        using k(1,2) by (intro exI [of _ k]) simp
    next
      assume "\<exists>k \<ge> i. target \<le> fst (obs k) \<and> (\<forall>j. i \<le> j \<and> j < k \<longrightarrow> snd (obs j) < deadline)"
      then obtain k where k: "i \<le> k" "target \<le> fst (obs k)" "\<And>j. i \<le> j \<and> j < k \<Longrightarrow> snd (obs j) < deadline" by blast
      have "k \<noteq> i" using k(2) True by auto
      then show r using k unfolding r by (intro exI [of _ k]) simp
    qed
  next
    case False
    show ?thesis
    proof (cases "target \<le> fst (obs i)")
      case True
      then show ?thesis using Suc.prems by (auto simp: not_less [symmetric])
    next
      case late: False
      then have "deadline \<le> snd (obs i)" "\<not> r" using False Suc.prems by (auto simp: not_le not_less split: if_splits)
      then have "k = i" if "i \<le> k" "\<forall>j. i \<le> j \<and> j < k \<longrightarrow> snd (obs j) < deadline" for k
        using that by (metis le_neq_implies_less leD le_refl)
      then show ?thesis using late \<open>\<not> r\<close> by blast
    qed
  qed
qed simp

lemma wait_packet_accounting_ends:
  assumes "\<And>i. start + i * 5000000 \<le> snd (obs i)"
  shows "\<exists>r. wait_packet_accounting 401 target obs start = Some r
    \<and> (r \<longleftrightarrow> (\<exists>k. target \<le> fst (obs k) \<and> (\<forall>j < k. snd (obs j) < start + 2 * 10 ^ 9)))"
proof -
  have "account_loop (Suc 400) target obs (start + 2 * 10 ^ 9) 0 \<noteq> None"
    by (rule account_loop_ends [OF assms]) simp
  then obtain r where r: "account_loop 401 target obs (start + 2 * 10 ^ 9) 0 = Some r" by auto
  then show ?thesis using account_loop_answer [OF r] by (simp add: wait_packet_accounting_def)
qed

text \<open>The last connections are remembered, then the losses are judged.\<close>

definition finish_remember :: "App \<Rightarrow> FinishTicket \<Rightarrow> FinishTicket" where
  "finish_remember g t = t\<lparr>fk_meta := map_option (remember_store (a_store g)) (fk_meta t)\<rparr>"

definition finish_errors :: "bool \<Rightarrow> cap_error option \<Rightarrow> App \<Rightarrow> FinishTicket \<Rightarrow> rec_error list" where
  "finish_errors accounted stop_error g t =
     (if accounted then [] else [NotAccounted])
     @ (case fk_meta t of
          None \<Rightarrow> []
        | Some m \<Rightarrow> (if dm_limit_reached m then [MetadataLimit] else [])
                    @ (if dm_dropped_at_start m < m_dropped (a_metrics g) then [DataLost] else []))
     @ (case stop_error of None \<Rightarrow> [] | Some e \<Rightarrow> [CaptureError e])"

text \<open>The outcome, from the errors so far, when the file is processed under the state \<open>g\<close>.\<close>

definition finish_outcome :: "bool \<Rightarrow> u64 \<Rightarrow> FileEnv \<Rightarrow> App \<Rightarrow> Dump \<Rightarrow> FinishTicket \<Rightarrow> rec_error list \<Rightarrow> files
    \<Rightarrow> DumpOutcome \<times> files" where
  "finish_outcome ru now env g d t errors fs =
     (let done = (case (du_path d, fk_meta t) of
                    (Some p, Some m) \<Rightarrow>
                      (case dump_plan ru now g m p of
                         (plan, info) \<Rightarrow> process_dump_file env plan info p (dm_only_group m) (errors = []) fs)
                  | _ \<Rightarrow> ((None, False, [NoFileOrMetadata]), fs));
          all_errors = errors @ snd (snd (fst done));
          size = (case du_path d of None \<Rightarrow> 0
                  | Some p \<Rightarrow> (case snd done p of None \<Rightarrow> 0 | Some b \<Rightarrow> word_of_nat (length b))) in
      (\<lparr>oc_ok = (all_errors = []), oc_path = du_path d, oc_size = size, oc_sidecar = fst (fst done),
        oc_error = (if all_errors = [] then None else Some all_errors), oc_unfiltered = fst (snd (fst done))\<rparr>,
       snd done))"

definition finish_end :: "Dump \<Rightarrow> bool \<Rightarrow> DumpOutcome \<Rightarrow> App \<Rightarrow> App" where
  "finish_end d automatic outcome g =
     (let g1 = g\<lparr>a_dump := d, a_phase := Idle\<rparr>;
          g2 = (if automatic then g1\<lparr>a_auto_stopped := oc_path outcome\<rparr> else g1) in
      g2\<lparr>a_outcome := Some outcome\<rparr>)"

end
