(* ===== verification/Recording_Facts.thy ===== *)
theory Recording_Facts
  imports Recording
begin

text \<open>
  What holds of recordings, whatever the tasks of the program do between their steps. \<open>rec_step\<close> is
  the step relation of the shared state and of the recordings being begun or ended.
\<close>

section \<open>The tasks\<close>

text \<open>How far \<^verbatim>\<open>finish_dump\<close> has come.\<close>

datatype finish_task =
    Stopping FinishTicket
  | Settled FinishTicket Dump bool "cap_error option"
  | Judged FinishTicket Dump "rec_error list"
  | Processed Dump bool DumpOutcome

record World =
  w_app :: App
  w_starting :: "StartTicket list"
  w_finishing :: "finish_task list"
  w_files :: files

text \<open>What a scan of the processes gives: each PID once, and only the PIDs it was asked for.\<close>

definition input_ok :: "PollInput \<Rightarrow> bool" where
  "input_ok inp \<longleftrightarrow>
     (case pi_all inp of
        Some ps \<Rightarrow> distinct (map p_pid ps)
      | None \<Rightarrow> distinct (map p_pid (pi_partial inp)) \<and> p_pid ` set (pi_partial inp) \<subseteq> set (pi_scanned inp))"

text \<open>What the other tasks do to the shared state: none of it concerns the phase of the recording.\<close>

inductive app_step :: "App \<Rightarrow> App \<Rightarrow> bool" where
  packets: "app_step g (packet_batch batch g)"
| captured: "app_step g (g\<lparr>a_metrics := ch_metrics (snd (sender_send cap p ch))\<rparr>)"
    if "ch_metrics ch = a_metrics g"
| polled: "app_step g (poll_round parse_ip ru inp g)" if "input_ok inp"
| chosen: "app_step g (api_select pid g)"
| cleared: "app_step g (api_clear g)"
| named: "app_step g (g\<lparr>a_store := remember_name_for now ip name ttl (a_store g)\<rparr>)"
| looked_up: "app_step g (g\<lparr>a_whois := fst (snd r), a_store := snd (snd r)\<rparr>)"
    if "whois_pass now look (fails, a_whois g, a_store g) = r"
| ready: "app_step g (g\<lparr>a_capture_on := on, a_self_roots := roots, a_self_pids := mine\<rparr>)"
| trimmed: "app_step g (g\<lparr>a_whois := cache_round round (a_store g) (a_whois g)\<rparr>)"
| addressed: "app_step g (g\<lparr>a_store := set_local_ips ips (a_store g)\<rparr>)"
| restored: "app_step g (g\<lparr>a_store := snd (restore_dns now ip e (a_store g))\<rparr>)"
| remembered: "app_step g (g\<lparr>a_whois := whois\<rparr>)"

inductive rec_step :: "World \<Rightarrow> World \<Rightarrow> bool" where
  other: "rec_step w (w\<lparr>w_app := g\<rparr>)" if "app_step (w_app w) g"
| refused: "rec_step w (w\<lparr>w_app := g\<rparr>)" if "start_begin filtered (w_app w) = (Inl e, g)"
| started: "rec_step w (w\<lparr>w_app := g, w_starting := t # w_starting w\<rparr>)"
    if "start_begin filtered (w_app w) = (Inr t, g)"
| running: "rec_step w (w\<lparr>w_app := snd (start_end now' (start_capture dir_error now spawned ready path t) t (w_app w)),
      w_starting := xs @ ys\<rparr>)"
    if "w_starting w = xs @ t # ys"
| kept: "rec_step w (w\<lparr>w_app := g\<rparr>)" if "finish_begin automatic checked now (w_app w) = (Inl oc, g)"
| stopped: "rec_step w (w\<lparr>w_app := g, w_finishing := Stopping t # w_finishing w\<rparr>)"
    if "finish_begin automatic checked now (w_app w) = (Inr t, g)"
| settled: "rec_step w (w\<lparr>w_finishing := xs @ Settled (finish_remember (w_app w) t) d accounted
      (case r of Inl e \<Rightarrow> Some e | Inr _ \<Rightarrow> None) # ys\<rparr>)"
    if "w_finishing w = xs @ Stopping t # ys" and "dump_stop stop_error (fk_dump t) = (r, d)"
| judged: "rec_step w (w\<lparr>w_finishing := xs @ Judged t d (finish_errors accounted stop_error (w_app w) t) # ys\<rparr>)"
    if "w_finishing w = xs @ Settled t d accounted stop_error # ys"
| processed: "rec_step w (w\<lparr>w_finishing := xs @ Processed d (fk_automatic t) oc # ys, w_files := fs\<rparr>)"
    if "w_finishing w = xs @ Judged t d errors # ys"
      and "finish_outcome ru now env (w_app w) d t errors (w_files w) = (oc, fs)"
| finished: "rec_step w (w\<lparr>w_app := finish_end d automatic oc (w_app w), w_finishing := xs @ ys\<rparr>)"
    if "w_finishing w = xs @ Processed d automatic oc # ys"

inductive rec_reachable :: "World \<Rightarrow> bool" where
  start: "rec_reachable \<lparr>w_app = app_new now me iface port, w_starting = [], w_finishing = [], w_files = fs\<rparr>"
| step: "rec_reachable w \<Longrightarrow> rec_step w w' \<Longrightarrow> rec_reachable w'"

section \<open>What the metadata of a recording keeps\<close>

definition meta_ok :: "DumpMeta \<Rightarrow> bool" where
  "meta_ok m \<longleftrightarrow> hm_wf (dm_conns m) \<and> length (dm_conns m) \<le> MAX_DUMP_CONNS \<and> distinct (dm_instances m)
     \<and> length (dm_instances m) \<le> MAX_DUMP_PROCS \<and> (\<forall>i \<in> set (dm_instances m). id_started i \<noteq> 0)"

text \<open>What never changes while a recording runs, and what only grows.\<close>

definition meta_grows :: "DumpMeta \<Rightarrow> DumpMeta \<Rightarrow> bool" where
  "meta_grows m m' \<longleftrightarrow> dm_process m' = dm_process m \<and> dm_only_group m' = dm_only_group m
     \<and> dm_dropped_at_start m' = dm_dropped_at_start m \<and> dm_started m' = dm_started m
     \<and> set (dm_instances m) \<subseteq> set (dm_instances m') \<and> (dm_limit_reached m \<longrightarrow> dm_limit_reached m')
     \<and> (\<forall>k. hm_has (dm_conns m) k \<longrightarrow> hm_has (dm_conns m') k)"

lemma meta_grows_refl [simp]: "meta_grows m m"
  by (simp add: meta_grows_def)

lemma meta_grows_trans [trans]: "meta_grows m m' \<Longrightarrow> meta_grows m' m'' \<Longrightarrow> meta_grows m m''"
  by (auto simp: meta_grows_def)

lemma remember_conn_ok: "meta_ok m \<Longrightarrow> meta_ok (remember_dump_conn k c m)"
  by (auto simp: meta_ok_def remember_dump_conn_def hm_wf_put length_hm_put hm_has_get split: option.split)

lemma remember_grows: "meta_grows m (remember_dump_conn k c m)"
  by (auto simp: meta_grows_def remember_dump_conn_def hm_has_put split: option.split)

lemma remember_store_keeps: "meta_ok m \<Longrightarrow> meta_ok (remember_store s m)" "meta_grows m (remember_store s m)"
proof -
  have "(meta_ok m \<longrightarrow> meta_ok (fold (\<lambda>e. remember_dump_conn (fst e) (snd e)) es m))
      \<and> meta_grows m (fold (\<lambda>e. remember_dump_conn (fst e) (snd e)) es m)" for es
  proof (induction es arbitrary: m)
    case (Cons e es)
    let ?m = "remember_dump_conn (fst e) (snd e) m"
    have "meta_ok m \<Longrightarrow> meta_ok ?m" by (rule remember_conn_ok)
    moreover have "meta_grows ?m m' \<Longrightarrow> meta_grows m m'" for m' using meta_grows_trans [OF remember_grows] .
    ultimately show ?case using Cons.IH [of ?m] by simp
  qed simp
  then show "meta_ok m \<Longrightarrow> meta_ok (remember_store s m)" "meta_grows m (remember_store s m)"
    by (simp_all add: remember_store_def)
qed

lemma track_pids_ok: "meta_ok m \<Longrightarrow> meta_ok (track_pids live pids m)"
proof (induction live pids m rule: track_pids.induct)
  case (2 live pid pids m)
  show ?case
  proof (cases "hm_get live pid")
    case None
    then show ?thesis using 2 by simp
  next
    case (Some p)
    let ?m = "m\<lparr>dm_instances := hs_add (identity p) (dm_instances m), dm_pids := hs_add pid (dm_pids m)\<rparr>"
    have "p_started p \<noteq> 0 \<Longrightarrow> identity p \<in> set (dm_instances m) \<or> length (dm_instances m) < MAX_DUMP_PROCS \<Longrightarrow> meta_ok ?m"
      using "2.prems" by (auto simp: meta_ok_def length_hs_add identity_def)
    then show ?thesis using 2 Some by (auto simp: meta_ok_def)
  qed
qed simp

lemma track_pids_grows: "meta_grows m (track_pids live pids m)"
proof (induction live pids m rule: track_pids.induct)
  case (2 live pid pids m)
  show ?case
  proof (cases "hm_get live pid")
    case (Some p)
    have "meta_grows m (m\<lparr>dm_instances := hs_add (identity p) (dm_instances m), dm_pids := hs_add pid (dm_pids m)\<rparr>)"
      by (auto simp: meta_grows_def)
    then show ?thesis using 2 Some by (auto intro: meta_grows_trans simp: meta_grows_def)
  qed (use 2 in simp)
qed simp

lemma track_meta_keeps: "meta_ok m \<Longrightarrow> meta_ok (track_meta now ps m)" "meta_grows m (track_meta now ps m)"
proof -
  let ?live = "proc_map_of ps"
  let ?m = "if live_roots ?live m \<noteq> [] then m\<lparr>dm_last_alive := now\<rparr> else m"
  have m: "meta_grows m ?m" "meta_ok m \<Longrightarrow> meta_ok ?m" by (auto simp: meta_grows_def meta_ok_def)
  then show "meta_ok m \<Longrightarrow> meta_ok (track_meta now ps m)"
    by (auto simp: track_meta_def Let_def track_pids_ok split: option.split)
  show "meta_grows m (track_meta now ps m)"
    using meta_grows_trans [OF m(1) track_pids_grows] by (auto simp: track_meta_def Let_def split: option.split)
qed

text \<open>A step keeps the recording in the shared state.\<close>

definition same_recording :: "App \<Rightarrow> App \<Rightarrow> bool" where
  "same_recording g g' \<longleftrightarrow> a_phase g' = a_phase g \<and> a_dump g' = a_dump g
     \<and> rel_option (\<lambda>m m'. meta_grows m m' \<and> (meta_ok m \<longrightarrow> meta_ok m')) (a_meta g) (a_meta g')"

lemma same_recording_meta:
  "a_phase g' = a_phase g \<Longrightarrow> a_dump g' = a_dump g \<Longrightarrow> a_meta g' = a_meta g \<Longrightarrow> same_recording g g'"
  by (auto simp: same_recording_def intro: option.rel_refl_strong)

lemma same_recording_refl [simp]: "same_recording g g"
  by (rule same_recording_meta) simp_all

lemma same_recording_trans [trans]: "same_recording g g' \<Longrightarrow> same_recording g' g'' \<Longrightarrow> same_recording g g''"
  by (auto simp: same_recording_def option_rel_Some1 option_rel_Some2 intro: meta_grows_trans
      elim!: option.rel_cases)

lemma record_dump_same: "same_recording g (record_dump g)"
  using remember_store_keeps by (auto simp: same_recording_def record_dump_def option.rel_map intro: option.rel_refl_strong)

lemma track_dump_same: "same_recording g (track_dump now ps g)"
  using track_meta_keeps by (auto simp: same_recording_def track_dump_def option.rel_map intro: option.rel_refl_strong)

lemma record_dump_conn_same: "same_recording g (record_dump_conn k g)"
  using remember_conn_ok remember_grows
  by (auto simp: same_recording_def record_dump_conn_def split: option.split intro: option.rel_refl_strong)

section \<open>The other tasks\<close>

lemma account_packet_same: "same_recording g (account_packet x g)"
  by (auto simp: account_packet_def split: prod.split
      intro: same_recording_trans [OF same_recording_meta record_dump_conn_same])

lemma packet_batch_same: "same_recording g (packet_batch batch g)"
proof -
  have "same_recording g (fold account_packet batch g)" for g
    by (induction batch arbitrary: g) (auto intro: same_recording_trans [OF account_packet_same])
  from this [of g] same_recording_meta [of "packet_batch batch g" "fold account_packet batch g"]
  show ?thesis by (auto simp: packet_batch_def Let_def intro: same_recording_trans)
qed

lemma refresh_group_same: "same_recording g (refresh_selected_group ps full g)"
  by (rule same_recording_meta) (auto simp: refresh_selected_group_def split: option.split)

lemma poll_processes_same: "same_recording g (poll_processes inp g)"
proof (cases "pi_all inp")
  case (Some ps)
  let ?g = "refresh_selected_group ps True g"
  let ?mine = "fold (\<lambda>r acc. fold hs_add (descendants ps r) acc) (a_self_roots ?g) (a_self_roots ?g)"
  have "same_recording g ?g" by (rule refresh_group_same)
  also have "same_recording ?g (?g\<lparr>a_self_pids := ?mine\<rparr>)" by (rule same_recording_meta) simp_all
  also have "same_recording (?g\<lparr>a_self_pids := ?mine\<rparr>) (track_dump (pi_track_now inp) ps (?g\<lparr>a_self_pids := ?mine\<rparr>))"
    by (rule track_dump_same)
  also have "same_recording \<dots> (poll_processes inp g)"
    by (rule same_recording_meta) (simp_all add: poll_processes_def Some Let_def)
  finally show ?thesis .
next
  case None
  let ?ps = "filter (\<lambda>p. p_pid p \<notin> set (pi_scanned inp)) (a_procs g) @ pi_partial inp"
  have "same_recording g (g\<lparr>a_procs := ?ps\<rparr>)" by (rule same_recording_meta) simp_all
  also have "same_recording \<dots> (refresh_selected_group ?ps False (g\<lparr>a_procs := ?ps\<rparr>))" by (rule refresh_group_same)
  also have "same_recording \<dots> (poll_processes inp g)"
    unfolding poll_processes_def None option.case Let_def by (rule track_dump_same)
  finally show ?thesis .
qed

lemma poll_round_same: "same_recording g (poll_round parse_ip ru inp g)"
proof -
  have "same_recording g (poll_processes inp g)" by (rule poll_processes_same)
  also have "same_recording \<dots> (poll_store parse_ip ru inp (poll_processes inp g))"
    by (rule same_recording_meta) (simp_all add: poll_store_def Let_def)
  also have "same_recording \<dots> (poll_round parse_ip ru inp g)"
    unfolding poll_round_def by (rule record_dump_same)
  finally show ?thesis .
qed

lemma app_step_same: "app_step g g' \<Longrightarrow> same_recording g g'"
proof (induction rule: app_step.induct)
  case (packets g batch)
  show ?case by (rule packet_batch_same)
next
  case (polled inp g parse_ip ru)
  show ?case by (rule poll_round_same)
qed (rule same_recording_meta; simp add: api_select_def api_clear_def)+

text \<open>The list of processes keeps one entry for each PID.\<close>

lemma record_dump_conn_procs [simp]: "a_procs (record_dump_conn k g) = a_procs g"
  by (auto simp: record_dump_conn_def split: option.split)

lemma procs_kept [simp]:
  "a_procs (record_dump g) = a_procs g" "a_procs (track_dump now ps g) = a_procs g"
  "a_procs (refresh_selected_group ps full g) = a_procs g" "a_procs (account_packet x g) = a_procs g"
  by (auto simp: record_dump_def track_dump_def refresh_selected_group_def account_packet_def split: option.split prod.split)

lemma packet_batch_procs [simp]: "a_procs (packet_batch batch g) = a_procs g"
proof -
  have "a_procs (fold account_packet batch g) = a_procs g" by (induction batch arbitrary: g) auto
  then show ?thesis by (simp add: packet_batch_def Let_def)
qed

lemma poll_round_procs:
  assumes "input_ok inp" and "distinct (map p_pid (a_procs g))"
  shows "distinct (map p_pid (a_procs (poll_round parse_ip ru inp g)))"
proof (cases "pi_all inp")
  case (Some ps)
  then show ?thesis using assms by (simp add: poll_round_def poll_store_def poll_processes_def input_ok_def Let_def)
next
  case None
  then have "distinct (map p_pid (pi_partial inp))" "p_pid ` set (pi_partial inp) \<subseteq> set (pi_scanned inp)"
    using assms(1) by (auto simp: input_ok_def)
  then show ?thesis
    using None assms(2) by (auto simp: poll_round_def poll_store_def poll_processes_def Let_def distinct_map_filter)
qed

lemma app_step_procs:
  "app_step g g' \<Longrightarrow> distinct (map p_pid (a_procs g)) \<Longrightarrow> distinct (map p_pid (a_procs g'))"
  by (induction rule: app_step.induct) (simp_all add: poll_round_procs api_select_def api_clear_def)

section \<open>One recording at a time\<close>

text \<open>Where the child process that writes the capture is, in each phase.\<close>

fun finish_ok :: "finish_task \<Rightarrow> bool" where
  "finish_ok (Stopping t) \<longleftrightarrow> du_process (fk_dump t) \<noteq> None \<and> (\<exists>m. fk_meta t = Some m \<and> meta_ok m)"
| "finish_ok (Settled t d accounted e) \<longleftrightarrow> du_process d = None \<and> (\<exists>m. fk_meta t = Some m \<and> meta_ok m)"
| "finish_ok (Judged t d errors) \<longleftrightarrow> du_process d = None \<and> (\<exists>m. fk_meta t = Some m \<and> meta_ok m)"
| "finish_ok (Processed d automatic oc) \<longleftrightarrow> du_process d = None"

definition start_ok :: "StartTicket \<Rightarrow> bool" where
  "start_ok t \<longleftrightarrow> du_process (tk_dump t) = None \<and> distinct (tk_instances t)
     \<and> length (tk_instances t) \<le> MAX_DUMP_PROCS \<and> (\<forall>i \<in> set (tk_instances t). id_started i \<noteq> 0)"

definition world_ok :: "World \<Rightarrow> bool" where
  "world_ok w \<longleftrightarrow>
     (let g = w_app w in
      distinct (map p_pid (a_procs g))
      \<and> (case a_phase g of
           Idle \<Rightarrow> w_starting w = [] \<and> w_finishing w = [] \<and> a_meta g = None \<and> du_process (a_dump g) = None
         | Starting \<Rightarrow> (\<exists>t. w_starting w = [t] \<and> start_ok t) \<and> w_finishing w = [] \<and> a_meta g = None
             \<and> du_process (a_dump g) = None
         | Recording \<Rightarrow> w_starting w = [] \<and> w_finishing w = [] \<and> (\<exists>m. a_meta g = Some m \<and> meta_ok m)
             \<and> du_process (a_dump g) \<noteq> None
         | Finishing \<Rightarrow> w_starting w = [] \<and> (\<exists>t. w_finishing w = [t] \<and> finish_ok t) \<and> a_meta g = None
             \<and> du_process (a_dump g) = None))"

lemma same_recording_world:
  assumes "same_recording (w_app w) g" and "distinct (map p_pid (a_procs g))" and "world_ok w"
  shows "world_ok (w\<lparr>w_app := g\<rparr>)"
  using assms by (auto simp: world_ok_def same_recording_def Let_def option_rel_Some1 split: DumpPhase.splits)

text \<open>The processes of a new recording: at most one for each PID of the group.\<close>

lemma set_fold_add: "set (fold (\<lambda>p acc. hs_add (f p) acc) ps acc) = f ` set ps \<union> set acc"
  by (induction ps arbitrary: acc) auto

lemma distinct_fold_add: "distinct acc \<Longrightarrow> distinct (fold (\<lambda>p acc. hs_add (f p) acc) ps acc)"
  by (induction ps arbitrary: acc) auto

lemma group_instances:
  assumes "distinct (map p_pid ps)"
  shows "length (fold (\<lambda>p acc. hs_add (identity p) acc) (filter (\<lambda>p. p_pid p \<in> set grp \<and> p_started p \<noteq> 0) ps) [])
    \<le> length grp"
proof -
  let ?ps = "filter (\<lambda>p. p_pid p \<in> set grp \<and> p_started p \<noteq> 0) ps"
  let ?is = "fold (\<lambda>p acc. hs_add (identity p) acc) ?ps []"
  have "length ?is = card (identity ` set ?ps)"
    using distinct_card [OF distinct_fold_add [of "[]" identity ?ps]] by (simp add: set_fold_add)
  also have "\<dots> \<le> card (set ?ps)" by (rule card_image_le) simp
  also have "\<dots> = card (p_pid ` set ?ps)"
    using assms by (intro card_image [symmetric]) (auto simp: distinct_map intro: inj_on_subset)
  also have "\<dots> \<le> card (set grp)" by (rule card_mono) auto
  also have "\<dots> \<le> length grp" by (rule card_length)
  finally show ?thesis .
qed

lemma start_begin_cases:
  assumes "start_begin filtered g = (r, g')"
  shows "(\<exists>e. r = Inl e \<and> g' = g)
    \<or> (\<exists>t. r = Inr t \<and> a_phase g = Idle \<and> a_capture_on g \<and> g' = g\<lparr>a_phase := Starting, a_dump := dump_default\<rparr>
         \<and> tk_dump t = a_dump g \<and> tk_filtered t = filtered
         \<and> (distinct (map p_pid (a_procs g)) \<and> du_process (a_dump g) = None \<longrightarrow> start_ok t))"
proof -
  have inst: "start_ok t" if "du_process (tk_dump t) = None" "distinct (map p_pid (a_procs g))" "length (a_group g) \<le> MAX_DUMP_PROCS"
      "tk_instances t = fold (\<lambda>p acc. hs_add (identity p) acc)
          (filter (\<lambda>p. p_pid p \<in> set (a_group g) \<and> p_started p \<noteq> 0) (a_procs g)) []" for t
    using that group_instances [OF that(2), of "a_group g"]
    by (auto simp: start_ok_def distinct_fold_add set_fold_add identity_def)
  show ?thesis
    using assms unfolding start_begin_def Let_def
    by (auto split: if_splits intro!: inst)
qed

lemma start_capture_process:
  "du_process (tk_dump t) = None \<Longrightarrow> start_capture dir_error now spawned ready path t = (e, d) \<Longrightarrow>
   (e = None \<longleftrightarrow> du_process d \<noteq> None)"
  by (auto simp: start_capture_def dump_start_def Let_def split: option.splits sum.splits)

lemma start_end_world:
  fixes g :: App and now' :: u64
  assumes "start_ok t" and "start_capture dir_error now spawned ready path t = res"
  defines "g' \<equiv> snd (start_end now' res t g)"
  shows "a_procs g' = a_procs g"
    and "if fst res = None then a_phase g' = Recording \<and> du_process (a_dump g') \<noteq> None \<and> (\<exists>m. a_meta g' = Some m \<and> meta_ok m)
         else a_phase g' = Idle \<and> du_process (a_dump g') = None \<and> a_meta g' = a_meta g"
proof -
  obtain e d where res: "res = (e, d)" by (cases res)
  have proc: "e = None \<longleftrightarrow> du_process d \<noteq> None"
    using start_capture_process [of t] assms(1,2) res by (auto simp: start_ok_def)
  have fresh: "meta_ok \<lparr>dm_process = p, dm_only_group = f, dm_pids = ps, dm_instances = tk_instances t,
      dm_limit_reached = False, dm_dropped_at_start = n, dm_started = t0, dm_last_alive = t1, dm_conns = []\<rparr>" for p f ps n t0 t1
    using assms(1) by (simp add: meta_ok_def start_ok_def)
  show "a_procs g' = a_procs g"
    by (auto simp: g'_def start_end_def Let_def split: option.split)
  show "if fst res = None then a_phase g' = Recording \<and> du_process (a_dump g') \<noteq> None \<and> (\<exists>m. a_meta g' = Some m \<and> meta_ok m)
      else a_phase g' = Idle \<and> du_process (a_dump g') = None \<and> a_meta g' = a_meta g"
  proof (cases e)
    case None
    then show ?thesis
      using proc by (auto simp: g'_def start_end_def Let_def res record_dump_def intro!: remember_store_keeps(1) fresh)
  next
    case (Some x)
    then show ?thesis using proc by (simp add: g'_def start_end_def Let_def res)
  qed
qed

lemma finish_begin_cases:
  assumes "finish_begin automatic checked now g = (r, g')"
  shows "(\<exists>oc. r = Inl oc \<and> a_phase g' = a_phase g \<and> a_procs g' = a_procs g \<and> a_meta g' = a_meta g
            \<and> du_process (a_dump g') = du_process (a_dump g))
    \<or> (\<exists>t. r = Inr t \<and> a_phase g = Recording \<and> a_phase g' = Finishing \<and> a_procs g' = a_procs g \<and> a_meta g' = None
         \<and> du_process (a_dump g') = None \<and> du_process (fk_dump t) = du_process (a_dump g)
         \<and> fk_meta t = map_option (remember_store (a_store g)) (a_meta g) \<and> fk_automatic t = automatic)"
proof (cases "a_phase g = Recording")
  case False
  then show ?thesis using assms by (auto simp: finish_begin_def)
next
  case True
  obtain e d where polled: "(if automatic then dump_poll_error checked (a_dump g) else (None, a_dump g)) = (e, d)"
    by (cases "if automatic then dump_poll_error checked (a_dump g) else (None, a_dump g)") auto
  then have proc: "du_process d = du_process (a_dump g)"
    by (auto simp: dump_poll_error_def Let_def split: if_splits)
  show ?thesis
  proof (cases "automatic \<and> \<not> should_stop (e \<noteq> None) now (a_meta g)")
    case stay: True
    then have "r = Inl outcome_default \<and> g' = g\<lparr>a_dump := d\<rparr>"
      using assms True polled by (auto simp: finish_begin_def Let_def)
    then show ?thesis using proc by simp
  next
    case stop: False
    then show ?thesis
      using assms True polled proc by (auto simp: finish_begin_def Let_def record_dump_def dump_default_def)
  qed
qed

lemma dump_stop_process: "dump_stop stop_error d = (r, d') \<Longrightarrow> du_process d' = None"
  by (auto simp: dump_stop_def Let_def split: option.splits)

lemma only_one: "xs @ x # ys = [y] \<longleftrightarrow> xs = [] \<and> ys = [] \<and> x = y"
  by (cases xs) auto

lemma rec_step_ok: "rec_step w w' \<Longrightarrow> world_ok w \<Longrightarrow> world_ok w'"
proof (induction rule: rec_step.induct)
  case (other w g)
  then show ?case
    using same_recording_world [OF app_step_same] app_step_procs by (auto simp: world_ok_def Let_def)
next
  case (refused filtered w e g)
  then have "g = w_app w" using start_begin_cases [OF refused.hyps] by auto
  then show ?case using refused.prems by simp
next
  case (started filtered w t g)
  from start_begin_cases [OF started.hyps] started.prems show ?case
    by (auto simp: world_ok_def Let_def dump_default_def)
next
  case (running w xs t ys now' dir_error now spawned ready path)
  then have phase: "a_phase (w_app w) = Starting" and one: "xs = []" "ys = []" "start_ok t"
    by (auto simp: world_ok_def Let_def only_one split: DumpPhase.splits)
  show ?case
    using start_end_world [where g = "w_app w" and now' = now', OF one(3) refl, of dir_error now spawned ready path] running.prems phase one
    by (auto simp: world_ok_def Let_def split: if_splits)
next
  case (kept automatic checked now w oc g)
  from finish_begin_cases [OF kept.hyps] kept.prems show ?case
    by (auto simp: world_ok_def Let_def split: DumpPhase.splits)
next
  case (stopped automatic checked now w t g)
  from finish_begin_cases [OF stopped.hyps] stopped.prems show ?case
    by (auto simp: world_ok_def Let_def intro: remember_store_keeps(1))
next
  case (settled w xs t ys stop_error r d accounted)
  then show ?case
    using dump_stop_process [OF settled.hyps(2)]
    by (auto simp: world_ok_def Let_def only_one finish_remember_def intro: remember_store_keeps(1) split: DumpPhase.splits)
next
  case (judged w xs t d accounted stop_error ys)
  then show ?case by (auto simp: world_ok_def Let_def only_one split: DumpPhase.splits)
next
  case (processed w xs t d errors ys ru now env oc fs)
  then show ?case by (auto simp: world_ok_def Let_def only_one split: DumpPhase.splits)
next
  case (finished w xs d automatic oc ys)
  then show ?case by (auto simp: world_ok_def Let_def only_one finish_end_def split: DumpPhase.splits)
qed

lemma rec_reachable_ok: "rec_reachable w \<Longrightarrow> world_ok w"
proof (induction rule: rec_reachable.induct)
  case (start now me iface port fs)
  show ?case by (simp add: world_ok_def app_new_def dump_default_def)
next
  case (step w w')
  then show ?case using rec_step_ok by blast
qed

section \<open>The store of the program\<close>

text \<open>Every step changes the store by operations of the store.\<close>

inductive store_steps :: "Store \<Rightarrow> Store \<Rightarrow> bool" where
  none: "store_steps s s"
| more: "store_steps s s' \<Longrightarrow> store_step s' s'' \<Longrightarrow> store_steps s s''"

lemma store_steps_one: "store_step s s' \<Longrightarrow> store_steps s s'"
  by (blast intro: store_steps.intros)

lemma store_steps_trans: "store_steps s' s'' \<Longrightarrow> store_steps s s' \<Longrightarrow> store_steps s s''"
  by (induction rule: store_steps.induct) (auto intro: store_steps.intros)

lemma store_steps_reachable: "store_steps s s' \<Longrightarrow> reachable s \<Longrightarrow> reachable s'"
  by (induction rule: store_steps.induct) (auto intro: reachable.intros)

lemma store_kept [simp]:
  "a_store (record_dump g) = a_store g" "a_store (track_dump now ps g) = a_store g"
  "a_store (refresh_selected_group ps full g) = a_store g" "a_store (record_dump_conn k g) = a_store g"
  by (auto simp: record_dump_def track_dump_def refresh_selected_group_def record_dump_conn_def split: option.split)

lemma poll_processes_store [simp]: "a_store (poll_processes inp g) = a_store g"
  by (auto simp: poll_processes_def Let_def split: option.split)

lemma whois_pass_steps: "store_steps (snd (snd acc)) (snd (snd (whois_pass now look acc)))"
proof -
  have "store_steps (snd (snd acc)) (snd (snd (fold (\<lambda>ip acc. case look ip of None \<Rightarrow> acc | Some w \<Rightarrow> whois_done now ip w acc) ips acc)))" for ips acc
  proof (induction ips arbitrary: acc)
    case (Cons ip ips)
    obtain fails cache s where acc: "acc = (fails, cache, s)" by (cases acc) auto
    have "store_steps (snd (snd acc)) (snd (snd (case look ip of None \<Rightarrow> acc | Some w \<Rightarrow> whois_done now ip w acc)))"
      by (auto simp: acc intro: store_steps.none store_steps_one store_step.looked_up split: option.split)
    then show ?case using Cons.IH store_steps_trans by fastforce
  qed (simp add: store_steps.none)
  then show ?thesis by (cases acc) (fastforce simp: whois_pass_def Let_def)
qed

lemma app_step_store: "app_step g g' \<Longrightarrow> store_steps (a_store g) (a_store g')"
proof (induction rule: app_step.induct)
  case (packets g batch)
  have "store_steps (a_store g) (a_store (fold account_packet batch g))" for g
  proof (induction batch arbitrary: g)
    case (Cons x xs)
    have "store_steps (a_store g) (a_store (account_packet x g))"
      by (auto simp: account_packet_def intro!: store_steps_one split: prod.split)
        (metis snd_conv store_step.packet)
    then show ?case using Cons.IH store_steps_trans by fastforce
  qed (simp add: store_steps.none)
  then show ?case by (simp add: packet_batch_def Let_def)
next
  case (polled inp g parse_ip ru)
  let ?s0 = "a_store g"
  let ?s1 = "set_local_ips (pi_local_ips inp) ?s0"
  let ?s2 = "apply_sockets (pi_sock_clk inp) (pi_socks inp) (proc_map_of (a_procs (poll_processes inp g))) ?s1"
  let ?s3 = "enrich_names parse_ip ru (pi_name_clk inp) ?s2"
  let ?g = "poll_processes inp g"
  have "store_steps ?s0 ?s3"
    by (meson store_steps.intros store_step.addresses store_step.snapshot store_step.enriched)
  then have "store_steps ?s0 (apply_whois parse_ip wh ?s3)" for wh
    by (meson store_steps.intros store_step.whois)
  then show ?case by (simp add: poll_round_def poll_store_def Let_def)
next
  case (looked_up now look fails g r)
  then show ?case using whois_pass_steps [of "(fails, a_whois g, a_store g)" now look] by simp
qed (auto simp: api_select_def api_clear_def intro: store_steps.none store_steps_one store_step.named store_step.cleared
    store_step.addresses store_step.restored)

lemma rec_step_store: "rec_step w w' \<Longrightarrow> store_steps (a_store (w_app w)) (a_store (w_app w'))"
proof (induction rule: rec_step.induct)
  case (other w g)
  then show ?case by (simp add: app_step_store)
next
  case (refused filtered w e g)
  then show ?case using start_begin_cases [OF refused.hyps] by (auto intro: store_steps.none)
next
  case (started filtered w t g)
  then show ?case using start_begin_cases [OF started.hyps] by (auto intro: store_steps.none)
next
  case (running w xs t ys now' dir_error now spawned ready path)
  show ?case by (auto simp: start_end_def Let_def intro: store_steps.none split: option.split)
next
  case (kept automatic checked now w oc g)
  then have "a_store g = a_store (w_app w)" by (auto simp: finish_begin_def Let_def split: if_splits)
  then show ?case by (simp add: store_steps.none)
next
  case (stopped automatic checked now w t g)
  then have "a_store g = a_store (w_app w)" by (auto simp: finish_begin_def Let_def split: if_splits)
  then show ?case by (simp add: store_steps.none)
qed (simp_all add: store_steps.none finish_end_def Let_def)

lemma rec_reachable_store: "rec_reachable w \<Longrightarrow> reachable (a_store (w_app w))"
proof (induction rule: rec_reachable.induct)
  case (start now me iface port fs)
  show ?case by (simp add: app_new_def reachable.start)
next
  case (step w w')
  then show ?case using store_steps_reachable rec_step_store by blast
qed

end
