(* ===== verification/Rec_Props.thy ===== *)
theory Rec_Props
  imports Recording_Facts
begin

text \<open>
  The properties of recordings: one at a time, bounded, with owners that no sighting contradicts and
  processes that descend from the group, filtered by a plan that keeps proven traffic only, and ended
  with an outcome that tells the truth.
\<close>

section \<open>The owner of a recorded connection\<close>

definition observe :: "(ConnKey \<times> Conn) list \<Rightarrow> DumpMeta \<Rightarrow> DumpMeta" where
  "observe obs m = fold (\<lambda>e. remember_dump_conn (fst e) (snd e)) obs m"

text \<open>Sightings agree with an owner: each names it or nobody, and none is disputed.\<close>

definition agrees :: "int \<Rightarrow> Conn \<Rightarrow> bool" where
  "agrees pid c \<longleftrightarrow> \<not> c_owner_ambiguous c \<and> (c_pid c = None \<or> c_pid c = Some pid)"

lemma update_recording_agrees:
  "c_pid (update_recording old c) = Some pid \<Longrightarrow> agrees pid old \<and> agrees pid c"
  by (auto simp: update_recording_def disown_def agrees_def Let_def split: if_splits)

lemma update_recording_cases:
  "update_recording old c = disown c
   \<or> update_recording old c = c \<and> \<not> c_owner_ambiguous c \<and> \<not> c_owner_ambiguous old \<and> (c_pid old = None \<or> c_pid old = c_pid c)"
  by (simp add: update_recording_def Let_def)

lemma update_recording_disputed: "c_owner_ambiguous (update_recording old c) \<Longrightarrow> c_pid (update_recording old c) = None"
  using update_recording_cases [of old c] by (auto simp: disown_def)

lemma observe_agrees:
  assumes "hm_get (dm_conns m) k = Some c0" and "hm_get (dm_conns (observe obs m)) k = Some c" and "c_pid c = Some pid"
    and "\<not> c_owner_ambiguous c0"
  shows "agrees pid c0 \<and> (\<forall>c'. (k, c') \<in> set obs \<longrightarrow> dm_started m \<le> c_last_seen c' \<longrightarrow> agrees pid c')"
  using assms
proof (induction obs arbitrary: m c0)
  case Nil
  then show ?case by (simp add: observe_def agrees_def)
next
  case (Cons e obs)
  obtain k1 c1 where e: "e = (k1, c1)" by (cases e)
  let ?m = "remember_dump_conn (fst e) (snd e) m"
  have obs: "observe (e # obs) m = observe obs ?m" by (simp add: observe_def)
  have began: "dm_started ?m = dm_started m" using remember_grows [of m "fst e" "snd e"] by (simp add: meta_grows_def)
  show ?case
  proof (cases "fst e = k \<and> dm_started m \<le> c_last_seen (snd e)")
    case True
    let ?u = "update_recording c0 (snd e)"
    have get: "hm_get (dm_conns ?m) k = Some ?u"
      using True Cons.prems(1) by (auto simp: remember_dump_conn_def hm_get_put)
    show ?thesis
    proof (cases "c_owner_ambiguous ?u")
      case False
      from Cons.IH [OF get _ Cons.prems(3) False] Cons.prems(2) obs
      have rest: "agrees pid ?u" "\<forall>c'. (k, c') \<in> set obs \<longrightarrow> dm_started m \<le> c_last_seen c' \<longrightarrow> agrees pid c'"
        by (auto simp: began)
      have "?u = snd e" using False by (auto simp: update_recording_def disown_def Let_def split: if_splits)
      moreover have "c_pid c0 = None \<or> c_pid c0 = c_pid (snd e)"
        using False by (auto simp: update_recording_def disown_def Let_def split: if_splits)
      ultimately show ?thesis using rest Cons.prems(4) True by (auto simp: agrees_def e)
    next
      case amb: True
      have stuck: "c_owner_ambiguous u \<Longrightarrow> c_pid u = None \<Longrightarrow> hm_get (dm_conns m') k = Some u \<Longrightarrow>
          hm_get (dm_conns (observe os m')) k = Some c \<Longrightarrow> c_pid c = None" for u m' os
      proof (induction os arbitrary: m' u)
        case Nil
        then show ?case by (simp add: observe_def)
      next
        case (Cons x os)
        let ?m' = "remember_dump_conn (fst x) (snd x) m'"
        have step: "observe (x # os) m' = observe os ?m'" by (simp add: observe_def)
        have "\<exists>u'. hm_get (dm_conns ?m') k = Some u' \<and> c_owner_ambiguous u' \<and> c_pid u' = None"
          using Cons.prems
          by (auto simp: remember_dump_conn_def hm_get_put update_recording_def disown_def Let_def split: option.split)
        then show ?case using Cons.IH Cons.prems(4) step by metis
      qed
      have "c_pid ?u = None" using amb by (rule update_recording_disputed)
      then have "c_pid c = None" using stuck [OF amb _ get] Cons.prems(2) obs by metis
      then show ?thesis using Cons.prems(3) by simp
    qed
  next
    case False
    have "hm_get (dm_conns ?m) k = Some c0"
      using False Cons.prems(1) by (auto simp: remember_dump_conn_def hm_get_put split: option.split)
    from Cons.IH [OF this _ Cons.prems(3,4)] Cons.prems(2) obs False show ?thesis by (auto simp: began [unfolded e fst_conv snd_conv] e)
  qed
qed


section \<open>The processes of a recording\<close>

lemma proc_map_of_get: "hm_get (proc_map_of ps) pid = Some p \<Longrightarrow> p \<in> set ps \<and> p_pid p = pid"
proof -
  have "hm_get (fold (\<lambda>p m. hm_put (p_pid p) p m) ps m) pid = Some p \<Longrightarrow>
      (p \<in> set ps \<and> p_pid p = pid) \<or> hm_get m pid = Some p" for m
    by (induction ps arbitrary: m) (fastforce simp: hm_get_put split: if_splits)+
  from this [of "[]"] show "hm_get (proc_map_of ps) pid = Some p \<Longrightarrow> p \<in> set ps \<and> p_pid p = pid"
    by (simp add: proc_map_of_def)
qed

lemma track_pids_new:
  "i \<in> set (dm_instances (track_pids live pids m)) \<Longrightarrow> i \<notin> set (dm_instances m) \<Longrightarrow>
   \<exists>pid \<in> set pids. \<exists>p. hm_get live pid = Some p \<and> p_started p \<noteq> 0 \<and> identity p = i"
proof (induction live pids m rule: track_pids.induct)
  case (2 live pid pids m)
  then show ?case by (cases "hm_get live pid") (auto split: if_splits)
qed simp

lemma live_roots_live:
  "r \<in> set (live_roots (proc_map_of ps) m) \<Longrightarrow> \<exists>p \<in> set ps. p_pid p = r \<and> identity p \<in> set (dm_instances m)"
  using proc_map_of_get by (fastforce simp: live_roots_def identity_def split: option.splits)

section \<open>The plan\<close>

lemma merge_fold_wf:
  "hm_wf rec \<Longrightarrow> hm_wf (fold (\<lambda>e rec. if c_last_seen (snd e) < t then rec
      else case hm_get rec (fst e) of
             Some old \<Rightarrow> hm_put (fst e) (update_recording old (snd e)) rec
           | None \<Rightarrow> hm_put (fst e) (snd e) rec) es rec)"
  by (induction es arbitrary: rec) (auto simp: hm_wf_put split: option.split)

lemma merge_fold_get:
  assumes "hm_wf es" and "hm_wf rec"
  shows "hm_get (fold (\<lambda>e rec. if c_last_seen (snd e) < t then rec
      else case hm_get rec (fst e) of
             Some old \<Rightarrow> hm_put (fst e) (update_recording old (snd e)) rec
           | None \<Rightarrow> hm_put (fst e) (snd e) rec) es rec) k
    = (case hm_get es k of
         None \<Rightarrow> hm_get rec k
       | Some c \<Rightarrow> if c_last_seen c < t then hm_get rec k
           else case hm_get rec k of None \<Rightarrow> Some c | Some old \<Rightarrow> Some (update_recording old c))"
  using assms
proof (induction es arbitrary: rec)
  case (Cons e es)
  let ?r = "if c_last_seen (snd e) < t then rec
      else case hm_get rec (fst e) of
             Some old \<Rightarrow> hm_put (fst e) (update_recording old (snd e)) rec
           | None \<Rightarrow> hm_put (fst e) (snd e) rec"
  have wf: "hm_wf es" "fst e \<notin> fst ` set es" "hm_wf ?r"
    using Cons.prems by (auto simp: hm_wf_def hm_wf_put [unfolded hm_wf_def] split: option.split)
  have gone: "hm_get es (fst e) = None" using wf(2) by (simp add: hm_get_None hm_has_def)
  have head: "hm_get (e # es) k = (if fst e = k then Some (snd e) else hm_get es k)"
    by (cases e) (simp add: hm_get_def)
  show ?case
    using Cons.IH [OF wf(1,3)] gone by (auto simp: head hm_get_put split: option.split)
qed simp


lemma merge_recorded_get:
  assumes "hm_wf (s_conns s)" and "hm_wf (dm_conns m)"
  shows "hm_get (merge_recorded m s) k = (case hm_get (s_conns s) k of
      None \<Rightarrow> hm_get (dm_conns m) k
    | Some c \<Rightarrow> if c_last_seen c < dm_started m then hm_get (dm_conns m) k
        else case hm_get (dm_conns m) k of None \<Rightarrow> Some c | Some old \<Rightarrow> Some (update_recording old c))"
  unfolding merge_recorded_def by (rule merge_fold_get [OF assms])

lemma merge_recorded_wf: "hm_wf (dm_conns m) \<Longrightarrow> hm_wf (merge_recorded m s)"
  unfolding merge_recorded_def by (rule merge_fold_wf)

lemma plan_lookup_recorded:
  assumes "hm_wf (dm_conns m)" and "dump_plan ru now g m path = (plan, info)" and "hm_get (pl_owners plan) k = Some ow"
  shows "\<exists>c. hm_get (merge_recorded m (a_store g)) k = Some c \<and> dm_started m \<le> c_last_seen c \<and> ow = plan_owner m c"
proof -
  let ?r = "filter (\<lambda>e. dm_started m \<le> c_last_seen (snd e)) (merge_recorded m (a_store g))"
  have "pl_owners plan = map (\<lambda>e. (fst e, plan_owner m (snd e))) ?r"
    using assms(2) by (auto simp: dump_plan_def Let_def)
  then obtain c where c: "(k, c) \<in> set ?r" "ow = plan_owner m c"
    using hm_get_in_set [OF assms(3)] by auto
  then have "hm_get (merge_recorded m (a_store g)) k = Some c"
    using hm_get_of_set [OF merge_recorded_wf [OF assms(1)]] by auto
  then show ?thesis using c by auto
qed

lemma dump_owns_owner: "dump_owns m c \<Longrightarrow> \<exists>pid started. c_pid c = Some pid \<and> c_owner_started c = Some started
    \<and> \<lparr>id_pid = pid, id_started = started\<rparr> \<in> set (dm_instances m)"
  by (auto simp: dump_owns_def split: option.splits)

lemma set_by_last_seen [simp]: "set (by_last_seen cs) = set cs"
  by (simp add: by_last_seen_def)

section \<open>The file name\<close>

lemma utf8_step_wide: "1 < snd (utf8_step d) \<Longrightarrow> i < snd (utf8_step d) \<Longrightarrow> i < length d \<Longrightarrow> 128 \<le> unat (d ! i)"
proof -
  assume multi: "1 < snd (utf8_step d)" and i: "i < snd (utf8_step d)" and len: "i < length d"
  have four: "i = 0 \<or> i = 1 \<or> i = 2 \<or> i = 3"
    using i by (auto simp: utf8_step_def Let_def split: if_splits)
  have "128 \<le> byte_at d i"
    using multi i four
    by (auto simp: utf8_step_def is_cont_def second_ok_def Let_def split: if_splits)
  then show ?thesis using len by (simp add: byte_at_def split: if_splits)
qed

lemma utf8_chars_steps: "utf8_chars [] = []"
  "s \<noteq> [] \<Longrightarrow> utf8_chars s = take (snd (utf8_step (bytes_of s))) s # utf8_chars (drop (snd (utf8_step (bytes_of s))) s)"
  by (subst utf8_chars.simps, simp add: Let_def)+

lemma utf8_chars_wide: "c \<in> set (utf8_chars s) \<Longrightarrow> length c \<noteq> 1 \<Longrightarrow> x \<in> set c \<Longrightarrow> 128 \<le> char_code x"
proof (induction s rule: utf8_chars.induct)
  case (1 s)
  let ?n = "snd (utf8_step (bytes_of s))"
  show ?case
  proof (cases "c \<in> set (utf8_chars (drop ?n s))")
    case True
    then have "s \<noteq> []" using "1.prems"(1) utf8_chars_steps(1) by (cases "s = []") auto
    from "1.IH" [OF this refl True "1.prems"(2,3)] show ?thesis .
  next
    case False
    have s: "s \<noteq> []" using "1.prems"(1) utf8_chars_steps(1) by (cases "s = []") auto
    then have c: "c = take ?n s" using "1.prems"(1) False utf8_chars_steps(2) [OF s] by simp
    then obtain i where i: "i < ?n" "i < length s" "x = s ! i"
      using "1.prems"(3) by (auto simp: in_set_conv_nth)
    have "?n \<noteq> 1" using c s "1.prems"(2) by (cases s) auto
    then have "1 < ?n" using utf8_step_pos [of "bytes_of s"] by simp
    from utf8_step_wide [OF this i(1)] i
    show ?thesis using char_code_chr [of "ord x"] by (simp add: bytes_of_def)
  qed
qed

definition safe_char :: "char \<Rightarrow> bool" where
  "safe_char c \<longleftrightarrow> is_ascii_alphanumeric c \<or> c = CHR ''.'' \<or> c = CHR ''-'' \<or> c = CHR ''_'' \<or> 128 \<le> char_code c"

lemma stem_loop_safe:
  "length out \<le> 64 \<Longrightarrow> \<forall>x \<in> set out. safe_char x \<Longrightarrow> \<forall>c \<in> set cs. length c \<noteq> 1 \<longrightarrow> (\<forall>x \<in> set c. 128 \<le> char_code x) \<Longrightarrow>
   length (stem_loop wide cs out) \<le> 64 \<and> (\<forall>x \<in> set (stem_loop wide cs out). safe_char x)"
proof (induction cs arbitrary: out)
  case (Cons c cs)
  let ?d = "stem_char wide c"
  have d: "\<forall>x \<in> set ?d. safe_char x"
    using Cons.prems(3) by (cases c) (auto simp: stem_char_def safe_char_def)
  have all: "\<forall>x \<in> set (out @ ?d). safe_char x" using d Cons.prems(2) unfolding set_append by blast
  have rest: "\<forall>c \<in> set cs. length c \<noteq> 1 \<longrightarrow> (\<forall>x \<in> set c. 128 \<le> char_code x)" using Cons.prems(3) by simp
  show ?case
  proof (cases "64 < length out + length ?d")
    case True
    then show ?thesis using Cons.prems by (simp add: Let_def)
  next
    case False
    then have "length (out @ ?d) \<le> 64" by simp
    from Cons.IH [OF this all rest] False show ?thesis by (simp add: Let_def)
  qed
qed simp


section \<open>Properties\<close>

text \<open>
  C7. One recording at a time. However the requests to begin and to end a recording, the automatic
  end, the packets, the polls and the other requests interleave, at most one of them works on a
  recording; the phase says which; and the metadata and the child process that writes the capture
  are there exactly while the phase is Recording, so that none is forgotten, stopped twice or started
  over another.
\<close>

theorem one_recording:
  assumes "rec_reachable w"
  shows "length (w_starting w) + length (w_finishing w) \<le> 1
    \<and> (a_phase (w_app w) = Starting \<longleftrightarrow> w_starting w \<noteq> [])
    \<and> (a_phase (w_app w) = Finishing \<longleftrightarrow> w_finishing w \<noteq> [])
    \<and> (a_phase (w_app w) = Recording \<longleftrightarrow> a_meta (w_app w) \<noteq> None)
    \<and> (a_phase (w_app w) = Recording \<longleftrightarrow> du_process (a_dump (w_app w)) \<noteq> None)"
  using rec_reachable_ok [OF assms] by (auto simp: world_ok_def Let_def split: DumpPhase.splits)

text \<open>
  C14. A recording is bounded. While it runs it remembers at most 40,000 connections, each once, and at
  most 4,096 processes, each once and each with a known start time; its limit flag is never withdrawn.
\<close>

theorem recording_bounded:
  assumes "rec_reachable w" and "a_meta (w_app w) = Some m"
  shows "hm_wf (dm_conns m) \<and> length (dm_conns m) \<le> 40000 \<and> distinct (dm_instances m)
    \<and> length (dm_instances m) \<le> 4096 \<and> (\<forall>i \<in> set (dm_instances m). id_started i \<noteq> 0)
    \<and> (app_step (w_app w) g \<longrightarrow> (\<exists>m'. a_meta g = Some m' \<and> (dm_limit_reached m \<longrightarrow> dm_limit_reached m')
          \<and> set (dm_instances m) \<subseteq> set (dm_instances m') \<and> (\<forall>k. hm_has (dm_conns m) k \<longrightarrow> hm_has (dm_conns m') k)))"
proof -
  have "meta_ok m"
    using rec_reachable_ok [OF assms(1)] assms(2) by (auto simp: world_ok_def Let_def split: DumpPhase.splits)
  moreover have "app_step (w_app w) g \<Longrightarrow> \<exists>m'. a_meta g = Some m' \<and> meta_grows m m'"
    using app_step_same [of "w_app w" g] assms(2) by (auto simp: same_recording_def option_rel_Some1)
  ultimately show ?thesis
    by (auto simp: meta_ok_def meta_grows_def MAX_DUMP_CONNS_def MAX_DUMP_PROCS_def)
qed

text \<open>
  C9. An owner is recorded only without contradiction. When, after any sightings of connections, the
  record of a connection names a process, then the first record of it and every later sighting during
  the recording named that process or none, and none of them was disputed.
\<close>

theorem recorded_owner_agrees:
  assumes "hm_get (dm_conns m) k = Some c0" and "\<not> c_owner_ambiguous c0"
    and "hm_get (dm_conns (fold (\<lambda>e. remember_dump_conn (fst e) (snd e)) obs m)) k = Some c" and "c_pid c = Some pid"
  shows "c_pid c0 \<in> {None, Some pid}
    \<and> (\<forall>c'. (k, c') \<in> set obs \<longrightarrow> dm_started m \<le> c_last_seen c' \<longrightarrow>
         \<not> c_owner_ambiguous c' \<and> c_pid c' \<in> {None, Some pid})"
  using observe_agrees [OF assms(1) _ assms(4) assms(2), of obs] assms(3) by (auto simp: observe_def agrees_def)

text \<open>
  C10. The group grows by descent only. A process is added to a recording only if it runs now, its start
  time is known, and it descends, through the process table of the same scan, from a process of the
  recording that still runs with the same PID and start time. A foreign process that took over the PID
  of one that ended adds nothing.
\<close>

theorem group_grows_by_descent:
  assumes "i \<in> set (dm_instances (track_meta now ps m))" and "i \<notin> set (dm_instances m)"
  shows "\<exists>p \<in> set ps. identity p = i \<and> p_started p \<noteq> 0
    \<and> (\<exists>r \<in> set ps. identity r \<in> set (dm_instances m) \<and> (p_pid r, p_pid p) \<in> (parent_rel ps)\<^sup>*)"
proof -
  let ?live = "proc_map_of ps" and ?m = "if live_roots (proc_map_of ps) m \<noteq> [] then m\<lparr>dm_last_alive := now\<rparr> else m"
  have "i \<in> set (dm_instances (track_pids ?live (descendants_from ps (live_roots ?live m)) ?m))"
    using assms by (auto simp: track_meta_def Let_def split: option.splits)
  moreover have "i \<notin> set (dm_instances ?m)" using assms(2) by simp
  ultimately obtain pid p where p: "pid \<in> set (descendants_from ps (live_roots ?live m))" "hm_get ?live pid = Some p"
      "p_started p \<noteq> 0" "identity p = i"
    using track_pids_new by blast
  then obtain root where root: "root \<in> set (live_roots ?live m)" "(root, pid) \<in> (parent_rel ps)\<^sup>*"
    using descendants_from_set [of ps "live_roots ?live m"] by auto
  then obtain r where "r \<in> set ps" "p_pid r = root" "identity r \<in> set (dm_instances m)"
    using live_roots_live by blast
  then show ?thesis using p root proc_map_of_get [OF p(2)] by blast
qed


lemma rewrite_keeps_or_replaces:
  "plan_rewrite env plan perm_ok write_ok rename_ok path fs = (r, fs') \<Longrightarrow>
   (case r of Inl e \<Rightarrow> fs' = fs
    | Inr st \<Rightarrow> \<exists>src out. fs path = Some src \<and> plan_apply env plan src = Inr (st, out) \<and> fs' = fs(path \<mapsto> out))"
proof -
  assume run: "plan_rewrite env plan perm_ok write_ok rename_ok path fs = (r, fs')"
  let ?tmp = "path @ ''.part''"
  have undo: "fs ?tmp = None \<Longrightarrow> (fs(?tmp \<mapsto> x))(?tmp := None) = fs"
    "fs ?tmp = None \<Longrightarrow> (fs(?tmp \<mapsto> x))(path \<mapsto> y, ?tmp := None) = fs(path \<mapsto> y)" for x y
    by auto
  show ?thesis
  proof (cases "fs path = None \<or> fs ?tmp \<noteq> None")
    case True
    then show ?thesis using run by (auto simp: plan_rewrite_def Let_def split: option.splits)
  next
    case False
    then obtain src where "fs path = Some src" "fs ?tmp = None" by auto
    then show ?thesis
      using run undo by (cases "plan_apply env plan src") (auto simp: plan_rewrite_def Let_def split: if_splits)
  qed
qed

text \<open>
  C6. The outcome is honest. When the end of a recording is reported as a success, then the capture
  stopped without an error, all packets accepted before were accounted, no limit was reached, no packet
  was lost since the beginning, the file was rewritten by the plan and the record was saved beside it.
  A recording of the group alone is never filtered with incomplete data: then it is marked as unfiltered.
  When the recording is marked as unfiltered, it was to hold the group alone and the capture is as it
  was written; when it is not marked and was to hold the group alone, the file is the rewritten one.
\<close>

theorem outcome_honest:
  assumes "finish_outcome ru now env g d t (finish_errors accounted stop_error g' t) fs = (oc, fs')"
    and "du_path d = Some path" and "fk_meta t = Some m"
  defines "plan \<equiv> fst (dump_plan ru now g m path)" and "jp \<equiv> trim_suffix ''.pcapng'' path @ ''.json''"
  shows "(oc_ok oc \<longrightarrow> accounted \<and> stop_error = None \<and> \<not> dm_limit_reached m
        \<and> m_dropped (a_metrics g') \<le> dm_dropped_at_start m \<and> \<not> oc_unfiltered oc \<and> oc_sidecar oc = Some jp
        \<and> (\<exists>src st out json. fs path = Some src \<and> plan_apply (fv_frames env) plan src = Inr (st, out)
             \<and> fs' = fs(path \<mapsto> out, jp \<mapsto> json)))
    \<and> (dm_only_group m \<longrightarrow> finish_errors accounted stop_error g' t \<noteq> [] \<longrightarrow> oc_unfiltered oc)
    \<and> (oc_unfiltered oc \<longrightarrow> dm_only_group m \<and> \<not> oc_ok oc \<and> (\<forall>p. p \<noteq> jp \<longrightarrow> fs' p = fs p))
    \<and> (\<not> oc_unfiltered oc \<longrightarrow> dm_only_group m \<longrightarrow>
        (\<exists>src st out. fs path = Some src \<and> plan_apply (fv_frames env) plan src = Inr (st, out)
           \<and> (path \<noteq> jp \<longrightarrow> fs' path = Some out)))"
proof -
  let ?errs = "finish_errors accounted stop_error g' t"
  obtain plan' info where dp: "dump_plan ru now g m path = (plan', info)" by (cases "dump_plan ru now g m path")
  then have plan: "plan = plan'" by (simp add: plan_def)
  obtain sidecar unfiltered perrs fs1 where run: "process_dump_file env plan' info path (dm_only_group m) (?errs = []) fs
      = ((sidecar, unfiltered, perrs), fs1)"
    by (metis surj_pair)
  have oc: "oc_ok oc \<longleftrightarrow> ?errs = [] \<and> perrs = []" "oc_sidecar oc = sidecar" "oc_unfiltered oc = unfiltered" "fs' = fs1"
    using assms(1-3) dp run by (auto simp: finish_outcome_def Let_def)
  obtain r fs2 where rw: "plan_rewrite (fv_frames env) plan' (fv_perm env) (fv_write env) (fv_rename env) path fs = (r, fs2)"
    by (cases "plan_rewrite (fv_frames env) plan' (fv_perm env) (fv_write env) (fv_rename env) path fs")
  note rewritten = rewrite_keeps_or_replaces [OF rw]
  have quiet: "?errs = [] \<Longrightarrow> accounted \<and> stop_error = None \<and> \<not> dm_limit_reached m \<and> m_dropped (a_metrics g') \<le> dm_dropped_at_start m"
    using assms(3) by (auto simp: finish_errors_def split: option.splits if_splits)
  show ?thesis
  proof (cases "dm_only_group m \<and> ?errs \<noteq> []")
    case True
    then have "unfiltered \<and> perrs \<noteq> [] \<and> (\<forall>p. p \<noteq> jp \<longrightarrow> fs1 p = fs p)"
      using run by (auto simp: process_dump_file_def Let_def jp_def split: option.splits)
    then show ?thesis using oc True by auto
  next
    case False
    show ?thesis
    proof (cases r)
      case (Inl e)
      then have "unfiltered = dm_only_group m \<and> perrs \<noteq> [] \<and> (\<forall>p. p \<noteq> jp \<longrightarrow> fs1 p = fs p)"
        using run False rw rewritten by (auto simp: process_dump_file_def Let_def jp_def split: option.splits)
      then show ?thesis using oc by auto
    next
      case (Inr st)
      then obtain src out where out: "fs path = Some src" "plan_apply (fv_frames env) plan' src = Inr (st, out)"
          "fs2 = fs(path \<mapsto> out)"
        using rewritten by auto
      have "\<not> unfiltered \<and> (perrs = [] \<longrightarrow> sidecar = Some jp \<and> (\<exists>json. fs1 = fs2(jp \<mapsto> json)))
          \<and> (\<forall>p. p \<noteq> jp \<longrightarrow> fs1 p = fs2 p)"
        using run False rw Inr by (auto simp: process_dump_file_def Let_def jp_def split: option.splits)
      then show ?thesis using oc quiet out plan False by auto
    qed
  qed
qed

text \<open>
  A safe name for the file. Whatever the name of the process, the name of the file has at most 64
  bytes of it, and of ASCII only letters, digits, dots, hyphens and underscores, so that it can not
  lead out of the directory of the recordings.
\<close>

theorem dump_stem_safe:
  "length (dump_file_stem wide name) \<le> 64
   \<and> (\<forall>c \<in> set (dump_file_stem wide name). is_ascii_alphanumeric c \<or> c \<in> {CHR ''.'', CHR ''-'', CHR ''_''} \<or> 128 \<le> char_code c)"
  using stem_loop_safe [of "[]" "utf8_chars name" wide] utf8_chars_wide [of _ name]
  by (auto simp: dump_file_stem_def safe_char_def)

theorem dump_stem_safe_witness:
  "length (dump_file_stem (\<lambda>_. False) ''../a'') \<le> 64 \<and> CHR ''/'' \<notin> set (dump_file_stem (\<lambda>_. False) ''../a'')"
proof -
  have "\<not> (is_ascii_alphanumeric CHR ''/'' \<or> CHR ''/'' \<in> {CHR ''.'', CHR ''-'', CHR ''_''} \<or> 128 \<le> char_code CHR ''/'')"
    by code_simp
  then show ?thesis using dump_stem_safe [of "\<lambda>_. False" "''../a''"] by blast
qed

section \<open>Examples\<close>

definition sample_app :: App where
  "sample_app = (app_new 1 900 ''any'' 8777)\<lparr>a_capture_on := True, a_self_roots := [900], a_self_pids := [900]\<rparr>"

definition sample_world :: World where
  "sample_world = \<lparr>w_app = sample_app, w_starting = [], w_finishing = [], w_files = (\<lambda>_. None)\<rparr>"

lemma sample_world_reachable: "rec_reachable sample_world"
proof -
  let ?w = "\<lparr>w_app = app_new 1 900 ''any'' 8777, w_starting = [], w_finishing = [], w_files = (\<lambda>_. None)\<rparr>"
  have "rec_step ?w (?w\<lparr>w_app := sample_app\<rparr>)"
    unfolding sample_app_def by (rule rec_step.other) (use app_step.ready in simp)
  then show ?thesis using rec_reachable.step [OF rec_reachable.start] by (simp add: sample_world_def)
qed

text \<open>A recording of all traffic that has begun.\<close>

definition sample_ticket :: StartTicket where
  "sample_ticket = \<lparr>tk_dump = dump_default, tk_iface = ''any'', tk_name = ''host'', tk_process = None, tk_filtered = False,
     tk_pids = [], tk_instances = [], tk_dropped = 0\<rparr>"

definition sample_recording :: World where
  "sample_recording = sample_world\<lparr>w_app := snd (start_end 4 (start_capture None 5 (Inr 71) None ''d/host.pcapng'' sample_ticket)
     sample_ticket (sample_app\<lparr>a_phase := Starting, a_dump := dump_default\<rparr>))\<rparr>"

lemma sample_recording_reachable: "rec_reachable sample_recording"
proof -
  let ?g = "sample_app\<lparr>a_phase := Starting, a_dump := dump_default\<rparr>"
  have "start_begin False (w_app sample_world) = (Inr sample_ticket, ?g)"
    by (simp add: start_begin_def sample_world_def sample_app_def app_new_def selected_process_def sample_ticket_def
        dump_default_def metrics_default_def MAX_DUMP_PROCS_def)
  note one = rec_step.started [OF this]
  let ?w = "sample_world\<lparr>w_app := ?g, w_starting := sample_ticket # w_starting sample_world\<rparr>"
  have "w_starting ?w = [] @ sample_ticket # []" by (simp add: sample_world_def)
  note two = rec_step.running [OF this, of 4 None 5 "Inr 71" None "''d/host.pcapng''"]
  have "rec_reachable ?w" using rec_reachable.step [OF sample_world_reachable one] .
  from rec_reachable.step [OF this two] show ?thesis
    by (simp add: sample_recording_def sample_world_def)
qed

lemma sample_recording_meta: "\<exists>m. a_meta (w_app sample_recording) = Some m \<and> dm_started m = 5"
  by (simp add: sample_recording_def start_end_def start_capture_def dump_start_def sample_ticket_def dump_default_def
      record_dump_def remember_store_def sample_app_def app_new_def store_default_def Let_def)

theorem one_recording_witness: "a_phase (w_app sample_recording) = Recording \<and> du_process (a_dump (w_app sample_recording)) \<noteq> None"
  using one_recording [OF sample_recording_reachable] sample_recording_meta by auto

theorem recording_bounded_witness:
  "\<exists>m. a_meta (w_app sample_recording) = Some m \<and> length (dm_conns m) \<le> 40000"
  using recording_bounded [OF sample_recording_reachable] sample_recording_meta by blast

definition sample_key :: ConnKey where
  "sample_key = \<lparr>k_proto = Udp, k_local = V4 192 0 2 1, k_lport = 5000, k_remote = V4 203 0 113 9, k_rport = 443\<rparr>"

definition sample_conn :: "int option \<Rightarrow> u64 \<Rightarrow> Conn" where
  "sample_conn pid seen = (new_conn 7 sample_key False)\<lparr>c_pid := pid, c_owner_started := map_option (\<lambda>_. 3) pid, c_last_seen := seen\<rparr>"

definition sample_meta :: "(ConnKey \<times> Conn) list \<Rightarrow> DumpMeta" where
  "sample_meta conns = \<lparr>dm_process = Some \<lparr>p_pid = 42, p_started = 3, p_ppid = 1, p_comm = ''game'', p_name = ''game'',
     p_cmdline = ''game'', p_proton = False\<rparr>, dm_only_group = True, dm_pids = [42],
     dm_instances = [\<lparr>id_pid = 42, id_started = 3\<rparr>], dm_limit_reached = False, dm_dropped_at_start = 0, dm_started = 5,
     dm_last_alive = 5, dm_conns = conns\<rparr>"

lemma sample_conn_fields [simp]:
  "c_pid (sample_conn p t) = p" "c_owner_started (sample_conn p t) = map_option (\<lambda>_. 3) p" "c_last_seen (sample_conn p t) = t"
  "\<not> c_owner_ambiguous (sample_conn p t)" "c_first_seen (sample_conn p t) = 7" "c_udp_generation (sample_conn p t) = None"
  by (simp_all add: sample_conn_def new_conn_def)

theorem recorded_owner_agrees_witness:
  "hm_get (dm_conns (fold (\<lambda>e. remember_dump_conn (fst e) (snd e)) [(sample_key, sample_conn (Some 42) 9)]
     (sample_meta [(sample_key, sample_conn None 8)]))) sample_key = Some (sample_conn (Some 42) 9)
   \<and> c_pid (sample_conn (Some 42) 9) \<in> {None, Some 42}"
proof -
  let ?m = "sample_meta [(sample_key, sample_conn None 8)]"
  have get: "hm_get (dm_conns (fold (\<lambda>e. remember_dump_conn (fst e) (snd e)) [(sample_key, sample_conn (Some 42) 9)] ?m)) sample_key
      = Some (sample_conn (Some 42) 9)"
    by (simp add: remember_dump_conn_def sample_meta_def hm_get_def hm_put_def update_recording_def)
  have first: "hm_get (dm_conns ?m) sample_key = Some (sample_conn None 8)" by (simp add: sample_meta_def hm_get_def)
  have "(sample_key, sample_conn (Some 42) 9) \<in> set [(sample_key, sample_conn (Some 42) 9)]
      \<and> dm_started ?m \<le> c_last_seen (sample_conn (Some 42) 9)"
    by (simp add: sample_meta_def)
  then show ?thesis
    using recorded_owner_agrees [OF first _ get, of 42] get by auto
qed

definition sample_procs :: "ProcInfo list" where
  "sample_procs = [\<lparr>p_pid = 42, p_started = 3, p_ppid = 1, p_comm = [], p_name = [], p_cmdline = [], p_proton = False\<rparr>,
     \<lparr>p_pid = 43, p_started = 4, p_ppid = 42, p_comm = [], p_name = [], p_cmdline = [], p_proton = False\<rparr>]"

lemma sample_track: "dm_instances (track_meta 9 sample_procs (sample_meta []))
    = [\<lparr>id_pid = 42, id_started = 3\<rparr>, \<lparr>id_pid = 43, id_started = 4\<rparr>]"
  by code_simp

theorem group_grows_by_descent_witness:
  "\<exists>p \<in> set sample_procs. identity p = \<lparr>id_pid = 43, id_started = 4\<rparr>
     \<and> (\<exists>r \<in> set sample_procs. identity r \<in> set (dm_instances (sample_meta [])) \<and> (p_pid r, p_pid p) \<in> (parent_rel sample_procs)\<^sup>*)"
  using group_grows_by_descent [of "\<lparr>id_pid = 43, id_started = 4\<rparr>" 9 sample_procs "sample_meta []"] sample_track
  by (auto simp: sample_meta_def)

lemma sample_plan_owners:
  "hm_get (pl_owners (fst (dump_plan False 10 (w_app sample_world) (sample_meta [(sample_key, sample_conn (Some 42) 8)]) ''d''))) sample_key
    = Some (plan_owner (sample_meta [(sample_key, sample_conn (Some 42) 8)]) (sample_conn (Some 42) 8))"
  by (simp add: dump_plan_def Let_def merge_recorded_def sample_world_def sample_app_def app_new_def store_default_def
      sample_meta_def hm_get_def)


definition sample_finish :: FinishTicket where
  "sample_finish = \<lparr>fk_dump = dump_default, fk_meta = Some (sample_meta []), fk_automatic = False\<rparr>"

definition sample_file_env :: FileEnv where
  "sample_file_env = \<lparr>fv_frames = sample_env, fv_perm = True, fv_write = True, fv_rename = True, fv_sidecar = None, fv_json = (\<lambda>_. [])\<rparr>"

theorem outcome_honest_witness:
  "let r = finish_outcome False 9 sample_file_env sample_app (dump_default\<lparr>du_path := Some ''d.pcapng''\<rparr>) sample_finish
       (finish_errors False None sample_app sample_finish) (\<lambda>_. None) in
   oc_unfiltered (fst r)"
proof -
  let ?r = "finish_outcome False 9 sample_file_env sample_app (dump_default\<lparr>du_path := Some ''d.pcapng''\<rparr>) sample_finish
       (finish_errors False None sample_app sample_finish) (\<lambda>_. None)"
  have r: "?r = (fst ?r, snd ?r)" by simp
  have path: "du_path (dump_default\<lparr>du_path := Some ''d.pcapng''\<rparr>) = Some ''d.pcapng''" by simp
  have meta: "fk_meta sample_finish = Some (sample_meta [])" by (simp add: sample_finish_def)
  have "finish_errors False None sample_app sample_finish \<noteq> []" "dm_only_group (sample_meta [])"
    by (simp_all add: finish_errors_def sample_meta_def)
  then have "oc_unfiltered (fst ?r)" using conjunct1 [OF conjunct2 [OF outcome_honest [OF r path meta]]] by blast
  then show ?thesis by (simp only: Let_def)
qed

end
