(* ===== verification/Etw.thy ===== *)
theory Etw
  imports Capture "HOL-Library.Signed_Division"
begin

text \<open>
  Capture on Windows (\<^verbatim>\<open>src/src/etw.rs\<close>): the events of PktMon, the removal of the copies that
  the components of the network stack log, the worker thread with its recording, and the pcapng file
  it writes. What the disk answers is an argument; beginning and ending the session is in
  \<^verbatim>\<open>Etw_Session\<close>.
\<close>

section \<open>Copies of a packet\<close>

definition DEDUP_CAP :: nat where "DEDUP_CAP = 8192"

type_synonym frame_id = "u64 \<times> u16"

record Dedup =
  dd_order :: "frame_id list"
  dd_set :: "frame_id list"

definition dedup_new :: Dedup where
  "dedup_new = \<lparr>dd_order = [], dd_set = []\<rparr>"

text \<open>\<^verbatim>\<open>Dedup::first\<close>.\<close>

definition dedup_first :: "frame_id \<Rightarrow> Dedup \<Rightarrow> bool \<times> Dedup" where
  "dedup_first i d =
     (if i \<in> set (dd_set d) then (False, d)
      else
        let order = dd_order d @ [i]; known = hs_add i (dd_set d) in
        if DEDUP_CAP < length order
        then (True, \<lparr>dd_order = tl order, dd_set = filter (\<lambda>x. x \<noteq> hd order) known\<rparr>)
        else (True, \<lparr>dd_order = order, dd_set = known\<rparr>))"

section \<open>Event 160\<close>

definition ETW_HEADER :: nat where "ETW_HEADER = 34"
definition EVENT_PACKET :: u16 where "EVENT_PACKET = 160"

record EtwFrame =
  ef_group :: u64
  ef_number :: u16
  ef_link :: u16
  ef_orig :: u32
  ef_frame :: bytes

definition le16_at :: "bytes \<Rightarrow> nat \<Rightarrow> u16" where
  "le16_at d i = word_of_nat (le_nat (take 2 (drop i d)))"

text \<open>\<^verbatim>\<open>packet\<close>: the layout is checked against the length of the event.\<close>

definition event_packet :: "bytes \<Rightarrow> EtwFrame option" where
  "event_packet d =
     (if length d < ETW_HEADER then None
      else
        let group = word_of_nat (le_nat (take 8 d)); number = le16_at d 8; ptype = le16_at d 14;
            orig = ucast (le16_at d 30); logged = unat (le16_at d 32); frame = drop ETW_HEADER d in
        if ETW_HEADER + logged \<noteq> length d then None
        else if ptype = 1 \<or> ptype = 3 then
          Some \<lparr>ef_group = group, ef_number = number, ef_link = (if ptype = 1 then 1 else 101),
                ef_orig = max orig (word_of_nat logged), ef_frame = frame\<rparr>
        else Some \<lparr>ef_group = group, ef_number = number, ef_link = 0, ef_orig = orig, ef_frame = frame\<rparr>)"

definition frame_id_of :: "EtwFrame \<Rightarrow> frame_id" where
  "frame_id_of f = (ef_group f, ef_number f)"

section \<open>The file\<close>

text \<open>\<^verbatim>\<open>block\<close>: the body is padded to four bytes, inside the length.\<close>

definition etw_block :: "u32 \<Rightarrow> bytes \<Rightarrow> bytes" where
  "etw_block ty body =
     (let pad = (4 - length body mod 4) mod 4; len = 12 + length body + pad in
      le_bytes 4 (unat ty) @ le_bytes 4 len @ body @ replicate pad 0 @ le_bytes 4 len)"

definition idb_body :: "u16 \<Rightarrow> bytes" where
  "idb_body linktype = le_bytes 2 (unat linktype) @ le_bytes 2 0 @ le_bytes 4 0"

definition shb_body :: bytes where
  "shb_body = le_bytes 4 0x1A2B3C4D @ le_bytes 2 1 @ le_bytes 2 0 @ le_bytes 8 (unat (- 1 :: u64))"

definition dump_header :: bytes where
  "dump_header = etw_block 0x0A0D0D0A shb_body @ etw_block 1 (idb_body 1) @ etw_block 1 (idb_body 101)"

text \<open>FILETIME, a signed number of 100 ns since 1601, to microseconds since 1970.\<close>

definition filetime_us :: "u64 \<Rightarrow> u64" where
  "filetime_us ft = word_of_int (max (sint ft sdiv 10 - 11644473600000000) 0)"

definition epb_body :: "u32 \<Rightarrow> u64 \<Rightarrow> bytes \<Rightarrow> u32 \<Rightarrow> bytes" where
  "epb_body iface ft frame orig =
     (let us = filetime_us ft; len = word_of_nat (length frame) :: u32 in
      le_bytes 4 (unat iface) @ le_bytes 4 (unat (drop_bit 32 us)) @ le_bytes 4 (unat us) @ le_bytes 4 (unat len)
      @ le_bytes 4 (unat (max orig len)) @ frame)"

definition dump_epb :: "u64 \<Rightarrow> EtwFrame \<Rightarrow> bytes" where
  "dump_epb stamp f = etw_block 6 (epb_body (if ef_link f = 1 then 0 else 1) stamp (ef_frame f) (ef_orig f))"

section \<open>The worker\<close>

text \<open>What a write or flush gives: all bytes were taken, or only the first so many, with the reason.\<close>

datatype io_result = IoOk | IoErr nat string

fun io_bytes :: "io_result \<Rightarrow> bytes \<Rightarrow> bytes" where
  "io_bytes IoOk b = b"
| "io_bytes (IoErr n e) b = take n b"

record DumpWriter =
  dw_path :: string
  dw_out :: bytes
  dw_error :: "string option"

text \<open>
  What waits for the worker: a frame with its time stamp, a request to begin or end the recording, or
  the order to stop. A request carries what creating the file, writing its header and flushing give.
\<close>

datatype work =
    Frame bytes u64
  | StartDump string "string option" io_result io_result
  | StopDump io_result
  | Shutdown

record Etw =
  et_queue :: "work list"
  et_stopped :: bool
  et_seen :: Dedup
  et_parsers :: parsers
  et_dump :: "DumpWriter option"
  et_files :: "string \<Rightarrow> bytes option"
  et_error :: "string option"
  et_bad :: u64
  et_channel :: Channel

definition count_dropped :: "Etw \<Rightarrow> Etw" where
  "count_dropped s = s\<lparr>et_channel := (et_channel s)\<lparr>ch_metrics := (ch_metrics (et_channel s))\<lparr>
     m_dropped := m_dropped (ch_metrics (et_channel s)) + 1\<rparr>\<rparr>\<rparr>"

text \<open>Writing a frame to the recording; after an error nothing more is written.\<close>

definition dump_frame :: "io_result \<Rightarrow> u64 \<Rightarrow> EtwFrame \<Rightarrow> Etw \<Rightarrow> Etw" where
  "dump_frame io stamp f s =
     (case et_dump s of
        None \<Rightarrow> s
      | Some w \<Rightarrow>
          if dw_error w \<noteq> None then s
          else
            let out = dw_out w @ io_bytes io (dump_epb stamp f) in
            case io of
              IoOk \<Rightarrow> s\<lparr>et_dump := Some (w\<lparr>dw_out := out\<rparr>)\<rparr>
            | IoErr _ e \<Rightarrow> s\<lparr>et_dump := Some (w\<lparr>dw_out := out, dw_error := Some e\<rparr>), et_error := Some e\<rparr>)"

definition work_frame :: "nat \<Rightarrow> frame_env \<Rightarrow> io_result \<Rightarrow> bytes \<Rightarrow> u64 \<Rightarrow> Etw \<Rightarrow> Etw fallible" where
  "work_frame cap env io d stamp s =
     (case event_packet d of
        None \<Rightarrow> Got (count_dropped (s\<lparr>et_bad := et_bad s + 1\<rparr>))
      | Some f \<Rightarrow>
          if ef_link f = 0 then Got (count_dropped s)
          else
            case dedup_first (frame_id_of f) (et_seen s) of
              (False, seen) \<Rightarrow> Got (s\<lparr>et_seen := seen\<rparr>)
            | (True, seen) \<Rightarrow>
                let s1 = dump_frame io stamp f (s\<lparr>et_seen := seen\<rparr>) in
                (case parse_link_live env (ef_link f) (ef_frame f) (et_parsers s1) of
                   Panic \<Rightarrow> Panic
                 | Absent \<Rightarrow> Got s1
                 | Got r \<Rightarrow> Got (s1\<lparr>et_parsers := snd r, et_channel := snd (sender_send cap (fst r) (et_channel s1))\<rparr>)))"

definition work_start :: "string \<Rightarrow> string option \<Rightarrow> io_result \<Rightarrow> io_result \<Rightarrow> Etw \<Rightarrow> cap_error option \<times> Etw" where
  "work_start path created header flush s =
     (if et_dump s \<noteq> None then (Some AlreadyRecording, s)
      else
        case created of
          Some e \<Rightarrow> (Some (OsError e), s)
        | None \<Rightarrow>
            let s1 = s\<lparr>et_files := (et_files s)(path \<mapsto> io_bytes flush (io_bytes header dump_header))\<rparr> in
            (case (header, flush) of
               (IoErr _ e, _) \<Rightarrow> (Some (OsError e), s1)
             | (IoOk, IoErr _ e) \<Rightarrow> (Some (OsError e), s1)
             | (IoOk, IoOk) \<Rightarrow>
                 (None, s1\<lparr>et_dump := Some \<lparr>dw_path = path, dw_out = dump_header, dw_error = None\<rparr>, et_error := None\<rparr>)))"

definition work_stop :: "io_result \<Rightarrow> Etw \<Rightarrow> cap_error option \<times> Etw" where
  "work_stop flush s =
     (case et_dump s of
        None \<Rightarrow> (None, s)
      | Some w \<Rightarrow>
          let s1 = s\<lparr>et_dump := None, et_files := (et_files s)(dw_path w \<mapsto> io_bytes flush (dw_out w))\<rparr> in
          (case dw_error w of
             Some e \<Rightarrow> (Some (OsError e), s1)
           | None \<Rightarrow> (case flush of IoOk \<Rightarrow> (None, s1) | IoErr _ e \<Rightarrow> (Some (OsError e), s1))))"

text \<open>
  One round of \<^verbatim>\<open>consume\<close>: the answer to a request, and the worker after it. \<open>io\<close> is what
  writing to the recording gives in this round.
\<close>

definition consume :: "nat \<Rightarrow> frame_env \<Rightarrow> io_result \<Rightarrow> work \<Rightarrow> Etw \<Rightarrow> (cap_error option option \<times> Etw) fallible" where
  "consume cap env io w s =
     (case w of
        Frame d stamp \<Rightarrow> map_got (\<lambda>s'. (None, s')) (work_frame cap env io d stamp s)
      | StartDump path created header flush \<Rightarrow> (case work_start path created header flush s of (r, s') \<Rightarrow> Got (Some r, s'))
      | StopDump flush \<Rightarrow> (case work_stop flush s of (r, s') \<Rightarrow> Got (Some r, s'))
      | Shutdown \<Rightarrow> Got (None, s\<lparr>et_stopped := True\<rparr>))"

section \<open>The callback and the requests\<close>

definition WORK_QUEUE :: nat where "WORK_QUEUE = 256"

text \<open>
  \<^verbatim>\<open>on_event\<close>: \<open>ours\<close> says that the provider is PktMon, \<open>user\<close> is the data of the event, if
  it has any. The callback never waits: what does not fit is counted.
\<close>

definition on_event :: "u16 \<Rightarrow> bool \<Rightarrow> bytes option \<Rightarrow> u64 \<Rightarrow> Etw \<Rightarrow> Etw" where
  "on_event event ours user stamp s =
     (if event \<noteq> EVENT_PACKET \<or> \<not> ours then s
      else case user of
             None \<Rightarrow> s
           | Some d \<Rightarrow>
               if et_stopped s then s
               else if length (et_queue s) < WORK_QUEUE then s\<lparr>et_queue := et_queue s @ [Frame d stamp]\<rparr>
               else count_dropped s)"

text \<open>
  \<^verbatim>\<open>dump_start\<close>, \<^verbatim>\<open>dump_stop\<close> and \<^verbatim>\<open>dump_error\<close>: whether the reader of the session is active,
  whether a capture was ever set up, and the answer of the worker, which is absent when it is gone.
\<close>

definition etw_dump_start :: "bool \<Rightarrow> bool \<Rightarrow> cap_error option option \<Rightarrow> cap_error option" where
  "etw_dump_start active sink reply =
     (if \<not> active \<or> \<not> sink then Some CaptureNotRunning
      else case reply of None \<Rightarrow> Some WorkerStopped | Some r \<Rightarrow> r)"

definition etw_dump_stop :: "bool \<Rightarrow> cap_error option option \<Rightarrow> cap_error option" where
  "etw_dump_stop sink reply =
     (if \<not> sink then None else case reply of None \<Rightarrow> Some WorkerStopped | Some r \<Rightarrow> r)"

definition etw_dump_error :: "bool \<Rightarrow> Etw option \<Rightarrow> cap_error option" where
  "etw_dump_error active sink =
     (if \<not> active then Some CaptureStopped
      else case sink of None \<Rightarrow> None | Some s \<Rightarrow> map_option OsError (et_error s))"

section \<open>Copies are removed within the window\<close>

text \<open>
  The promise: a packet is new unless it is among the last \<open>DEDUP_CAP\<close> accepted ones. \<open>h\<close> are the
  packets accepted so far.
\<close>

definition recent :: "frame_id list \<Rightarrow> frame_id list" where
  "recent h = drop (length h - DEDUP_CAP) h"

fun window_run :: "frame_id list \<Rightarrow> frame_id list \<Rightarrow> bool list" where
  "window_run h [] = []"
| "window_run h (i # js) =
     (if i \<in> set (recent h) then False # window_run h js else True # window_run (h @ [i]) js)"

fun dedup_run :: "Dedup \<Rightarrow> frame_id list \<Rightarrow> bool list" where
  "dedup_run d [] = []"
| "dedup_run d (i # js) = (case dedup_first i d of (b, d') \<Rightarrow> b # dedup_run d' js)"

definition dedup_rel :: "frame_id list \<Rightarrow> Dedup \<Rightarrow> bool" where
  "dedup_rel h d \<longleftrightarrow> dd_order d = recent h \<and> distinct (dd_order d) \<and> set (dd_set d) = set (dd_order d)"

lemma dedup_rel_new: "dedup_rel [] dedup_new"
  by (simp add: dedup_rel_def dedup_new_def recent_def)

lemma recent_snoc:
  "recent (h @ [i]) = (if DEDUP_CAP < length (recent h @ [i]) then tl (recent h @ [i]) else recent h @ [i])"
proof (cases "length h < DEDUP_CAP")
  case True
  then show ?thesis by (simp add: recent_def)
next
  case False
  have pos: "0 < DEDUP_CAP" by (simp add: DEDUP_CAP_def)
  have "Suc (length h) - DEDUP_CAP = Suc (length h - DEDUP_CAP)" using False by simp
  then have "recent (h @ [i]) = drop (Suc (length h - DEDUP_CAP)) h @ [i]"
    using False pos by (simp add: recent_def)
  moreover have "recent h = h ! (length h - DEDUP_CAP) # drop (Suc (length h - DEDUP_CAP)) h"
    using False pos by (simp add: recent_def Cons_nth_drop_Suc)
  then have "tl (recent h @ [i]) = drop (Suc (length h - DEDUP_CAP)) h @ [i]" by simp
  moreover have "DEDUP_CAP < length (recent h @ [i])" using False by (simp add: recent_def)
  ultimately show ?thesis by simp
qed

lemma dedup_first_rel:
  assumes "dedup_rel h d" and "dedup_first i d = (b, d')"
  shows "b = (i \<notin> set (recent h)) \<and> dedup_rel (if b then h @ [i] else h) d'"
proof (cases "i \<in> set (recent h)")
  case True
  then show ?thesis using assms by (auto simp: dedup_rel_def dedup_first_def)
next
  case False
  let ?o = "recent h @ [i]"
  have d: "dd_order d = recent h" "distinct (recent h)" "set (dd_set d) = set (recent h)"
    using assms(1) by (auto simp: dedup_rel_def)
  have new: "i \<notin> set (dd_set d)" using False d by simp
  have dist: "distinct ?o" using d False by simp
  show ?thesis
  proof (cases "DEDUP_CAP < length ?o")
    case True
    then have d': "b" "d' = \<lparr>dd_order = tl ?o, dd_set = filter (\<lambda>x. x \<noteq> hd ?o) (hs_add i (dd_set d))\<rparr>"
      using assms(2) new d by (simp_all add: dedup_first_def Let_def)
    have "set (tl xs) = set xs - {hd xs}" if "distinct xs" "xs \<noteq> []" for xs :: "frame_id list"
      using that by (cases xs) auto
    then have "set (tl ?o) = set ?o - {hd ?o}" using dist by blast
    then show ?thesis
      using d' d dist False True by (auto simp: dedup_rel_def recent_snoc distinct_tl)
  next
    case small: False
    then have "b" "d' = \<lparr>dd_order = ?o, dd_set = hs_add i (dd_set d)\<rparr>"
      using assms(2) new d by (simp_all add: dedup_first_def Let_def)
    then show ?thesis
      using d dist False small by (auto simp: dedup_rel_def recent_snoc)
  qed
qed

lemma dedup_run_window: "dedup_rel h d \<Longrightarrow> dedup_run d js = window_run h js"
proof (induction js arbitrary: h d)
  case (Cons i js)
  obtain b d' where first: "dedup_first i d = (b, d')" by (cases "dedup_first i d")
  show ?case
    using dedup_first_rel [OF Cons.prems first] Cons.IH [of h d'] Cons.IH [of "h @ [i]" d'] first by (cases b) auto
qed simp

text \<open>
  Copies of a packet are dropped, and nothing else is. The two tables of \<^verbatim>\<open>Dedup\<close> implement the
  window: an event counts as new exactly when its packet is not among the last 8,192 accepted ones.
\<close>

theorem dedup_window: "dedup_run dedup_new js = window_run [] js"
  by (rule dedup_run_window [OF dedup_rel_new])
section \<open>The recording holds every frame once\<close>

text \<open>\<^verbatim>\<open>consume\<close> as a whole: the answers to the requests, until the order to stop.\<close>

fun worker_run :: "nat \<Rightarrow> (frame_env \<times> io_result \<times> work) list \<Rightarrow> Etw \<Rightarrow> (cap_error option list \<times> Etw) fallible" where
  "worker_run cap [] s = Got ([], s)"
| "worker_run cap ((env, io, w) # ws) s =
     (if et_stopped s then Got ([], s)
      else
        andthen (consume cap env io w s) (\<lambda>r.
        andthen (worker_run cap ws (snd r)) (\<lambda>r'.
          Got ((case fst r of None \<Rightarrow> [] | Some x \<Rightarrow> [x]) @ fst r', snd r'))))"

definition worker_new :: "(string \<Rightarrow> bytes option) \<Rightarrow> Channel \<Rightarrow> Etw" where
  "worker_new files ch = \<lparr>et_queue = [], et_stopped = False, et_seen = dedup_new, et_parsers = fresh_parsers,
     et_dump = None, et_files = files, et_error = None, et_bad = 0, et_channel = ch\<rparr>"

text \<open>The frames of events that are of a known kind and new, after the packets of \<open>h\<close>; and the packets then.\<close>

fun new_frames :: "frame_id list \<Rightarrow> (bytes \<times> u64) list \<Rightarrow> (u64 \<times> EtwFrame) list \<times> frame_id list" where
  "new_frames h [] = ([], h)"
| "new_frames h ((d, stamp) # evs) =
     (case event_packet d of
        None \<Rightarrow> new_frames h evs
      | Some f \<Rightarrow>
          if ef_link f = 0 \<or> frame_id_of f \<in> set (recent h) then new_frames h evs
          else case new_frames (h @ [frame_id_of f]) evs of (fs, h') \<Rightarrow> ((stamp, f) # fs, h'))"

fun events_of :: "(frame_env \<times> io_result \<times> work) list \<Rightarrow> (bytes \<times> u64) list" where
  "events_of [] = []"
| "events_of ((env, io, Frame d stamp) # ws) = (d, stamp) # events_of ws"
| "events_of ((env, io, Shutdown) # ws) = []"
| "events_of ((env, io, StartDump path c hdr fl) # ws) = events_of ws"
| "events_of ((env, io, StopDump fl) # ws) = events_of ws"

definition frames_bytes :: "(u64 \<times> EtwFrame) list \<Rightarrow> bytes" where
  "frames_bytes fs = concat (map (\<lambda>x. dump_epb (fst x) (snd x)) fs)"

text \<open>What one frame does to the tables and to a recording that had no error.\<close>

lemma seen_simps [simp]:
  "et_seen (count_dropped s) = et_seen s" "et_dump (count_dropped s) = et_dump s" "et_files (count_dropped s) = et_files s"
  "et_stopped (count_dropped s) = et_stopped s" "et_seen (dump_frame io stamp f s) = et_seen s"
  "et_files (dump_frame io stamp f s) = et_files s" "et_stopped (dump_frame io stamp f s) = et_stopped s"
  by (auto simp: count_dropped_def dump_frame_def Let_def split: option.split io_result.split)

lemma work_frame_step:
  assumes "dedup_rel h (et_seen s)" and "work_frame cap env io d stamp s = Got s'"
  shows "dedup_rel (snd (new_frames h [(d, stamp)])) (et_seen s')" "et_stopped s' = et_stopped s"
    "et_files s' = et_files s"
    "et_dump s' = et_dump (fold (\<lambda>x. dump_frame io (fst x) (snd x)) (fst (new_frames h [(d, stamp)])) s)"
proof -
  have "dedup_rel (snd (new_frames h [(d, stamp)])) (et_seen s') \<and> et_stopped s' = et_stopped s
    \<and> et_files s' = et_files s
    \<and> et_dump s' = et_dump (fold (\<lambda>x. dump_frame io (fst x) (snd x)) (fst (new_frames h [(d, stamp)])) s)"
  proof (cases "event_packet d")
    case None
    then show ?thesis using assms by (auto simp: work_frame_def)
  next
    case (Some f)
    obtain b seen where first: "dedup_first (frame_id_of f) (et_seen s) = (b, seen)"
      by (cases "dedup_first (frame_id_of f) (et_seen s)")
    note rel = dedup_first_rel [OF assms(1) first]
    show ?thesis
    proof (cases "ef_link f = 0 \<or> frame_id_of f \<in> set (recent h)")
      case True
      then show ?thesis using assms Some rel first by (auto simp: work_frame_def split: if_splits)
    next
      case False
      let ?s = "dump_frame io stamp f (s\<lparr>et_seen := seen\<rparr>)"
      have "et_seen s' = seen \<and> et_stopped s' = et_stopped s \<and> et_files s' = et_files s \<and> et_dump s' = et_dump ?s"
        using assms Some rel first False by (auto simp: work_frame_def Let_def split: fallible.splits)
      moreover have "et_dump ?s = et_dump (dump_frame io stamp f s)"
        by (auto simp: dump_frame_def Let_def split: option.split io_result.split)
      ultimately show ?thesis using Some rel False by auto
    qed
  qed
  then show "dedup_rel (snd (new_frames h [(d, stamp)])) (et_seen s')" "et_stopped s' = et_stopped s"
    "et_files s' = et_files s"
    "et_dump s' = et_dump (fold (\<lambda>x. dump_frame io (fst x) (snd x)) (fst (new_frames h [(d, stamp)])) s)"
    by simp_all
qed

lemma new_frames_Cons:
  "new_frames h (ev # evs) =
     (case new_frames h [ev] of (fs, h') \<Rightarrow> case new_frames h' evs of (fs', h'') \<Rightarrow> (fs @ fs', h''))"
  by (cases ev) (auto split: option.split prod.split)

lemma new_frames_step:
  "fst (new_frames h (ev # evs)) = fst (new_frames h [ev]) @ fst (new_frames (snd (new_frames h [ev])) evs)"
  "snd (new_frames h (ev # evs)) = snd (new_frames (snd (new_frames h [ev])) evs)"
  by (subst new_frames_Cons, simp add: case_prod_unfold del: new_frames.simps)+

text \<open>The tables after any run describe the accepted packets.\<close>

lemma worker_run_seen:
  assumes "dedup_rel h (et_seen s)" and "\<not> et_stopped s" and "worker_run cap ws s = Got (rs, s')"
  shows "dedup_rel (snd (new_frames h (events_of ws))) (et_seen s')"
  using assms
proof (induction ws arbitrary: h s rs)
  case Nil
  then show ?case by simp
next
  case (Cons ew ws)
  obtain env io w where ew: "ew = (env, io, w)" by (cases ew)
  obtain r s1 rs1 where step: "consume cap env io w s = Got (r, s1)" and run: "worker_run cap ws s1 = Got (rs1, s')"
    using Cons.prems ew by auto
  show ?case
  proof (cases w)
    case (Frame d stamp)
    then have "work_frame cap env io d stamp s = Got s1" using step by (auto simp: consume_def)
    note one = work_frame_step [OF Cons.prems(1) this]
    have ih: "dedup_rel (snd (new_frames (snd (new_frames h [(d, stamp)])) (events_of ws))) (et_seen s')"
      using Cons.IH [OF one(1) _ run] one(2) Cons.prems(2) by simp
    have "events_of (ew # ws) = (d, stamp) # events_of ws" using ew Frame by simp
    moreover have "snd (new_frames h ((d, stamp) # events_of ws))
        = snd (new_frames (snd (new_frames h [(d, stamp)])) (events_of ws))"
      by (rule new_frames_step)
    ultimately show ?thesis using ih by simp
  next
    case (StartDump path c hdr fl)
    then have "et_seen s1 = et_seen s \<and> et_stopped s1 = et_stopped s"
      using step by (auto simp: consume_def work_start_def Let_def split: option.splits io_result.splits if_splits prod.splits)
    then show ?thesis using Cons.IH [OF _ _ run] Cons.prems ew StartDump by simp
  next
    case (StopDump fl)
    then have "et_seen s1 = et_seen s \<and> et_stopped s1 = et_stopped s"
      using step by (auto simp: consume_def work_stop_def Let_def split: option.splits io_result.splits prod.splits)
    then show ?thesis using Cons.IH [OF _ _ run] Cons.prems ew StopDump by simp
  next
    case Shutdown
    then have "s1 = s\<lparr>et_stopped := True\<rparr>" using step by (simp add: consume_def)
    moreover from this have "s' = s1" using run by (cases ws) auto
    ultimately show ?thesis using Cons.prems ew Shutdown by simp
  qed
qed
lemma worker_run_append:
  "worker_run cap (xs @ ys) s =
     andthen (worker_run cap xs s) (\<lambda>r. andthen (worker_run cap ys (snd r)) (\<lambda>r'. Got (fst r @ fst r', snd r')))"
proof (induction xs arbitrary: s)
  case Nil
  show ?case by (cases "worker_run cap ys s") auto
next
  case (Cons x xs)
  have "worker_run cap ys s = Got ([], s)" if "et_stopped s" using that by (cases "(cap, ys, s)" rule: worker_run.cases) auto
  then show ?case using Cons by (cases x) (auto simp: andthen_assoc)
qed

definition frame_events :: "(frame_env \<times> io_result \<times> bytes \<times> u64) list \<Rightarrow> (frame_env \<times> io_result \<times> work) list" where
  "frame_events evs = map (\<lambda>(env, io, d, stamp). (env, io, Frame d stamp)) evs"

definition event_data :: "(frame_env \<times> io_result \<times> bytes \<times> u64) list \<Rightarrow> (bytes \<times> u64) list" where
  "event_data evs = map (\<lambda>(env, io, d, stamp). (d, stamp)) evs"

text \<open>While frames arrive, a recording without an error holds exactly the new ones.\<close>

definition recorded :: "DumpWriter \<Rightarrow> (u64 \<times> EtwFrame) list \<Rightarrow> DumpWriter option \<Rightarrow> bool" where
  "recorded w fs dump \<longleftrightarrow> (\<exists>w'. dump = Some w' \<and> dw_path w' = dw_path w
     \<and> (dw_error w' = None \<longrightarrow> dw_error w = None \<and> dw_out w' = dw_out w @ frames_bytes fs))"

lemma recorded_frames:
  "et_dump s = Some w \<Longrightarrow> length fs \<le> 1 \<Longrightarrow>
   recorded w fs (et_dump (fold (\<lambda>x. dump_frame io (fst x) (snd x)) fs s))"
  by (cases fs) (auto simp: recorded_def dump_frame_def frames_bytes_def Let_def split: io_result.split)

lemma recorded_trans:
  "recorded w fs (Some w1) \<Longrightarrow> recorded w1 gs dump \<Longrightarrow> recorded w (fs @ gs) dump"
  by (auto simp: recorded_def frames_bytes_def)

lemma frames_run_recorded:
  assumes "dedup_rel h (et_seen s)" and "\<not> et_stopped s" and "et_dump s = Some w"
    and "worker_run cap (frame_events evs) s = Got (rs, s')"
  shows "rs = [] \<and> \<not> et_stopped s' \<and> et_files s' = et_files s
    \<and> recorded w (fst (new_frames h (event_data evs))) (et_dump s')"
  using assms
proof (induction evs arbitrary: h s w rs)
  case Nil
  then show ?case by (simp add: frame_events_def event_data_def recorded_def frames_bytes_def)
next
  case (Cons ev evs)
  obtain env io d stamp where ev: "ev = (env, io, d, stamp)" by (cases ev)
  obtain s1 rs1 where one: "work_frame cap env io d stamp s = Got s1"
    and run: "worker_run cap (frame_events evs) s1 = Got (rs1, s')" and rs: "rs = rs1"
    using Cons.prems(2,4) ev by (auto simp: frame_events_def consume_def)
  note step = work_frame_step [OF Cons.prems(1) one]
  let ?fs = "fst (new_frames h [(d, stamp)])"
  have small: "length ?fs \<le> 1" by (auto split: option.split)
  have "recorded w ?fs (et_dump s1)" unfolding step(4) by (rule recorded_frames [OF Cons.prems(3) small])
  then obtain w1 where w1: "et_dump s1 = Some w1" "recorded w ?fs (Some w1)" by (auto simp: recorded_def)
  have "\<not> et_stopped s1" using step(2) Cons.prems(2) by simp
  note rest = Cons.IH [OF step(1) this w1(1) run]
  have "fst (new_frames h (event_data (ev # evs)))
      = ?fs @ fst (new_frames (snd (new_frames h [(d, stamp)])) (event_data evs))"
    unfolding ev event_data_def list.map prod.case by (rule new_frames_step)
  then show ?case using rest recorded_trans [OF w1(2)] rs step(3) by metis
qed

text \<open>
  C20. A recording is complete. Take any history of the worker after which no recording runs. When the
  request to begin a recording, any frames, and the request to end it follow, and both requests are
  answered without an error, then the file holds the header and exactly one packet block, in order,
  for every event of a known kind whose packet is new, and nothing else. An event that cannot be
  written, or a flush that fails, can therefore not go unnoticed.
\<close>

theorem etw_recording_complete:
  assumes "worker_run cap pre (worker_new files ch) = Got (rs, s)" and "et_dump s = None" and "\<not> et_stopped s"
    and "worker_run cap ((env0, io0, StartDump path created header flush0) # frame_events evs
           @ [(env1, io1, StopDump flush1)]) s = Got ([None, None], s')"
  shows "et_files s' path = Some (dump_header
    @ frames_bytes (fst (new_frames (snd (new_frames [] (events_of pre))) (event_data evs))))"
proof -
  let ?h = "snd (new_frames [] (events_of pre))"
  have rel: "dedup_rel ?h (et_seen s)"
    using worker_run_seen [OF _ _ assms(1)] dedup_rel_new by (simp add: worker_new_def)
  obtain r1 s1 where start: "work_start path created header flush0 s = (r1, s1)" by (cases "work_start path created header flush0 s")
  have run: "worker_run cap (frame_events evs @ [(env1, io1, StopDump flush1)]) s1 = Got ([None], s')" and r1: "r1 = None"
    using assms(3,4) start by (simp_all add: consume_def split: prod.splits)
  obtain rs2 s2 where frames: "worker_run cap (frame_events evs) s1 = Got (rs2, s2)"
    and stop: "andthen (worker_run cap [(env1, io1, StopDump flush1)] s2) (\<lambda>r'. Got (rs2 @ fst r', snd r')) = Got ([None], s')"
    using run unfolding worker_run_append by (cases "worker_run cap (frame_events evs) s1") (auto simp del: worker_run.simps)
  have s1: "et_dump s1 = Some \<lparr>dw_path = path, dw_out = dump_header, dw_error = None\<rparr>" "et_seen s1 = et_seen s"
      "et_stopped s1 = et_stopped s"
    using start r1 assms(2)
    by (auto simp: work_start_def Let_def split: option.splits io_result.splits)
  have rel1: "dedup_rel ?h (et_seen s1)" and on1: "\<not> et_stopped s1" using rel s1 assms(3) by simp_all
  from frames_run_recorded [OF rel1 on1 s1(1) frames]
  obtain w where w: "rs2 = []" "\<not> et_stopped s2" "et_dump s2 = Some w" "dw_path w = path"
      "dw_error w = None \<longrightarrow> dw_out w = dump_header @ frames_bytes (fst (new_frames ?h (event_data evs)))"
    by (auto simp: recorded_def)
  have "work_stop flush1 s2 = (None, s')"
    using stop w(1,2) by (auto simp: consume_def split: prod.splits)
  then show ?thesis
    using w by (auto simp: work_stop_def Let_def split: option.splits io_result.splits)
qed

section \<open>The recording can be read\<close>

text \<open>What the packet parser makes of a list of frames.\<close>

fun parse_frames :: "frame_env \<Rightarrow> EtwFrame list \<Rightarrow> parsers \<Rightarrow> (parsers \<times> Packet list) fallible" where
  "parse_frames env [] ps = Got (ps, [])"
| "parse_frames env (f # fs) ps =
     (case parse_link_live env (ef_link f) (ef_frame f) ps of
        Panic \<Rightarrow> Panic
      | Absent \<Rightarrow> parse_frames env fs ps
      | Got r \<Rightarrow> map_got (\<lambda>q. (fst q, fst r # snd q)) (parse_frames env fs (snd r)))"

definition padded :: "bytes \<Rightarrow> bytes" where
  "padded body = body @ replicate ((4 - length body mod 4) mod 4) 0"

lemma etw_block_bytes: "etw_block ty body = block_bytes (ty, padded body)"
  by (simp add: etw_block_def block_bytes_def write_block_def padded_def Let_def add.assoc)

lemma length_padded: "length body \<le> length (padded body)" "length (padded body) \<le> length body + 3"
  by (auto simp: padded_def)

definition linked_frame :: "EtwFrame \<Rightarrow> bool" where
  "linked_frame f \<longleftrightarrow> (ef_link f = 1 \<or> ef_link f = 101) \<and> length (ef_frame f) < 65536"

lemma event_packet_linked: "event_packet d = Some f \<Longrightarrow> ef_link f \<noteq> 0 \<Longrightarrow> linked_frame f"
  by (auto simp: event_packet_def linked_frame_def Let_def split: if_splits)
    (metis add_diff_cancel_left' unat_u16_less)+

lemma reader_epb:
  assumes "linked_frame f" and "rd_linktypes s = [1, 101]"
  shows "reader_block env (6, padded (epb_body (if ef_link f = 1 then 0 else 1) t (ef_frame f) (ef_orig f))) s
    = (case parse_link_live env (ef_link f) (ef_frame f) (rd_parsers s) of
         Panic \<Rightarrow> Panic
       | Absent \<Rightarrow> Got (s, [])
       | Got r \<Rightarrow> Got (s\<lparr>rd_parsers := snd r\<rparr>, [fst r]))"
proof -
  let ?i = "if ef_link f = 1 then 0 else 1 :: u32"
  let ?b = "padded (epb_body ?i t (ef_frame f) (ef_orig f))"
  let ?n = "length (ef_frame f)"
  define ts where "ts = le_bytes 4 (unat (drop_bit 32 (filetime_us t))) @ le_bytes 4 (unat (filetime_us t))"
  define og where "og = le_bytes 4 (unat (max (ef_orig f) (word_of_nat ?n)))"
  define pad where "pad = replicate ((4 - length (epb_body ?i t (ef_frame f) (ef_orig f)) mod 4) mod 4) (0 :: u8)"
  have body: "?b = le_bytes 4 (unat ?i) @ ts @ le_bytes 4 (unat (word_of_nat ?n :: u32)) @ og @ ef_frame f @ pad"
    by (simp only: padded_def epb_body_def Let_def ts_def og_def pad_def append_assoc)
  have ts: "length ts = 8" and og: "length og = 4" by (simp_all add: ts_def og_def)
  have n: "unat (word_of_nat ?n :: u32) = ?n"
    using assms(1) unfolding unat_of_nat linked_frame_def by simp
  have iface: "slice ?b 0 4 = Got (le_bytes 4 (unat ?i))" unfolding body by simp
  have cap: "slice ?b 12 16 = Got (le_bytes 4 ?n)" unfolding body n by (simp add: ts)
  have frame: "20 + ?n \<le> length ?b \<and> slice ?b 20 (20 + ?n) = Got (ef_frame f)"
    unfolding body by (simp add: ts og)
  have lt: "(case get_at (rd_linktypes s) (le_nat (le_bytes 4 (unat ?i))) of None \<Rightarrow> 1 | Some lt \<Rightarrow> lt) = ef_link f"
    using assms by (auto simp: linked_frame_def le_nat_le_bytes get_at_def)
  have cap': "le_nat (le_bytes 4 ?n) = ?n" using assms(1) by (simp add: le_nat_le_bytes linked_frame_def)
  show ?thesis
    using frame by (simp add: reader_block_def iface cap lt cap' Let_def del: slice_Got)
qed

lemma dump_epb_block:
  assumes "linked_frame f"
  shows "\<exists>b. dump_epb t f = block_bytes (6, b) \<and> block_ok (6, b)
    \<and> b = padded (epb_body (if ef_link f = 1 then 0 else 1) t (ef_frame f) (ef_orig f))"
  using assms length_padded(2) [of "epb_body (if ef_link f = 1 then 0 else 1) t (ef_frame f) (ef_orig f)"]
  by (auto simp: dump_epb_def etw_block_bytes block_ok_def linked_frame_def epb_body_def Let_def)

lemma run_frames:
  assumes "\<forall>x \<in> set fs. linked_frame (snd x)" and "rd_linktypes s = [1, 101]"
  shows "run_blocks (reader_block env)
      (map (\<lambda>x. (6, padded (epb_body (if ef_link (snd x) = 1 then 0 else 1) (fst x) (ef_frame (snd x)) (ef_orig (snd x))))) fs) s
    = map_got (\<lambda>r. (s\<lparr>rd_parsers := fst r\<rparr>, snd r)) (parse_frames env (map snd fs) (rd_parsers s))"
  using assms
proof (induction fs arbitrary: s)
  case (Cons x fs)
  have "linked_frame (snd x)" using Cons.prems by simp
  note one = reader_epb [OF this Cons.prems(2), of env "fst x"]
  show ?case
  proof (cases "parse_link_live env (ef_link (snd x)) (ef_frame (snd x)) (rd_parsers s)")
    case (Got r)
    then have "run_blocks (reader_block env) (map (\<lambda>x. (6, padded (epb_body (if ef_link (snd x) = 1 then 0 else 1) (fst x) (ef_frame (snd x)) (ef_orig (snd x))))) fs) (s\<lparr>rd_parsers := snd r\<rparr>)
       = map_got (\<lambda>q. (s\<lparr>rd_parsers := snd r\<rparr>\<lparr>rd_parsers := fst q\<rparr>, snd q)) (parse_frames env (map snd fs) (snd r))"
      using Cons.IH [of "s\<lparr>rd_parsers := snd r\<rparr>"] Cons.prems by simp
    then show ?thesis
      using one Got by (cases "parse_frames env (map snd fs) (snd r)") auto
  next
    case Absent
    then show ?thesis
      using one Cons.IH [of s] Cons.prems by (cases "parse_frames env (map snd fs) (rd_parsers s)") auto
  qed (use one in auto)
qed simp

text \<open>The file as blocks.\<close>

definition header_blocks :: "(u32 \<times> bytes) list" where
  "header_blocks = [(0x0A0D0D0A, padded shb_body), (1, padded (idb_body 1)), (1, padded (idb_body 101))]"

definition epb_block :: "u64 \<times> EtwFrame \<Rightarrow> u32 \<times> bytes" where
  "epb_block x = (6, padded (epb_body (if ef_link (snd x) = 1 then 0 else 1) (fst x) (ef_frame (snd x)) (ef_orig (snd x))))"

lemma file_blocks: "dump_header @ frames_bytes fs = concat (map block_bytes (header_blocks @ map epb_block fs))"
  by (simp add: dump_header_def etw_block_bytes header_blocks_def frames_bytes_def comp_def dump_epb_def epb_block_def)

lemma file_blocks_ok:
  assumes "\<forall>x \<in> set fs. linked_frame (snd x)"
  shows "\<forall>b \<in> set (header_blocks @ map epb_block fs). block_ok b"
proof -
  have "block_ok b" if "b \<in> set header_blocks" for b
    using that by (auto simp: header_blocks_def block_ok_def padded_def shb_body_def idb_body_def)
  moreover have "block_ok (epb_block x)" if "x \<in> set fs" for x
    using dump_epb_block [of "snd x" "fst x"] assms that by (auto simp: epb_block_def)
  ultimately show ?thesis by auto
qed

lemma idb_link: "\<exists>x y r. padded (idb_body lt) = x # y # r \<and> u16_le x y = lt"
proof -
  have two: "le_bytes 2 n = [word_of_nat n, word_of_nat (n div 256)]" for n
    by (simp only: numeral_2_eq_2 le_bytes.simps)
  have "le_nat (le_bytes 2 (unat lt)) = unat lt" by (simp add: le_nat_le_bytes)
  then have "u16_le (word_of_nat (unat lt)) (word_of_nat (unat lt div 256)) = lt"
    unfolding u16_le_def two by simp
  then show ?thesis unfolding padded_def idb_body_def two by auto
qed

lemma reader_idb:
  "reader_block env (1, padded (idb_body lt)) s = Got (s\<lparr>rd_linktypes := rd_linktypes s @ [lt]\<rparr>, [])"
  using idb_link [of lt] by (auto simp: reader_block_def get_at_def)

lemma header_read:
  "run_blocks (reader_block env) header_blocks (pn_reader reader_new)
    = Got (\<lparr>rd_linktypes = [1, 101], rd_parsers = fresh_parsers\<rparr>, [])"
proof -
  have "reader_block env (0x0A0D0D0A, padded shb_body) s = Got (s, [])" for s by (simp add: reader_block_def)
  then show ?thesis by (simp add: header_blocks_def reader_idb reader_new_def)
qed

text \<open>
  C21. A recording can be read back. Reading the header and the packet blocks of frames that the
  capture accepts, with the program's own pcapng reader, gives exactly the packets that parsing the
  frames themselves gives, in order, each with the link type it was captured with, and leaves nothing
  unread.
\<close>

theorem etw_dump_reads_back:
  assumes "\<forall>x \<in> set fs. \<exists>d. event_packet d = Some (snd x) \<and> ef_link (snd x) \<noteq> 0"
  shows "reader_push (\<lambda>_. env) (dump_header @ frames_bytes fs) reader_new
    = map_got (\<lambda>r. (\<lparr>pn_buf = [], pn_reader = \<lparr>rd_linktypes = [1, 101], rd_parsers = fst r\<rparr>\<rparr>, snd r))
        (parse_frames env (map snd fs) fresh_parsers)"
proof -
  let ?s = "\<lparr>rd_linktypes = [1, 101], rd_parsers = fresh_parsers\<rparr>"
  have linked: "\<forall>x \<in> set fs. linked_frame (snd x)" using assms event_packet_linked by blast
  have "reader_push (\<lambda>_. env) (dump_header @ frames_bytes fs) reader_new
      = map_got (\<lambda>r. (\<lparr>pn_buf = [], pn_reader = fst r\<rparr>, snd r))
          (run_blocks (reader_block env) (header_blocks @ map epb_block fs) (pn_reader reader_new))"
    using push_loop_blocks [OF file_blocks_ok [OF linked], of "[]" 0 "dump_header @ frames_bytes fs"]
    by (simp add: reader_push_def file_blocks reader_new_def)
  also have "run_blocks (reader_block env) (map epb_block fs) ?s
      = map_got (\<lambda>r. (?s\<lparr>rd_parsers := fst r\<rparr>, snd r)) (parse_frames env (map snd fs) fresh_parsers)"
    using run_frames [OF linked, of ?s env] by (simp add: epb_block_def [abs_def])
  then have "run_blocks (reader_block env) (header_blocks @ map epb_block fs) (pn_reader reader_new)
      = map_got (\<lambda>r. (?s\<lparr>rd_parsers := fst r\<rparr>, snd r)) (parse_frames env (map snd fs) fresh_parsers)"
    by (cases "parse_frames env (map snd fs) fresh_parsers") (auto simp: run_blocks_append header_read)
  finally show ?thesis
    by (cases "parse_frames env (map snd fs) fresh_parsers") auto
qed

section \<open>Example\<close>

text \<open>An event of an empty Ethernet frame, and its copy.\<close>

definition sample_event :: bytes where
  "sample_event = replicate 8 0 @ [1, 0, 0, 0, 0, 0, 1, 0] @ replicate 18 0"

definition sample_frame :: EtwFrame where
  "sample_frame = \<lparr>ef_group = 0, ef_number = 1, ef_link = 1, ef_orig = 0, ef_frame = []\<rparr>"

lemma sample_event_packet: "event_packet sample_event = Some sample_frame"
  by code_simp

lemma sample_frame_fields [simp]: "ef_link sample_frame = 1" "ef_frame sample_frame = []"
  by (simp_all add: sample_frame_def)

theorem etw_dump_reads_back_witness:
  "reader_push (\<lambda>_. sample_env) (dump_header @ frames_bytes [(0, sample_frame)]) reader_new
    = map_got (\<lambda>r. (\<lparr>pn_buf = [], pn_reader = \<lparr>rd_linktypes = [1, 101], rd_parsers = fst r\<rparr>\<rparr>, snd r))
        (parse_frames sample_env (map snd [(0 :: u64, sample_frame)]) fresh_parsers)"
  by (rule etw_dump_reads_back) (use sample_event_packet in auto)

definition sample_run :: "(frame_env \<times> io_result \<times> bytes \<times> u64) list" where
  "sample_run = [(sample_env, IoOk, sample_event, 0), (sample_env, IoOk, sample_event, 5)]"

lemma sample_frame_ignored: "parse_link_live env 1 [] ps = Absent"
proof -
  have "be16 [] 12 = None" by (simp add: be16_None)
  then show ?thesis by (simp add: parse_link_live_def parse_link_state_def link_header_def)
qed

lemma sample_run_frames: "new_frames [] (event_data sample_run) = ([(0, sample_frame)], [frame_id_of sample_frame])"
  by (simp add: sample_run_def event_data_def sample_event_packet recent_def DEDUP_CAP_def)

lemma sample_steps:
  "dedup_first (frame_id_of sample_frame) dedup_new
     = (True, \<lparr>dd_order = [frame_id_of sample_frame], dd_set = [frame_id_of sample_frame]\<rparr>)"
  "dedup_first (frame_id_of sample_frame) \<lparr>dd_order = [frame_id_of sample_frame], dd_set = [frame_id_of sample_frame]\<rparr>
     = (False, \<lparr>dd_order = [frame_id_of sample_frame], dd_set = [frame_id_of sample_frame]\<rparr>)"
  by (simp_all add: dedup_first_def dedup_new_def DEDUP_CAP_def hs_add_def Let_def)

lemma sample_run_result:
  "\<exists>s'. worker_run 8 ((sample_env, IoOk, StartDump ''d'' None IoOk IoOk) # frame_events sample_run
           @ [(sample_env, IoOk, StopDump IoOk)]) (worker_new (\<lambda>_. None) empty_channel) = Got ([None, None], s')"
  by (simp add: sample_run_def frame_events_def consume_def work_start_def work_frame_def work_stop_def worker_new_def
      sample_event_packet sample_steps sample_frame_ignored dump_frame_def del: andthen_eq_Got)

theorem etw_recording_complete_witness:
  "\<exists>s'. worker_run 8 ((sample_env, IoOk, StartDump ''d'' None IoOk IoOk) # frame_events sample_run
           @ [(sample_env, IoOk, StopDump IoOk)]) (worker_new (\<lambda>_. None) empty_channel) = Got ([None, None], s')
     \<and> et_files s' ''d'' = Some (dump_header @ frames_bytes [(0, sample_frame)])"
proof -
  obtain s' where run: "worker_run 8 ((sample_env, IoOk, StartDump ''d'' None IoOk IoOk) # frame_events sample_run
           @ [(sample_env, IoOk, StopDump IoOk)]) (worker_new (\<lambda>_. None) empty_channel) = Got ([None, None], s')"
    using sample_run_result by blast
  have pre: "worker_run 8 [] (worker_new (\<lambda>_. None) empty_channel) = Got ([], worker_new (\<lambda>_. None) empty_channel)" by simp
  have "et_files s' ''d'' = Some (dump_header @ frames_bytes (fst (new_frames (snd (new_frames [] (events_of []))) (event_data sample_run))))"
    by (rule etw_recording_complete [OF pre _ _ run]) (simp_all add: worker_new_def)
  then show ?thesis using run sample_run_frames by auto
qed

end
