(* ===== verification/Win_Text.thy ===== *)
theory Win_Text
  imports Store_Ops Proc_Scan
begin

text \<open>
  What Windows answers in UTF-16 (\<^verbatim>\<open>src/src/dnscache.rs\<close>, \<^verbatim>\<open>query\<close> of \<^verbatim>\<open>src/src/resolve.rs\<close>,
  \<^verbatim>\<open>toolhelp\<close> and \<^verbatim>\<open>command_line\<close> of \<^verbatim>\<open>src/src/procs/windows.rs\<close>). A linked list of the system is the
  list of its elements, a null pointer is \<^verbatim>\<open>None\<close>.
\<close>

section \<open>UTF-16\<close>

text \<open>\<^verbatim>\<open>String::from_utf16_lossy\<close>: code points, U+FFFD for a surrogate without its partner.\<close>

fun utf16_points :: "u16 list \<Rightarrow> nat list" where
  "utf16_points [] = []"
| "utf16_points [u] = [if 0xD800 \<le> u \<and> u < 0xE000 then 0xFFFD else unat u]"
| "utf16_points (u # v # us) =
     (if u < 0xD800 \<or> 0xE000 \<le> u then unat u # utf16_points (v # us)
      else if u < 0xDC00 \<and> 0xDC00 \<le> v \<and> v < 0xE000
      then (65536 + (unat u - 0xD800) * 1024 + (unat v - 0xDC00)) # utf16_points us
      else 0xFFFD # utf16_points (v # us))"

text \<open>The UTF-8 bytes of a code point.\<close>

definition utf8_point :: "nat \<Rightarrow> nat list" where
  "utf8_point p =
     (if p < 0x80 then [p]
      else if p < 0x800 then [0xC0 + p div 64, 0x80 + p mod 64]
      else if p < 0x10000 then [0xE0 + p div 4096, 0x80 + p div 64 mod 64, 0x80 + p mod 64]
      else [0xF0 + p div 262144, 0x80 + p div 4096 mod 64, 0x80 + p div 64 mod 64, 0x80 + p mod 64])"

definition from_utf16_lossy :: "u16 list \<Rightarrow> string" where
  "from_utf16_lossy us = concat (map (\<lambda>p. utf8_text (utf8_point p)) (utf16_points us))"

text \<open>The text before the first zero.\<close>

definition wide_to_string :: "u16 list \<Rightarrow> string" where
  "wide_to_string us = from_utf16_lossy (takeWhile (\<lambda>u. u \<noteq> 0) us)"

definition wstr :: "u16 list option \<Rightarrow> string" where
  "wstr p = (case p of None \<Rightarrow> [] | Some us \<Rightarrow> wide_to_string us)"

section \<open>The DNS cache of the system\<close>

definition DNS_TYPE_A :: u16 where "DNS_TYPE_A = 1"
definition DNS_TYPE_AAAA :: u16 where "DNS_TYPE_AAAA = 28"
definition DNS_TYPE_PTR :: u16 where "DNS_TYPE_PTR = 12"
definition DNS_TYPE_TEXT :: u16 where "DNS_TYPE_TEXT = 16"

text \<open>\<open>table\<close> is \<^verbatim>\<open>None\<close> when the function is missing or gives no table: names and types.\<close>

definition cached_names :: "(u16 list option \<times> u16) list option \<Rightarrow> (string \<times> u16) list" where
  "cached_names table =
     (case table of
        None \<Rightarrow> []
      | Some es \<Rightarrow>
          concat (map (\<lambda>e. if (snd e = DNS_TYPE_A \<or> snd e = DNS_TYPE_AAAA) \<and> wstr (fst e) \<noteq> []
                           then [(to_ascii_lowercase (wstr (fst e)), snd e)] else []) es))"

text \<open>The data of a record: the four bytes of an address, sixteen bytes, a host name, texts.\<close>

datatype DnsData = DataA u8 u8 u8 u8 | DataAaaa bytes | DataPtr "u16 list option" | DataText "u16 list option list" | DataOther

record DnsRecord =
  dr_type :: u16
  dr_ttl :: u32
  dr_data :: DnsData

definition record_ip :: "DnsRecord \<Rightarrow> IpAddr option" where
  "record_ip r =
     (case dr_data r of
        DataA a b c d \<Rightarrow> if dr_type r = DNS_TYPE_A then Some (V4 a b c d) else None
      | DataAaaa bs \<Rightarrow> if dr_type r = DNS_TYPE_AAAA then Some (v6_of_octets bs) else None
      | _ \<Rightarrow> None)"

text \<open>\<open>query name ty\<close> is the code and the records of \<^verbatim>\<open>DnsQuery_W\<close>, asked for the cache only.\<close>

definition cached_addrs :: "(string \<Rightarrow> u16 \<Rightarrow> nat \<times> DnsRecord list) \<Rightarrow> string \<Rightarrow> u16 \<Rightarrow> (string \<times> IpAddr \<times> u32) list" where
  "cached_addrs query name ty =
     (case query name ty of (rc, rs) \<Rightarrow>
        if rc \<noteq> 0 then []
        else concat (map (\<lambda>r. case record_ip r of
                                Some ip \<Rightarrow> if is_unspecified ip then [] else [(name, ip, dr_ttl r)]
                              | None \<Rightarrow> []) rs))"

definition dnscache_snapshot :: "(u16 list option \<times> u16) list option \<Rightarrow> (string \<Rightarrow> u16 \<Rightarrow> nat \<times> DnsRecord list)
    \<Rightarrow> (string \<times> IpAddr \<times> u32) list" where
  "dnscache_snapshot table query = concat (map (\<lambda>e. cached_addrs query (fst e) (snd e)) (cached_names table))"

text \<open>One round of \<^verbatim>\<open>dnscache_loop\<close>; \<open>pairs\<close> is \<^verbatim>\<open>None\<close> when the task of the snapshot failed.\<close>

definition dnscache_round :: "(nat \<Rightarrow> u64) \<Rightarrow> (string \<times> IpAddr \<times> u32) list option \<Rightarrow> Store \<Rightarrow> Store" where
  "dnscache_round clk pairs s =
     (case pairs of
        None \<Rightarrow> s
      | Some ps \<Rightarrow> fold (\<lambda>(i, name, ip, ttl) s. remember_name_for (clk i) ip name ttl s) (enumerate 0 ps) s)"

section \<open>Processes\<close>

text \<open>
  The rows of a snapshot: process, parent and the name of the image; \<^verbatim>\<open>None\<close> when there is no snapshot.
  A number of the system becomes a signed one.
\<close>

definition toolhelp :: "(u32 \<times> u32 \<times> u16 list) list option \<Rightarrow> (int \<times> int \<times> string) list" where
  "toolhelp rows =
     (case rows of
        None \<Rightarrow> []
      | Some rs \<Rightarrow> map (\<lambda>(pid, ppid, exe). (sint pid, sint ppid, wide_to_string exe)) (filter (\<lambda>r. fst r \<noteq> 0) rs))"

text \<open>\<^verbatim>\<open>start_time\<close>: the two halves of the creation time, \<^verbatim>\<open>None\<close> when the system does not tell.\<close>

definition win_start_time :: "(u32 \<times> u32) option \<Rightarrow> u64" where
  "win_start_time created = (case created of None \<Rightarrow> 0 | Some (high, low) \<Rightarrow> push_bit 32 (ucast high) OR ucast low)"

definition image_path :: "u16 list option \<Rightarrow> string option" where
  "image_path buf = map_option from_utf16_lossy buf"

text \<open>
  \<^verbatim>\<open>command_line\<close>: \<open>ask n\<close> is the answer for a buffer of \<open>n\<close> bytes, the status, the size it needs, and
  the text.
\<close>

fun command_line_loop :: "nat \<Rightarrow> (nat \<Rightarrow> int \<times> nat \<times> u16 list option) \<Rightarrow> nat \<Rightarrow> string option" where
  "command_line_loop 0 ask len = None"
| "command_line_loop (Suc left) ask len =
     (case ask (len * 8) of (st, need, buffer) \<Rightarrow>
        if 0 \<le> st then
          (case buffer of
             None \<Rightarrow> None
           | Some us \<Rightarrow>
               if us = [] then None
               else let s = trim (from_utf16_lossy us) in if s = [] then None else Some s)
        else if need \<le> len * 8 then None
        else command_line_loop left ask ((need + 7) div 8))"

definition command_line :: "(nat \<Rightarrow> int \<times> nat \<times> u16 list option) \<Rightarrow> string option" where
  "command_line ask = command_line_loop 2 ask 1024"

text \<open>
  What an opened process tells: its times, its command line, its image. With it the scanner of
  \<^verbatim>\<open>Proc_Scan\<close> runs on the answers of the system; \<open>sys pid\<close> is \<^verbatim>\<open>None\<close> when the process cannot be opened.
\<close>

record WinHandle =
  wh_times :: "(u32 \<times> u32) option"
  wh_command :: "nat \<Rightarrow> int \<times> nat \<times> u16 list option"
  wh_image :: "u16 list option"

definition opened_process :: "(int \<Rightarrow> WinHandle option) \<Rightarrow> win_system" where
  "opened_process sys pid =
     map_option (\<lambda>h. (win_start_time (wh_times h), command_line (wh_command h), image_path (wh_image h))) (sys pid)"

definition win_scan :: "(int \<Rightarrow> WinHandle option) \<Rightarrow> (u32 \<times> u32 \<times> u16 list) list option \<Rightarrow> (int, WinEntry) hmap
    \<Rightarrow> ProcInfo list \<times> (int, WinEntry) hmap" where
  "win_scan sys rows cache = win_refresh (opened_process sys) (toolhelp rows) cache"

end
