(* ===== verification/Resolve.thy ===== *)
theory Resolve
  imports Store_Names Win_Text
begin

text \<open>
  The lookup of an address (\<^verbatim>\<open>src/src/resolve.rs\<close>): the name of the address, the number of its
  network and the owner of it, from the answers of \<^verbatim>\<open>resolvectl\<close> and \<^verbatim>\<open>dig\<close>, or of the resolver of
  Windows. A command is a parameter: its output, its diagnostics and its success, or nothing when it
  could not run within five seconds.
\<close>

section \<open>Names\<close>

datatype Answer = Found string | NoRecord | Failed

definition valid_name :: "string \<Rightarrow> bool" where
  "valid_name s \<longleftrightarrow> s \<noteq> [] \<and> length s \<le> 253 \<and> CHR ''.'' \<in> set s \<and> CHR '' '' \<notin> set s
     \<and> (\<forall>c \<in> set s. is_ascii_alphanumeric c \<or> c = CHR ''.'' \<or> c = CHR ''-'' \<or> c = CHR ''_'')"

definition trim_dots :: "string \<Rightarrow> string" where
  "trim_dots s = trim_end (\<lambda>c. c = CHR ''.'') s"

definition reverse_zone :: "string \<Rightarrow> bool" where
  "reverse_zone name =
     (let n = to_ascii_lowercase (trim_dots name) in ends_with n ''.in-addr.arpa'' \<or> ends_with n ''.ip6.arpa'')"

definition reverse_name :: "IpAddr \<Rightarrow> string option" where
  "reverse_name ip =
     (case ip of
        V4 a b c d \<Rightarrow> Some (show_nat (unat d) @ ''.'' @ show_nat (unat c) @ ''.'' @ show_nat (unat b) @ ''.'' @ show_nat (unat a))
      | V6 _ \<Rightarrow> None)"

text \<open>\<^verbatim>\<open>arpa\<close>: the four bits of every byte, from the last one.\<close>

definition arpa :: "IpAddr \<Rightarrow> string" where
  "arpa ip =
     (case ip of
        V4 a b c d \<Rightarrow> (case reverse_name ip of Some r \<Rightarrow> r | None \<Rightarrow> ip_to_string ip) @ ''.in-addr.arpa''
      | V6 v \<Rightarrow> concat (map (\<lambda>b. show_base 16 (unat b mod 16) @ ''.'' @ show_base 16 (unat b div 16) @ ''.'')
                   (rev (be_bytes 16 (unat v)))) @ ''ip6.arpa'')"

section \<open>The answers of the commands\<close>

type_synonym command_output = "(string \<times> string \<times> bool) option"

definition before_mark :: "string \<Rightarrow> string \<Rightarrow> string" where
  "before_mark mark s = (case split_once mark s of Some (a, _) \<Rightarrow> a | None \<Rightarrow> s)"

fun ptr_lines :: "string \<Rightarrow> string list \<Rightarrow> Answer" where
  "ptr_lines ip [] = Failed"
| "ptr_lines ip (line # ls) =
     (case split_once '': '' line of
        None \<Rightarrow> ptr_lines ip ls
      | Some (head, rest) \<Rightarrow>
          if trim head \<noteq> ip then ptr_lines ip ls
          else
            let name = trim_dots (trim (before_mark '' -- '' rest)) in
            if valid_name name \<and> \<not> reverse_zone name then Found name else ptr_lines ip ls)"

definition ptr_resolvectl :: "(string \<Rightarrow> string list \<Rightarrow> command_output) \<Rightarrow> IpAddr \<Rightarrow> Answer" where
  "ptr_resolvectl run ip =
     (case run ''resolvectl'' [''query'', ''--legend=no'', ip_to_string ip] of
        None \<Rightarrow> Failed
      | Some (out, err, _) \<Rightarrow>
          if contains_str (out @ err) ''not found'' then NoRecord else ptr_lines (ip_to_string ip) (text_lines out))"

definition QUOTE :: string where "QUOTE = [CHR 0x22]"

fun txt_lines :: "string list \<Rightarrow> Answer" where
  "txt_lines [] = Failed"
| "txt_lines (line # ls) =
     (case split_once QUOTE line of
        None \<Rightarrow> txt_lines ls
      | Some (_, rest) \<Rightarrow>
          (case split_once QUOTE rest of Some (v, _) \<Rightarrow> Found v | None \<Rightarrow> txt_lines ls))"

definition txt_resolvectl :: "(string \<Rightarrow> string list \<Rightarrow> command_output) \<Rightarrow> string \<Rightarrow> Answer" where
  "txt_resolvectl run name =
     (case run ''resolvectl'' [''query'', ''--legend=no'', ''--type=TXT'', name] of
        None \<Rightarrow> Failed
      | Some (out, err, _) \<Rightarrow>
          if contains_str (out @ err) ''not found'' then NoRecord else txt_lines (text_lines out))"

definition noisy_line :: "string \<Rightarrow> bool" where
  "noisy_line l =
     (let l = trim l in
      starts_with l '';; communications error'' \<or> starts_with l '';; connection timed out''
      \<or> starts_with l '';; no servers could be reached'' \<or> starts_with l ''dig:'')"

definition unquote :: "string \<Rightarrow> string" where
  "unquote s = trim_end (\<lambda>c. c = CHR 0x22) (trim_start (\<lambda>c. c = CHR 0x22) s)"

fun dig_lines :: "(string \<Rightarrow> bool) \<Rightarrow> string list \<Rightarrow> string option" where
  "dig_lines accept [] = None"
| "dig_lines accept (line # ls) =
     (let l = trim line in
      if l = [] \<or> starts_with l '';'' \<or> \<not> accept l then dig_lines accept ls else Some (unquote l))"

definition dig_short :: "(string \<Rightarrow> string list \<Rightarrow> command_output) \<Rightarrow> string list \<Rightarrow> (string \<Rightarrow> bool) \<Rightarrow> Answer" where
  "dig_short run args accept =
     (case run ''dig'' ([''+short'', ''+time=3'', ''+tries=2''] @ args) of
        None \<Rightarrow> Failed
      | Some (out, err, ok) \<Rightarrow>
          (case dig_lines accept (text_lines out) of
             Some s \<Rightarrow> Found s
           | None \<Rightarrow> if list_ex noisy_line (text_lines out @ text_lines err) \<or> \<not> ok then Failed else NoRecord))"

section \<open>One lookup\<close>

definition ptr_answer :: "bool \<Rightarrow> (string \<Rightarrow> string list \<Rightarrow> command_output) \<Rightarrow> IpAddr \<Rightarrow> Answer" where
  "ptr_answer resolvectl run ip =
     (let first = (if resolvectl then ptr_resolvectl run ip else Failed) in
      if first \<noteq> Failed then first
      else case dig_short run [''-x'', ip_to_string ip] (\<lambda>l. \<not> reverse_zone l) of
             Found s \<Rightarrow> let n = trim_dots s in if valid_name n then Found n else NoRecord
           | other \<Rightarrow> other)"

definition txt_answer :: "bool \<Rightarrow> (string \<Rightarrow> string list \<Rightarrow> command_output) \<Rightarrow> string \<Rightarrow> Answer" where
  "txt_answer resolvectl run name =
     (let first = (if resolvectl then txt_resolvectl run name else Failed) in
      if first \<noteq> Failed then first else dig_short run [''TXT'', name] (\<lambda>_. True))"

text \<open>
  Windows: \<open>dns\<close> is what \<^verbatim>\<open>DnsQuery_W\<close> answers for a name and a type, \<^verbatim>\<open>None\<close> when it has not
  answered within five seconds; the first record of the type with a text counts.
\<close>

definition DNS_ERROR_RCODE_NAME_ERROR :: nat where "DNS_ERROR_RCODE_NAME_ERROR = 9003"
definition DNS_INFO_NO_RECORDS :: nat where "DNS_INFO_NO_RECORDS = 9501"

definition record_text :: "DnsRecord \<Rightarrow> string" where
  "record_text r = (case dr_data r of DataPtr p \<Rightarrow> wstr p | DataText ts \<Rightarrow> concat (map wstr ts) | _ \<Rightarrow> [])"

fun first_text :: "u16 \<Rightarrow> DnsRecord list \<Rightarrow> Answer" where
  "first_text ty [] = NoRecord"
| "first_text ty (r # rs) = (if dr_type r = ty \<and> record_text r \<noteq> [] then Found (record_text r) else first_text ty rs)"

definition win_query :: "(string \<Rightarrow> u16 \<Rightarrow> (nat \<times> DnsRecord list) option) \<Rightarrow> u16 \<Rightarrow> string \<Rightarrow> Answer" where
  "win_query dns ty name =
     (case dns name ty of
        None \<Rightarrow> Failed
      | Some (rc, rs) \<Rightarrow>
          if rc = DNS_ERROR_RCODE_NAME_ERROR \<or> rc = DNS_INFO_NO_RECORDS then NoRecord
          else if rc \<noteq> 0 then Failed
          else first_text ty rs)"

definition win_ptr_answer :: "(string \<Rightarrow> Answer) \<Rightarrow> IpAddr \<Rightarrow> Answer" where
  "win_ptr_answer query ip =
     (case query (arpa ip) of
        Found s \<Rightarrow> let n = trim_dots s in if valid_name n \<and> \<not> reverse_zone n then Found n else NoRecord
      | other \<Rightarrow> other)"

definition origin_asn :: "string \<Rightarrow> string option" where
  "origin_asn line =
     (case split_whitespace (hd (split_on (\<lambda>c. c = CHR ''|'') line)) of
        [] \<Rightarrow> None
      | a # _ \<Rightarrow> if list_all is_ascii_digit a then Some a else None)"

definition network_owner :: "string \<Rightarrow> string option" where
  "network_owner line =
     (let s = trim (last (split_on (\<lambda>c. c = CHR ''|'') line)) in if s = [] then None else Some s)"

definition lookup :: "(IpAddr \<Rightarrow> Answer) \<Rightarrow> (string \<Rightarrow> Answer) \<Rightarrow> IpAddr \<Rightarrow> Whois" where
  "lookup ptr txt' ip =
     (let w0 = (case ptr ip of
                  Found n \<Rightarrow> whois_default\<lparr>w_ptr := Some n\<rparr>
                | NoRecord \<Rightarrow> whois_default
                | Failed \<Rightarrow> whois_default\<lparr>w_failed := True\<rparr>) in
      case reverse_name ip of
        None \<Rightarrow> w0
      | Some r \<Rightarrow>
          (case txt' (r @ ''.origin.asn.cymru.com'') of
             NoRecord \<Rightarrow> w0
           | Failed \<Rightarrow> w0\<lparr>w_failed := True\<rparr>
           | Found line \<Rightarrow>
               (case origin_asn line of
                  None \<Rightarrow> w0
                | Some a \<Rightarrow>
                    let w1 = w0\<lparr>w_asn := Some (''AS'' @ a)\<rparr> in
                    (case txt' (''AS'' @ a @ ''.asn.cymru.com'') of
                       Found line' \<Rightarrow> w1\<lparr>w_owner := network_owner line'\<rparr>
                     | NoRecord \<Rightarrow> w1
                     | Failed \<Rightarrow> w1\<lparr>w_failed := True\<rparr>))))"

section \<open>What a lookup can say\<close>

lemma trim_end_set: "c \<in> set (trim_end p s) \<Longrightarrow> c \<in> set s"
  unfolding trim_end_def using set_dropWhileD [of c p "rev s"] by simp

lemma ptr_lines_valid: "ptr_lines ip ls = Found n \<Longrightarrow> valid_name n \<and> \<not> reverse_zone n"
  by (induction ls) (auto simp: Let_def split: option.splits prod.splits if_splits)

lemma ptr_answer_valid: "ptr_answer resolvectl run ip = Found n \<Longrightarrow> valid_name n"
  by (auto simp: ptr_answer_def ptr_resolvectl_def Let_def split: if_splits option.splits Answer.splits dest: ptr_lines_valid)

lemma win_ptr_answer_valid: "win_ptr_answer query ip = Found n \<Longrightarrow> valid_name n \<and> \<not> reverse_zone n"
  by (auto simp: win_ptr_answer_def Let_def split: Answer.splits if_splits)

lemma split_words_nonempty: "w \<in> set (split_words word s) \<Longrightarrow> w \<noteq> []"
  by (induction word s rule: split_words.induct) (auto split: if_splits)

lemma origin_asn_digits: "origin_asn line = Some a \<Longrightarrow> a \<noteq> [] \<and> list_all is_ascii_digit a"
  using split_words_nonempty [of _ "[]" "hd (split_on (\<lambda>c. c = CHR ''|'') line)"]
  by (auto simp: origin_asn_def split_whitespace_def split: list.splits if_splits)

lemma lookup_parts:
  assumes "\<And>n. ptr ip = Found n \<Longrightarrow> valid_name n"
  shows "(\<forall>n. w_ptr (lookup ptr txt' ip) = Some n \<longrightarrow> valid_name n)
    \<and> (\<forall>a. w_asn (lookup ptr txt' ip) = Some a \<longrightarrow> (\<exists>d. a = ''AS'' @ d \<and> d \<noteq> [] \<and> list_all is_ascii_digit d))
    \<and> (w_owner (lookup ptr txt' ip) \<noteq> None \<longrightarrow> w_asn (lookup ptr txt' ip) \<noteq> None)"
  using assms origin_asn_digits unfolding lookup_def Let_def
  by (auto simp: whois_default_def split: Answer.split option.split)

text \<open>
  C32. Names and numbers of a lookup are well formed. Whatever the commands print or the system
  answers, on Unix and on Windows, the name that a lookup gives an address is a host name with a dot of
  at most 253 characters, the number of its network is \<^verbatim>\<open>AS\<close> and decimal digits, and an address has
  an owner only with a number.
\<close>

theorem lookup_well_formed:
  assumes "w = lookup (ptr_answer resolvectl run) (txt_answer resolvectl run) ip
    \<or> w = lookup (win_ptr_answer (win_query dns DNS_TYPE_PTR)) (win_query dns DNS_TYPE_TEXT) ip"
  shows "(\<forall>n. w_ptr w = Some n \<longrightarrow> valid_name n)
    \<and> (\<forall>a. w_asn w = Some a \<longrightarrow> (\<exists>d. a = ''AS'' @ d \<and> d \<noteq> [] \<and> list_all is_ascii_digit d))
    \<and> (w_owner w \<noteq> None \<longrightarrow> w_asn w \<noteq> None)"
  using assms
proof
  assume w: "w = lookup (ptr_answer resolvectl run) (txt_answer resolvectl run) ip"
  show ?thesis unfolding w by (rule lookup_parts) (rule ptr_answer_valid)
next
  assume w: "w = lookup (win_ptr_answer (win_query dns DNS_TYPE_PTR)) (win_query dns DNS_TYPE_TEXT) ip"
  show ?thesis unfolding w by (rule lookup_parts) (rule win_ptr_answer_valid [THEN conjunct1])
qed

definition sample_commands :: "string \<Rightarrow> string list \<Rightarrow> command_output" where
  "sample_commands bin args =
     (if args = [''query'', ''--legend=no'', ''192.0.2.35''] then Some (''192.0.2.35: host.example.net'', [], True) else None)"

lemma sample_lookup: "w_ptr (lookup (ptr_answer True sample_commands) (txt_answer True sample_commands) (V4 192 0 2 35)) = Some ''host.example.net''"
  by code_simp

theorem lookup_well_formed_witness: "valid_name ''host.example.net''"
  using lookup_well_formed [OF disjI1 [OF refl [of "lookup (ptr_answer True sample_commands) (txt_answer True sample_commands) (V4 192 0 2 35)"]]]
    sample_lookup by blast

end
