(* ===== verification/Report.thy ===== *)
theory Report
  imports Store_Data "HOL-Library.List_Lexorder" "HOL-Library.Char_ord"
begin

text \<open>
  The report as a page of HTML (\<^verbatim>\<open>src/src/report.rs\<close>): texts are escaped, sizes are rounded, and the page
  is put together from the connections of an export. What a host controls, names and titles, adds no
  markup to the page.
\<close>

section \<open>Texts and sizes\<close>

definition replace_char :: "char \<Rightarrow> string \<Rightarrow> string \<Rightarrow> string" where
  "replace_char c to s = concat (map (\<lambda>x. if x = c then to else [x]) s)"

definition esc :: "string \<Rightarrow> string" where
  "esc s =
     replace_char (CHR 0x27) ''&#39;'' (replace_char (CHR 0x22) ''&quot;'' (replace_char (CHR ''>'') ''&gt;''
       (replace_char (CHR ''<'') ''&lt;'' (replace_char (CHR ''&'') ''&amp;'' s))))"

text \<open>\<^verbatim>\<open>n as f64\<close> rounds to 53 bits, half to even; the quotient by a power of two is exact.\<close>

definition as_f64 :: "nat \<Rightarrow> nat" where
  "as_f64 n =
     (if n < 2 ^ 53 then n
      else let s = length (filter (\<lambda>k. 2 ^ k \<le> n) [53..<64]); q = n div 2 ^ s; r = n mod 2 ^ s in
           (if 2 ^ (s - 1) < r \<or> r = 2 ^ (s - 1) \<and> odd q then q + 1 else q) * 2 ^ s)"

text \<open>\<^verbatim>\<open>{:.k}\<close> of a quotient: \<open>k\<close> decimals, half to even.\<close>

definition show_fixed :: "nat \<Rightarrow> nat \<Rightarrow> nat \<Rightarrow> string" where
  "show_fixed k num den =
     (let v = num * 10 ^ k; q = v div den; r = v mod den;
          m = (if den < 2 * r \<or> 2 * r = den \<and> odd q then q + 1 else q);
          frac = show_nat (m mod 10 ^ k) in
      show_nat (m div 10 ^ k) @ ''.'' @ replicate (k - length frac) (CHR ''0'') @ frac)"

definition bytes_text :: "bool \<Rightarrow> u64 \<Rightarrow> string" where
  "bytes_text ru n =
     (let v = unat n in
      if n = 0 then ''-''
      else if v < 1024 then show_nat v @ '' '' @ tr ru ''B'' (utf8_text [208, 145])
      else if v < 1048576 then show_fixed 1 (as_f64 v) 1024 @ '' '' @ tr ru ''KB'' (utf8_text [208, 154, 208, 145])
      else if v < 1073741824 then show_fixed 2 (as_f64 v) 1048576 @ '' '' @ tr ru ''MB'' (utf8_text [208, 156, 208, 145])
      else show_fixed 2 (as_f64 v) 1073741824 @ '' '' @ tr ru ''GB'' (utf8_text [208, 147, 208, 145]))"

section \<open>The rows\<close>

definition or_empty :: "string option \<Rightarrow> string" where
  "or_empty s = (case s of None \<Rightarrow> [] | Some t \<Rightarrow> t)"

definition dim_text :: "string \<Rightarrow> string" where
  "dim_text s = ''<span class=dim>'' @ s @ ''</span>''"

definition report_row :: "bool \<Rightarrow> Conn \<Rightarrow> string" where
  "report_row ru c =
     ''<tr><td class=mono>'' @ c_proto c @ ''</td><td>'' @ esc (c_state c) @ ''</td><td>''
     @ (case c_domain c of
          Some d \<Rightarrow> esc d
        | None \<Rightarrow> dim_text (tr ru ''no name'' (utf8_text [208, 184, 208, 188, 208, 181, 208, 189, 208, 184, 32, 208, 189, 208, 181, 209,
            130])))
     @ ''</td><td class='mono ip'>'' @ esc (c_remote c) @ ''</td><td class=mono>'' @ show_nat (unat (c_rport c))
     @ ''</td><td class=dim>'' @ esc (or_empty (c_asn c) @ '' '' @ or_empty (c_owner c)) @ ''</td><td>''
     @ (case c_pname c of
          Some p \<Rightarrow> esc p
        | None \<Rightarrow>
            dim_text
              (if c_from_packets_only c
               then tr ru ''packets only'' (utf8_text [209, 130, 208, 190, 208, 187, 209, 140, 208, 186, 208, 190, 32, 208, 191, 208,
            176, 208, 186, 208, 181, 209, 130, 209, 139])
               else tr ru ''owner unknown'' (utf8_text [208, 178, 208, 187, 208, 176, 208, 180, 208, 181, 208, 187, 208, 181, 209, 134,
            32, 208, 189, 208, 181, 208, 184, 208, 183, 208, 178, 208, 181, 209, 129, 209, 130, 208,
            181, 208, 189])))
     @ ''</td><td class=mono>'' @ bytes_text ru (c_tx_bytes c) @ ''</td><td class=mono>'' @ bytes_text ru (c_rx_bytes c)
     @ ''</td></tr>''"

section \<open>The page\<close>

text \<open>The fixed parts of the page, in order.\<close>

definition NL :: string where "NL = [CHR 0x0A]"

definition page_head :: string where
  "page_head =
     ''><head><meta charset=utf-8>'' @ NL @
     ''<meta name=viewport content=\"width=device-width,initial-scale=1\"><title>''"

definition page_style :: string where
  "page_style =
     ''</title><style>'' @ NL @
     '':root{--bg:#0f1115;--panel:#161a21;--panel2:#1c2129;--line:#2a313c;--txt:#e6e9ef;--dim:#9aa4b2;--accent:#7aa2f7}'' @ NL @
     ''@media (prefers-color-scheme:light){:root{--bg:#f6f7f9;--panel:#fff;--panel2:#eef1f5;--line:#d8dee8;'' @ NL @
     '' --txt:#1a1d23;--dim:#5b6472;--accent:#2f5fd0}}'' @ NL @
     ''*{box-sizing:border-box}body{margin:0;background:var(--bg);color:var(--txt);'' @ NL @
     '' font:15px/1.6 -apple-system,\"Segoe UI\",Roboto,Arial,sans-serif}'' @ NL @
     ''.wrap{max-width:1180px;margin:0 auto;padding:32px 16px 70px}'' @ NL @
     ''h1{font-size:26px;margin:0 0 4px;letter-spacing:-.02em}'' @ NL @
     ''.sub{color:var(--dim);font-size:14px;margin:0 0 24px}'' @ NL @
     ''.cards{display:grid;grid-template-columns:repeat(auto-fit,minmax(150px,1fr));gap:12px;margin:20px 0}'' @ NL @
     ''.card{background:var(--panel);border:1px solid var(--line);border-radius:10px;padding:14px 16px}'' @ NL @
     ''.card .n{font-size:22px;font-weight:600}.card .l{font-size:12.5px;color:var(--dim)}'' @ NL @
     ''h2{font-size:19px;margin:38px 0 12px;padding-bottom:8px;border-bottom:1px solid var(--line)}'' @ NL @
     ''table{width:100%;border-collapse:collapse;background:var(--panel);border:1px solid var(--line);'' @ NL @
     '' border-radius:10px;overflow:hidden;font-size:13.5px}'' @ NL @
     ''th{background:var(--panel2);text-align:left;padding:9px 11px;font-size:11.5px;color:var(--dim);'' @ NL @
     '' text-transform:uppercase;letter-spacing:.05em}'' @ NL @
     ''td{padding:8px 11px;border-top:1px solid var(--line)}'' @ NL @
     ''.mono{font-family:ui-monospace,Menlo,Consolas,monospace;font-size:12.5px}'' @ NL @
     ''.ip{color:var(--accent);font-weight:600}.dim{color:var(--dim)}'' @ NL @
     ''pre{background:var(--panel2);border:1px solid var(--line);border-radius:8px;padding:12px 14px;'' @ NL @
     '' font-family:ui-monospace,monospace;font-size:12.5px;overflow-x:auto}'' @ NL @
     ''</style></head><body><div class=wrap>'' @ NL @
     ''<h1>''"

definition page_label :: "bool \<Rightarrow> string \<Rightarrow> string" where
  "page_label ru key =
     (if key = ''snap'' then tr ru ''SocketTrail, snapshot of''
       (utf8_text [83, 111, 99, 107, 101, 116, 84, 114, 97, 105, 108, 44, 32, 209, 129, 208, 189, 208, 184,
         208, 188, 208, 190, 208, 186, 32, 208, 190, 209, 130])
      else if key = ''l_conn'' then tr ru ''connections''
       (utf8_text [209, 129, 208, 190, 208, 181, 208, 180, 208, 184, 208, 189, 208, 181, 208, 189, 208, 184,
         208, 185])
      else if key = ''l_ip'' then tr ru ''unique addresses''
       (utf8_text [209, 131, 208, 189, 208, 184, 208, 186, 208, 176, 208, 187, 209, 140, 208, 189, 209, 139,
         209, 133, 32, 208, 176, 208, 180, 209, 128, 208, 181, 209, 129, 208, 190, 208, 178])
      else if key = ''l_dom'' then tr ru ''domains identified''
       (utf8_text [208, 180, 208, 190, 208, 188, 208, 181, 208, 189, 208, 190, 208, 178, 32, 208, 190, 208,
         191, 208, 190, 208, 183, 208, 189, 208, 176, 208, 189, 208, 190])
      else if key = ''l_tx'' then tr ru ''outgoing traffic''
       (utf8_text [208, 184, 209, 129, 209, 133, 208, 190, 208, 180, 209, 143, 209, 137, 208, 184, 208, 185,
         32, 209, 130, 209, 128, 208, 176, 209, 132, 208, 184, 208, 186])
      else if key = ''l_rx'' then tr ru ''incoming traffic''
       (utf8_text [208, 178, 209, 133, 208, 190, 208, 180, 209, 143, 209, 137, 208, 184, 208, 185, 32, 209,
         130, 209, 128, 208, 176, 209, 132, 208, 184, 208, 186])
      else if key = ''h_conns'' then tr ru ''Connections''
       (utf8_text [208, 161, 208, 190, 208, 181, 208, 180, 208, 184, 208, 189, 208, 181, 208, 189, 208, 184,
         209, 143])
      else if key = ''c_proto'' then tr ru ''Proto''
       (utf8_text [208, 159, 209, 128, 208, 190, 209, 130, 208, 190, 208, 186, 208, 190, 208, 187])
      else if key = ''c_state'' then tr ru ''State''
       (utf8_text [208, 161, 208, 190, 209, 129, 209, 130, 208, 190, 209, 143, 208, 189, 208, 184, 208, 181])
      else if key = ''c_dom'' then tr ru ''Domain''
       (utf8_text [208, 148, 208, 190, 208, 188, 208, 181, 208, 189])
      else if key = ''c_addr'' then tr ru ''Address''
       (utf8_text [208, 144, 208, 180, 209, 128, 208, 181, 209, 129])
      else if key = ''c_port'' then tr ru ''Port''
       (utf8_text [208, 159, 208, 190, 209, 128, 209, 130])
      else if key = ''c_net'' then tr ru ''Network''
       (utf8_text [208, 161, 208, 181, 209, 130, 209, 140])
      else if key = ''c_proc'' then tr ru ''Process''
       (utf8_text [208, 159, 209, 128, 208, 190, 209, 134, 208, 181, 209, 129, 209, 129])
      else if key = ''c_out'' then tr ru ''Out''
       (utf8_text [208, 152, 209, 129, 209, 133, 46])
      else if key = ''c_in'' then tr ru ''In''
       (utf8_text [208, 146, 209, 133, 46])
      else if key = ''h_doms'' then tr ru ''Domain list''
       (utf8_text [208, 161, 208, 191, 208, 184, 209, 129, 208, 190, 208, 186, 32, 208, 180, 208, 190, 208,
         188, 208, 181, 208, 189, 208, 190, 208, 178])
      else [])"

definition card :: "bool \<Rightarrow> string \<Rightarrow> string \<Rightarrow> string" where
  "card ru n key = ''<div class=card><div class=n>'' @ n @ ''</div><div class=l>'' @ page_label ru key @ ''</div></div>'' @ NL"

definition uniq :: "string list \<Rightarrow> string list" where
  "uniq xs = sort (remdups xs)"

definition some_domains :: "Conn list \<Rightarrow> string list" where
  "some_domains conns = concat (map (\<lambda>c. case c_domain c of None \<Rightarrow> [] | Some d \<Rightarrow> [d]) conns)"

definition render :: "bool \<Rightarrow> string \<Rightarrow> string \<Rightarrow> Conn list \<Rightarrow> string" where
  "render ru title0 generated0 conns =
     (let title = esc title0; generated = esc generated0; uniq_ips = uniq (map c_remote conns);
          uniq_dom = uniq (some_domains conns);
          tx = sum_list (map c_tx_bytes conns); rx = sum_list (map c_rx_bytes conns);
          rows = concat (map (report_row ru) conns); domains = concat (map (\<lambda>d. esc d @ NL) uniq_dom) in
      ''<!doctype html><html lang='' @ tr ru ''en'' ''ru'' @ page_head @ title @ page_style @ title
      @ ''</h1><p class=sub>'' @ page_label ru ''snap'' @ '' '' @ generated @ ''</p>'' @ NL @ ''<div class=cards>'' @ NL
      @ card ru (show_nat (length conns)) ''l_conn'' @ card ru (show_nat (length uniq_ips)) ''l_ip''
      @ card ru (show_nat (length uniq_dom)) ''l_dom'' @ card ru (bytes_text ru tx) ''l_tx''
      @ card ru (bytes_text ru rx) ''l_rx'' @ ''</div>'' @ NL @ ''<h2>'' @ page_label ru ''h_conns'' @ ''</h2>'' @ NL
      @ ''<table><thead><tr>'' @ concat (map (\<lambda>key. ''<th>'' @ page_label ru key)
            [''c_proto'', ''c_state'', ''c_dom'', ''c_addr'', ''c_port'', ''c_net'', ''c_proc'', ''c_out'', ''c_in''])
      @ ''</tr></thead>'' @ NL @ ''<tbody>'' @ rows @ ''</tbody></table>'' @ NL @ ''<h2>'' @ page_label ru ''h_doms''
      @ ''</h2><pre>'' @ domains @ ''</pre>'' @ NL @ ''</div></body></html>'')"

section \<open>Data add no markup\<close>

text \<open>The tags of a text: what stands between \<^verbatim>\<open><\<close> and \<^verbatim>\<open>></\<close>, and whether the text ends inside one.\<close>

fun tags :: "bool \<Rightarrow> string \<Rightarrow> string" where
  "tags inside [] = []"
| "tags inside (c # s) =
     (if inside then c # tags (c \<noteq> CHR ''>'') s
      else if c = CHR ''<'' then c # tags True s else tags False s)"

fun in_tag :: "bool \<Rightarrow> string \<Rightarrow> bool" where
  "in_tag inside [] = inside"
| "in_tag inside (c # s) = in_tag (if inside then c \<noteq> CHR ''>'' else c = CHR ''<'') s"

lemma tags_append [simp]: "tags b (s @ t) = tags b s @ tags (in_tag b s) t"
  by (induction b s rule: tags.induct) auto

lemma in_tag_append [simp]: "in_tag b (s @ t) = in_tag (in_tag b s) t"
  by (induction b s rule: in_tag.induct) auto

definition plain :: "string \<Rightarrow> bool" where
  "plain s \<longleftrightarrow> CHR ''<'' \<notin> set s"

lemma plain_tags [simp]: "plain s \<Longrightarrow> tags False s = []" "plain s \<Longrightarrow> in_tag False s = False"
  by (induction s) (auto simp: plain_def)

lemma plain_parts [simp]:
  "plain []" "plain (c # s) \<longleftrightarrow> c \<noteq> CHR ''<'' \<and> plain s" "plain (s @ t) \<longleftrightarrow> plain s \<and> plain t"
  "plain (replicate n c) \<longleftrightarrow> n = 0 \<or> c \<noteq> CHR ''<''"
  by (auto simp: plain_def)

lemma plain_show_nat [simp]: "plain (show_nat n)"
  using show_nat_digits [of "CHR ''<''" n] by (auto simp: plain_def is_ascii_digit_def char_code_def)

lemma plain_esc [simp]: "plain (esc s)"
proof -
  have gone: "CHR ''<'' \<notin> set (replace_char (CHR ''<'') ''&lt;'' t)" for t by (auto simp: replace_char_def)
  have kept: "CHR ''<'' \<notin> set t \<Longrightarrow> CHR ''<'' \<notin> set to \<Longrightarrow> CHR ''<'' \<notin> set (replace_char c to t)" for c to t
    by (auto simp: replace_char_def split: if_splits)
  show ?thesis unfolding plain_def esc_def by (intro kept gone) simp_all
qed

lemma plain_utf8_text: "list_all (\<lambda>n. n < 256 \<and> n \<noteq> 60) ns \<Longrightarrow> plain (utf8_text ns)"
proof (induction ns)
  case (Cons n ns)
  have "of_char (char_of n :: char) \<noteq> (of_char (CHR ''<'') :: nat)" using Cons.prems by simp
  then have "char_of n \<noteq> CHR ''<''" by metis
  then show ?case using Cons by (simp add: utf8_text_def)
qed (simp add: utf8_text_def)

lemma plain_bytes_text [simp]: "plain (bytes_text ru n)"
  by (simp add: bytes_text_def show_fixed_def Let_def tr_def plain_utf8_text)

lemma plain_label [simp]: "plain (page_label ru key)"
  by (simp add: page_label_def tr_def plain_utf8_text)

lemma calm_parts [simp]:
  "in_tag True page_head = False" "in_tag False page_style = False" "in_tag True (tr ru ''en'' ''ru'') = True"
  "tags b NL = (if b then NL else [])" "in_tag b NL = b"
  by (code_simp, code_simp, cases ru, simp_all add: tr_def NL_def)

text \<open>A connection without its texts.\<close>

definition no_text :: "Conn \<Rightarrow> Conn" where
  "no_text c = c\<lparr>c_state := [], c_domain := map_option (\<lambda>_. []) (c_domain c), c_remote := [], c_asn := None, c_owner := None,
                 c_pname := map_option (\<lambda>_. []) (c_pname c)\<rparr>"

lemma row_tags:
  assumes "plain (c_proto c)"
  shows "tags False (report_row ru c) = tags False (report_row ru (no_text c)) \<and> in_tag False (report_row ru c) = False"
  using assms
  by (cases "c_domain c"; cases "c_pname c") (simp_all add: report_row_def no_text_def dim_text_def tr_def plain_utf8_text)

lemma rows_tags:
  "list_all (\<lambda>c. plain (c_proto c)) conns \<Longrightarrow>
     tags False (concat (map (report_row ru) conns)) = tags False (concat (map (report_row ru) (map no_text conns)))
     \<and> in_tag False (concat (map (report_row ru) conns)) = False"
proof (induction conns)
  case (Cons c conns)
  then show ?case using row_tags [of c ru] row_tags [of "no_text c" ru] by (simp add: no_text_def)
qed simp

lemma card_tags:
  "plain n \<Longrightarrow> tags False (card ru n key) = ''<div class=card><div class=n></div><div class=l></div></div>'' \<and> in_tag False (card ru n key) = False"
  by (simp add: card_def)

lemma plain_domains [simp]: "plain (concat (map (\<lambda>d. esc d @ NL) ds))"
  by (induction ds) (simp_all add: NL_def)

text \<open>
  The tags of the page are those of the page with an empty title and empty texts in all connections.
\<close>

lemma render_tags:
  assumes "\<forall>c \<in> set conns. c_proto c \<in> {''TCP'', ''UDP''}"
  shows "tags False (render ru title generated conns) = tags False (render ru [] [] (map no_text conns))"
proof -
  have proto: "list_all (\<lambda>c. plain (c_proto c)) conns" "list_all (\<lambda>c. plain (c_proto c)) (map no_text conns)"
    using assms by (fastforce simp: list_all_iff no_text_def)+
  show ?thesis
    unfolding render_def Let_def
    using rows_tags [OF proto(1), of ru] rows_tags [OF proto(2), of ru]
    by (simp add: card_tags)
qed

end
