(* ===== verification/Calendar.thy ===== *)
theory Calendar
  imports Sockets "HOL-Library.Signed_Division"
begin

text \<open>
  Times as text (\<^verbatim>\<open>tz_offset_os\<close>, \<^verbatim>\<open>civil_from_days\<close>, \<^verbatim>\<open>human_time\<close>, \<^verbatim>\<open>stamp\<close> of
  \<^verbatim>\<open>src/src/main.rs\<close>). Signed numbers are integers: no intermediate value leaves 64 bits for an
  offset of a day and a time of 64 bits.
\<close>

section \<open>The offset of the time zone\<close>

text \<open>A piece \<^verbatim>\<open>s[a..b]\<close> of \<^verbatim>\<open>+0300\<close> as a signed number, 0 when it is none.\<close>

definition parse_i64 :: "string \<Rightarrow> int option" where
  "parse_i64 s =
     (if s \<noteq> [] \<and> hd s = CHR ''-''
      then (if tl s = [] then None
            else case parse_digits 10 0 (tl s) of None \<Rightarrow> None | Some n \<Rightarrow> if n \<le> 2 ^ 63 then Some (- int n) else None)
      else map_option int (parse_unsigned 10 (2 ^ 63) s))"

definition or_zero :: "int option \<Rightarrow> int" where
  "or_zero x = (case x of None \<Rightarrow> 0 | Some n \<Rightarrow> n)"

text \<open>\<open>out\<close> is what \<^verbatim>\<open>date +%z\<close> printed, if it ran.\<close>

definition tz_offset_unix :: "bytes option \<Rightarrow> int fallible" where
  "tz_offset_unix out =
     (let s = (case out of None \<Rightarrow> [] | Some b \<Rightarrow> trim (from_utf8_lossy b)) in
      if length s = 5 then
        andthen (str_slice s 1 3) (\<lambda>hh.
        andthen (str_slice s 3 5) (\<lambda>mm.
          let sign = (if starts_with s ''-'' then - 1 else 1); h = or_zero (parse_i64 hh); m = or_zero (parse_i64 mm) in
          Got (sign * (h * 3600 + m * 60))))
      else Got 0)"

text \<open>\<open>zone\<close> is the answer of \<^verbatim>\<open>GetDynamicTimeZoneInformation\<close>.\<close>

definition tz_offset_win :: "nat \<Rightarrow> int \<Rightarrow> int \<Rightarrow> int \<Rightarrow> int" where
  "tz_offset_win zone bias standard daylight =
     (let b = (if zone = 1 then bias + standard else if zone = 2 then bias + daylight else bias) in - b * 60)"

section \<open>Calendar dates\<close>

definition civil_from_days :: "int \<Rightarrow> int \<times> int \<times> int" where
  "civil_from_days z0 =
     (let z = z0 + 719468; era = z div 146097; doe = z mod 146097;
          yoe = (doe - doe div 1460 + doe div 36524 - doe div 146096) div 365;
          y = yoe + era * 400; doy = doe - (365 * yoe + yoe div 4 - yoe div 100);
          mp = (5 * doy + 2) div 153; d = doy - (153 * mp + 2) div 5 + 1;
          m = (if mp < 10 then mp + 3 else mp - 9) in
      (if m \<le> 2 then y + 1 else y, m, d))"

text \<open>\<^verbatim>\<open>{n:0w}\<close>: at least \<open>w\<close> characters, zeros after the sign.\<close>

definition show_padded :: "nat \<Rightarrow> int \<Rightarrow> string" where
  "show_padded w n =
     (let digits = show_nat (nat \<bar>n\<bar>); sign = (if n < 0 then ''-'' else []) in
      sign @ replicate (w - length sign - length digits) (CHR ''0'') @ digits)"

text \<open>\<^verbatim>\<open>ms as i64 / 1000\<close>, then the local time.\<close>

definition local_seconds :: "int \<Rightarrow> u64 \<Rightarrow> int" where
  "local_seconds tz ms = sint ms sdiv 1000 + tz"

definition human_time :: "int \<Rightarrow> u64 \<Rightarrow> string" where
  "human_time tz ms =
     (let secs = local_seconds tz ms; t = secs mod 86400 in
      case civil_from_days (secs div 86400) of
        (y, mo, d) \<Rightarrow>
          show_padded 4 y @ ''-'' @ show_padded 2 mo @ ''-'' @ show_padded 2 d @ '' '' @ show_padded 2 (t div 3600) @ '':''
          @ show_padded 2 (t mod 3600 div 60) @ '':'' @ show_padded 2 (t mod 60))"

definition stamp :: "int \<Rightarrow> u64 \<Rightarrow> string" where
  "stamp tz ms =
     (let secs = local_seconds tz ms; t = secs mod 86400 in
      case civil_from_days (secs div 86400) of
        (y, mo, d) \<Rightarrow>
          show_padded 4 y @ show_padded 2 mo @ show_padded 2 d @ ''-'' @ show_padded 2 (t div 3600)
          @ show_padded 2 (t mod 3600 div 60) @ show_padded 2 (t mod 60))"

lemma stamp_example: "stamp 10800 1789907445000 = ''20260920-153045''"
  by code_simp

section \<open>The dates are those of the Gregorian calendar\<close>

definition leap_year :: "int \<Rightarrow> bool" where
  "leap_year y \<longleftrightarrow> y mod 4 = 0 \<and> (y mod 100 \<noteq> 0 \<or> y mod 400 = 0)"

definition month_length :: "int \<Rightarrow> int \<Rightarrow> int" where
  "month_length y m = (if m = 2 then (if leap_year y then 29 else 28) else if m \<in> {4, 6, 9, 11} then 30 else 31)"

definition next_date :: "int \<times> int \<times> int \<Rightarrow> int \<times> int \<times> int" where
  "next_date date =
     (case date of (y, m, d) \<Rightarrow>
        if d < month_length y m then (y, m, d + 1) else if m < 12 then (y, m + 1, 1) else (y + 1, 1, 1))"

text \<open>
  Years are counted from March: \<open>year_start\<close> is the number of days before a year, \<open>date_in_year\<close>
  the month and day of a day in it.
\<close>

definition year_start :: "int \<Rightarrow> int" where
  "year_start y = 365 * y + y div 4 - y div 100 + y div 400"

definition year_scale :: "int \<Rightarrow> int" where
  "year_scale doe = doe - doe div 1460 + doe div 36524 - doe div 146096"

definition date_in_year :: "int \<Rightarrow> int \<times> int" where
  "date_in_year doy =
     (let mp = (5 * doy + 2) div 153 in (if mp < 10 then mp + 3 else mp - 9, doy - (153 * mp + 2) div 5 + 1))"

definition civil_of :: "int \<Rightarrow> int \<Rightarrow> int \<times> int \<times> int" where
  "civil_of y doy = (if fst (date_in_year doy) \<le> 2 then y + 1 else y, date_in_year doy)"

lemma civil_split:
  "civil_from_days z =
     (let era = (z + 719468) div 146097; doe = (z + 719468) mod 146097; yoe = year_scale doe div 365 in
      civil_of (yoe + era * 400) (doe - (365 * yoe + yoe div 4 - yoe div 100)))"
  unfolding civil_from_days_def year_scale_def date_in_year_def civil_of_def Let_def fst_conv by (rule refl)

lemma div_next: "0 < k \<Longrightarrow> (a + 1) div k = a div k + (if (a + 1) mod k = 0 then 1 else 0)" for a k :: int
proof -
  assume k: "0 < k"
  have a: "a = k * (a div k) + a mod k" and r: "0 \<le> a mod k" "a mod k < k" using k by simp_all
  show ?thesis
  proof (cases "a mod k + 1 = k")
    case True
    have "k * (a div k + 1) = k * (a div k) + k" by (simp add: distrib_left)
    then have e: "a + 1 = k * (a div k + 1) + 0" using a True by linarith
    have "(a + 1) div k = a div k + 1" using int_div_pos_eq [OF e] k by simp
    moreover have "(a + 1) mod k = 0" using int_mod_pos_eq [OF e] k by simp
    ultimately show ?thesis by simp
  next
    case False
    then have e: "a + 1 = k * (a div k) + (a mod k + 1)" "a mod k + 1 < k" using a r by linarith+
    have "(a + 1) div k = a div k" using int_div_pos_eq [OF e(1)] e(2) r by simp
    moreover have "(a + 1) mod k = a mod k + 1" using int_mod_pos_eq [OF e(1)] e(2) r by simp
    ultimately show ?thesis using r by simp
  qed
qed

lemma mod_zero_dvd: "a mod m = 0 \<Longrightarrow> k dvd m \<Longrightarrow> a mod k = 0" for a m k :: int
  by (metis mod_mod_cancel mod_0)

lemma year_length: "year_start (y + 1) = year_start y + 365 + (if leap_year (y + 1) then 1 else 0)"
proof -
  define p q r where "p \<longleftrightarrow> (y + 1) mod 4 = 0" and "q \<longleftrightarrow> (y + 1) mod 100 = 0" and "r \<longleftrightarrow> (y + 1) mod 400 = 0"
  have "q \<longrightarrow> p" unfolding p_def q_def by (intro impI, erule mod_zero_dvd) (rule dvdI [of _ _ 25], simp)
  moreover have "r \<longrightarrow> q" unfolding q_def r_def by (intro impI, erule mod_zero_dvd) (rule dvdI [of _ _ 4], simp)
  moreover have "(y + 1) div 4 = y div 4 + (if p then 1 else 0)" "(y + 1) div 100 = y div 100 + (if q then 1 else 0)"
    "(y + 1) div 400 = y div 400 + (if r then 1 else 0)"
    unfolding p_def q_def r_def by (rule div_next, simp)+
  ultimately have "q \<longrightarrow> p" "r \<longrightarrow> q"
      "year_start (y + 1) = year_start y + 365 + (if p then 1 else 0) - (if q then 1 else 0) + (if r then 1 else 0)"
    unfolding year_start_def by (simp_all only: distrib_left mult_1_right)
  then show ?thesis unfolding leap_year_def p_def [symmetric] q_def [symmetric] r_def [symmetric]
    by (cases p; cases q; cases r) simp_all
qed

lemma year_scale_next: "year_scale a \<le> year_scale (a + 1)"
proof -
  define p q r where "p \<longleftrightarrow> (a + 1) mod 1460 = 0" and "q \<longleftrightarrow> (a + 1) mod 36524 = 0" and "r \<longleftrightarrow> (a + 1) mod 146096 = 0"
  have "r \<longrightarrow> q" unfolding q_def r_def by (intro impI, erule mod_zero_dvd) (rule dvdI [of _ _ 4], simp)
  moreover have "(a + 1) div 1460 = a div 1460 + (if p then 1 else 0)" "(a + 1) div 36524 = a div 36524 + (if q then 1 else 0)"
    "(a + 1) div 146096 = a div 146096 + (if r then 1 else 0)"
    unfolding p_def q_def r_def by (rule div_next, simp)+
  ultimately show ?thesis unfolding year_scale_def
    by (cases p; cases q; cases r; simp only: if_True if_False simp_thms; linarith)
qed

lemma year_scale_mono: "a \<le> b \<Longrightarrow> year_scale a \<le> year_scale b"
  by (induction b rule: int_ge_induct) (auto intro: order_trans [OF _ year_scale_next])

lemma year_scale_table:
  "list_all (\<lambda>y. 365 * y \<le> year_scale (year_start y) \<and> year_scale (year_start (y + 1) - 1) < 365 * (y + 1)) [0..399]"
  by code_simp

lemma year_of_day: "0 \<le> doe \<Longrightarrow> doe < year_start (int n) \<Longrightarrow> \<exists>y. 0 \<le> y \<and> y < int n \<and> year_start y \<le> doe \<and> doe < year_start (y + 1)"
proof (induction n)
  case (Suc n)
  show ?case
  proof (cases "doe < year_start (int n)")
    case True
    then show ?thesis using Suc by fastforce
  next
    case False
    then have "0 \<le> int n \<and> int n < int (Suc n) \<and> year_start (int n) \<le> doe \<and> doe < year_start (int n + 1)"
      using Suc.prems by (simp add: add.commute)
    then show ?thesis by blast
  qed
qed (simp add: year_start_def)

text \<open>A day has one year and one place in it, and \<open>civil_from_days\<close> finds them.\<close>

definition day_at :: "int \<Rightarrow> int \<Rightarrow> int \<Rightarrow> bool" where
  "day_at z y doy \<longleftrightarrow> z + 719468 = year_start y + doy \<and> 0 \<le> doy \<and> doy < year_start (y + 1) - year_start y"

lemma civil_day_at: "\<exists>y doy. day_at z y doy \<and> civil_from_days z = civil_of y doy"
proof -
  define era doe where "era = (z + 719468) div 146097" and "doe = (z + 719468) mod 146097"
  have z: "z + 719468 = 146097 * era + doe" and range: "0 \<le> doe" "doe < 146097" unfolding era_def doe_def by simp_all
  have "year_start (int 400) = 146097" by (simp add: year_start_def)
  then obtain y where y: "0 \<le> y" "y < 400" "year_start y \<le> doe" "doe < year_start (y + 1)"
    using year_of_day [of doe 400] range by auto
  have "365 * y \<le> year_scale (year_start y) \<and> year_scale (year_start (y + 1) - 1) < 365 * (y + 1)"
    using year_scale_table y(1,2) unfolding list_all_iff by auto
  then have "365 * y \<le> year_scale doe" "year_scale doe < 365 * (y + 1)"
    using year_scale_mono [OF y(3)] year_scale_mono [of doe "year_start (y + 1) - 1"] y(4) by linarith+
  then have yoe: "year_scale doe div 365 = y" using int_div_pos_eq [of "year_scale doe" 365 y "year_scale doe - 365 * y"] by simp
  have shift: "year_start (x + era * 400) = year_start x + 146097 * era" for x
  proof -
    have "(x + era * 100 * 4) div 4 = era * 100 + x div 4" "(x + era * 4 * 100) div 100 = era * 4 + x div 100"
      "(x + era * 400) div 400 = era + x div 400" by (rule div_mult_self1, simp)+
    moreover have "era * 100 * 4 = era * 400" "era * 4 * 100 = era * 400" by simp_all
    ultimately show ?thesis unfolding year_start_def by simp
  qed
  have small: "y div 400 = 0" using y(1,2) by simp
  have "day_at z (y + era * 400) (doe - year_start y)"
  proof -
    have "y + era * 400 + 1 = (y + 1) + era * 400" by simp
    then have next_start: "year_start (y + era * 400 + 1) = year_start (y + 1) + 146097 * era" using shift [of "y + 1"] by (simp only:)
    show ?thesis unfolding day_at_def next_start shift [of y] using z y by (intro conjI) linarith+
  qed
  moreover have "civil_from_days z = civil_of (y + era * 400) (doe - year_start y)"
    unfolding civil_split Let_def era_def [symmetric] doe_def [symmetric] yoe using small by (simp add: year_start_def)
  ultimately show ?thesis by blast
qed

lemma year_start_mono: "x \<le> y \<Longrightarrow> year_start x \<le> year_start y"
  by (induction y rule: int_ge_induct) (auto simp: year_length)

lemma day_at_unique:
  assumes "day_at z x a" "day_at z y b" shows "x = y \<and> a = b"
proof -
  have "\<not> x < y" if "day_at z x a" "day_at z y b" for x y a b
    using year_start_mono [of "x + 1" y] that by (auto simp: day_at_def)
  from this [OF assms] this [OF assms(2,1)] have "x = y" by linarith
  then show ?thesis using assms by (simp add: day_at_def)
qed

lemma civil_at: "day_at z y doy \<Longrightarrow> civil_from_days z = civil_of y doy"
  using civil_day_at [of z] day_at_unique by metis

lemma month_table:
  "list_all (\<lambda>d. case date_in_year d of (m, e) \<Rightarrow>
       1 \<le> m \<and> m \<le> 12 \<and> (m = 2 \<longrightarrow> e < 28) \<and>
       date_in_year (d + 1) = (if e < (if m = 2 then 28 else if m \<in> {4, 6, 9, 11} then 30 else 31) then (m, e + 1)
                               else (if m = 12 then 1 else m + 1, 1))) [0..363]"
  "date_in_year 364 = (2, 28) \<and> date_in_year 365 = (2, 29) \<and> date_in_year 0 = (3, 1)"
  by code_simp+

lemma civil_same_year:
  assumes "0 \<le> doy" "doy < 364" shows "civil_of y (doy + 1) = next_date (civil_of y doy)"
proof -
  obtain m e where me: "date_in_year doy = (m, e)" by (cases "date_in_year doy")
  have "1 \<le> m \<and> m \<le> 12 \<and> (m = 2 \<longrightarrow> e < 28) \<and>
       date_in_year (doy + 1) = (if e < (if m = 2 then 28 else if m \<in> {4, 6, 9, 11} then 30 else 31) then (m, e + 1)
                               else (if m = 12 then 1 else m + 1, 1))"
    using bspec [OF month_table(1) [unfolded list_all_iff], of doy] assms me by simp
  then show ?thesis using me by (auto simp: civil_of_def next_date_def month_length_def)
qed

text \<open>
  C34. Dates are the days of the Gregorian calendar. Day 0 is 1 January 1970, and the date of every
  following day, before or after the epoch, is the next one of the calendar, with its leap years.
\<close>

theorem civil_gregorian:
  "civil_from_days 0 = (1970, 1, 1) \<and> civil_from_days (z + 1) = next_date (civil_from_days z)"
proof
  show "civil_from_days 0 = (1970, 1, 1)" by code_simp
  from civil_day_at [of z] obtain y doy where day: "day_at z y doy" and z: "civil_from_days z = civil_of y doy" by blast
  have len: "year_start (y + 1) - year_start y = 365 + (if leap_year (y + 1) then 1 else 0)" by (simp add: year_length)
  show "civil_from_days (z + 1) = next_date (civil_from_days z)"
  proof (cases "doy + 1 < year_start (y + 1) - year_start y")
    case True
    then have "day_at (z + 1) y (doy + 1)" using day by (simp add: day_at_def)
    then have "civil_from_days (z + 1) = civil_of y (doy + 1)" by (rule civil_at)
    moreover have "doy < 364 \<or> doy = 364 \<and> leap_year (y + 1)" using True len by (auto split: if_splits)
    ultimately show ?thesis using civil_same_year [of doy y] day month_table(2)
      by (auto simp: z day_at_def civil_of_def next_date_def month_length_def)
  next
    case False
    then have "day_at (z + 1) (y + 1) 0" using day len year_length [of "y + 1"] by (auto simp: day_at_def)
    then have "civil_from_days (z + 1) = civil_of (y + 1) 0" by (rule civil_at)
    moreover have "doy = (if leap_year (y + 1) then 365 else 364)" using False day len by (auto simp: day_at_def)
    ultimately show ?thesis using month_table(2) by (auto simp: z civil_of_def next_date_def month_length_def)
  qed
qed

end
