(* ===== verification/Web_Api.thy ===== *)
theory Web_Api
  imports Recording Calendar Report
begin

text \<open>
  What the local API answers (\<^verbatim>\<open>request_allowed\<close>, \<^verbatim>\<open>api_procs\<close>, \<^verbatim>\<open>select_conns\<close>, \<^verbatim>\<open>aggregate\<close>,
  \<^verbatim>\<open>api_state\<close>, \<^verbatim>\<open>api_export\<close>, \<^verbatim>\<open>api_dumps\<close> of \<^verbatim>\<open>src/src/main.rs\<close>). The routing of axum and the printing of
  JSON are left out. \<open>lower\<close> is \<^verbatim>\<open>str::to_lowercase\<close>, which follows the Unicode tables.
\<close>

section \<open>Which requests are served\<close>

text \<open>The headers of a request: the first value of a name that is text.\<close>

definition request_allowed :: "u16 \<Rightarrow> string \<Rightarrow> (string \<Rightarrow> string option) \<Rightarrow> bool" where
  "request_allowed port meth headers \<longleftrightarrow>
     (let allowed = [''127.0.0.1:'' @ show_nat (unat port), ''localhost:'' @ show_nat (unat port)];
          host_ok = (case headers ''host'' of None \<Rightarrow> False | Some h \<Rightarrow> h \<in> set allowed);
          origin_ok = (meth = ''GET''
            \<or> (case headers ''origin'' of None \<Rightarrow> True | Some o' \<Rightarrow> o' \<in> (\<lambda>a. ''http://'' @ a) ` set allowed));
          site_ok = (headers ''sec-fetch-site'' \<notin> {Some ''cross-site'', Some ''same-site''}) in
      host_ok \<and> origin_ok \<and> site_ok)"

section \<open>Selecting connections\<close>

record Filter =
  fl_only_selected :: bool
  fl_query :: string
  fl_proto :: string
  fl_show_local :: bool
  fl_show_self :: bool

definition proto_param :: "string \<Rightarrow> string" where
  "proto_param s = (let s = to_ascii_lowercase s in if s = ''tcp'' \<or> s = ''udp'' then s else [])"

definition opt_contains :: "(string \<Rightarrow> string) \<Rightarrow> string option \<Rightarrow> string \<Rightarrow> bool" where
  "opt_contains lower s q = (case s of None \<Rightarrow> False | Some d \<Rightarrow> contains_str (lower d) q)"

definition conn_matches :: "(string \<Rightarrow> string) \<Rightarrow> Conn \<Rightarrow> string \<Rightarrow> bool" where
  "conn_matches lower c q =
     (if q = [] then True
      else if q = ''tcp'' \<or> q = ''udp'' then eq_ignore_ascii_case (c_proto c) q
      else contains_str (c_remote c) q \<or> contains_str (show_nat (unat (c_rport c))) q
        \<or> opt_contains lower (c_domain c) q \<or> opt_contains lower (c_pname c) q \<or> opt_contains lower (c_owner c) q
        \<or> opt_contains lower (c_asn c) q)"

definition shown :: "(string \<Rightarrow> string) \<Rightarrow> App \<Rightarrow> Filter \<Rightarrow> Conn \<Rightarrow> bool" where
  "shown lower g f c =
     (if fl_proto f \<noteq> [] \<and> \<not> eq_ignore_ascii_case (c_proto c) (fl_proto f) then False
      else if \<not> fl_show_local f \<and> c_scope c \<noteq> ''public'' then False
      else if \<not> fl_show_self f \<and> (case c_pid c of None \<Rightarrow> False | Some p \<Rightarrow> p \<in> set (a_self_pids g)) then False
      else if \<not> fl_show_self f \<and> c_rport c = a_port g \<and> c_scope c = ''loopback'' then False
      else if fl_only_selected f \<and> (case c_pid c of None \<Rightarrow> True | Some p \<Rightarrow> p \<notin> set (a_group g)) then False
      else conn_matches lower c (lower (fl_query f)))"

definition select_conns :: "(string \<Rightarrow> string) \<Rightarrow> App \<Rightarrow> Filter \<Rightarrow> Conn list" where
  "select_conns lower g f = by_last_seen (filter (shown lower g f) (map snd (s_conns (a_store g))))"

section \<open>One row for each target\<close>

record Target =
  tg_id :: string
  tg_proto :: string
  tg_remote :: string
  tg_rport :: u16
  tg_domain :: "string option"
  tg_sni :: bool
  tg_asn :: "string option"
  tg_owner :: "string option"
  tg_scope :: string
  tg_sessions :: nat
  tg_live :: nat
  tg_tx_bytes :: u64
  tg_rx_bytes :: u64
  tg_first_seen :: u64
  tg_last_seen :: u64
  tg_pname :: "string option"

type_synonym target_key = "string \<times> string \<times> u16"

definition conn_target :: "Conn \<Rightarrow> target_key" where
  "conn_target c = (c_proto c, c_remote c, c_rport c)"

definition new_target :: "Conn \<Rightarrow> Target" where
  "new_target c = \<lparr>tg_id = c_proto c @ ''|'' @ c_remote c @ ''|'' @ show_nat (unat (c_rport c)), tg_proto = c_proto c,
     tg_remote = c_remote c, tg_rport = c_rport c, tg_domain = None, tg_sni = False, tg_asn = c_asn c,
     tg_owner = c_owner c, tg_scope = c_scope c, tg_sessions = 0, tg_live = 0, tg_tx_bytes = 0, tg_rx_bytes = 0,
     tg_first_seen = c_first_seen c, tg_last_seen = c_last_seen c, tg_pname = None\<rparr>"

definition add_to_target :: "Conn \<Rightarrow> Target \<Rightarrow> Target" where
  "add_to_target c t0 =
     (let t1 = t0\<lparr>tg_sessions := tg_sessions t0 + 1,
                  tg_live := (if c_closed c then tg_live t0 else tg_live t0 + 1),
                  tg_tx_bytes := tg_tx_bytes t0 + c_tx_bytes c, tg_rx_bytes := tg_rx_bytes t0 + c_rx_bytes c,
                  tg_first_seen := min (tg_first_seen t0) (c_first_seen c),
                  tg_last_seen := max (tg_last_seen t0) (c_last_seen c)\<rparr>;
          t2 = (if c_sni c \<noteq> None then t1\<lparr>tg_sni := True, tg_domain := c_sni c\<rparr>
                else if tg_domain t1 = None then t1\<lparr>tg_domain := c_domain c\<rparr> else t1);
          t3 = (if tg_pname t2 = None then t2\<lparr>tg_pname := c_pname c\<rparr> else t2) in
      if tg_asn t3 = None then t3\<lparr>tg_asn := c_asn c, tg_owner := c_owner c\<rparr> else t3)"

definition target_map :: "Conn list \<Rightarrow> (target_key, Target) hmap" where
  "target_map cs = fold (\<lambda>c m. hm_entry (conn_target c) (new_target c) (add_to_target c) m) cs []"

definition aggregate :: "Conn list \<Rightarrow> Target list" where
  "aggregate cs =
     sort_key (\<lambda>t. - int (unat (tg_tx_bytes t + tg_rx_bytes t)))
       (sort_key (\<lambda>t. - int (unat (tg_last_seen t))) (map snd (target_map cs)))"

section \<open>The state of the window\<close>

record StateQuery =
  sq_scope :: string
  sq_view :: string
  sq_q :: string
  sq_proto :: string
  sq_limit :: "nat option"
  sq_show_local :: "u8 option"
  sq_show_self :: "u8 option"

record StateView =
  sv_matched :: nat
  sv_stored :: nat
  sv_attributed :: nat
  sv_packets :: u64
  sv_capture :: bool
  sv_dropped :: u64
  sv_iface :: string
  sv_running :: bool
  sv_busy :: bool
  sv_result :: "DumpOutcome option"
  sv_path :: "string option"
  sv_started :: "u64 option"
  sv_only :: bool
  sv_auto_stopped :: "string option"
  sv_group :: "int list"
  sv_selected :: "int option"
  sv_conns :: "Conn list"
  sv_targets :: "(Target list \<times> nat) option"
  sv_shown :: nat

definition state_filter :: "App \<Rightarrow> StateQuery \<Rightarrow> Filter" where
  "state_filter g q = \<lparr>fl_only_selected = (sq_scope q \<noteq> ''host'' \<and> a_selected g \<noteq> None), fl_query = sq_q q,
     fl_proto = proto_param (sq_proto q), fl_show_local = (sq_show_local q = Some 1), fl_show_self = (sq_show_self q = Some 1)\<rparr>"

definition state_limit :: "StateQuery \<Rightarrow> nat" where
  "state_limit q = max 1 (min 5000 (case sq_limit q of None \<Rightarrow> 400 | Some n \<Rightarrow> n))"

definition api_state :: "(string \<Rightarrow> string) \<Rightarrow> App \<Rightarrow> StateQuery \<Rightarrow> StateView" where
  "api_state lower g q =
     (let limit = state_limit q; picked = select_conns lower g (state_filter g q); agg = (sq_view q = ''agg'');
          owned = (if agg then picked else take limit picked);
          all = (if agg then aggregate owned else []);
          rows = (if agg then [] else take limit owned) in
      \<lparr>sv_matched = length picked, sv_stored = length (s_conns (a_store g)),
       sv_attributed = length (filter (\<lambda>c. c_pid c \<noteq> None) picked), sv_packets = s_packets_seen (a_store g),
       sv_capture = a_capture_on g, sv_dropped = m_dropped (a_metrics g), sv_iface = a_iface g,
       sv_running = dump_is_running (a_dump g), sv_busy = (a_phase g = Starting \<or> a_phase g = Finishing),
       sv_result = a_outcome g, sv_path = du_path (a_dump g), sv_started = du_started_ms (a_dump g),
       sv_only = (case a_meta g of None \<Rightarrow> False | Some m \<Rightarrow> dm_only_group m), sv_auto_stopped = a_auto_stopped g,
       sv_group = a_group g, sv_selected = a_selected g, sv_conns = rows,
       sv_targets = (if agg then Some (take limit all, length all) else None),
       sv_shown = (if agg then length (take limit all) else length rows)\<rparr>)"

text \<open>The connections of an export, oldest first, and what it is called.\<close>

definition export_conns :: "(string \<Rightarrow> string) \<Rightarrow> App \<Rightarrow> string \<Rightarrow> string \<Rightarrow> string \<Rightarrow> Conn list" where
  "export_conns lower g scope q proto =
     sort_key (\<lambda>c. unat (c_first_seen c))
       (select_conns lower g \<lparr>fl_only_selected = (scope \<noteq> ''host'' \<and> a_selected g \<noteq> None), fl_query = q,
          fl_proto = proto_param proto, fl_show_local = True, fl_show_self = False\<rparr>)"

definition export_title :: "bool \<Rightarrow> App \<Rightarrow> string \<Rightarrow> string" where
  "export_title ru g scope =
     (case (if scope \<noteq> ''host'' then a_selected g else None) of
        Some pid \<Rightarrow>
          (case find_proc (a_procs g) pid of
             None \<Rightarrow> ''pid '' @ show_int pid
           | Some p \<Rightarrow> p_name p @ '' (pid '' @ show_int (p_pid p) @ '')'')
      | None \<Rightarrow> tr ru ''whole host''
          (utf8_text [208, 178, 208, 181, 209, 129, 209, 140, 32, 209, 133, 208, 190, 209, 129, 209, 130]))"

text \<open>The export as a page.\<close>

definition export_html :: "(string \<Rightarrow> string) \<Rightarrow> bool \<Rightarrow> int \<Rightarrow> u64 \<Rightarrow> App \<Rightarrow> string \<Rightarrow> string \<Rightarrow> string \<Rightarrow> string" where
  "export_html lower ru tz now g scope q proto =
     render ru
       (tr ru ''Network connections: ''
          (utf8_text [208, 161, 208, 181, 209, 130, 208, 181, 208, 178, 209, 139, 208, 181, 32, 209, 129, 208, 190, 208,
      181, 208, 180, 208, 184, 208, 189, 208, 181, 208, 189, 208, 184, 209, 143, 58, 32]) @ export_title ru g scope)
       (human_time tz now) (export_conns lower g scope q proto)"

section \<open>The saved recordings\<close>

text \<open>
  The entries of the directory: a name, its size and the time of its last change in milliseconds, each
  as far as the system tells it; \<^verbatim>\<open>None\<close> when the directory cannot be read.
\<close>

record DumpFile =
  df_name :: string
  df_size :: u64
  df_mtime :: u64

definition dump_entry :: "bytes \<times> (u64 \<times> u64 option) option \<Rightarrow> DumpFile list" where
  "dump_entry e =
     (let name' = from_utf8_lossy (fst e) in
      if \<not> ends_with name' ''.pcapng'' then []
      else case snd e of
             None \<Rightarrow> [\<lparr>df_name = name', df_size = 0, df_mtime = 0\<rparr>]
           | Some (len, t) \<Rightarrow> [\<lparr>df_name = name', df_size = len, df_mtime = (case t of None \<Rightarrow> 0 | Some ms \<Rightarrow> ms)\<rparr>])"

definition api_dumps :: "(bytes \<times> (u64 \<times> u64 option) option) list option \<Rightarrow> DumpFile list" where
  "api_dumps entries =
     take 20 (sort_key (\<lambda>f. - int (unat (df_mtime f)))
       (case entries of None \<Rightarrow> [] | Some es \<Rightarrow> concat (map dump_entry es)))"

section \<open>The process tree\<close>

record ProcsQuery =
  pq_filter :: string
  pq_q :: string
  pq_show_self :: "u8 option"

definition live_counts :: "Store \<Rightarrow> (int, nat) hmap" where
  "live_counts s =
     fold (\<lambda>e m. if \<not> c_closed (snd e) \<and> c_scope (snd e) = ''public''
                 then (case c_pid (snd e) of None \<Rightarrow> m | Some pid \<Rightarrow> hm_entry pid 0 Suc m) else m) (s_conns s) []"

definition proc_wanted :: "(string \<Rightarrow> string) \<Rightarrow> App \<Rightarrow> ProcsQuery \<Rightarrow> ProcInfo \<Rightarrow> bool" where
  "proc_wanted lower g q p =
     (let show_self = (pq_show_self q = Some 1); needle = lower (pq_q q);
          by_filter = (if pq_filter q = ''proton'' then p_proton p
                       else if pq_filter q = ''all'' then True else p_pid p \<in> set (a_active_pids g));
          by_query = (needle = [] \<or> contains_str (lower (p_name p)) needle \<or> contains_str (show_int (p_pid p)) needle
                      \<or> contains_str (lower (p_cmdline p)) needle) in
      (show_self \<or> p_pid p \<notin> set (a_self_pids g)) \<and> by_filter \<and> by_query)"

text \<open>The ancestors of a process, at most 64 steps up, until one is there already.\<close>

fun keep_ancestors :: "nat \<Rightarrow> proc_map \<Rightarrow> int \<Rightarrow> int list \<Rightarrow> int list" where
  "keep_ancestors 0 by_pid cur keep = keep"
| "keep_ancestors (Suc n) by_pid cur keep =
     (if cur \<le> 1 then keep
      else if cur \<in> set keep then keep
      else case hm_get by_pid cur of
             Some parent \<Rightarrow> keep_ancestors n by_pid (p_ppid parent) (hs_add cur keep)
           | None \<Rightarrow> hs_add cur keep)"

definition kept_pids :: "proc_map \<Rightarrow> ProcInfo list \<Rightarrow> int list" where
  "kept_pids by_pid wanted = fold (\<lambda>p keep. keep_ancestors 64 by_pid (p_ppid p) (hs_add (p_pid p) keep)) wanted []"

record ProcRow =
  pr_proc :: ProcInfo
  pr_active :: bool
  pr_conns :: nat
  pr_matched :: bool
  pr_own :: bool

definition api_procs :: "(string \<Rightarrow> string) \<Rightarrow> App \<Rightarrow> ProcsQuery \<Rightarrow> ProcRow list" where
  "api_procs lower g q =
     (let live = live_counts (a_store g); wanted = filter (proc_wanted lower g q) (a_procs g);
          keep = kept_pids (proc_map_of (a_procs g)) wanted in
      map (\<lambda>p. \<lparr>pr_proc = p, pr_active = (p_pid p \<in> set (a_active_pids g)),
                pr_conns = (case hm_get live (p_pid p) of None \<Rightarrow> 0 | Some n \<Rightarrow> n),
                pr_matched = (p_pid p \<in> set (map p_pid wanted)), pr_own = (p_pid p \<in> set (a_self_pids g))\<rparr>)
        (filter (\<lambda>p. p_pid p \<in> set keep) (a_procs g)))"


section \<open>The rows account for every connection\<close>

definition target_key_of :: "Target \<Rightarrow> target_key" where
  "target_key_of t = (tg_proto t, tg_remote t, tg_rport t)"

definition sessions_of :: "target_key \<Rightarrow> Conn list \<Rightarrow> Conn list" where
  "sessions_of k cs = filter (\<lambda>c. conn_target c = k) cs"

lemma target_map_snoc:
  "target_map (cs @ [c]) = hm_entry (conn_target c) (new_target c) (add_to_target c) (target_map cs)"
  by (simp add: target_map_def)

lemma target_map_wf: "hm_wf (target_map cs)"
  by (induction cs rule: rev_induct) (simp_all add: target_map_snoc hm_wf_entry, simp add: target_map_def)

lemma target_map_get:
  "hm_get (target_map cs) k =
     (case sessions_of k cs of [] \<Rightarrow> None | c # own \<Rightarrow> Some (fold add_to_target (c # own) (new_target c)))"
proof (induction cs rule: rev_induct)
  case Nil
  then show ?case by (simp add: target_map_def sessions_of_def)
next
  case (snoc c cs)
  then show ?case
    by (cases "conn_target c = k") (auto simp: target_map_snoc sessions_of_def hm_get_entry split: list.split)
qed

text \<open>What a row has counted after some connections.\<close>

lemma fold_target:
  "target_key_of (fold add_to_target cs t) = target_key_of t"
  "tg_sessions (fold add_to_target cs t) = tg_sessions t + length cs"
  "tg_live (fold add_to_target cs t) = tg_live t + length (filter (\<lambda>c. \<not> c_closed c) cs)"
  "tg_tx_bytes (fold add_to_target cs t) = tg_tx_bytes t + sum_list (map c_tx_bytes cs)"
  "tg_rx_bytes (fold add_to_target cs t) = tg_rx_bytes t + sum_list (map c_rx_bytes cs)"
proof -
  have one: "target_key_of (add_to_target c t) = target_key_of t" "tg_sessions (add_to_target c t) = tg_sessions t + 1"
    "tg_live (add_to_target c t) = tg_live t + (if c_closed c then 0 else 1)"
    "tg_tx_bytes (add_to_target c t) = tg_tx_bytes t + c_tx_bytes c"
    "tg_rx_bytes (add_to_target c t) = tg_rx_bytes t + c_rx_bytes c" for c t
    by (simp_all add: add_to_target_def target_key_of_def Let_def)
  show "target_key_of (fold add_to_target cs t) = target_key_of t"
    "tg_sessions (fold add_to_target cs t) = tg_sessions t + length cs"
    "tg_live (fold add_to_target cs t) = tg_live t + length (filter (\<lambda>c. \<not> c_closed c) cs)"
    "tg_tx_bytes (fold add_to_target cs t) = tg_tx_bytes t + sum_list (map c_tx_bytes cs)"
    "tg_rx_bytes (fold add_to_target cs t) = tg_rx_bytes t + sum_list (map c_rx_bytes cs)"
    by (induction cs arbitrary: t) (simp_all add: one add.assoc)
qed

lemma fold_target_span:
  "tg_first_seen (fold add_to_target cs t) \<le> tg_first_seen t \<and> tg_last_seen t \<le> tg_last_seen (fold add_to_target cs t)
   \<and> (\<forall>c \<in> set cs. tg_first_seen (fold add_to_target cs t) \<le> c_first_seen c \<and> c_last_seen c \<le> tg_last_seen (fold add_to_target cs t))"
proof (induction cs arbitrary: t)
  case (Cons c cs)
  have one: "tg_first_seen (add_to_target c t) = min (tg_first_seen t) (c_first_seen c)"
    "tg_last_seen (add_to_target c t) = max (tg_last_seen t) (c_last_seen c)"
    by (simp_all add: add_to_target_def Let_def)
  show ?case using Cons.IH [of "add_to_target c t"] unfolding one by auto
qed simp

text \<open>A row holds the sessions of its key.\<close>

lemma target_row:
  assumes "e \<in> set (target_map cs)"
  shows "target_key_of (snd e) = fst e \<and> (\<exists>c own. sessions_of (fst e) cs = c # own
      \<and> snd e = fold add_to_target (c # own) (new_target c))"
proof -
  have "hm_get (target_map cs) (fst e) = Some (snd e)" using hm_get_of_set [OF target_map_wf, of "fst e" "snd e"] assms by simp
  then obtain c own where own: "sessions_of (fst e) cs = c # own" "snd e = fold add_to_target (c # own) (new_target c)"
    by (auto simp: target_map_get split: list.splits)
  have "conn_target c = fst e" using own(1) by (auto simp: sessions_of_def filter_eq_Cons_iff)
  then have "target_key_of (new_target c) = fst e" by (simp add: target_key_of_def new_target_def conn_target_def)
  then show ?thesis using own fold_target(1) by metis
qed

lemma target_keys: "fst ` set (target_map cs) = conn_target ` set cs"
proof -
  have "k \<in> fst ` set (target_map cs) \<longleftrightarrow> k \<in> conn_target ` set cs" for k
  proof -
    have "k \<in> fst ` set (target_map cs) \<longleftrightarrow> hm_get (target_map cs) k \<noteq> None" by (simp add: hm_get_None hm_has_def)
    also have "\<dots> \<longleftrightarrow> sessions_of k cs \<noteq> []" by (auto simp: target_map_get split: list.split)
    also have "\<dots> \<longleftrightarrow> k \<in> conn_target ` set cs" by (auto simp: sessions_of_def filter_empty_conv)
    finally show ?thesis .
  qed
  then show ?thesis by blast
qed

lemma aggregate_keys: "mset (map target_key_of (aggregate cs)) = mset (map fst (target_map cs))"
proof -
  have "mset (aggregate cs) = mset (map snd (target_map cs))" by (simp add: aggregate_def)
  then have "mset (map target_key_of (aggregate cs)) = mset (map target_key_of (map snd (target_map cs)))"
    by (simp only: mset_map)
  also have "map target_key_of (map snd (target_map cs)) = map fst (target_map cs)" using target_row by (simp cong: map_cong)
  finally show ?thesis .
qed

lemma aggregate_row:
  assumes "t \<in> set (aggregate cs)"
  shows "let own = filter (\<lambda>c. conn_target c = target_key_of t) cs in
        tg_sessions t = length own \<and> tg_live t = length (filter (\<lambda>c. \<not> c_closed c) own)
        \<and> tg_tx_bytes t = sum_list (map c_tx_bytes own) \<and> tg_rx_bytes t = sum_list (map c_rx_bytes own)
        \<and> (\<forall>c \<in> set own. tg_first_seen t \<le> c_first_seen c \<and> c_last_seen c \<le> tg_last_seen t)"
proof -
  have "mset (aggregate cs) = mset (map snd (target_map cs))" by (simp add: aggregate_def)
  then obtain e where e: "e \<in> set (target_map cs)" "t = snd e" using assms mset_eq_setD by fastforce
  from target_row [OF e(1)] obtain c own where own: "target_key_of t = fst e" "sessions_of (fst e) cs = c # own"
      "t = fold add_to_target (c # own) (new_target c)"
    using e(2) by blast
  have all: "filter (\<lambda>c. conn_target c = target_key_of t) cs = c # own" using own by (simp add: sessions_of_def)
  have zero: "tg_sessions (new_target c) = 0" "tg_live (new_target c) = 0" "tg_tx_bytes (new_target c) = 0" "tg_rx_bytes (new_target c) = 0"
    by (simp_all add: new_target_def)
  have counts: "tg_sessions t = length (c # own)" "tg_live t = length (filter (\<lambda>c. \<not> c_closed c) (c # own))"
      "tg_tx_bytes t = sum_list (map c_tx_bytes (c # own))" "tg_rx_bytes t = sum_list (map c_rx_bytes (c # own))"
    unfolding own(3) fold_target(2-5) zero by simp_all
  have "\<forall>d \<in> set (c # own). tg_first_seen t \<le> c_first_seen d \<and> c_last_seen d \<le> tg_last_seen t"
    using fold_target_span [of "c # own" "new_target c"] unfolding own(3) by blast
  then show ?thesis unfolding Let_def all using counts by blast
qed


definition sample_row_conn :: "u16 \<Rightarrow> u64 \<Rightarrow> u64 \<Rightarrow> bool \<Rightarrow> Conn" where
  "sample_row_conn rport seen bytes closed =
     (new_conn 7 \<lparr>k_proto = Tcp, k_local = V4 192 0 2 1, k_lport = 5000, k_remote = V4 203 0 113 9, k_rport = rport\<rparr> False)
       \<lparr>c_last_seen := seen, c_tx_bytes := bytes, c_closed := closed\<rparr>"

definition sample_rows :: "Conn list" where
  "sample_rows = [sample_row_conn 80 9 10 False, sample_row_conn 443 8 30 False, sample_row_conn 443 12 40 True]"

lemma sample_rows_own:
  "filter (\<lambda>c. conn_target c = conn_target (sample_row_conn 443 8 30 False)) sample_rows
     = [sample_row_conn 443 8 30 False, sample_row_conn 443 12 40 True]"
  by (simp add: sample_rows_def sample_row_conn_def conn_target_def new_conn_def)


section \<open>The page of an export\<close>

lemma export_conns_stored: "c \<in> set (export_conns lower g scope q proto) \<Longrightarrow> \<exists>k. (k, c) \<in> set (s_conns (a_store g))"
  by (force simp: export_conns_def select_conns_def by_last_seen_def)

lemma reachable_proto:
  assumes "reachable s" "(k, c) \<in> set (s_conns s)"
  shows "c_proto c \<in> {''TCP'', ''UDP''}"
proof -
  have "hm_get (s_conns s) k = Some c" using reachable_wf [OF assms(1)] assms(2) by (simp add: store_wf_def hm_get_of_set)
  then have "c_proto c = proto_as_str (k_proto k)"
    using key_record.reachable_record [OF assms(1)] by (simp add: key_fields_def)
  then show ?thesis by (cases "k_proto k") simp_all
qed



end
