(* ===== verification/Ip_Text.thy ===== *)
theory Ip_Text
  imports Net Numerals
begin

text \<open>
  Addresses read from text: \<^verbatim>\<open>str::parse::<IpAddr>\<close> of the standard library, as \<^verbatim>\<open>main\<close>
  (\<^verbatim>\<open>src/src/main.rs\<close>) uses it to restore the names it saved. The parser is the one of
  \<^verbatim>\<open>core::net\<close>: it takes a prefix of the text and returns what is left. Every address that was
  printed is read back.
\<close>

section \<open>The parser\<close>

text \<open>A number: the digits read so far, their value, and the rest.\<close>

fun num_loop :: "nat \<Rightarrow> nat \<Rightarrow> nat \<Rightarrow> nat \<Rightarrow> nat \<Rightarrow> string \<Rightarrow> (nat \<times> nat \<times> string) option" where
  "num_loop radix bound most k acc [] = Some (k, acc, [])"
| "num_loop radix bound most k acc (c # cs) =
     (case digit_value c of
        None \<Rightarrow> Some (k, acc, c # cs)
      | Some d \<Rightarrow>
          if radix \<le> d then Some (k, acc, c # cs)
          else if bound \<le> acc * radix + d \<or> most < Suc k then None
          else num_loop radix bound most (Suc k) (acc * radix + d) cs)"

definition read_number :: "nat \<Rightarrow> nat \<Rightarrow> nat \<Rightarrow> bool \<Rightarrow> string \<Rightarrow> (nat \<times> string) option" where
  "read_number radix bound most zero_prefix s =
     (case num_loop radix bound most 0 0 s of
        None \<Rightarrow> None
      | Some (k, n, rest) \<Rightarrow>
          if k = 0 then None
          else if \<not> zero_prefix \<and> hd s = CHR ''0'' \<and> 1 < k then None
          else Some (n, rest))"

definition read_sep :: "char \<Rightarrow> nat \<Rightarrow> (string \<Rightarrow> 'a option) \<Rightarrow> string \<Rightarrow> 'a option" where
  "read_sep sep i p s =
     (if i = 0 then p s else case s of [] \<Rightarrow> None | c # t \<Rightarrow> if c = sep then p t else None)"

fun read_octets :: "nat \<Rightarrow> nat \<Rightarrow> string \<Rightarrow> (nat list \<times> string) option" where
  "read_octets 0 i s = Some ([], s)"
| "read_octets (Suc left) i s =
     (case read_sep (CHR ''.'') i (read_number 10 256 3 False) s of
        None \<Rightarrow> None
      | Some (n, t) \<Rightarrow>
          (case read_octets left (Suc i) t of None \<Rightarrow> None | Some (ns, u) \<Rightarrow> Some (n # ns, u)))"

definition read_v4 :: "string \<Rightarrow> (nat list \<times> string) option" where
  "read_v4 s = read_octets 4 0 s"

text \<open>\<open>left\<close> groups may follow; the groups, whether they end with an IPv4 address, and the rest.\<close>

fun read_groups :: "nat \<Rightarrow> nat \<Rightarrow> string \<Rightarrow> nat list \<times> bool \<times> string" where
  "read_groups 0 i s = ([], False, s)"
| "read_groups (Suc left) i s =
     (case if 0 < left then read_sep (CHR '':'') i read_v4 s else None of
        Some (os, t) \<Rightarrow> ([os ! 0 * 256 + os ! 1, os ! 2 * 256 + os ! 3], True, t)
      | None \<Rightarrow>
          (case read_sep (CHR '':'') i (read_number 16 65536 4 True) s of
             None \<Rightarrow> ([], False, s)
           | Some (g, t) \<Rightarrow> (case read_groups left (Suc i) t of (gs, v4, u) \<Rightarrow> (g # gs, v4, u))))"

definition read_v6 :: "string \<Rightarrow> (nat list \<times> string) option" where
  "read_v6 s =
     (case read_groups 8 0 s of
        (head, v4, rest) \<Rightarrow>
          if length head = 8 then Some (head, rest)
          else if v4 then None
          else if take 2 rest \<noteq> ''::'' then None
          else case read_groups (7 - length head) 0 (drop 2 rest) of
                 (tail, _, u) \<Rightarrow> Some (head @ replicate (8 - length head - length tail) 0 @ tail, u))"

definition v6_of_groups :: "nat list \<Rightarrow> 128 word" where
  "v6_of_groups gs = word_of_nat (fold (\<lambda>g acc. acc * 65536 + g) gs 0)"

definition parse_ip :: "string \<Rightarrow> IpAddr option" where
  "parse_ip s =
     (case read_v4 s of
        Some (os, rest) \<Rightarrow>
          if rest = [] then Some (V4 (word_of_nat (os ! 0)) (word_of_nat (os ! 1)) (word_of_nat (os ! 2)) (word_of_nat (os ! 3)))
          else None
      | None \<Rightarrow>
          (case read_v6 s of
             Some (gs, rest) \<Rightarrow> if rest = [] then Some (V6 (v6_of_groups gs)) else None
           | None \<Rightarrow> None))"

section \<open>Numbers\<close>

lemma show_base_chars: "2 \<le> b \<Longrightarrow> c \<in> set (show_base b n) \<Longrightarrow> \<exists>d < b. c = digit_char d"
proof (induction n rule: less_induct)
  case (less n)
  show ?case
  proof (cases "n < b")
    case True
    then show ?thesis using less.prems by (auto simp: show_base.simps [of b n])
  next
    case False
    then have small: "n div b < n" "n mod b < b" using less.prems by simp_all
    have "c \<in> set (show_base b (n div b)) \<or> c = digit_char (n mod b)"
      using less.prems False by (auto simp: show_base.simps [of b n])
    then show ?thesis using less.IH [OF small(1) less.prems(1)] small(2) by blast
  qed
qed

lemma show_base_length: "2 \<le> b \<Longrightarrow> n < b ^ Suc k \<Longrightarrow> length (show_base b n) \<le> Suc k"
proof (induction k arbitrary: n)
  case 0
  then show ?case by (simp add: show_base.simps [of b n])
next
  case (Suc k)
  then have "n div b < b ^ Suc k" by (simp add: less_mult_imp_div_less mult.commute)
  then show ?case using Suc by (cases "n < b") (simp_all add: show_base.simps [of b n])
qed

lemma show_base_hd: "2 \<le> b \<Longrightarrow> b \<le> 16 \<Longrightarrow> 0 < n \<Longrightarrow> hd (show_base b n) \<noteq> CHR ''0''"
proof (induction n rule: less_induct)
  case (less n)
  show ?case
  proof (cases "n < b")
    case True
    then have "hd (show_base b n) = digit_char n" using less.prems by (simp add: show_base.simps [of b n])
    moreover have "CHR ''0'' = digit_char 0" by code_simp
    ultimately show ?thesis using True less.prems digit_char_inject [of n 0] by simp
  next
    case False
    then have "n div b < n" "0 < n div b" using less.prems by (simp_all add: div_greater_zero_iff)
    then show ?thesis using less False by (simp add: show_base.simps [of b n])
  qed
qed

text \<open>A text at which a number of the base ends.\<close>

definition stops :: "nat \<Rightarrow> string \<Rightarrow> bool" where
  "stops b s \<longleftrightarrow> (case s of [] \<Rightarrow> True | c # _ \<Rightarrow> (case digit_value c of None \<Rightarrow> True | Some d \<Rightarrow> b \<le> d))"

lemma stops_simps [simp]: "stops b []" "stops b (CHR ''.'' # s)" "stops b (CHR '':'' # s)"
  by (simp_all add: stops_def digit_value_def char_code_def)

lemma parse_digits_ge: "1 \<le> b \<Longrightarrow> parse_digits b acc ds = Some n \<Longrightarrow> acc \<le> n"
proof (induction ds arbitrary: acc)
  case (Cons c ds)
  then obtain d where "d < b" "parse_digits b (acc * b + d) ds = Some n" by (auto split: option.splits if_splits)
  then have "acc * b + d \<le> n" using Cons by blast
  moreover have "acc \<le> acc * b" using Cons.prems by simp
  ultimately show ?case by linarith
qed simp

lemma num_loop_digits:
  "1 \<le> b \<Longrightarrow> parse_digits b acc ds = Some n \<Longrightarrow> n < bound \<Longrightarrow> k + length ds \<le> most \<Longrightarrow> stops b rest \<Longrightarrow>
     num_loop b bound most k acc (ds @ rest) = Some (k + length ds, n, rest)"
proof (induction ds arbitrary: k acc)
  case Nil
  then show ?case by (cases rest) (auto simp: stops_def split: option.splits)
next
  case (Cons c ds)
  then obtain d where d: "digit_value c = Some d" "d < b" "parse_digits b (acc * b + d) ds = Some n"
    by (auto split: option.splits if_splits)
  moreover have "acc * b + d < bound" using parse_digits_ge [OF Cons.prems(1) d(3)] Cons.prems(3) by simp
  ultimately show ?case using Cons.IH [OF Cons.prems(1) d(3) Cons.prems(3) _ Cons.prems(5), of "Suc k"] Cons.prems(4) by simp
qed

lemma read_show_hex:
  assumes "n < 65536" and "stops 16 rest"
  shows "read_number 16 65536 4 True (show_hex n @ rest) = Some (n, rest)"
proof -
  have "length (show_hex n) \<le> 4" using show_base_length [of 16 n 3] assms(1) by (simp add: show_hex_def)
  then have "num_loop 16 65536 4 0 0 (show_hex n @ rest) = Some (length (show_hex n), n, rest)"
    using num_loop_digits [OF _ parse_show_base [of 16 n], of 65536 0 4 rest] assms by (simp add: show_hex_def)
  then show ?thesis by (simp add: read_number_def show_hex_def)
qed

lemma read_show_octet:
  assumes "n < 256" and "stops 10 rest"
  shows "read_number 10 256 3 False (show_nat n @ rest) = Some (n, rest)"
proof -
  have "length (show_nat n) \<le> 3" using show_base_length [of 10 n 2] assms(1) by (simp add: show_nat_def)
  then have "num_loop 10 256 3 0 0 (show_nat n @ rest) = Some (length (show_nat n), n, rest)"
    using num_loop_digits [OF _ parse_show_base [of 10 n], of 256 0 3 rest] assms by (simp add: show_nat_def)
  moreover have "\<not> (hd (show_nat n @ rest) = CHR ''0'' \<and> 1 < length (show_nat n))"
    using show_base_hd [of 10 n] by (cases "n = 0") (simp_all add: show_nat_def show_base.simps [of 10 0])
  moreover have "length (show_nat n) \<noteq> 0" by simp
  ultimately show ?thesis unfolding read_number_def by (simp del: length_0_conv length_greater_0_conv)
qed

section \<open>An IPv4 address is read back\<close>

lemma read_v4_unfold: "read_v4 s = read_octets (Suc (Suc (Suc (Suc 0)))) 0 s"
  by (simp add: read_v4_def numeral_eq_Suc)

lemma read_v4_show:
  assumes "stops 10 rest"
  shows "read_v4 (v4_to_string a b c d @ rest) = Some ([unat a, unat b, unat c, unat d], rest)"
proof -
  have small: "unat x < 256" for x :: u8 using unsigned_less [of x, where ?'a = nat] by simp
  show ?thesis
    unfolding read_v4_unfold v4_to_string_def
    using assms small by (simp add: read_sep_def read_show_octet)
qed

section \<open>An IPv6 address is read back\<close>

lemma num_loop_suffix: "num_loop radix bound most k acc s = Some (k', n, rest) \<Longrightarrow> set rest \<subseteq> set s"
  by (induction radix bound most k acc s rule: num_loop.induct) (auto split: option.splits if_splits)

lemma read_v4_needs_dot: "CHR ''.'' \<notin> set s \<Longrightarrow> read_v4 s = None"
proof -
  assume dot: "CHR ''.'' \<notin> set s"
  have "read_sep (CHR ''.'') 1 p t = None" if "set t \<subseteq> set s" for p :: "string \<Rightarrow> (nat \<times> string) option" and t
    using that dot by (cases t) (auto simp: read_sep_def)
  moreover have "set t \<subseteq> set s" if "read_number 10 256 3 False s = Some (n, t)" for n t
    using that num_loop_suffix by (fastforce simp: read_number_def split: option.splits prod.splits if_splits)
  ultimately show ?thesis
    by (auto simp: read_v4_unfold read_sep_def [of _ 0] split: option.split)
qed

text \<open>The groups after the first one, each with its colon.\<close>

definition tail_text :: "u16 list \<Rightarrow> string" where
  "tail_text xs = concat (map (\<lambda>x. CHR '':'' # show_hex (unat x)) xs)"

lemma join_tail: "join_segments (x # xs) = show_hex (unat x) @ tail_text xs"
proof (induction xs arbitrary: x)
  case (Cons y ys)
  then show ?case by (simp add: tail_text_def)
qed (simp add: tail_text_def)

lemma hex_no_dot [simp]: "CHR ''.'' \<notin> set (show_hex n)"
proof
  assume "CHR ''.'' \<in> set (show_hex n)"
  then obtain d where d: "d < 16" "CHR ''.'' = digit_char d" using show_base_chars [of 16 _ n] unfolding show_hex_def by auto
  have "digit_value (CHR ''.'') = None" by code_simp
  then show False using d by simp
qed

lemma tail_no_dot [simp]: "CHR ''.'' \<notin> set (tail_text xs)"
  by (induction xs) (simp_all add: tail_text_def)

lemma join_no_dot: "CHR ''.'' \<notin> set (join_segments xs)"
  by (cases xs) (simp_all add: join_tail del: join_segments.simps(2,3))

text \<open>Where a list of groups ends: at the end of the text or at a double colon.\<close>

definition group_end :: "string \<Rightarrow> bool" where
  "group_end s \<longleftrightarrow> s = [] \<or> take 2 s = ''::''"

lemma group_end_stops: "group_end s \<Longrightarrow> stops 16 (tail_text xs @ s)"
  by (cases xs; cases s) (auto simp: group_end_def tail_text_def)

lemma read_group_end:
  assumes "group_end s" shows "read_sep (CHR '':'') i (read_number 16 65536 4 True) s = None"
proof -
  have colon: "read_number 16 65536 4 True (CHR '':'' # t) = None" "read_number 16 65536 4 True [] = None" for t
    by (simp_all add: read_number_def digit_value_def char_code_def)
  show ?thesis
  proof (cases s)
    case (Cons c t)
    then obtain u where "s = CHR '':'' # CHR '':'' # u" using assms by (cases t) (auto simp: group_end_def)
    then show ?thesis by (simp add: read_sep_def colon)
  qed (simp add: read_sep_def colon)
qed

lemma sep_v4_none: "CHR ''.'' \<notin> set s \<Longrightarrow> read_sep (CHR '':'') i read_v4 s = None"
  by (cases s) (auto simp: read_sep_def read_v4_needs_dot)

lemma read_tail_groups:
  "length xs \<le> left \<Longrightarrow> group_end s \<Longrightarrow> CHR ''.'' \<notin> set s \<Longrightarrow>
     read_groups left (Suc i) (tail_text xs @ s) = (map unat xs, False, s)"
proof (induction xs arbitrary: left i)
  case Nil
  then show ?case by (cases left) (simp_all add: tail_text_def read_group_end sep_v4_none)
next
  case (Cons x xs)
  then obtain l where l: "left = Suc l" "length xs \<le> l" by (cases left) auto
  have shape: "tail_text (x # xs) @ s = CHR '':'' # show_hex (unat x) @ (tail_text xs @ s)" by (simp add: tail_text_def)
  have "unat x < 65536" using unsigned_less [of x, where ?'a = nat] by simp
  then have "read_sep (CHR '':'') (Suc i) (read_number 16 65536 4 True) (tail_text (x # xs) @ s) = Some (unat x, tail_text xs @ s)"
    unfolding shape using read_show_hex group_end_stops [OF Cons.prems(2)] by (simp add: read_sep_def)
  moreover have "read_sep (CHR '':'') (Suc i) read_v4 (tail_text (x # xs) @ s) = None"
    using Cons.prems(3) by (intro sep_v4_none) simp
  ultimately show ?case using Cons.IH [OF l(2) Cons.prems(2,3), of "Suc i"] l(2) by (cases l) (simp_all add: l(1) tail_text_def)
qed

lemma read_joined_groups:
  assumes "length xs \<le> left" "group_end s" "CHR ''.'' \<notin> set s"
  shows "read_groups left 0 (join_segments xs @ s) = (map unat xs, False, s)"
proof (cases xs)
  case Nil
  then show ?thesis using assms by (cases left) (simp_all add: read_group_end sep_v4_none)
next
  case (Cons x ys)
  then obtain l where l: "left = Suc l" "length ys \<le> l" using assms(1) by (cases left) auto
  have shape: "join_segments xs @ s = show_hex (unat x) @ (tail_text ys @ s)" unfolding Cons join_tail by simp
  have "unat x < 65536" using unsigned_less [of x, where ?'a = nat] by simp
  then have "read_sep (CHR '':'') 0 (read_number 16 65536 4 True) (join_segments xs @ s) = Some (unat x, tail_text ys @ s)"
    unfolding shape using read_show_hex group_end_stops [OF assms(2)] by (simp add: read_sep_def)
  moreover have "read_sep (CHR '':'') 0 read_v4 (join_segments xs @ s) = None"
    using assms(3) join_no_dot by (intro sep_v4_none) simp
  ultimately show ?thesis using read_tail_groups [OF l(2) assms(2,3), of 0] l(2) by (cases l) (simp_all add: l(1) Cons tail_text_def)
qed

section \<open>The longest run of zero groups\<close>

lemma zero_run_split: "ss = replicate (zero_run ss) 0 @ drop (zero_run ss) ss"
  by (induction ss) auto

lemma longest_zero_run_split:
  "longest_zero_run i ss = (a, n) \<Longrightarrow> i \<le> a \<and> ss = take (a - i) ss @ replicate n 0 @ drop (a - i + n) ss \<and> a - i + n \<le> length ss"
proof (induction ss arbitrary: i)
  case (Cons x xs)
  show ?case
  proof (cases "snd (longest_zero_run (Suc i) xs) \<le> zero_run (x # xs)")
    case True
    then have "a = i" "n = zero_run (x # xs)" using Cons.prems by (simp_all add: Let_def)
    moreover have "zero_run ys \<le> length ys" for ys by (induction ys) auto
    ultimately show ?thesis using zero_run_split [of "x # xs"] by simp
  next
    case False
    then have "longest_zero_run (Suc i) xs = (a, n)" using Cons.prems by (simp add: Let_def split: if_splits)
    from Cons.IH [OF this] have "Suc i \<le> a" "xs = take (a - Suc i) xs @ replicate n 0 @ drop (a - Suc i + n) xs"
        "a - Suc i + n \<le> length xs" by blast+
    moreover from this have "a - i = Suc (a - Suc i)" by simp
    ultimately show ?thesis by simp
  qed
qed simp

section \<open>The bits of an address\<close>

lemma fold_groups:
  "fold (\<lambda>g acc. acc * b + g) (map (\<lambda>k. n div b ^ k mod b) (rev [0..<m])) acc = acc * b ^ m + n mod b ^ m" for n b :: nat
proof (induction m arbitrary: acc)
  case (Suc m)
  have "n mod b ^ Suc m = b ^ m * (n div b ^ m mod b) + n mod b ^ m" using mod_mult2_eq [of n "b ^ m" b] by (simp add: mult.commute)
  then show ?case using Suc by (simp add: algebra_simps)
qed simp

lemma unat_v6_segment:
  assumes "i \<le> 7" shows "unat (v6_segment v i) = unat v div 65536 ^ (7 - i) mod 65536"
proof -
  have "(65536 :: nat) ^ (7 - i) = 2 ^ (112 - 16 * i)"
    using assms power_mult [of "2 :: nat" 16 "7 - i"] by (simp add: diff_mult_distrib2)
  then show ?thesis 
    using unsigned_less [of v, where ?'a = nat]
    by (simp add: v6_segment_def unsigned_ucast_eq unsigned_drop_bit_eq) (simp add: take_bit_eq_mod drop_bit_eq_div)
qed

lemma v6_groups_segments: "v6_of_groups (map unat (v6_segments v)) = v"
proof -
  have "unat v < 65536 ^ 8" using unsigned_less [of v, where ?'a = nat] by simp
  then have whole: "unat v mod 65536 ^ 8 = unat v" by simp
  have "map unat (v6_segments v) = map (\<lambda>k. unat v div 65536 ^ k mod 65536) (rev [0..<8])"
    by (simp add: v6_segments_def unat_v6_segment upt_rec)
  then have "fold (\<lambda>g acc. acc * 65536 + g) (map unat (v6_segments v)) 0 = unat v"
    using fold_groups [where m = 8 and b = 65536 and acc = 0] whole by simp
  then show ?thesis by (simp add: v6_of_groups_def)
qed

section \<open>Every printed address is read back\<close>

lemma join_read_v6:
  assumes "segs = take a segs @ replicate n 0 @ drop (a + n) segs" "a + n \<le> length segs" "length segs = 8" "1 < n"
  shows "read_v6 (join_segments (take a segs) @ ''::'' @ join_segments (drop (a + n) segs)) = Some (map unat segs, [])"
proof -
  let ?rest = "join_segments (drop (a + n) segs)"
  have ends: "group_end (''::'' @ ?rest)" "CHR ''.'' \<notin> set (''::'' @ ?rest)" by (simp_all add: group_end_def join_no_dot)
  have "length (take a segs) \<le> 8" using assms(3) by simp
  from read_joined_groups [OF this ends]
  have head: "read_groups 8 0 (join_segments (take a segs) @ ''::'' @ ?rest) = (map unat (take a segs), False, ''::'' @ ?rest)" .
  have "length (drop (a + n) segs) \<le> 7 - a" "group_end []" "CHR ''.'' \<notin> set ([] :: string)"
    using assms by (simp_all add: group_end_def)
  from read_joined_groups [OF this] have tail: "read_groups (7 - a) 0 ?rest = (map unat (drop (a + n) segs), False, [])" by simp
  have "map unat (take a segs) @ replicate n 0 @ map unat (drop (a + n) segs) = map unat segs"
    using arg_cong [OF assms(1), of "map unat"] by simp
  moreover have "a < 8" "min 8 a = a" "8 - a - (8 - (a + n)) = n" using assms by simp_all
  ultimately show ?thesis unfolding read_v6_def head using tail assms(2,3,4) by simp
qed

lemma read_groups_step:
  "left = Suc l \<Longrightarrow> read_groups left i s =
     (case if 0 < l then read_sep (CHR '':'') i read_v4 s else None of
        Some (os, t) \<Rightarrow> ([os ! 0 * 256 + os ! 1, os ! 2 * 256 + os ! 3], True, t)
      | None \<Rightarrow>
          (case read_sep (CHR '':'') i (read_number 16 65536 4 True) s of
             None \<Rightarrow> ([], False, s)
           | Some (g, t) \<Rightarrow> (case read_groups l (Suc i) t of (gs, v4, u) \<Rightarrow> (g # gs, v4, u))))"
  by simp

lemma read_v6_mapped:
  "read_v6 (''::ffff:'' @ v4_to_string a b c d)
     = Some ([0, 0, 0, 0, 0, 65535, unat a * 256 + unat b, unat c * 256 + unat d], [])"
proof -
  let ?v4 = "v4_to_string a b c d"
  have none: "read_v4 (CHR '':'' # t) = None" "read_v4 (CHR ''f'' # t) = None" for t
    by (simp_all add: read_v4_unfold read_sep_def read_number_def digit_value_def char_code_def)
  have "group_end (''::ffff:'' @ ?v4)" by (simp add: group_end_def)
  from read_group_end [OF this, of 0]
  have head: "read_groups 8 0 (''::ffff:'' @ ?v4) = ([], False, ''::ffff:'' @ ?v4)"
    by (simp add: read_groups_step [of 8 7] read_sep_def none)
  have "read_number 16 65536 4 True (''ffff:'' @ ?v4) = Some (65535, '':'' @ ?v4)"
    by (simp add: read_number_def digit_value_def char_code_def)
  moreover have "read_groups 6 1 ('':'' @ ?v4) = ([unat a * 256 + unat b, unat c * 256 + unat d], True, [])"
    using read_v4_show [of "[]" a b c d] by (simp add: read_groups_step [of 6 5] read_sep_def)
  ultimately have tail: "read_groups 7 0 (''ffff:'' @ ?v4) = ([65535, unat a * 256 + unat b, unat c * 256 + unat d], True, [])"
    by (simp add: read_groups_step [of 7 6] read_sep_def none)
  have "replicate 5 (0 :: nat) = [0, 0, 0, 0, 0]" by code_simp
  then show ?thesis unfolding read_v6_def head using tail by simp
qed

lemma mapped_groups:
  assumes "to_ipv4_mapped v = Some (V4 a b c d)"
  shows "v6_of_groups [0, 0, 0, 0, 0, 65535, unat a * 256 + unat b, unat c * 256 + unat d] = v"
proof -
  have v: "drop_bit 32 v = 0xFFFF" "a = ucast (drop_bit 24 v)" "b = ucast (drop_bit 16 v)" "c = ucast (drop_bit 8 v)" "d = ucast v"
    using assms by (auto simp: to_ipv4_mapped_def split: if_splits)
  define n where "n = unat v"
  have "unat (drop_bit 32 v) = 0xFFFF" by (simp add: v(1))
  then have "n div 2 ^ 32 = 65535" using unsigned_less [of v, where ?'a = nat]
    by (simp add: unsigned_drop_bit_eq n_def) (simp add: drop_bit_eq_div take_bit_eq_mod)
  then have top: "n = 65535 * 2 ^ 32 + n mod 2 ^ 32" using div_mult_mod_eq [of n "2 ^ 32"] by simp
  have octet: "unat (ucast (drop_bit k v) :: u8) = n div 2 ^ k mod 256" for k
    using unsigned_less [of v, where ?'a = nat]
    by (simp add: unsigned_ucast_eq unsigned_drop_bit_eq n_def) (simp add: take_bit_eq_mod drop_bit_eq_div)
  have bytes: "unat a = n div 2 ^ 24 mod 256" "unat b = n div 2 ^ 16 mod 256" "unat c = n div 2 ^ 8 mod 256" "unat d = n mod 256"
    using octet [of 24] octet [of 16] octet [of 8] octet [of 0] by (simp_all add: v(2-5))
  have "(n div 2 ^ 24 mod 256 * 256 + n div 2 ^ 16 mod 256) * 65536 + (n div 2 ^ 8 mod 256 * 256 + n mod 256) = n mod 2 ^ 32"
    using fold_groups [of 256 n 4 0] by (simp add: upt_rec algebra_simps)
  then have "fold (\<lambda>g acc. acc * 65536 + g) [0, 0, 0, 0, 0, 65535, unat a * 256 + unat b, unat c * 256 + unat d] 0 = n"
    unfolding bytes using top by simp
  then show ?thesis unfolding v6_of_groups_def by (simp add: n_def)
qed

lemma parse_printed_v6:
  assumes "read_v6 s = Some (gs, [])" "v6_of_groups gs = v" "read_v4 s = None"
  shows "parse_ip s = Some (V6 v)"
  using assms by (simp add: parse_ip_def)

lemma parse_ip_shown: "parse_ip (ip_to_string ip) = Some ip"
proof (cases ip)
  case (V4 a b c d)
  then show ?thesis using read_v4_show [of "[]" a b c d] by (simp add: parse_ip_def)
next
  case (V6 v)
  show ?thesis
  proof (cases "to_ipv4_mapped v")
    case (Some ip4)
    then obtain a b c d where m: "to_ipv4_mapped v = Some (V4 a b c d)" by (auto simp: to_ipv4_mapped_def split: if_splits)
    have "read_v4 (''::ffff:'' @ v4_to_string a b c d) = None"
      by (simp add: read_v4_unfold read_sep_def read_number_def digit_value_def char_code_def)
    then show ?thesis using parse_printed_v6 [OF read_v6_mapped mapped_groups [OF m]] by (simp add: V6 m)
  next
    case None
    define segs where "segs = v6_segments v"
    obtain a n where run: "longest_zero_run 0 segs = (a, n)" by fastforce
    have len: "length segs = 8" by (simp add: segs_def v6_segments_def)
    have split: "segs = take a segs @ replicate n 0 @ drop (a + n) segs" "a + n \<le> length segs"
      using longest_zero_run_split [OF run] by simp_all
    have groups: "v6_of_groups (map unat segs) = v" by (simp add: segs_def v6_groups_segments)
    show ?thesis
    proof (cases "1 < n")
      case True
      have "CHR ''.'' \<notin> set (join_segments (take a segs) @ ''::'' @ join_segments (drop (a + n) segs))" by (simp add: join_no_dot)
      then show ?thesis
        using parse_printed_v6 [OF join_read_v6 [OF split len True] groups read_v4_needs_dot] True
        by (simp add: V6 None run flip: segs_def)
    next
      case False
      have "read_groups 8 0 (join_segments segs) = (map unat segs, False, [])"
        using read_joined_groups [of segs 8 "[]"] len by (simp add: group_end_def)
      then have "read_v6 (join_segments segs) = Some (map unat segs, [])" using len by (simp add: read_v6_def)
      then show ?thesis
        using parse_printed_v6 [OF _ groups read_v4_needs_dot [OF join_no_dot]] False
        by (simp add: V6 None run flip: segs_def)
    qed
  qed
qed

end
