(* ===== verification/Cache.thy ===== *)
theory Cache
  imports App_State Ip_Text
begin

text \<open>
  The names kept between two runs (\<^verbatim>\<open>src/src/cache.rs\<close>; \<^verbatim>\<open>cache_snapshot\<close> and the start of \<^verbatim>\<open>main\<close> in
  \<^verbatim>\<open>src/src/main.rs\<close>). The printer and parser of JSON (serde_json) are parameters; a file system maps
  paths to contents, and the outcomes of the system calls are arguments.
\<close>

section \<open>What is kept\<close>

definition MAX_ENTRIES :: nat where "MAX_ENTRIES = 20000"

record CacheEntry =
  ce_ptr :: "string option"
  ce_asn :: "string option"
  ce_owner :: "string option"

record Disk =
  dk_dns :: "(string, string) hmap"
  dk_dns_names :: "(string, DnsEntry) hmap"
  dk_whois :: "(string, CacheEntry) hmap"

definition disk_default :: Disk where
  "disk_default = \<lparr>dk_dns = [], dk_dns_names = [], dk_whois = []\<rparr>"

text \<open>Pairs collected into a map: a later one replaces an earlier one with its key.\<close>

definition collect_map :: "('k \<times> 'v) list \<Rightarrow> ('k, 'v) hmap" where
  "collect_map es = fold (\<lambda>e m. hm_put (fst e) (snd e) m) es []"

definition cache_snapshot :: "App \<Rightarrow> Disk" where
  "cache_snapshot g =
     \<lparr>dk_dns = [],
      dk_dns_names = collect_map (map (\<lambda>e. (ip_to_string (fst e), snd e)) (s_dns (a_store g))),
      dk_whois = collect_map (map (\<lambda>e. (ip_to_string (fst e), \<lparr>ce_ptr = w_ptr (snd e), ce_asn = w_asn (snd e), ce_owner = w_owner (snd e)\<rparr>))
        (filter (\<lambda>e. w_ptr (snd e) \<noteq> None \<or> w_asn (snd e) \<noteq> None) (a_whois g)))\<rparr>"

text \<open>Which entries are kept of a map that is too large depends on the order in which it is visited.\<close>

definition slim_disk :: "Disk \<Rightarrow> Disk" where
  "slim_disk d = \<lparr>dk_dns = collect_map (take MAX_ENTRIES (dk_dns d)), dk_dns_names = collect_map (take MAX_ENTRIES (dk_dns_names d)),
                  dk_whois = collect_map (take MAX_ENTRIES (dk_whois d))\<rparr>"

section \<open>Writing\<close>

text \<open>
  The outcome of the calls of one write: whether the temporary file could be created, the lengths it
  had while it was written, whether all bytes were written, synchronised, renamed, and whether a file
  to be removed was removed.
\<close>

record WriteIo =
  wi_open :: bool
  wi_partial :: "nat list"
  wi_written :: bool
  wi_synced :: bool
  wi_renamed :: bool
  wi_removed :: bool

definition tmp_path :: "string \<Rightarrow> nat \<Rightarrow> nat \<Rightarrow> string" where
  "tmp_path path pid seq = path @ ''.'' @ show_nat pid @ ''-'' @ show_nat seq @ ''.tmp''"

text \<open>Whether the write succeeded, and the file system after every step of it.\<close>

definition write_atomic :: "WriteIo \<Rightarrow> string \<Rightarrow> string \<Rightarrow> bytes \<Rightarrow> files \<Rightarrow> bool \<times> files list" where
  "write_atomic io tmp path data fs =
     (let remove = (\<lambda>f. if wi_removed io then f(tmp := None) else f) in
      if fs tmp \<noteq> None \<or> \<not> wi_open io then (False, [remove fs])
      else
        let created = fs(tmp \<mapsto> []);
            partial = map (\<lambda>n. fs(tmp \<mapsto> take n data)) (wi_partial io);
            full = fs(tmp \<mapsto> data);
            stopped = last (created # partial) in
        if \<not> wi_written io then (False, created # partial @ [remove stopped])
        else if wi_synced io \<and> wi_renamed io then (True, created # partial @ [full, full(path \<mapsto> data, tmp := None)])
        else (False, created # partial @ [full, remove full]))"

definition save_to :: "(Disk \<Rightarrow> string option) \<Rightarrow> WriteIo \<Rightarrow> string \<Rightarrow> string \<Rightarrow> Disk \<Rightarrow> files \<Rightarrow> files list" where
  "save_to to_json io tmp path d fs =
     (case to_json (slim_disk d) of
        None \<Rightarrow> [fs]
      | Some s \<Rightarrow> snd (write_atomic io tmp path (bytes_of s) fs))"

section \<open>Reading\<close>

text \<open>A name of the directory is that of a temporary file of the cache \<open>name\<close>.\<close>

definition stale_tmp :: "string \<Rightarrow> string \<Rightarrow> bool" where
  "stale_tmp name n \<longleftrightarrow> from_utf8 (bytes_of n) \<noteq> None \<and> starts_with n (name @ ''.'') \<and> ends_with n ''.tmp''"

text \<open>\<open>removable\<close> says which files the system lets the program remove.\<close>

definition remove_stale_tmp :: "(string \<Rightarrow> bool) \<Rightarrow> string \<Rightarrow> string \<Rightarrow> files \<Rightarrow> files" where
  "remove_stale_tmp removable dir name fs =
     (\<lambda>q. let n = drop (length dir + 1) q in
          if starts_with q (dir @ ''/'') \<and> CHR ''/'' \<notin> set n \<and> stale_tmp name n \<and> removable q then None else fs q)"

definition load_from :: "(string \<Rightarrow> Disk option) \<Rightarrow> (string \<Rightarrow> bool) \<Rightarrow> string \<Rightarrow> string \<Rightarrow> files \<Rightarrow> Disk \<times> files" where
  "load_from from_json removable dir name fs =
     (let fs1 = remove_stale_tmp removable dir name fs in
      (case fs1 (dir @ ''/'' @ name) of
         None \<Rightarrow> disk_default
       | Some b \<Rightarrow>
           (case from_utf8 b of
              None \<Rightarrow> disk_default
            | Some s \<Rightarrow> (case from_json s of None \<Rightarrow> disk_default | Some d \<Rightarrow> d)), fs1))"

text \<open>The start of the program: \<open>clk k\<close> is the time read while the entry of \<open>k\<close> is restored.\<close>

definition restore_names :: "(string \<Rightarrow> u64) \<Rightarrow> (string, DnsEntry) hmap \<Rightarrow> Store \<Rightarrow> Store" where
  "restore_names clk m s =
     fold (\<lambda>e s. case parse_ip (fst e) of None \<Rightarrow> s | Some ip \<Rightarrow> snd (restore_dns (clk (fst e)) ip (snd e) s)) m s"

definition restore_whois :: "(string, CacheEntry) hmap \<Rightarrow> (IpAddr, Whois) hmap \<Rightarrow> (IpAddr, Whois) hmap" where
  "restore_whois m w =
     fold (\<lambda>e w. case parse_ip (fst e) of
                   None \<Rightarrow> w
                 | Some ip \<Rightarrow> hm_put ip \<lparr>w_ptr = ce_ptr (snd e), w_asn = ce_asn (snd e), w_owner = ce_owner (snd e), w_failed = False\<rparr> w)
       m w"

definition restore_cache :: "(string \<Rightarrow> u64) \<Rightarrow> Disk \<Rightarrow> App \<Rightarrow> App" where
  "restore_cache clk d g =
     g\<lparr>a_store := restore_names clk (dk_dns_names d) (a_store g), a_whois := restore_whois (dk_whois d) (a_whois g)\<rparr>"

section \<open>A crash while saving\<close>

lemma tmp_not_path [simp]: "tmp_path path pid seq \<noteq> path" "path \<noteq> tmp_path path pid seq"
  by (simp_all add: tmp_path_def)

lemma write_atomic_states:
  assumes "tmp \<noteq> path" "st \<in> set (snd (write_atomic io tmp path data fs))"
  shows "(st path = fs path \<or> st path = Some data) \<and> (\<forall>q. q \<noteq> path \<longrightarrow> q \<noteq> tmp \<longrightarrow> st q = fs q)"
  using assms by (auto simp: write_atomic_def Let_def last_map split: if_splits)

lemma write_atomic_result:
  assumes "tmp \<noteq> path"
  shows "last (snd (write_atomic io tmp path data fs)) path = (if fst (write_atomic io tmp path data fs) then Some data else fs path)"
  using assms by (auto simp: write_atomic_def Let_def last_map)

definition CACHE_NAME :: string where "CACHE_NAME = ''names.json''"

lemma cache_name_kept: "\<not> stale_tmp CACHE_NAME CACHE_NAME"
  by (simp add: stale_tmp_def starts_with_def CACHE_NAME_def)

lemma drop_dir: "drop (Suc (length dir)) (dir @ x # n) = n"
  by simp

lemma load_of_path:
  "fst (load_from from_json removable dir CACHE_NAME fs) =
     (case fs (dir @ ''/'' @ CACHE_NAME) of
        None \<Rightarrow> disk_default
      | Some b \<Rightarrow> (case from_utf8 b of None \<Rightarrow> disk_default | Some s \<Rightarrow> (case from_json s of None \<Rightarrow> disk_default | Some d \<Rightarrow> d)))"
  using cache_name_kept by (simp add: load_from_def remove_stale_tmp_def Let_def)

lemma ascii_name: "list_all (\<lambda>c. char_code c < 128) n \<Longrightarrow> from_utf8 (bytes_of n) \<noteq> None"
proof -
  assume "list_all (\<lambda>c. char_code c < 128) n"
  then have "\<forall>b \<in> set (bytes_of n). unat b < 128" by (auto simp: list_all_iff bytes_of_def ord_def char_code_def unat_of_nat)
  then show ?thesis using valid_utf8_ascii by (simp add: from_utf8_def)
qed

lemma digits_ascii: "list_all (\<lambda>c. char_code c < 128) (show_nat n)"
  using show_nat_digits [of _ n] by (fastforce simp: list_all_iff is_ascii_digit_def)

lemma tmp_stale: "stale_tmp CACHE_NAME (tmp_path CACHE_NAME pid seq)"
proof -
  have "list_all (\<lambda>c. char_code c < 128) (tmp_path CACHE_NAME pid seq)"
    using digits_ascii by (simp add: tmp_path_def CACHE_NAME_def char_code_def)
  then show ?thesis
    using ascii_name by (simp add: stale_tmp_def starts_with_def ends_with_def tmp_path_def suffix_def)
qed

lemma tmp_no_slash: "CHR ''/'' \<notin> set (tmp_path CACHE_NAME pid seq)"
  using show_nat_digits [of "CHR ''/''" pid] show_nat_digits [of "CHR ''/''" seq]
  by (auto simp: tmp_path_def CACHE_NAME_def is_ascii_digit_def char_code_def)

lemma save_states:
  assumes "tmp \<noteq> path" "st \<in> set (save_to to_json io tmp path d fs)"
  shows "(st path = fs path \<or> (\<exists>s. to_json (slim_disk d) = Some s \<and> st path = Some (bytes_of s)))
     \<and> (\<forall>q. q \<noteq> path \<longrightarrow> q \<noteq> tmp \<longrightarrow> st q = fs q)"
  using assms write_atomic_states [OF assms(1)] by (auto simp: save_to_def split: option.splits)

text \<open>
  C37. A crash never damages the names on disk. At whatever step a save stops, by an error or because
  the program is killed, the next start reads either what was there before or all that the save was to
  write; it removes the temporary file the save left, and no other file has changed.
\<close>

theorem cache_crash_safe:
  fixes dir pid seq
  defines "path \<equiv> dir @ ''/'' @ CACHE_NAME" and "tmp \<equiv> tmp_path (dir @ ''/'' @ CACHE_NAME) pid seq"
  assumes "st \<in> set (save_to to_json io tmp path d fs)"
  shows "(fst (load_from from_json removable dir CACHE_NAME st) = fst (load_from from_json removable dir CACHE_NAME fs)
          \<or> (\<exists>s. to_json (slim_disk d) = Some s
              \<and> fst (load_from from_json removable dir CACHE_NAME st) = fst (load_from from_json removable dir CACHE_NAME (fs(path \<mapsto> bytes_of s)))))
    \<and> (removable tmp \<longrightarrow> snd (load_from from_json removable dir CACHE_NAME st) tmp = None)
    \<and> (\<forall>q. q \<noteq> path \<longrightarrow> q \<noteq> tmp \<longrightarrow> st q = fs q)"
proof -
  have "tmp \<noteq> path" unfolding path_def tmp_def by (rule tmp_not_path)
  from save_states [OF this assms(3)]
  have states: "st path = fs path \<or> (\<exists>s. to_json (slim_disk d) = Some s \<and> st path = Some (bytes_of s))"
      "\<forall>q. q \<noteq> path \<longrightarrow> q \<noteq> tmp \<longrightarrow> st q = fs q" by blast+
  have tmp: "tmp = dir @ ''/'' @ tmp_path CACHE_NAME pid seq" by (simp add: tmp_def tmp_path_def)
  have "removable tmp \<longrightarrow> snd (load_from from_json removable dir CACHE_NAME st) tmp = None"
    unfolding tmp using tmp_stale [of pid seq] tmp_no_slash [of pid seq]
    by (simp add: load_from_def remove_stale_tmp_def Let_def starts_with_def)
  then show ?thesis using states unfolding load_of_path path_def [symmetric] by auto
qed

definition sample_io :: WriteIo where
  "sample_io = \<lparr>wi_open = True, wi_partial = [1], wi_written = True, wi_synced = True, wi_renamed = True, wi_removed = True\<rparr>"

theorem cache_crash_safe_witness:
  "fst (load_from (\<lambda>s. if s = ''{}'' then Some disk_default else None) (\<lambda>_. True) ''/c'' CACHE_NAME
     (Map.empty(tmp_path ''/c/names.json'' 1 0 \<mapsto> bytes_of ''{''))) = disk_default
   \<and> snd (load_from (\<lambda>s. if s = ''{}'' then Some disk_default else None) (\<lambda>_. True) ''/c'' CACHE_NAME
     (Map.empty(tmp_path ''/c/names.json'' 1 0 \<mapsto> bytes_of ''{''))) (tmp_path ''/c/names.json'' 1 0) = None"
proof -
  let ?fs = "Map.empty(tmp_path ''/c/names.json'' 1 0 \<mapsto> bytes_of ''{'')"
  have step: "?fs \<in> set (save_to (\<lambda>_. Some ''{}'') sample_io (tmp_path (''/c'' @ ''/'' @ CACHE_NAME) 1 0) (''/c'' @ ''/'' @ CACHE_NAME)
      disk_default Map.empty)"
    by (simp add: save_to_def write_atomic_def sample_io_def bytes_of_def CACHE_NAME_def)
  have "fst (load_from (\<lambda>s. if s = ''{}'' then Some disk_default else None) (\<lambda>_. True) ''/c'' CACHE_NAME fs) = disk_default" for fs
    by (auto simp: load_of_path split: option.splits)
  then show ?thesis
    using cache_crash_safe [OF step, of "\<lambda>s. if s = ''{}'' then Some disk_default else None" "\<lambda>_. True"]
    by (simp add: CACHE_NAME_def)
qed

section \<open>A restart\<close>

definition known_name :: "Store \<Rightarrow> IpAddr \<Rightarrow> u64 \<Rightarrow> string option" where
  "known_name s ip now = (case hm_get (s_dns s) ip of None \<Rightarrow> None | Some e \<Rightarrow> dns_unique e now)"

lemma collect_distinct: "hm_wf es \<Longrightarrow> collect_map es = es" for es :: "('k, 'v) hmap"
proof -
  have put: "hm_put k v m = m @ [(k, v)]" if "k \<notin> fst ` set m" for k v and m :: "('k \<times> 'v) list"
    using that unfolding hm_put_def by (induction m) auto
  have "hm_wf (acc @ es) \<Longrightarrow> fold (\<lambda>e m. hm_put (fst e) (snd e) m) es acc = acc @ es" for acc :: "('k \<times> 'v) list"
  proof (induction es arbitrary: acc)
    case (Cons e es)
    then have "hm_put (fst e) (snd e) acc = acc @ [e]" using put [of "fst e" acc "snd e"] by (auto simp: hm_wf_def)
    then show ?case using Cons.IH [of "acc @ [e]"] Cons.prems by simp
  qed simp
  from this [of "[]"] show "hm_wf es \<Longrightarrow> collect_map es = es" by (simp add: collect_map_def)
qed

lemma shown_inject [simp]: "ip_to_string a = ip_to_string b \<longleftrightarrow> a = b"
  using parse_ip_shown by (metis option.inject)

lemma printed_wf: "hm_wf m \<Longrightarrow> hm_wf (map (\<lambda>e. (ip_to_string (fst e), f (snd e))) m)"
  by (induction m) (auto simp: hm_wf_def, force)

lemma printed_get: "hm_get (map (\<lambda>e. (ip_to_string (fst e), f (snd e))) m) (ip_to_string ip) = map_option f (hm_get m ip)"
  by (induction m) (auto simp: hm_get_def)

lemma same_wf: "hm_wf m \<Longrightarrow> mset m' = mset m \<Longrightarrow> hm_wf m'"
proof -
  assume wf: "hm_wf m" and perm: "mset m' = mset m"
  have "mset (map fst m') = mset (map fst m)" using perm by (simp only: mset_map)
  then show ?thesis using wf unfolding hm_wf_def by (metis mset_eq_imp_distinct_iff)
qed

lemma same_entries_get: "hm_wf m \<Longrightarrow> mset m' = mset m \<Longrightarrow> hm_get m' k = hm_get m k"
proof -
  assume wf: "hm_wf m" and perm: "mset m' = mset m"
  from same_wf [OF this] show ?thesis using wf mset_eq_setD [OF perm] unfolding hm_wf_def hm_get_def using map_of_inject_set by metis
qed

lemma restore_one:
  assumes "entry_ok e" "t \<le> now" "length (s_dns s) < MAX_NAMES" "hm_get (s_dns s) a = None"
  shows "known_name (snd (restore_dns t a e s)) ip now = (if ip = a then dns_unique e now else known_name s ip now)"
    and "length (s_dns (snd (restore_dns t a e s))) \<le> Suc (length (s_dns s))"
    and "hm_get (s_dns (snd (restore_dns t a e s))) ip \<noteq> None \<Longrightarrow> ip = a \<or> hm_get (s_dns s) ip \<noteq> None"
proof -
  define kept where "kept = filter (\<lambda>n. t < dn_expires n) (de_names e)"
  have names: "filter (\<lambda>n. t < dn_expires n \<and> dn_name n \<noteq> [] \<and> length (dn_name n) \<le> 253) (de_names e) = kept"
    using assms(1) unfolding kept_def entry_ok_def by (intro filter_cong) auto
  have few: "length kept \<le> 8" unfolding kept_def
    by (rule order_trans [OF length_filter_le]) (use assms(1) in \<open>simp add: entry_ok_def\<close>)
  have live: "filter (\<lambda>n. now < dn_expires n) kept = filter (\<lambda>n. now < dn_expires n) (de_names e)"
    using assms(2) unfolding kept_def by (auto intro!: filter_cong)
  have same: "dns_unique \<lparr>de_names = kept, de_overflow_until = de_overflow_until e\<rparr> now = dns_unique e now"
    by (simp add: dns_unique_def live)
  have none: "dns_unique e now = None" if "kept = []" "de_overflow_until e \<le> t"
    using that assms(2) live by (simp add: dns_unique_def)
  have restored: "restore_dns t a e s =
      (if kept = [] \<and> de_overflow_until e \<le> t then (False, s)
       else (True, s\<lparr>s_dns := hm_put a \<lparr>de_names = kept, de_overflow_until = de_overflow_until e\<rparr> (s_dns s)\<rparr>))"
    using few assms(3) by (simp add: restore_dns_def names Let_def)
  show "known_name (snd (restore_dns t a e s)) ip now = (if ip = a then dns_unique e now else known_name s ip now)"
    using none same assms(4) by (simp add: restored known_name_def hm_get_put)
  show "length (s_dns (snd (restore_dns t a e s))) \<le> Suc (length (s_dns s))"
    by (simp add: restored length_hm_put)
  show "hm_get (s_dns (snd (restore_dns t a e s))) ip \<noteq> None \<Longrightarrow> ip = a \<or> hm_get (s_dns s) ip \<noteq> None"
    by (auto simp: restored hm_get_put split: if_splits)
qed

lemma restore_names_known:
  "hm_wf L \<Longrightarrow> \<forall>e \<in> set L. entry_ok (snd e) \<and> (\<exists>ip. fst e = ip_to_string ip) \<Longrightarrow> \<forall>k. clk k \<le> now \<Longrightarrow>
   length (s_dns s) + length L \<le> MAX_NAMES \<Longrightarrow> \<forall>ip. hm_has L (ip_to_string ip) \<longrightarrow> hm_get (s_dns s) ip = None \<Longrightarrow>
     known_name (restore_names clk L s) ip now = (case hm_get L (ip_to_string ip) of None \<Rightarrow> known_name s ip now | Some e \<Rightarrow> dns_unique e now)"
proof (induction L arbitrary: s)
  case (Cons x L)
  obtain k e where x: "x = (k, e)" by fastforce
  then obtain a where a: "k = ip_to_string a" "entry_ok e" using Cons.prems(2) by auto
  have fresh: "hm_get (s_dns s) a = None" using Cons.prems(5) by (simp add: x a hm_has_def)
  have room: "length (s_dns s) < MAX_NAMES" using Cons.prems(4) by simp
  have clk: "clk (ip_to_string a) \<le> now" using Cons.prems(3) by blast
  define s' where "s' = snd (restore_dns (clk (ip_to_string a)) a e s)"
  note one = restore_one [OF a(2) clk room fresh, folded s'_def]
  have out: "\<not> hm_has L (ip_to_string a)" using Cons.prems(1) by (auto simp: hm_wf_def hm_has_def x a)
  have "known_name (restore_names clk L s') ip now = (case hm_get L (ip_to_string ip) of None \<Rightarrow> known_name s' ip now | Some e \<Rightarrow> dns_unique e now)"
  proof (rule Cons.IH)
    show "hm_wf L" using Cons.prems(1) by (simp add: hm_wf_def)
    show "\<forall>e \<in> set L. entry_ok (snd e) \<and> (\<exists>ip. fst e = ip_to_string ip)" using Cons.prems(2) by simp
    show "\<forall>k. clk k \<le> now" by (rule Cons.prems(3))
    show "length (s_dns s') + length L \<le> MAX_NAMES" using one(2) Cons.prems(4) by simp
    show "\<forall>ip. hm_has L (ip_to_string ip) \<longrightarrow> hm_get (s_dns s') ip = None"
    proof (intro allI impI)
      fix ip assume has: "hm_has L (ip_to_string ip)"
      then have "ip \<noteq> a" using out by auto
      moreover have "hm_get (s_dns s) ip = None" using Cons.prems(5) has by (simp add: hm_has_def x)
      ultimately show "hm_get (s_dns s') ip = None" using one(3) [of ip] by blast
    qed
  qed
  moreover have "restore_names clk (x # L) s = restore_names clk L s'"
    by (simp add: restore_names_def x a parse_ip_shown s'_def)
  moreover have "hm_get (x # L) (ip_to_string ip) = (if ip = a then Some e else hm_get L (ip_to_string ip))"
    by (simp add: hm_get_def x a)
  moreover have "hm_get L (ip_to_string a) = None" using out by (simp add: hm_get_None)
  ultimately show ?case using one(1) [of ip] by (cases "ip = a") (simp_all split: option.split)
qed (simp add: restore_names_def)

lemma restore_whois_get:
  "hm_wf L \<Longrightarrow> \<forall>e \<in> set L. \<exists>ip. fst e = ip_to_string ip \<Longrightarrow>
     hm_get (restore_whois L w) ip =
       (case hm_get L (ip_to_string ip) of
          None \<Rightarrow> hm_get w ip
        | Some e \<Rightarrow> Some \<lparr>w_ptr = ce_ptr e, w_asn = ce_asn e, w_owner = ce_owner e, w_failed = False\<rparr>)"
proof (induction L arbitrary: w)
  case (Cons x L)
  obtain k e where x: "x = (k, e)" by fastforce
  then obtain a where a: "k = ip_to_string a" using Cons.prems(2) by auto
  have "hm_get L (ip_to_string a) = None" using Cons.prems(1) by (auto simp: hm_wf_def hm_has_def x a hm_get_None)
  moreover have "hm_wf L" "\<forall>e \<in> set L. \<exists>ip. fst e = ip_to_string ip" using Cons.prems by (simp_all add: hm_wf_def)
  moreover have "hm_get (x # L) (ip_to_string ip) = (if ip = a then Some e else hm_get L (ip_to_string ip))"
    by (simp add: hm_get_def x a)
  ultimately show ?case
    using Cons.IH by (auto simp: restore_whois_def x a parse_ip_shown hm_get_put split: option.split)
qed (simp add: restore_whois_def)

lemma snapshot_slim:
  assumes "dns_ok (s_dns (a_store g))" "hm_wf (a_whois g)" "length (a_whois g) \<le> MAX_ENTRIES"
  shows "slim_disk (cache_snapshot g) =
    \<lparr>dk_dns = [], dk_dns_names = map (\<lambda>e. (ip_to_string (fst e), snd e)) (s_dns (a_store g)),
     dk_whois = map (\<lambda>e. (ip_to_string (fst e), \<lparr>ce_ptr = w_ptr (snd e), ce_asn = w_asn (snd e), ce_owner = w_owner (snd e)\<rparr>))
        (filter (\<lambda>e. w_ptr (snd e) \<noteq> None \<or> w_asn (snd e) \<noteq> None) (a_whois g))\<rparr>"
proof -
  let ?names = "map (\<lambda>e. (ip_to_string (fst e), snd e)) (s_dns (a_store g))"
  let ?kept = "filter (\<lambda>e. w_ptr (snd e) \<noteq> None \<or> w_asn (snd e) \<noteq> None) (a_whois g)"
  let ?whois = "map (\<lambda>e. (ip_to_string (fst e), \<lparr>ce_ptr = w_ptr (snd e), ce_asn = w_asn (snd e), ce_owner = w_owner (snd e)\<rparr>)) ?kept"
  have wf: "hm_wf ?names" "hm_wf ?whois"
    using assms(1) printed_wf [of "s_dns (a_store g)" "\<lambda>v. v"] printed_wf [OF hm_wf_filter [OF assms(2)]] by (simp_all add: dns_ok_def)
  have "length ?kept \<le> MAX_ENTRIES" by (rule order_trans [OF length_filter_le assms(3)])
  moreover have "length ?names \<le> MAX_ENTRIES" using assms(1) by (simp add: dns_ok_def MAX_NAMES_def MAX_ENTRIES_def)
  ultimately show ?thesis
    using collect_distinct [OF wf(1)] collect_distinct [OF wf(2)] by (simp add: slim_disk_def cache_snapshot_def collect_map_def)
qed

lemma saved_last:
  assumes "to_json (slim_disk d) = Some s" "fst (write_atomic io (tmp_path path pid seq) path (bytes_of s) fs)"
  shows "last (save_to to_json io (tmp_path path pid seq) path d fs) path = Some (bytes_of s)"
  using assms write_atomic_result [of "tmp_path path pid seq" path io "bytes_of s" fs] by (simp add: save_to_def)

text \<open>
  C38. A restart forgets no name. When the names of a running program have been saved, the next start
  reads them back: every address has the same DNS name as before at any later time, and every lookup
  that gave a name or a number is known again. The only hypotheses are that the JSON of the snapshot is
  text and is parsed to a map with the same entries in some order, and that the write succeeded.
\<close>

theorem restart_keeps_names:
  fixes dir pid seq
  defines "path \<equiv> dir @ ''/'' @ CACHE_NAME"
  assumes "reachable (a_store g)" "hm_wf (a_whois g)" "length (a_whois g) \<le> MAX_ENTRIES"
    and json: "to_json (slim_disk (cache_snapshot g)) = Some s" "from_utf8 (bytes_of s) = Some s" "from_json s = Some d"
      "mset (dk_dns_names d) = mset (dk_dns_names (slim_disk (cache_snapshot g)))"
      "mset (dk_whois d) = mset (dk_whois (slim_disk (cache_snapshot g)))"
    and written: "fst (write_atomic io (tmp_path path pid seq) path (bytes_of s) fs)"
    and fresh: "s_dns (a_store g0) = []" "a_whois g0 = []" and clk: "\<forall>k. clk k \<le> now"
  shows "let disk = fst (load_from from_json removable dir CACHE_NAME (last (save_to to_json io (tmp_path path pid seq) path (cache_snapshot g) fs)));
             g' = restore_cache clk disk g0 in
    known_name (a_store g') ip now = known_name (a_store g) ip now
    \<and> hm_get (a_whois g') ip =
        (case hm_get (a_whois g) ip of
           Some w \<Rightarrow> if w_ptr w \<noteq> None \<or> w_asn w \<noteq> None then Some (w\<lparr>w_failed := False\<rparr>) else None
         | None \<Rightarrow> None)"
proof -
  have ok: "dns_ok (s_dns (a_store g))" by (rule reachable_dns_ok [OF assms(2)])
  note slim = snapshot_slim [OF ok assms(3,4)]
  let ?names = "map (\<lambda>e. (ip_to_string (fst e), snd e)) (s_dns (a_store g))"
  let ?kept = "filter (\<lambda>e. w_ptr (snd e) \<noteq> None \<or> w_asn (snd e) \<noteq> None) (a_whois g)"
  let ?f = "\<lambda>w. \<lparr>ce_ptr = w_ptr w, ce_asn = w_asn w, ce_owner = w_owner w\<rparr>"
  let ?whois = "map (\<lambda>e. (ip_to_string (fst e), ?f (snd e))) ?kept"
  have perm: "mset (dk_dns_names d) = mset ?names" "mset (dk_whois d) = mset ?whois" using json(4,5) unfolding slim by simp_all
  have wf: "hm_wf ?names" "hm_wf ?whois"
    using ok printed_wf [of "s_dns (a_store g)" "\<lambda>v. v"] printed_wf [OF hm_wf_filter [OF assms(3)], of ?f] by (simp_all add: dns_ok_def)
  have wf_d: "hm_wf (dk_dns_names d)" "hm_wf (dk_whois d)" using same_wf wf perm by blast+
  have sets: "set (dk_dns_names d) = set ?names" "set (dk_whois d) = set ?whois" using perm mset_eq_setD by blast+
  have disk: "fst (load_from from_json removable dir CACHE_NAME (last (save_to to_json io (tmp_path path pid seq) path (cache_snapshot g) fs))) = d"
    using saved_last [of to_json "cache_snapshot g" s io path pid seq fs] json(1) written json(2,3) unfolding load_of_path path_def by simp
  have "length (dk_dns_names d) = length ?names" using perm(1) by (rule mset_eq_length)
  then have "length (s_dns (a_store g0)) + length (dk_dns_names d) \<le> MAX_NAMES" using fresh ok by (simp add: dns_ok_def)
  then have names: "known_name (restore_names clk (dk_dns_names d) (a_store g0)) ip now =
      (case hm_get (dk_dns_names d) (ip_to_string ip) of None \<Rightarrow> known_name (a_store g0) ip now | Some e \<Rightarrow> dns_unique e now)"
    using ok clk fresh sets(1) by (intro restore_names_known [OF wf_d(1)]) (auto simp: dns_ok_def)
  have whois: "hm_get (restore_whois (dk_whois d) (a_whois g0)) ip =
      (case hm_get (dk_whois d) (ip_to_string ip) of None \<Rightarrow> hm_get (a_whois g0) ip
       | Some e \<Rightarrow> Some \<lparr>w_ptr = ce_ptr e, w_asn = ce_asn e, w_owner = ce_owner e, w_failed = False\<rparr>)"
    using sets(2) by (intro restore_whois_get [OF wf_d(2)]) auto
  have get: "hm_get (dk_dns_names d) (ip_to_string ip) = hm_get (s_dns (a_store g)) ip"
    "hm_get (dk_whois d) (ip_to_string ip) = map_option ?f (hm_get ?kept ip)"
    using same_entries_get [OF wf(1) perm(1)] same_entries_get [OF wf(2) perm(2)] printed_get [of "\<lambda>v. v"] printed_get [of ?f]
    by (simp_all add: option.map_ident)
  have kept: "hm_get ?kept ip = (case hm_get (a_whois g) ip of None \<Rightarrow> None | Some w \<Rightarrow> if w_ptr w \<noteq> None \<or> w_asn w \<noteq> None then Some w else None)"
    using hm_get_retain [OF assms(3), of "\<lambda>_ w. w_ptr w \<noteq> None \<or> w_asn w \<noteq> None" ip] by (simp add: hm_retain_def)
  show ?thesis
    unfolding Let_def disk restore_cache_def
    using names whois fresh unfolding get kept by (auto simp: known_name_def split: option.split)
qed

definition sample_named :: App where
  "sample_named = (app_new 0 1 ''any'' 8787)\<lparr>a_store := remember_name_for 0 (V4 192 0 2 1) ''a.example'' 60 (store_default 0)\<rparr>"

lemma sample_named_known: "known_name (a_store sample_named) (V4 192 0 2 1) 1 = Some ''a.example''"
  by (simp add: sample_named_def known_name_def remember_name_for_def remember_entry_def store_default_def dns_entry_default_def Let_def
      hm_get_put hm_entry_def trim_end_def to_ascii_lowercase_def ascii_lower_char_def is_ascii_upper_def char_code_def char_of_def
      sat_add64_def dns_unique_def MAX_NAMES_def hm_has_def app_new_def)

theorem restart_keeps_names_witness:
  "known_name (a_store (restore_cache (\<lambda>_. 0)
       (fst (load_from (\<lambda>_. Some (slim_disk (cache_snapshot sample_named))) (\<lambda>_. True) ''/c'' CACHE_NAME
          (last (save_to (\<lambda>_. Some ''{}'') sample_io (tmp_path (''/c'' @ ''/'' @ CACHE_NAME) 1 0) (''/c'' @ ''/'' @ CACHE_NAME)
             (cache_snapshot sample_named) Map.empty))))
       (app_new 0 2 ''any'' 8787))) (V4 192 0 2 1) 1 = Some ''a.example''"
proof -
  have store: "reachable (a_store sample_named)"
    unfolding sample_named_def using reachable.step [OF reachable.start store_step.named] by simp
  have whois: "hm_wf (a_whois sample_named)" "length (a_whois sample_named) \<le> MAX_ENTRIES"
    by (simp_all add: sample_named_def app_new_def)
  have text_ok: "from_utf8 (bytes_of ''{}'') = Some ''{}''" by code_simp
  have written: "fst (write_atomic sample_io (tmp_path (''/c'' @ ''/'' @ CACHE_NAME) 1 0) (''/c'' @ ''/'' @ CACHE_NAME) (bytes_of ''{}'') Map.empty)"
    by (simp add: write_atomic_def sample_io_def)
  have fresh: "s_dns (a_store (app_new 0 2 ''any'' 8787)) = []" "a_whois (app_new 0 2 ''any'' 8787) = []"
    by (simp_all add: app_new_def store_default_def)
  show ?thesis
    using restart_keeps_names [OF store whois _ text_ok _ _ _ written fresh, of "\<lambda>_. Some ''{}''"
        "\<lambda>_. Some (slim_disk (cache_snapshot sample_named))" "slim_disk (cache_snapshot sample_named)" "\<lambda>_. 0" 1 "\<lambda>_. True" "V4 192 0 2 1"]
      sample_named_known by (simp add: Let_def)
qed

end

