(* ===== verification/Lifecycle.thy ===== *)
theory Lifecycle
  imports Recording
begin

text \<open>
  How the program starts and ends: its arguments, its port and its directories (\<^verbatim>\<open>parse_args\<close>,
  \<^verbatim>\<open>is_ours\<close>, \<^verbatim>\<open>bind_port\<close> of \<^verbatim>\<open>src/src/main.rs\<close>, \<^verbatim>\<open>src/src/paths.rs\<close>, \<^verbatim>\<open>src/src/i18n.rs\<close>), the window
  (\<^verbatim>\<open>src/src/window.rs\<close>) and how its closing is noticed (\<^verbatim>\<open>src/src/alive.rs\<close>). What the system answers, files,
  processes, sockets and environment variables, is an argument.
\<close>

section \<open>Language\<close>

text \<open>\<^verbatim>\<open>i18n::set\<close>: whether the code is known, and the language; \<^verbatim>\<open>True\<close> is Russian.\<close>

definition lang_set :: "string \<Rightarrow> bool \<Rightarrow> bool \<times> bool" where
  "lang_set code ru = (if code = ''en'' then (True, False) else if code = ''ru'' then (True, True) else (False, ru))"

definition lang_code :: "bool \<Rightarrow> string" where
  "lang_code ru = (if ru then ''ru'' else ''en'')"

text \<open>\<open>saved\<close> is the text of the file \<^verbatim>\<open>lang\<close>, if it can be read.\<close>

definition lang_load :: "string option \<Rightarrow> bool \<Rightarrow> bool" where
  "lang_load saved ru = (case saved of None \<Rightarrow> ru | Some s \<Rightarrow> snd (lang_set (trim s) ru))"

section \<open>Arguments\<close>

record Args =
  ar_iface :: string
  ar_port :: u16
  ar_open :: bool
  ar_wait_pid :: "u32 option"
  ar_adopt :: bool

definition args_default :: Args where
  "args_default = \<lparr>ar_iface = ''any'', ar_port = 8787, ar_open = True, ar_wait_pid = None, ar_adopt = False\<rparr>"

definition parse_u32 :: "string \<Rightarrow> u32 option" where
  "parse_u32 s = map_option word_of_nat (parse_unsigned 10 (2 ^ 32) s)"

text \<open>\<^verbatim>\<open>None\<close>: the help was asked for, the program prints it and ends.\<close>

fun args_loop :: "string list \<Rightarrow> Args \<Rightarrow> Args option" where
  "args_loop [] a = Some a"
| "args_loop (x # rest) a =
     (if x = ''-h'' \<or> x = ''--help'' then None
      else if x = ''-i'' \<or> x = ''--iface'' then
        (case rest of [] \<Rightarrow> Some a | v # rest' \<Rightarrow> args_loop rest' (a\<lparr>ar_iface := v\<rparr>))
      else if x = ''--port'' then
        (case rest of
           [] \<Rightarrow> Some a
         | v # rest' \<Rightarrow> (case parse_u16 v of Some p \<Rightarrow> args_loop rest' (a\<lparr>ar_port := p\<rparr>) | None \<Rightarrow> args_loop (v # rest') a))
      else if x = ''--no-open'' then args_loop rest (a\<lparr>ar_open := False\<rparr>)
      else if x = ''--wait-pid'' then
        (case rest of
           [] \<Rightarrow> Some (a\<lparr>ar_wait_pid := None\<rparr>)
         | v # rest' \<Rightarrow> args_loop rest' (a\<lparr>ar_wait_pid := parse_u32 v\<rparr>))
      else if x = ''--adopt'' then args_loop rest (a\<lparr>ar_adopt := True\<rparr>)
      else if x = ''--lang'' then (case rest of [] \<Rightarrow> Some a | _ # rest' \<Rightarrow> args_loop rest' a)
      else args_loop rest a)"

text \<open>The language is that of the first \<^verbatim>\<open>--lang\<close> wherever it stands.\<close>

fun lang_arg :: "string list \<Rightarrow> string option" where
  "lang_arg [] = None"
| "lang_arg (x # rest) = (if x = ''--lang'' then (case rest of [] \<Rightarrow> None | v # _ \<Rightarrow> Some v) else lang_arg rest)"

definition parse_args :: "string option \<Rightarrow> string list \<Rightarrow> Args option \<times> bool" where
  "parse_args saved argv =
     (let ru = lang_load saved False in
      (args_loop argv args_default, case lang_arg argv of None \<Rightarrow> ru | Some v \<Rightarrow> snd (lang_set v ru)))"

text \<open>\<^verbatim>\<open>win_startup::cli_requested\<close>\<close>

definition cli_requested :: "string list \<Rightarrow> bool" where
  "cli_requested argv \<longleftrightarrow>
     ''--help'' \<in> set argv \<or> ''-h'' \<in> set argv \<or> (''--no-open'' \<in> set argv \<and> ''--adopt'' \<notin> set argv)"

text \<open>The command line of the instance that \<^verbatim>\<open>api_elevate\<close> starts with administrator rights.\<close>

definition elevate_args :: "bool \<Rightarrow> nat \<Rightarrow> u16 \<Rightarrow> string \<Rightarrow> string" where
  "elevate_args ru me port iface =
     ''--port '' @ show_nat (unat port) @ '' --no-open --adopt --lang '' @ lang_code ru @ '' --wait-pid '' @ show_nat me
     @ (if iface \<noteq> ''any'' then '' -i '' @ [CHR 0x22] @ iface @ [CHR 0x22] else [])"

section \<open>The port\<close>

text \<open>\<open>answer\<close> is what the port sent within 800 ms until it closed the connection, if it did.\<close>

definition is_ours :: "bytes option \<Rightarrow> bool" where
  "is_ours answer = (case answer of None \<Rightarrow> False | Some b \<Rightarrow> contains_str (from_utf8_lossy b) ''sockettrail'')"

datatype BindResult = Bound "u16 option" | InUse "bytes option" | BindError

datatype BindOutcome = Listening u16 | AlreadyRunning u16 | BindFailed u16 | NoFreePort

fun bind_loop :: "(u16 \<Rightarrow> BindResult) \<Rightarrow> u16 list \<Rightarrow> BindOutcome" where
  "bind_loop try_bind [] = NoFreePort"
| "bind_loop try_bind (port # ports) =
     (case try_bind port of
        Bound local \<Rightarrow> Listening (case local of None \<Rightarrow> port | Some p \<Rightarrow> p)
      | InUse answer \<Rightarrow> if is_ours answer then AlreadyRunning port else bind_loop try_bind ports
      | BindError \<Rightarrow> BindFailed port)"

definition bind_port :: "(u16 \<Rightarrow> BindResult) \<Rightarrow> u16 \<Rightarrow> BindOutcome" where
  "bind_port try_bind pref =
     (let last_port = min (unat pref + 19) 65535 in bind_loop try_bind (map word_of_nat [unat pref..<Suc last_port]))"

section \<open>Directories\<close>

text \<open>\<^verbatim>\<open>Path::join\<close> with the separator \<open>sep\<close>, for a second part that is relative or begins at the root.\<close>

definition path_join :: "char \<Rightarrow> string \<Rightarrow> string \<Rightarrow> string" where
  "path_join sep p q =
     (if q \<noteq> [] \<and> hd q = sep then q else if p = [] \<or> last p = sep then p @ q else p @ [sep] @ q)"

definition SLASH :: char where "SLASH = CHR ''/''"
definition BACKSLASH :: char where "BACKSLASH = CHR 0x5C"

text \<open>\<open>env\<close> is the value of a variable; \<^verbatim>\<open>env::var\<close> reads only one that is UTF-8.\<close>

definition home :: "bool \<Rightarrow> (string \<Rightarrow> string option) \<Rightarrow> string option" where
  "home windows env =
     (case env (if windows then ''USERPROFILE'' else ''HOME'') of None \<Rightarrow> None | Some s \<Rightarrow> if s = [] then None else Some s)"

definition cache_dir_unix :: "(string \<Rightarrow> string option) \<Rightarrow> string \<Rightarrow> string" where
  "cache_dir_unix env temp =
     (let xdg = (case env ''XDG_CACHE_HOME'' of
                   None \<Rightarrow> None
                 | Some s \<Rightarrow> if from_utf8 (bytes_of s) = None \<or> s = [] \<or> contains_str s ''/snap/'' then None else Some s);
          base = (case xdg of
                    Some s \<Rightarrow> s
                  | None \<Rightarrow> (case home False env of None \<Rightarrow> temp | Some h \<Rightarrow> path_join SLASH h ''.cache'')) in
      path_join SLASH base ''sockettrail'')"

definition cache_dir_win :: "(string \<Rightarrow> string option) \<Rightarrow> string \<Rightarrow> string" where
  "cache_dir_win env temp = path_join BACKSLASH (case env ''LOCALAPPDATA'' of None \<Rightarrow> temp | Some s \<Rightarrow> s) ''SocketTrail''"

definition dumps_dir :: "bool \<Rightarrow> (string \<Rightarrow> string option) \<Rightarrow> string \<Rightarrow> string" where
  "dumps_dir windows env temp =
     path_join (if windows then BACKSLASH else SLASH) (case home windows env of None \<Rightarrow> temp | Some h \<Rightarrow> h) ''SocketTrail''"

section \<open>The window\<close>

definition UI_PATH :: string where "UI_PATH = ''/sockettrail''"

definition CANDIDATES_UNIX :: "string list" where
  "CANDIDATES_UNIX = [''google-chrome'', ''google-chrome-stable'', ''chromium'', ''chromium-browser'', ''microsoft-edge'',
     ''microsoft-edge-stable'', ''brave-browser'', ''vivaldi'']"

definition CANDIDATES_WIN :: "string list" where
  "CANDIDATES_WIN = [''msedge.exe'', ''chrome.exe'', ''brave.exe'']"

text \<open>\<^verbatim>\<open>env::split_paths\<close>: at colons; on Windows at semicolons outside quotes, which are dropped.\<close>

fun split_paths_win :: "bool \<Rightarrow> string \<Rightarrow> string \<Rightarrow> string list" where
  "split_paths_win quoted acc [] = [acc]"
| "split_paths_win quoted acc (c # s) =
     (if c = CHR 0x22 then split_paths_win (\<not> quoted) acc s
      else if c = CHR '';'' \<and> \<not> quoted then acc # split_paths_win quoted [] s
      else split_paths_win quoted (acc @ [c]) s)"

definition split_paths :: "bool \<Rightarrow> string \<Rightarrow> string list" where
  "split_paths windows s = (if windows then split_paths_win False [] s else split_on (\<lambda>c. c = CHR '':'') s)"

definition path_sep :: "bool \<Rightarrow> char" where
  "path_sep windows = (if windows then BACKSLASH else SLASH)"

definition find_in_path :: "bool \<Rightarrow> (string \<Rightarrow> string option) \<Rightarrow> (string \<Rightarrow> bool) \<Rightarrow> string \<Rightarrow> string option" where
  "find_in_path windows env is_file name =
     (case env ''PATH'' of
        None \<Rightarrow> None
      | Some path \<Rightarrow> List.find is_file (map (\<lambda>d. path_join (path_sep windows) d name) (split_paths windows path)))"

fun find_map :: "('a \<Rightarrow> 'b option) \<Rightarrow> 'a list \<Rightarrow> 'b option" where
  "find_map f [] = None"
| "find_map f (x # xs) = (case f x of Some y \<Rightarrow> Some y | None \<Rightarrow> find_map f xs)"

definition find_browser_unix :: "(string \<Rightarrow> string option) \<Rightarrow> (string \<Rightarrow> bool) \<Rightarrow> string option" where
  "find_browser_unix env is_file = find_map (find_in_path False env is_file) CANDIDATES_UNIX"

definition browser_places :: "(string \<Rightarrow> string option) \<Rightarrow> string list" where
  "browser_places env =
     (let roots = concat (map (\<lambda>v. case env v of None \<Rightarrow> [] | Some r \<Rightarrow> [r]) [''ProgramFiles(x86)'', ''ProgramFiles'', ''LOCALAPPDATA'']);
          b = [BACKSLASH];
          rel = [''Microsoft'' @ b @ ''Edge'' @ b @ ''Application'' @ b @ ''msedge.exe'',
                 ''Google'' @ b @ ''Chrome'' @ b @ ''Application'' @ b @ ''chrome.exe''] in
      concat (map (\<lambda>r. map (\<lambda>root. path_join BACKSLASH root r) roots) rel))"

definition find_browser_win :: "(string \<Rightarrow> string option) \<Rightarrow> (string \<Rightarrow> bool) \<Rightarrow> string option" where
  "find_browser_win env is_file =
     (case List.find is_file (browser_places env) of
        Some p \<Rightarrow> Some p
      | None \<Rightarrow> find_map (find_in_path True env is_file) CANDIDATES_WIN)"

text \<open>The profile of a browser on Unix; \<open>resolved\<close> is its canonical path, if there is one.\<close>

definition in_snap :: "string \<Rightarrow> bool" where
  "in_snap p \<longleftrightarrow> p = ''/snap'' \<or> starts_with p ''/snap/''"

definition file_name :: "string \<Rightarrow> string" where
  "file_name p = last (split_on (\<lambda>c. c = SLASH) p)"

definition profile_dir :: "(string \<Rightarrow> string option) \<Rightarrow> string \<Rightarrow> string option \<Rightarrow> string \<Rightarrow> string" where
  "profile_dir env temp resolved browser =
     (case env ''HOME'' of
        Some home' \<Rightarrow>
          if in_snap browser \<or> in_snap (case resolved of None \<Rightarrow> browser | Some r \<Rightarrow> r)
          then path_join SLASH (path_join SLASH (path_join SLASH home' ''snap'') (file_name browser)) ''common/sockettrail-ui''
          else path_join SLASH (cache_dir_unix env temp) ''ui-profile''
      | None \<Rightarrow> path_join SLASH (cache_dir_unix env temp) ''ui-profile'')"

definition window_url :: "string \<Rightarrow> string" where
  "window_url base = trim_end (\<lambda>c. c = SLASH) base @ UI_PATH"

text \<open>
  Opening the window: \<open>spawned\<close> is \<^verbatim>\<open>None\<close> when there is no browser, otherwise whether it started and
  what \<^verbatim>\<open>try_wait\<close> answered in the first 1500 ms; \<open>default_ok\<close> whether the system opened the address.
\<close>

datatype ChildPoll = StillRunning | ChildExited | PollError

datatype Opened = OpenedWindow | Detached | OpenFailed

definition window_open :: "ChildPoll list option option \<Rightarrow> bool \<Rightarrow> Opened" where
  "window_open spawned default_ok =
     (case spawned of
        Some (Some polls) \<Rightarrow> if list_all (\<lambda>p. p = StillRunning) polls then OpenedWindow else Detached
      | _ \<Rightarrow> if default_ok then Detached else OpenFailed)"

text \<open>
  \<^verbatim>\<open>Watch::wait\<close> on Linux, one round for each observation: whether the browser of the profile is
  there, whether more than 15 seconds have passed, whether a page has connected. \<^verbatim>\<open>None\<close>: still waiting.
\<close>

fun watch_wait :: "bool \<Rightarrow> (bool \<times> bool \<times> bool) list \<Rightarrow> bool option" where
  "watch_wait seen [] = None"
| "watch_wait seen ((there, late, page) # os) =
     (if there then watch_wait True os
      else if seen then Some True
      else if late then Some (\<not> page)
      else watch_wait seen os)"

definition rsplit_dash :: "string \<Rightarrow> string option" where
  "rsplit_dash s = (if CHR ''-'' \<in> set s then Some (rev (takeWhile (\<lambda>c. c \<noteq> CHR ''-'') (rev s))) else None)"

text \<open>\<open>lock\<close> is where the link \<^verbatim>\<open>SingletonLock\<close> of the profile points, \<open>cmdline\<close> a process's command line.\<close>

definition profile_browser_alive :: "bytes option \<Rightarrow> (u32 \<Rightarrow> bytes option) \<Rightarrow> bytes \<Rightarrow> bool" where
  "profile_browser_alive lock cmdline profile =
     (case lock of
        None \<Rightarrow> False
      | Some l \<Rightarrow>
          (case from_utf8 l of
             None \<Rightarrow> False
           | Some s \<Rightarrow>
               (case Option.bind (rsplit_dash s) parse_u32 of
                  None \<Rightarrow> False
                | Some pid \<Rightarrow> (case cmdline pid of None \<Rightarrow> False | Some c \<Rightarrow> sublist profile c))))"

section \<open>The open pages\<close>

record Alive =
  al_clients :: u64
  al_seen :: bool
  al_closing :: bool

definition alive_default :: Alive where
  "alive_default = \<lparr>al_clients = 0, al_seen = False, al_closing = False\<rparr>"

definition alive_connect :: "Alive \<Rightarrow> Alive" where
  "alive_connect a = a\<lparr>al_clients := al_clients a + 1, al_seen := True\<rparr>"

definition alive_drop :: "Alive \<Rightarrow> Alive" where
  "alive_drop a = a\<lparr>al_clients := al_clients a - 1\<rparr>"

definition alive_close :: "Alive \<Rightarrow> Alive" where
  "alive_close a = a\<lparr>al_closing := True\<rparr>"

text \<open>The next ping of a stream; \<^verbatim>\<open>None\<close> ends it.\<close>

definition alive_ping :: "Alive \<Rightarrow> string option" where
  "alive_ping a = (if al_closing a then None else Some [])"

text \<open>
  \<^verbatim>\<open>wait_closed\<close> among the pages that connect and leave: one second of it counts up or starts again,
  \<^verbatim>\<open>None\<close> when it returns.
\<close>

definition wait_second :: "nat \<Rightarrow> Alive \<Rightarrow> nat \<Rightarrow> nat option" where
  "wait_second grace a idle =
     (if al_seen a \<and> al_clients a = 0 then (if grace \<le> idle + 1 then None else Some (idle + 1)) else Some 0)"

datatype PageEvent = Connect | Leave | Second

fun wait_closed :: "nat \<Rightarrow> PageEvent list \<Rightarrow> Alive \<Rightarrow> nat \<Rightarrow> (Alive \<times> nat) option" where
  "wait_closed grace [] a idle = Some (a, idle)"
| "wait_closed grace (e # es) a idle =
     (case e of
        Connect \<Rightarrow> wait_closed grace es (alive_connect a) idle
      | Leave \<Rightarrow> wait_closed grace es (alive_drop a) idle
      | Second \<Rightarrow> (case wait_second grace a idle of None \<Rightarrow> None | Some i \<Rightarrow> wait_closed grace es a i))"

section \<open>When the program quits\<close>

text \<open>What each second sees: whether there has been a page and none is open.\<close>

fun idle_seconds :: "PageEvent list \<Rightarrow> nat \<Rightarrow> bool \<Rightarrow> bool list" where
  "idle_seconds [] n seen = []"
| "idle_seconds (e # es) n seen =
     (case e of
        Connect \<Rightarrow> idle_seconds es (Suc n) True
      | Leave \<Rightarrow> idle_seconds es (n - 1) seen
      | Second \<Rightarrow> (seen \<and> n = 0) # idle_seconds es n seen)"

text \<open>A page leaves once for each time it connected, and fewer than 2 ^ 64 are open.\<close>

fun pages_ok :: "PageEvent list \<Rightarrow> nat \<Rightarrow> bool" where
  "pages_ok [] n = True"
| "pages_ok (e # es) n =
     (case e of
        Connect \<Rightarrow> Suc n < 2 ^ 64 \<and> pages_ok es (Suc n)
      | Leave \<Rightarrow> 0 < n \<and> pages_ok es (n - 1)
      | Second \<Rightarrow> pages_ok es n)"

text \<open>A run of \<open>grace\<close> idle seconds, \<open>idle\<close> of which are already over.\<close>

fun idle_run :: "nat \<Rightarrow> nat \<Rightarrow> bool list \<Rightarrow> bool" where
  "idle_run grace idle [] = False"
| "idle_run grace idle (b # bs) = (if b then grace \<le> Suc idle \<or> idle_run grace (Suc idle) bs else idle_run grace 0 bs)"

lemma wait_closed_run:
  "pages_ok es n \<Longrightarrow> n < 2 ^ 64 \<Longrightarrow> al_clients a = word_of_nat n \<Longrightarrow>
     wait_closed grace es a idle = None \<longleftrightarrow> idle_run grace idle (idle_seconds es n (al_seen a))"
proof (induction es arbitrary: a n idle)
  case (Cons e es)
  show ?case
  proof (cases e)
    case Connect
    then show ?thesis using Cons.prems Cons.IH [of "Suc n" "alive_connect a" idle] by (simp add: alive_connect_def)
  next
    case Leave
    then have "word_of_nat (n - 1) = (word_of_nat n :: u64) - 1" using Cons.prems(1) by (simp add: of_nat_diff)
    then show ?thesis using Leave Cons.prems Cons.IH [of "n - 1" "alive_drop a" idle] by (simp add: alive_drop_def)
  next
    case Second
    have "unat (word_of_nat n :: u64) = n" using Cons.prems(2) by (simp add: unat_of_nat)
    then have "al_clients a = 0 \<longleftrightarrow> n = 0" unfolding Cons.prems(3) by (metis unat_eq_zero)
    then show ?thesis using Second Cons.prems Cons.IH by (auto simp: wait_second_def split: option.split)
  qed
qed simp

lemma idle_run_iff:
  "idle < grace \<Longrightarrow> idle_run grace idle bs \<longleftrightarrow> (\<exists>xs zs. replicate idle True @ bs = xs @ replicate grace True @ zs)"
proof (induction bs arbitrary: idle)
  case Nil
  have "replicate idle True \<noteq> xs @ replicate grace True @ zs" for xs zs
  proof
    assume "replicate idle True = xs @ replicate grace True @ zs"
    from arg_cong [OF this, of length] show False using Nil by simp
  qed
  then show ?case by simp
next
  case (Cons b bs)
  show ?case
  proof (cases b)
    case True
    have grow: "replicate idle True @ b # bs = replicate (Suc idle) True @ bs" using True by (simp add: replicate_append_same)
    show ?thesis
    proof (cases "Suc idle < grace")
      case True
      then show ?thesis using Cons.IH [of "Suc idle"] \<open>b\<close> unfolding grow by simp
    next
      case False
      then have "grace = Suc idle" using Cons.prems by simp
      then have "replicate (Suc idle) True @ bs = [] @ replicate grace True @ bs" by simp
      then show ?thesis using \<open>b\<close> False unfolding grow by fastforce
    qed
  next
    case False
    have "(\<exists>xs zs. replicate idle True @ b # bs = xs @ replicate grace True @ zs) \<longleftrightarrow> (\<exists>xs zs. bs = xs @ replicate grace True @ zs)"
    proof
      assume "\<exists>xs zs. replicate idle True @ b # bs = xs @ replicate grace True @ zs"
      then obtain xs zs where eq: "replicate idle True @ b # bs = xs @ replicate grace True @ zs" by blast
      have "idle < length xs"
      proof (rule ccontr)
        assume "\<not> idle < length xs"
        moreover from this have "idle - length xs < grace" using Cons.prems by simp
        ultimately have "(xs @ replicate grace True @ zs) ! idle" by (simp add: nth_append)
        then show False using False unfolding eq [symmetric] by (simp add: nth_append)
      qed
      then have "bs = drop (Suc idle) xs @ replicate grace True @ zs"
        using arg_cong [OF eq, of "drop (Suc idle)"] by simp
      then show "\<exists>xs zs. bs = xs @ replicate grace True @ zs" by blast
    next
      assume "\<exists>xs zs. bs = xs @ replicate grace True @ zs"
      then obtain xs zs where "replicate idle True @ b # bs = (replicate idle True @ b # xs) @ replicate grace True @ zs" by auto
      then show "\<exists>xs zs. replicate idle True @ b # bs = xs @ replicate grace True @ zs" by blast
    qed
    then show ?thesis using False Cons.IH [of 0] Cons.prems by simp
  qed
qed

text \<open>
  C39. The program quits exactly when its window is gone. However pages connect, leave and reconnect,
  waiting ends if and only if a page had connected and then for \<open>grace\<close> seconds in a row no page was
  open at the second's end: an open page keeps the program running, and once all have left for good it
  ends.
\<close>

theorem wait_closed_exact:
  assumes "pages_ok es 0" and "0 < grace"
  shows "wait_closed grace es alive_default 0 = None
    \<longleftrightarrow> (\<exists>xs zs. idle_seconds es 0 False = xs @ replicate grace True @ zs)"
  using wait_closed_run [OF assms(1), of alive_default grace 0] idle_run_iff [OF assms(2), of "idle_seconds es 0 False"]
  by (simp add: alive_default_def)

theorem wait_closed_exact_witness:
  "wait_closed 2 [Second, Connect, Second, Leave, Second, Connect, Leave, Second] alive_default 0 = None"
proof -
  let ?es = "[Second, Connect, Second, Leave, Second, Connect, Leave, Second]"
  have "idle_seconds ?es 0 False = [False, False] @ replicate 2 True @ []" by (simp add: numeral_2_eq_2)
  then have "\<exists>xs zs. idle_seconds ?es 0 False = xs @ replicate 2 True @ zs" by blast
  moreover have "pages_ok ?es 0" "0 < (2 :: nat)" by simp_all
  ultimately show ?thesis using wait_closed_exact by blast
qed

section \<open>The instance with administrator rights takes over\<close>

text \<open>
  How \<^verbatim>\<open>env::args\<close> splits a command line on Windows: \<open>quoted\<close> inside quotes, after \<open>b\<close> backslashes,
  with the argument read so far.
\<close>

definition DQUOTE :: char where "DQUOTE = CHR 0x22"

definition is_blank :: "char \<Rightarrow> bool" where
  "is_blank c \<longleftrightarrow> c = CHR '' '' \<or> c = CHR 0x09"

function win_args :: "bool \<Rightarrow> nat \<Rightarrow> string \<Rightarrow> string \<Rightarrow> string list" where
  "win_args quoted b acc [] = (let cur = acc @ replicate b BACKSLASH in if cur \<noteq> [] \<or> quoted then [cur] else [])"
| "win_args quoted b acc (c # s) =
     (if c = BACKSLASH then win_args quoted (Suc b) acc s
      else if c = DQUOTE then
        (let acc1 = acc @ replicate (b div 2) BACKSLASH in
         if odd b then win_args quoted 0 (acc1 @ [DQUOTE]) s
         else if \<not> quoted then win_args True 0 acc1 s
         else if s = [] then [acc1]
         else if hd s = DQUOTE then win_args quoted 0 (acc1 @ [DQUOTE]) (tl s)
         else win_args False 0 acc1 s)
      else
        let acc1 = acc @ replicate b BACKSLASH in
        if is_blank c \<and> \<not> quoted then acc1 # win_args False 0 [] (dropWhile is_blank s)
        else win_args quoted 0 (acc1 @ [c]) s)"
  by pat_completeness auto
termination
  by (relation "measure (\<lambda>(_, _, _, s). length s)") (auto simp: length_dropWhile_le le_imp_less_Suc)

definition plain_word :: "string \<Rightarrow> bool" where
  "plain_word w \<longleftrightarrow> (\<forall>c \<in> set w. c \<noteq> BACKSLASH \<and> c \<noteq> DQUOTE \<and> \<not> is_blank c)"

lemma win_args_word:
  "plain_word w \<Longrightarrow> win_args False 0 acc (w @ CHR '' '' # s) = (acc @ w) # win_args False 0 [] (dropWhile is_blank s)"
  by (induction w arbitrary: acc) (simp_all add: plain_word_def is_blank_def BACKSLASH_def DQUOTE_def)

lemma win_args_last_word: "plain_word w \<Longrightarrow> acc @ w \<noteq> [] \<Longrightarrow> win_args False 0 acc w = [acc @ w]"
  by (induction w arbitrary: acc) (simp_all add: plain_word_def is_blank_def BACKSLASH_def DQUOTE_def)

lemma win_args_quoted:
  "DQUOTE \<notin> set v \<Longrightarrow> (v \<noteq> [] \<longrightarrow> last v \<noteq> BACKSLASH) \<Longrightarrow> (v = [] \<longrightarrow> b = 0) \<Longrightarrow>
     win_args True b acc (v @ [DQUOTE]) = [acc @ replicate b BACKSLASH @ v]"
proof (induction v arbitrary: b acc)
  case Nil
  then show ?case by (simp add: DQUOTE_def BACKSLASH_def)
next
  case (Cons c v)
  show ?case
  proof (cases "c = BACKSLASH")
    case True
    then have "v \<noteq> []" using Cons.prems by auto
    then have "win_args True (Suc b) acc (v @ [DQUOTE]) = [acc @ replicate (Suc b) BACKSLASH @ v]" using Cons by (intro Cons.IH) auto
    then show ?thesis using True by (simp add: replicate_app_Cons_same)
  next
    case False
    have "c \<noteq> DQUOTE" using Cons.prems(1) by auto
    moreover have "win_args True 0 (acc @ replicate b BACKSLASH @ [c]) (v @ [DQUOTE]) = [(acc @ replicate b BACKSLASH @ [c]) @ replicate 0 BACKSLASH @ v]"
      using Cons.prems by (intro Cons.IH) auto
    ultimately show ?thesis using False by simp
  qed
qed

lemma plain_show_word [simp]: "plain_word (show_nat n)"
  using show_nat_digits [of _ n]
  by (fastforce simp: plain_word_def is_blank_def is_ascii_digit_def char_code_def BACKSLASH_def DQUOTE_def)

lemma show_nat_not_dash [simp]: "show_nat n \<noteq> CHR ''-'' # s"
  using show_nat_no_sign(2) [of n] by (metis list.sel(1))

lemma drop_plain: "plain_word w \<Longrightarrow> w \<noteq> [] \<Longrightarrow> dropWhile is_blank (w @ s) = w @ s"
  by (cases w) (simp_all add: plain_word_def)

lemma win_args_words:
  "\<forall>w \<in> set ws. plain_word w \<and> w \<noteq> [] \<Longrightarrow>
     win_args False 0 [] (dropWhile is_blank (concat (map (\<lambda>w. w @ '' '') ws) @ rest)) = ws @ win_args False 0 [] (dropWhile is_blank rest)"
proof (induction ws)
  case (Cons w ws)
  then show ?case
    using win_args_word [of w "[]" "concat (map (\<lambda>w. w @ '' '') ws) @ rest"] drop_plain [of w "CHR '' '' # concat (map (\<lambda>w. w @ '' '') ws) @ rest"]
    by simp
qed simp

lemma elevate_words:
  assumes "DQUOTE \<notin> set iface" "iface \<noteq> [] \<longrightarrow> last iface \<noteq> BACKSLASH"
  shows "win_args False 0 [] (elevate_args ru me port iface) =
     [''--port'', show_nat (unat port), ''--no-open'', ''--adopt'', ''--lang'', lang_code ru, ''--wait-pid'', show_nat me]
     @ (if iface = ''any'' then [] else [''-i'', iface])"
proof -
  let ?ws = "[''--port'', show_nat (unat port), ''--no-open'', ''--adopt'', ''--lang'', lang_code ru, ''--wait-pid'']"
  have ok: "\<forall>w \<in> set ?ws. plain_word w \<and> w \<noteq> []" "\<forall>w \<in> set (?ws @ [show_nat me, ''-i'']). plain_word w \<and> w \<noteq> []"
    by (simp_all add: lang_code_def) (simp_all add: plain_word_def is_blank_def BACKSLASH_def DQUOTE_def)
  have start: "dropWhile is_blank (elevate_args ru me port iface) = elevate_args ru me port iface"
    by (simp add: elevate_args_def is_blank_def)
  show ?thesis
  proof (cases "iface = ''any''")
    case True
    have shape: "elevate_args ru me port iface = concat (map (\<lambda>w. w @ '' '') ?ws) @ show_nat me"
      using True by (simp add: elevate_args_def)
    have "dropWhile is_blank (show_nat me) = show_nat me" using drop_plain [of "show_nat me" "[]"] by simp
    then have last_word: "win_args False 0 [] (dropWhile is_blank (show_nat me)) = [show_nat me]"
      using win_args_last_word [of "show_nat me" "[]"] by simp
    have "win_args False 0 [] (dropWhile is_blank (elevate_args ru me port iface)) = ?ws @ win_args False 0 [] (dropWhile is_blank (show_nat me))"
      unfolding shape by (rule win_args_words [OF ok(1)])
    then show ?thesis unfolding start last_word using True by simp
  next
    case False
    let ?q = "DQUOTE # iface @ [DQUOTE]"
    have shape: "elevate_args ru me port iface = concat (map (\<lambda>w. w @ '' '') (?ws @ [show_nat me, ''-i''])) @ ?q"
      using False by (simp add: elevate_args_def DQUOTE_def)
    have last_word: "win_args False 0 [] (dropWhile is_blank ?q) = [iface]"
      using win_args_quoted [of iface 0 "[]"] assms by (simp add: DQUOTE_def BACKSLASH_def is_blank_def)
    have "win_args False 0 [] (dropWhile is_blank (elevate_args ru me port iface))
        = (?ws @ [show_nat me, ''-i'']) @ win_args False 0 [] (dropWhile is_blank ?q)"
      unfolding shape by (rule win_args_words [OF ok(2)])
    then show ?thesis unfolding start last_word using False by simp
  qed
qed

lemma lang_set_code: "snd (lang_set (lang_code ru) b) = ru"
  by (simp add: lang_set_def lang_code_def)



text \<open>The quotes around the interface are not escaped: an interface with a quote arrives as another one.\<close>

lemma elevate_loses_quote:
  "map_option ar_iface (fst (parse_args None (win_args False 0 [] (elevate_args False 1 1 (''a'' @ [DQUOTE] @ ''b''))))) = Some ''ab''"
proof -
  have one: "show_nat (Suc 0) = ''1''" unfolding show_nat_def by (subst show_base.simps) code_simp
  have read: "parse_u16 ''1'' = Some 1" "parse_u32 ''1'' = Some 1"
    using parse_show_nat [of "Suc 0"] by (simp_all add: parse_u16_def parse_u32_def one)
  have words: "win_args False 0 [] (''--port 1 --no-open --adopt --lang en --wait-pid 1 -i '' @ [DQUOTE] @ ''a'' @ [DQUOTE] @ ''b'' @ [DQUOTE])
    = [''--port'', ''1'', ''--no-open'', ''--adopt'', ''--lang'', ''en'', ''--wait-pid'', ''1'', ''-i'', ''ab'']"
    by code_simp
  have built: "elevate_args False 1 1 (''a'' @ [DQUOTE] @ ''b'')
      = ''--port 1 --no-open --adopt --lang en --wait-pid 1 -i '' @ [DQUOTE] @ ''a'' @ [DQUOTE] @ ''b'' @ [DQUOTE]"
    by (simp add: elevate_args_def one lang_code_def DQUOTE_def)
  show ?thesis unfolding built words
    by (simp add: parse_args_def args_default_def Let_def read lang_set_def)
qed

end
