(* ===== verification/Etw_Session.thy ===== *)
theory Etw_Session
  imports Main
begin

text \<open>
  Beginning and ending the capture of Windows (\<^verbatim>\<open>probe\<close>, \<^verbatim>\<open>start\<close> and the \<^verbatim>\<open>drop\<close> of \<^verbatim>\<open>Session\<close> of
  \<^verbatim>\<open>src/src/etw.rs\<close>). A run is the list of the calls it makes, in order, with what the system
  answered: PktMon is shared by all programs of the host, so what matters is that each path, error paths
  included, gives back exactly what it took.
\<close>

section \<open>Calls\<close>

datatype etw_call =
    PktmonStart bool | PktmonStop | StartTrace bool | EnableProvider bool | StopSession
  | SpawnWorker | SpawnReader | DumpStop | ControlStop | JoinReader | SendShutdown | JoinWorker | RemoveEtl

datatype etw_error =
    PktmonMissing | NeedAdmin | AlreadyCapturing | PktmonError string | SessionError nat | ProviderError nat | ReaderError string

text \<open>What the reader thread answers within five seconds.\<close>

datatype reader_reply = ReaderReady | ReaderFailed string | ReaderSilent string

record EtwAnswers =
  ea_pktmon_exe :: bool
  ea_elevated :: bool
  ea_pktmon_start :: "string option"
  ea_start_trace :: nat
  ea_enable :: nat
  ea_reader :: reader_reply

definition etw_probe :: "EtwAnswers \<Rightarrow> etw_error option" where
  "etw_probe a =
     (if \<not> ea_pktmon_exe a then Some PktmonMissing else if \<not> ea_elevated a then Some NeedAdmin else None)"

definition can_elevate :: "EtwAnswers \<Rightarrow> bool" where
  "can_elevate a \<longleftrightarrow> ea_pktmon_exe a \<and> \<not> ea_elevated a"

section \<open>Begin and end\<close>

text \<open>\<^verbatim>\<open>Session::drop\<close>\<close>

definition session_drop :: "etw_call list" where
  "session_drop = [DumpStop, ControlStop, JoinReader, SendShutdown, JoinWorker, PktmonStop, RemoveEtl]"

text \<open>
  \<^verbatim>\<open>start\<close>: the result, whether \<^verbatim>\<open>SINK\<close> is set afterwards (it can be set once in the life of the
  process), and the calls.
\<close>

definition etw_start :: "EtwAnswers \<Rightarrow> bool \<Rightarrow> (etw_error + unit) \<times> bool \<times> etw_call list" where
  "etw_start a sink =
     (case etw_probe a of
        Some e \<Rightarrow> (Inl e, sink, [])
      | None \<Rightarrow>
          if sink then (Inl AlreadyCapturing, sink, [])
          else
            (case ea_pktmon_start a of
               Some e \<Rightarrow> (Inl (PktmonError e), True, [PktmonStart False])
             | None \<Rightarrow>
                 if ea_start_trace a \<noteq> 0
                 then (Inl (SessionError (ea_start_trace a)), True, [PktmonStart True, StartTrace False, PktmonStop])
                 else if ea_enable a \<noteq> 0
                 then (Inl (ProviderError (ea_enable a)), True,
                       [PktmonStart True, StartTrace True, EnableProvider False, StopSession, PktmonStop])
                 else
                   let calls = [PktmonStart True, StartTrace True, EnableProvider True, SpawnWorker, SpawnReader] in
                   (case ea_reader a of
                      ReaderReady \<Rightarrow> (Inr (), True, calls)
                    | ReaderFailed e \<Rightarrow> (Inl (ReaderError e), True, calls @ session_drop)
                    | ReaderSilent e \<Rightarrow> (Inl (ReaderError e), True, calls @ session_drop))))"

section \<open>What the calls take and give back\<close>

text \<open>
  What the program holds. A thread can be waited for only when it has been told to end: the reader by
  the end of its session, the worker by the message \<^verbatim>\<open>Shutdown\<close>; otherwise waiting never ends.
\<close>

record Held =
  hl_pktmon :: bool
  hl_session :: bool
  hl_worker :: bool
  hl_reader :: bool
  hl_told :: bool

definition nothing_held :: Held where
  "nothing_held = \<lparr>hl_pktmon = False, hl_session = False, hl_worker = False, hl_reader = False, hl_told = False\<rparr>"

definition capture_held :: Held where
  "capture_held = \<lparr>hl_pktmon = True, hl_session = True, hl_worker = True, hl_reader = True, hl_told = False\<rparr>"

text \<open>\<^verbatim>\<open>None\<close>: a call that takes what is held, stops what is not ours, or waits forever.\<close>

fun etw_effect :: "etw_call \<Rightarrow> Held \<Rightarrow> Held option" where
  "etw_effect (PktmonStart ok) h = (if hl_pktmon h then None else Some (h\<lparr>hl_pktmon := ok\<rparr>))"
| "etw_effect PktmonStop h = (if hl_pktmon h then Some (h\<lparr>hl_pktmon := False\<rparr>) else None)"
| "etw_effect (StartTrace ok) h = (if hl_session h then None else Some (h\<lparr>hl_session := ok\<rparr>))"
| "etw_effect (EnableProvider ok) h = (if hl_session h then Some h else None)"
| "etw_effect StopSession h = (if hl_session h then Some (h\<lparr>hl_session := False\<rparr>) else None)"
| "etw_effect SpawnWorker h = (if hl_worker h then None else Some (h\<lparr>hl_worker := True, hl_told := False\<rparr>))"
| "etw_effect SpawnReader h = (if hl_reader h then None else Some (h\<lparr>hl_reader := True\<rparr>))"
| "etw_effect DumpStop h = (if hl_worker h \<and> \<not> hl_told h then Some h else None)"
| "etw_effect ControlStop h = (if hl_session h then Some (h\<lparr>hl_session := False\<rparr>) else None)"
| "etw_effect JoinReader h = (if hl_reader h \<and> \<not> hl_session h then Some (h\<lparr>hl_reader := False\<rparr>) else None)"
| "etw_effect SendShutdown h = (if hl_worker h then Some (h\<lparr>hl_told := True\<rparr>) else None)"
| "etw_effect JoinWorker h = (if hl_worker h \<and> hl_told h then Some (h\<lparr>hl_worker := False, hl_told := False\<rparr>) else None)"
| "etw_effect RemoveEtl h = (if hl_pktmon h then None else Some h)"

fun etw_effects :: "etw_call list \<Rightarrow> Held \<Rightarrow> Held option" where
  "etw_effects [] h = Some h"
| "etw_effects (c # cs) h = (case etw_effect c h of None \<Rightarrow> None | Some h' \<Rightarrow> etw_effects cs h')"


end
