(* ===== verification/Program.thy ===== *)
theory Program
  imports Rec_Props Web_Api Cache Lifecycle Etw_Session Win_Text
begin

text \<open>
  How the parts are put together (\<^verbatim>\<open>main\<close>, \<^verbatim>\<open>supervise\<close>, \<^verbatim>\<open>spawn_window\<close>, \<^verbatim>\<open>api_elevate\<close>, \<^verbatim>\<open>shutdown\<close>
  of \<^verbatim>\<open>src/src/main.rs\<close>; \<^verbatim>\<open>probe\<close> and \<^verbatim>\<open>start_live\<close> of \<^verbatim>\<open>src/src/capture\<close>; \<^verbatim>\<open>src/src/elevate.rs\<close>,
  \<^verbatim>\<open>src/src/win_startup.rs\<close>, \<^verbatim>\<open>Text\<close> of \<^verbatim>\<open>src/src/i18n.rs\<close>): the state the program starts with, the
  beginning and the watching of the capture with the messages it leaves in the window, who may ask the
  program to quit, and what happens then. What the system answers is an argument.
\<close>

section \<open>Messages in two languages\<close>

record Text =
  tx_en :: string
  tx_ru :: string

definition text_from :: "string \<Rightarrow> Text" where
  "text_from s = \<lparr>tx_en = s, tx_ru = s\<rparr>"

definition text_get :: "bool \<Rightarrow> Text \<Rightarrow> string" where
  "text_get ru t = (if ru then tx_ru t else tx_en t)"

section \<open>Is capture possible\<close>

definition install_hint :: Text where
  "install_hint = \<lparr>tx_en = ''dumpcap not found. Install the wireshark-common package.'',
     tx_ru = (utf8_text [100, 117, 109, 112, 99, 97, 112, 32, 208, 189, 208, 181, 32, 208, 189, 208, 176, 208, 185, 208,
      180, 208, 181, 208, 189, 46, 32, 208, 163, 209, 129, 209, 130, 208, 176, 208, 189, 208, 190, 208,
      178, 208, 184, 209, 130, 208, 181, 32, 208, 191, 208, 176, 208, 186, 208, 181, 209, 130, 32, 119,
      105, 114, 101, 115, 104, 97, 114, 107, 45, 99, 111, 109, 109, 111, 110, 46])\<rparr>"

definition rights_hint :: Text where
  "rights_hint = \<lparr>
     tx_en = ''Capture rights are granted like this:'' @ NL
       @ ''  sudo dpkg-reconfigure wireshark-common   (answer \"yes\")'' @ NL
       @ ''  sudo usermod -aG wireshark \"$USER\"       (then log in again)'',
     tx_ru = (utf8_text [208, 159, 209, 128, 208, 176, 208, 178, 208, 176, 32, 208, 189, 208, 176, 32, 208, 183, 208, 176,
      209, 133, 208, 178, 208, 176, 209, 130, 32, 208, 178, 209, 139, 208, 180, 208, 176, 209, 142, 209,
      130, 209, 129, 209, 143, 32, 209, 130, 208, 176, 208, 186, 58]) @ NL
       @ ''  sudo dpkg-reconfigure wireshark-common   '' @ (utf8_text [40, 208, 190, 209, 130, 208, 178, 208, 181, 209, 130, 208, 184, 209, 130, 209, 140, 32, 34, 208,
      180, 208, 176, 34, 41]) @ NL
       @ ''  sudo usermod -aG wireshark \"$USER\"       '' @ (utf8_text [40, 208, 183, 208, 176, 209, 130, 208, 181, 208, 188, 32, 208, 191, 208, 181, 209, 128, 208, 181,
      208, 187, 208, 190, 208, 179, 208, 184, 208, 189, 208, 184, 209, 130, 209, 140, 209, 129, 209, 143,
      41])\<rparr>"

text \<open>\<^verbatim>\<open>probe\<close> on Unix: \<open>answer\<close> is whether \<^verbatim>\<open>dumpcap -D\<close> succeeded and its error text, if it ran at all.\<close>

definition capture_probe :: "(bool \<times> bytes) option \<Rightarrow> Text option" where
  "capture_probe answer =
     (case answer of
        None \<Rightarrow> Some install_hint
      | Some (ok, stderr) \<Rightarrow>
          if ok then None
          else
            let first = trim (case text_lines (from_utf8_lossy stderr) of [] \<Rightarrow> ''unknown error'' | l # _ \<Rightarrow> l) in
            Some \<lparr>tx_en = first @ NL @ tx_en rights_hint, tx_ru = first @ NL @ tx_ru rights_hint\<rparr>)"

text \<open>
  \<open>spawned\<close> is whether the process of dumpcap started, \<open>ready\<close> how the wait for its first bytes ended,
  \<open>show\<close> prints an error of the capture.
\<close>

definition spawn_live :: "string + unit \<Rightarrow> cap_error option \<Rightarrow> cap_error option" where
  "spawn_live spawned ready = (case spawned of Inl e \<Rightarrow> Some (OsError e) | Inr _ \<Rightarrow> ready)"

definition start_live :: "(cap_error \<Rightarrow> string) \<Rightarrow> (bool \<times> bytes) option \<Rightarrow> string + unit \<Rightarrow> cap_error option
    \<Rightarrow> u32 option \<Rightarrow> Text + u32 option" where
  "start_live show answer spawned ready pid =
     (case capture_probe answer of
        Some hint \<Rightarrow> Inl hint
      | None \<Rightarrow>
          (case spawn_live spawned ready of
             Some e \<Rightarrow> Inl \<lparr>tx_en = ''dumpcap did not start: '' @ show e, tx_ru = (utf8_text [100, 117, 109, 112, 99, 97, 112, 32, 208, 189, 208, 181, 32, 208, 183, 208, 176, 208, 191, 209,
      131, 209, 129, 209, 130, 208, 184, 208, 187, 209, 129, 209, 143, 58, 32]) @ show e\<rparr>
           | None \<Rightarrow> Inr pid))"

text \<open>Windows: the error of the session is the message; a session has no process of its own.\<close>

definition need_admin :: Text where
  "need_admin = \<lparr>
     tx_en = ''Domains come from the Windows DNS cache, Chrome and Edge will have none. '' @
       ''For browser domains, traffic volume and dumps, restart SocketTrail as administrator.'',
     tx_ru = (utf8_text [208, 148, 208, 190, 208, 188, 208, 181, 208, 189, 209, 139, 32, 208, 177, 208, 181, 209, 128, 209,
      131, 209, 130, 209, 129, 209, 143, 32, 208, 184, 208, 183, 32, 68, 78, 83, 45, 208, 186, 208, 181,
      209, 136, 208, 176, 32, 87, 105, 110, 100, 111, 119, 115, 44, 32, 209, 131, 32, 67, 104, 114, 111,
      109, 101, 32, 208, 184, 32, 69, 100, 103, 101, 32, 208, 184, 209, 133, 32, 208, 189, 208, 181, 32,
      208, 177, 209, 131, 208, 180, 208, 181, 209, 130, 46, 32, 208, 148, 208, 187, 209, 143, 32, 208,
      180, 208, 190, 208, 188, 208, 181, 208, 189, 208, 190, 208, 178, 32, 208, 177, 209, 128, 208, 176,
      209, 131, 208, 183, 208, 181, 209, 128, 208, 190, 208, 178, 44, 32, 208, 190, 208, 177, 209, 138,
      208, 181, 208, 188, 208, 176, 32, 209, 130, 209, 128, 208, 176, 209, 132, 208, 184, 208, 186, 208,
      176, 32, 208, 184, 32, 208, 180, 208, 176, 208, 188, 208, 191, 208, 190, 208, 178, 32, 208, 191,
      208, 181, 209, 128, 208, 181, 208, 183, 208, 176, 208, 191, 209, 131, 209, 129, 209, 130, 208, 184,
      209, 130, 208, 181, 32, 83, 111, 99, 107, 101, 116, 84, 114, 97, 105, 108, 32, 208, 190, 209, 130,
      32, 208, 184, 208, 188, 208, 181, 208, 189, 208, 184, 32, 208, 176, 208, 180, 208, 188, 208, 184,
      208, 189, 208, 184, 209, 129, 209, 130, 209, 128, 208, 176, 209, 130, 208, 190, 209, 128, 208, 176,
      46])\<rparr>"

definition etw_text :: "bool \<Rightarrow> etw_error \<Rightarrow> Text" where
  "etw_text ru e =
     (case e of
        PktmonMissing \<Rightarrow> \<lparr>tx_en = ''PktMon is missing (Windows 10 version 2004 or newer is required).'',
          tx_ru = (utf8_text [208, 146, 32, 209, 129, 208, 184, 209, 129, 209, 130, 208, 181, 208, 188, 208, 181, 32, 208, 189,
      208, 181, 209, 130, 32, 80, 107, 116, 77, 111, 110, 32, 40, 208, 189, 209, 131, 208, 182, 208, 189,
      208, 176, 32, 87, 105, 110, 100, 111, 119, 115, 32, 49, 48, 32, 208, 178, 208, 181, 209, 128, 209,
      129, 208, 184, 208, 184, 32, 50, 48, 48, 52, 32, 208, 184, 208, 187, 208, 184, 32, 208, 189, 208,
      190, 208, 178, 208, 181, 208, 181, 41, 46])\<rparr>
      | NeedAdmin \<Rightarrow> need_admin
      | AlreadyCapturing \<Rightarrow> text_from (tr ru ''capture is already running'' (utf8_text [208, 183, 208, 176, 209, 133, 208, 178, 208, 176, 209, 130, 32, 209, 131, 208, 182, 208, 181, 32,
      208, 183, 208, 176, 208, 191, 209, 131, 209, 137, 208, 181, 208, 189]))
      | PktmonError msg \<Rightarrow> text_from msg
      | SessionError rc \<Rightarrow> text_from (tr ru (''ETW session not created, code '' @ show_nat rc)
          ((utf8_text [69, 84, 87, 45, 209, 129, 208, 181, 209, 129, 209, 129, 208, 184, 209, 143, 32, 208, 189, 208, 181,
      32, 209, 129, 208, 190, 208, 183, 208, 180, 208, 176, 208, 189, 208, 176, 44, 32, 208, 186, 208,
      190, 208, 180, 32]) @ show_nat rc))
      | ProviderError rc \<Rightarrow> text_from (tr ru (''PktMon provider not enabled, code '' @ show_nat rc)
          ((utf8_text [208, 191, 209, 128, 208, 190, 208, 178, 208, 176, 208, 185, 208, 180, 208, 181, 209, 128, 32, 80,
      107, 116, 77, 111, 110, 32, 208, 189, 208, 181, 32, 208, 178, 208, 186, 208, 187, 209, 142, 209,
      135, 208, 181, 208, 189, 44, 32, 208, 186, 208, 190, 208, 180, 32]) @ show_nat rc))
      | ReaderError msg \<Rightarrow> \<lparr>tx_en = ''ETW reader did not start: '' @ msg, tx_ru = (utf8_text [208, 167, 209, 130, 208, 181, 208, 189, 208, 184, 208, 181, 32, 69, 84, 87, 32, 208, 189, 208, 181,
      32, 208, 183, 208, 176, 208, 191, 209, 131, 209, 129, 209, 130, 208, 184, 208, 187, 208, 190, 209,
      129, 209, 140, 58, 32]) @ msg\<rparr>)"

text \<open>
  A call of \<^verbatim>\<open>PktMon.exe\<close>: the error of the system when it did not start, otherwise its success and what
  it printed.
\<close>

definition join :: "string \<Rightarrow> string list \<Rightarrow> string" where
  "join sep xs = (case xs of [] \<Rightarrow> [] | x # ys \<Rightarrow> x @ concat (map (\<lambda>y. sep @ y) ys))"

definition pktmon :: "bool \<Rightarrow> string list \<Rightarrow> string + bool \<times> bytes \<Rightarrow> string + string" where
  "pktmon ru args out =
     (case out of
        Inl e \<Rightarrow> Inl (tr ru (''pktmon did not start: '' @ e) ((utf8_text [112, 107, 116, 109, 111, 110, 32, 208, 189, 208, 181, 32, 208, 183, 208, 176, 208, 191, 209, 131,
      209, 129, 209, 130, 208, 184, 208, 187, 209, 129, 209, 143, 58, 32]) @ e))
      | Inr (ok, stdout) \<Rightarrow>
          let text' = trim (from_utf8_lossy stdout) in
          if ok then Inr text' else Inl (''pktmon '' @ join '' '' args @ '': '' @ text'))"

definition win_start_live :: "bool \<Rightarrow> EtwAnswers \<Rightarrow> bool \<Rightarrow> Text + u32 option" where
  "win_start_live ru a sink = (case fst (etw_start a sink) of Inl e \<Rightarrow> Inl (etw_text ru e) | Inr _ \<Rightarrow> Inr None)"

definition win_live_check :: "bool \<Rightarrow> Text option" where
  "win_live_check active =
     (if active then None
      else Some \<lparr>tx_en = ''Packet capture stopped'', tx_ru = (utf8_text [208, 159, 208, 176, 208, 186, 208, 181, 209, 130, 208, 189, 209, 139, 208, 185, 32, 208, 183, 208,
      176, 209, 133, 208, 178, 208, 176, 209, 130, 32, 208, 190, 209, 129, 209, 130, 208, 176, 208, 189,
      208, 190, 208, 178, 208, 184, 208, 187, 209, 129, 209, 143])\<rparr>)"

definition unix_live_check :: "(cap_error \<Rightarrow> string) \<Rightarrow> wait_status \<Rightarrow> string \<Rightarrow> Live \<Rightarrow> Text option" where
  "unix_live_check show status stderr lv =
     map_option (\<lambda>e. if e = StreamEnded then \<lparr>tx_en = ''Packet stream ended'', tx_ru = (utf8_text [208, 159, 208, 190, 209, 130, 208, 190, 208, 186, 32, 208, 191, 208, 176, 208, 186, 208, 181, 209,
      130, 208, 190, 208, 178, 32, 208, 183, 208, 176, 208, 178, 208, 181, 209, 128, 209, 136, 208, 184,
      208, 187, 209, 129, 209, 143])\<rparr>
                     else text_from (show e)) (live_check status stderr lv)"

section \<open>The start of the program\<close>

text \<open>The shared state before any task runs, with the addresses of the host and the names of earlier runs.\<close>

definition main_app :: "(string \<Rightarrow> u64) \<Rightarrow> u64 \<Rightarrow> int \<Rightarrow> string \<Rightarrow> u16 \<Rightarrow> IpAddr list option \<Rightarrow> Disk \<Rightarrow> App" where
  "main_app clk now me iface port ips disk =
     restore_cache clk disk ((app_new now me iface port)\<lparr>a_store := set_local_ips ips (store_default now)\<rparr>)"

text \<open>The fields that only the window reads.\<close>

record Host =
  ho_app :: App
  ho_capture_hint :: "Text option"
  ho_can_elevate :: bool

definition host_new :: "App \<Rightarrow> Host" where
  "host_new g = \<lparr>ho_app = g, ho_capture_hint = None, ho_can_elevate = False\<rparr>"

definition capture_begin :: "bool \<Rightarrow> bool \<Rightarrow> Text + u32 option \<Rightarrow> Host \<Rightarrow> Host" where
  "capture_begin windows elevatable live h =
     (case live of
        Inr pid \<Rightarrow>
          let g = ho_app h;
              add = (\<lambda>xs. case pid of None \<Rightarrow> xs | Some p \<Rightarrow> hs_add (sint p) xs) in
          h\<lparr>ho_app := g\<lparr>a_self_roots := add (a_self_roots g), a_self_pids := add (a_self_pids g), a_capture_on := True\<rparr>\<rparr>
      | Inl hint \<Rightarrow>
          h\<lparr>ho_capture_hint := Some hint, ho_can_elevate := (if windows then elevatable else ho_can_elevate h)\<rparr>)"

text \<open>The watch: every 200 ms the capture is checked, until it fails or the program ends.\<close>

fun capture_watch :: "Text option list \<Rightarrow> Host \<Rightarrow> Host" where
  "capture_watch [] h = h"
| "capture_watch (check # checks) h =
     (case check of
        None \<Rightarrow> capture_watch checks h
      | Some hint \<Rightarrow> h\<lparr>ho_app := (ho_app h)\<lparr>a_capture_on := False\<rparr>, ho_capture_hint := Some hint\<rparr>)"

text \<open>The watch ends at once when the capture has not begun.\<close>

definition main_capture :: "bool \<Rightarrow> bool \<Rightarrow> Text + u32 option \<Rightarrow> Text option list \<Rightarrow> Host \<Rightarrow> Host" where
  "main_capture windows elevatable live checks h =
     (let h' = capture_begin windows elevatable live h in case live of Inl _ \<Rightarrow> h' | Inr _ \<Rightarrow> capture_watch checks h')"

text \<open>\<^verbatim>\<open>supervise\<close>: how the runs of a loop end, one after the other, until one does not panic.\<close>

datatype task_end = TaskReturned | TaskCancelled | TaskPanicked

fun supervise :: "task_end list \<Rightarrow> task_end list" where
  "supervise [] = []"
| "supervise (e # es) = e # (if e = TaskPanicked then supervise es else [])"

text \<open>Where Windows prints: the terminal of the caller, the log, or nowhere, which ends the program.\<close>

datatype StdOutput = Terminal | LogFile | NoOutput string

definition startup_output :: "string list \<Rightarrow> bool \<Rightarrow> bool \<Rightarrow> string option \<Rightarrow> StdOutput" where
  "startup_output argv inherited attached log_error =
     (if cli_requested argv \<and> (inherited \<or> attached) then Terminal
      else case log_error of None \<Rightarrow> LogFile | Some e \<Rightarrow> NoOutput e)"

section \<open>The window\<close>

definition browser_args :: "string \<Rightarrow> string \<Rightarrow> string list" where
  "browser_args url profile =
     [''--app='' @ url, ''--user-data-dir='' @ profile, ''--class=SocketTrail'', ''--window-size=1500,900'', ''--no-first-run'',
      ''--no-default-browser-check'', ''--disable-sync'', ''--disable-background-mode'',
      ''--disable-features=Translate,MediaRouter'']"

datatype os_family = WindowsOs | MacOs | OtherUnix

text \<open>\<^verbatim>\<open>open_default\<close>: the command that opens an address or a directory.\<close>

definition open_default :: "os_family \<Rightarrow> string \<Rightarrow> string \<times> string list" where
  "open_default os target =
     (case os of WindowsOs \<Rightarrow> ''explorer'' | MacOs \<Rightarrow> ''open'' | OtherUnix \<Rightarrow> ''xdg-open'', [target])"

definition closed_page :: "bool \<Rightarrow> string" where
  "closed_page ru = tr ru ''window closed (page disconnected)'' (utf8_text [208, 190, 208, 186, 208, 189, 208, 190, 32, 208, 183, 208, 176, 208, 186, 209, 128, 209, 139, 209,
      130, 208, 190, 32, 40, 209, 129, 209, 130, 209, 128, 208, 176, 208, 189, 208, 184, 209, 134, 208,
      176, 32, 208, 190, 209, 130, 208, 186, 208, 187, 209, 142, 209, 135, 208, 184, 208, 187, 208, 176,
      209, 129, 209, 140, 41])"

text \<open>
  Who asks the program to quit. \<open>pages_gone\<close>: \<^verbatim>\<open>wait_closed\<close> has returned; \<open>browser\<close>: what \<^verbatim>\<open>Watch::wait\<close>
  has returned, if it has.
\<close>

definition window_reasons :: "bool \<Rightarrow> Opened \<Rightarrow> bool \<Rightarrow> bool option \<Rightarrow> string list" where
  "window_reasons ru opened pages_gone browser =
     (let page = (if pages_gone then [closed_page ru] else []) in
      case opened of
        OpenedWindow \<Rightarrow> page @ (if browser = Some True then [tr ru ''window closed'' (utf8_text [208, 190, 208, 186, 208, 189, 208, 190, 32, 208, 183, 208, 176, 208, 186, 209, 128, 209, 139, 209,
      130, 208, 190])] else [])
      | Detached \<Rightarrow> page
      | OpenFailed \<Rightarrow> [])"

text \<open>The successor with administrator rights opens a window only when none has connected to it in 15 seconds.\<close>

definition adopt_reasons :: "bool \<Rightarrow> bool \<Rightarrow> Opened \<Rightarrow> bool \<Rightarrow> bool option \<Rightarrow> string list" where
  "adopt_reasons ru seen opened pages_gone browser =
     (if seen then (if pages_gone then [closed_page ru] else []) else window_reasons ru opened pages_gone browser)"

definition main_reasons :: "bool \<Rightarrow> Args \<Rightarrow> bool \<Rightarrow> Opened \<Rightarrow> bool \<Rightarrow> bool option \<Rightarrow> string list" where
  "main_reasons ru a seen opened pages_gone browser =
     (if ar_open a then window_reasons ru opened pages_gone browser
      else if ar_adopt a then adopt_reasons ru seen opened pages_gone browser
      else [])"

datatype signal = CtrlC | SigTerm | ConsoleClose | SystemShutdown | Logoff | CtrlBreak

text \<open>\<open>watched\<close>: the handler of the signal could be installed; on Windows all four or none.\<close>

definition signal_reason :: "bool \<Rightarrow> bool \<Rightarrow> (signal \<Rightarrow> bool) \<Rightarrow> signal \<Rightarrow> string option" where
  "signal_reason windows ru watched s =
     (let four = windows \<and> watched ConsoleClose \<and> watched SystemShutdown \<and> watched Logoff \<and> watched CtrlBreak in
      case s of
        CtrlC \<Rightarrow> if watched CtrlC then Some ''Ctrl+C'' else None
      | SigTerm \<Rightarrow> if \<not> windows \<and> watched SigTerm then Some ''SIGTERM'' else None
      | ConsoleClose \<Rightarrow> if four then Some (tr ru ''console closed'' (utf8_text [208, 183, 208, 176, 208, 186, 209, 128, 209, 139, 209, 130, 208, 184, 208, 181, 32, 208, 186, 208,
      190, 208, 189, 209, 129, 208, 190, 208, 187, 208, 184])) else None
      | SystemShutdown \<Rightarrow> if four then Some (tr ru ''shutdown'' (utf8_text [208, 178, 209, 139, 208, 186, 208, 187, 209, 142, 209, 135, 208, 181, 208, 189, 208, 184, 208, 181])) else None
      | Logoff \<Rightarrow> if four then Some (tr ru ''logoff'' (utf8_text [208, 178, 209, 139, 209, 133, 208, 190, 208, 180, 32, 208, 184, 208, 183, 32, 209, 129, 208, 184,
      209, 129, 209, 130, 208, 181, 208, 188, 209, 139])) else None
      | CtrlBreak \<Rightarrow> if four then Some ''Ctrl+Break'' else None)"

section \<open>Administrator rights\<close>

text \<open>\<open>token\<close>: the answer about the token of the process, if there is one.\<close>

definition is_elevated :: "bool option \<Rightarrow> bool" where
  "is_elevated token \<longleftrightarrow> token = Some True"

text \<open>\<open>shell\<close> is \<^verbatim>\<open>None\<close> when the program was started, otherwise the code and text of the error.\<close>

definition relaunch :: "bool \<Rightarrow> string + string \<Rightarrow> (int option \<times> string) option \<Rightarrow> string option" where
  "relaunch ru exe shell =
     (case exe of
        Inl e \<Rightarrow> Some e
      | Inr _ \<Rightarrow>
          (case shell of
             None \<Rightarrow> None
           | Some (code, e) \<Rightarrow>
               Some (if code = Some 1223
                     then tr ru ''launch as administrator was cancelled'' (utf8_text [208, 183, 208, 176, 208, 191, 209, 131, 209, 129, 208, 186, 32, 208, 190, 209, 130, 32, 208, 176,
      208, 180, 208, 188, 208, 184, 208, 189, 208, 184, 209, 129, 209, 130, 209, 128, 208, 176, 209, 130,
      208, 190, 209, 128, 208, 176, 32, 208, 190, 209, 130, 208, 188, 208, 181, 208, 189, 208, 181, 208,
      189])
                     else e)))"

text \<open>The answer to the window and the request to quit, if there is one.\<close>

definition api_elevate :: "bool \<Rightarrow> bool \<Rightarrow> string option \<Rightarrow> string option \<times> string option" where
  "api_elevate windows ru error =
     (if \<not> windows then (Some (tr ru ''Windows only'' (utf8_text [209, 130, 208, 190, 208, 187, 209, 140, 208, 186, 208, 190, 32, 208, 180, 208, 187, 209, 143, 32,
      87, 105, 110, 100, 111, 119, 115])), None)
      else case error of
             None \<Rightarrow> (None, Some (tr ru ''restarting as administrator'' (utf8_text [208, 191, 208, 181, 209, 128, 208, 181, 208, 183, 208, 176, 208, 191, 209, 131, 209, 129, 208, 186,
      32, 208, 190, 209, 130, 32, 208, 184, 208, 188, 208, 181, 208, 189, 208, 184, 32, 208, 176, 208,
      180, 208, 188, 208, 184, 208, 189, 208, 184, 209, 129, 209, 130, 209, 128, 208, 176, 209, 130, 208,
      190, 209, 128, 208, 176])))
           | Some e \<Rightarrow> (Some e, None))"

text \<open>\<^verbatim>\<open>api_lang\<close>: the answer, the language from now on, and what is written to the file \<^verbatim>\<open>lang\<close>.\<close>

definition api_lang :: "string \<Rightarrow> bool \<Rightarrow> (bool \<times> string) \<times> bool \<times> string option" where
  "api_lang code ru =
     (case lang_set code ru of (ok, ru') \<Rightarrow> ((ok, lang_code ru'), ru', if ok then Some (lang_code ru') else None))"

section \<open>The end of the program\<close>

text \<open>The first request to quit counts.\<close>

definition quit_reason :: "string list \<Rightarrow> string" where
  "quit_reason reasons = (case reasons of [] \<Rightarrow> ''channel closed'' | why # _ \<Rightarrow> why)"

datatype exit_call = ClosePages | FinishRecording FinishTicket | SaveNames | StopCapture

text \<open>
  \<^verbatim>\<open>shutdown\<close>: a recording that is running is ended as if the window had asked for it, then the names are
  saved, then the capture is stopped. \<open>w\<close> is the state when the server has ended.
\<close>

definition exit_begin :: "u64 \<Rightarrow> World \<Rightarrow> exit_call list \<times> World" where
  "exit_begin now w =
     (if a_phase (w_app w) = Recording then
        (case finish_begin False None now (w_app w) of
           (Inr t, g) \<Rightarrow> ([ClosePages, FinishRecording t, SaveNames, StopCapture],
             w\<lparr>w_app := g, w_finishing := Stopping t # w_finishing w\<rparr>)
         | (Inl _, g) \<Rightarrow> ([ClosePages, SaveNames, StopCapture], w\<lparr>w_app := g\<rparr>))
      else ([ClosePages, SaveNames, StopCapture], w))"

section \<open>The program starts in a state the invariants cover\<close>

lemma rec_step_app: "app_step g g' \<Longrightarrow> rec_reachable (w\<lparr>w_app := g\<rparr>) \<Longrightarrow> rec_reachable (w\<lparr>w_app := g'\<rparr>)"
  using rec_reachable.step [OF _ rec_step.other [of "w\<lparr>w_app := g\<rparr>" g']] by simp

lemma restore_names_steps:
  "rec_reachable (w\<lparr>w_app := g\<rparr>) \<Longrightarrow> rec_reachable (w\<lparr>w_app := g\<lparr>a_store := restore_names clk m (a_store g)\<rparr>\<rparr>)"
proof (induction m arbitrary: g)
  case Nil
  then show ?case by (simp add: restore_names_def)
next
  case (Cons e m)
  have app: "restore_names clk (e # m) s
      = restore_names clk m (case parse_ip (fst e) of None \<Rightarrow> s | Some ip \<Rightarrow> snd (restore_dns (clk (fst e)) ip (snd e) s))" for s
    by (simp add: restore_names_def)
  show ?case
  proof (cases "parse_ip (fst e)")
    case None
    then show ?thesis using Cons by (simp add: app)
  next
    case (Some ip)
    have "rec_reachable (w\<lparr>w_app := g\<lparr>a_store := snd (restore_dns (clk (fst e)) ip (snd e) (a_store g))\<rparr>\<rparr>)"
      by (rule rec_step_app [OF app_step.restored Cons.prems])
    from Cons.IH [OF this] show ?thesis using Some by (simp add: app)
  qed
qed

text \<open>All that holds of the reachable states holds of the program with the names and addresses it starts with.\<close>

lemma main_reachable:
  "rec_reachable \<lparr>w_app = main_app clk now me iface port ips disk, w_starting = [], w_finishing = [], w_files = fs\<rparr>"
proof -
  let ?w = "\<lparr>w_app = app_new now me iface port, w_starting = [], w_finishing = [], w_files = fs\<rparr>"
  let ?g = "(app_new now me iface port)\<lparr>a_store := set_local_ips ips (store_default now)\<rparr>"
  have "rec_reachable (?w\<lparr>w_app := app_new now me iface port\<rparr>)" by (simp add: rec_reachable.start)
  from rec_step_app [OF app_step.addressed this, of ips] have "rec_reachable (?w\<lparr>w_app := ?g\<rparr>)"
    by (simp add: app_new_def)
  from restore_names_steps [OF this, of clk "dk_dns_names disk"]
  have named: "rec_reachable (?w\<lparr>w_app := ?g\<lparr>a_store := restore_names clk (dk_dns_names disk) (a_store ?g)\<rparr>\<rparr>)" .
  from rec_step_app [OF app_step.remembered named, of "restore_whois (dk_whois disk) (a_whois ?g)"]
  show ?thesis by (simp add: main_app_def restore_cache_def)
qed

section \<open>What the window is told about the capture\<close>

lemma capture_watch_run:
  "capture_watch checks h =
     (case List.find (\<lambda>c. c \<noteq> None) checks of
        Some (Some hint) \<Rightarrow> h\<lparr>ho_app := (ho_app h)\<lparr>a_capture_on := False\<rparr>, ho_capture_hint := Some hint\<rparr>
      | _ \<Rightarrow> h)"
  by (induction checks) (auto split: option.splits)

text \<open>The capture is shown as running exactly while it runs, and otherwise there is a reason.\<close>

lemma capture_shown:
  assumes "h = main_capture windows elevatable live checks (host_new (main_app clk now me iface port ips disk))"
  shows "a_capture_on (ho_app h) \<longleftrightarrow> (\<exists>pid. live = Inr pid) \<and> list_all (\<lambda>c. c = None) checks"
    and "ho_capture_hint h = None \<longleftrightarrow> a_capture_on (ho_app h)"
proof -
  have found: "List.find (\<lambda>c. c \<noteq> None) checks \<noteq> Some None" by (auto simp: find_Some_iff)
  have all: "list_all (\<lambda>c. c = None) checks \<longleftrightarrow> List.find (\<lambda>c. c \<noteq> None) checks = None"
    by (auto simp: list_all_iff find_None_iff)
  show "a_capture_on (ho_app h) \<longleftrightarrow> (\<exists>pid. live = Inr pid) \<and> list_all (\<lambda>c. c = None) checks"
    and "ho_capture_hint h = None \<longleftrightarrow> a_capture_on (ho_app h)"
    using found unfolding assms all main_capture_def capture_watch_run
    by (auto simp: capture_begin_def host_new_def main_app_def restore_cache_def app_new_def Let_def split: sum.split option.split)
qed

section \<open>The end of a recording at the end of the program\<close>

lemma exit_ends_recording:
  assumes "rec_reachable w" and "exit_begin now w = (calls, w')"
  shows "rec_reachable w' \<and> a_phase (w_app w') \<noteq> Recording
    \<and> (a_phase (w_app w) = Recording \<longrightarrow> (\<exists>t. calls = [ClosePages, FinishRecording t, SaveNames, StopCapture] \<and> w_finishing w' = [Stopping t]))"
proof (cases "a_phase (w_app w) = Recording")
  case True
  have "world_ok w" using rec_reachable_ok [OF assms(1)] .
  then have none: "w_finishing w = []" using True by (auto simp: world_ok_def Let_def)
  obtain t g where begun: "finish_begin False None now (w_app w) = (Inr t, g)"
    using True by (simp add: finish_begin_def Let_def)
  then have w': "calls = [ClosePages, FinishRecording t, SaveNames, StopCapture]" "w' = w\<lparr>w_app := g, w_finishing := Stopping t # w_finishing w\<rparr>"
    using assms(2) True by (simp_all add: exit_begin_def)
  have "a_phase g \<noteq> Recording" using begun True by (auto simp: finish_begin_def Let_def record_dump_def)
  then show ?thesis using w' none rec_reachable.step [OF assms(1) rec_step.stopped [OF begun]] by simp
next
  case False
  then show ?thesis using assms by (auto simp: exit_begin_def)
qed

text \<open>
  A recording that another task is just finishing is not waited for: such a state is reachable, and at
  the end of the program nothing is done for it.
\<close>

lemma exit_skips_finishing:
  "\<exists>w t. rec_reachable w \<and> a_phase (w_app w) = Finishing \<and> w_finishing w = [Stopping t]
     \<and> exit_begin now w = ([ClosePages, SaveNames, StopCapture], w)"
proof -
  have ok: "world_ok sample_recording" using rec_reachable_ok [OF sample_recording_reachable] .
  then have begun: "a_phase (w_app sample_recording) = Recording" "w_finishing sample_recording = []"
    using sample_recording_meta by (auto simp: world_ok_def Let_def split: DumpPhase.splits)
  then obtain t g where stop: "finish_begin False None 6 (w_app sample_recording) = (Inr t, g)"
    by (simp add: finish_begin_def Let_def)
  then have "a_phase g = Finishing" using begun by (auto simp: finish_begin_def Let_def record_dump_def)
  with rec_reachable.step [OF sample_recording_reachable rec_step.stopped [OF stop]] begun(2) show ?thesis
    by (intro exI [of _ "sample_recording\<lparr>w_app := g, w_finishing := [Stopping t]\<rparr>"] exI [of _ t]) (simp add: exit_begin_def)
qed

end
