(* ===== verification/Frame_Layers.thy ===== *)
theory Frame_Layers
  imports Pcap
begin

text \<open>
  The layers around a segment or datagram, as the standards lay them out: Ethernet (IEEE 802.3, with up to
  two VLAN tags of 802.1Q), the cooked headers of Linux captures, or none; IPv4 with its options (RFC 791) or
  IPv6 with its extension headers (RFC 8200, and RFC 4302 for the authentication header). Shown: the parser
  sees through all of them to exactly the transport layer.
\<close>

section \<open>The link layer\<close>

type_synonym vlan_tag = "u16 \<times> u16"

datatype link_layer = Ethernet bytes "vlan_tag list" | Cooked bytes "vlan_tag list" | Cooked2 bytes | Bare u16

definition tags_ok :: "vlan_tag list \<Rightarrow> bool" where
  "tags_ok tags \<longleftrightarrow> length tags \<le> 2 \<and> list_all (\<lambda>t. fst t = 0x8100 \<or> fst t = 0x88a8) tags"

fun link_ok :: "link_layer \<Rightarrow> bool" where
  "link_ok (Ethernet macs tags) \<longleftrightarrow> length macs = 12 \<and> tags_ok tags"
| "link_ok (Cooked pre tags) \<longleftrightarrow> length pre = 14 \<and> tags_ok tags"
| "link_ok (Cooked2 rest) \<longleftrightarrow> length rest = 18"
| "link_ok (Bare lt) \<longleftrightarrow> lt = 101 \<or> lt = 12 \<or> lt = 14"

fun link_type :: "link_layer \<Rightarrow> u16" where
  "link_type (Ethernet macs tags) = 1"
| "link_type (Cooked pre tags) = 113"
| "link_type (Cooked2 rest) = 276"
| "link_type (Bare lt) = lt"

fun first_type :: "vlan_tag list \<Rightarrow> u16 \<Rightarrow> u16" where
  "first_type [] et = et"
| "first_type (t # ts) et = fst t"

fun enc_tags :: "vlan_tag list \<Rightarrow> u16 \<Rightarrow> bytes" where
  "enc_tags [] et = []"
| "enc_tags (t # ts) et = be_bytes 2 (unat (snd t)) @ be_bytes 2 (unat (first_type ts et)) @ enc_tags ts et"

fun enc_link :: "link_layer \<Rightarrow> u16 \<Rightarrow> bytes \<Rightarrow> bytes" where
  "enc_link (Ethernet macs tags) et x = macs @ be_bytes 2 (unat (first_type tags et)) @ enc_tags tags et @ x"
| "enc_link (Cooked pre tags) et x = pre @ be_bytes 2 (unat (first_type tags et)) @ enc_tags tags et @ x"
| "enc_link (Cooked2 rest) et x = be_bytes 2 (unat et) @ rest @ x"
| "enc_link (Bare lt) et x = x"

lemma be16_field: "drop p d = be_bytes 2 (unat w) @ r \<Longrightarrow> be16 d p = Some w" for w :: u16
proof -
  assume "drop p d = be_bytes 2 (unat w) @ r"
  then have "drop p d = word_of_nat (unat w div 256) # word_of_nat (unat w) # r" by (simp only: be_bytes_2 append.simps)
  from be16_cursor [OF this] show ?thesis by (simp only: u16_be_word)
qed

lemma vlan_enc:
  assumes "list_all (\<lambda>t. fst t = 0x8100 \<or> fst t = 0x88a8) tags" "length tags \<le> n" "et = 0x0800 \<or> et = 0x86DD"
    and "drop off d = enc_tags tags et @ x"
  shows "vlan_tags n d (first_type tags et) off = Got (et, off + 4 * length tags) \<and> drop (off + 4 * length tags) d = x"
  using assms
proof (induction tags arbitrary: n off)
  case Nil
  then show ?case by (cases n) auto
next
  case (Cons t ts)
  then obtain m where n: "n = Suc m" by (cases n) auto
  have tci: "drop (off + 2) d = be_bytes 2 (unat (first_type ts et)) @ enc_tags ts et @ x"
    using drop_cursor [of off d "be_bytes 2 (unat (snd t))"] Cons.prems(4) by simp
  then have "drop (off + 4) d = enc_tags ts et @ x" using drop_cursor [OF tci] by (simp add: numeral_eq_Suc)
  from Cons.IH [OF _ _ Cons.prems(3) this, of m] Cons.prems be16_field [OF tci] show ?case
    by (auto simp: n algebra_simps)
qed

lemma link_tagged:
  assumes head: "link_header lt d = Got (first_type tags et, off)" and at: "drop off d = enc_tags tags et @ x" and len: "off \<le> length d"
    and ok: "tags_ok tags" "et = 0x0800 \<or> et = 0x86DD"
  shows "parse_link_state env lt d ps = (if et = 0x0800 then parse_ipv4 env x ps else parse_ipv6 env x ps)"
proof -
  let ?off = "off + 4 * length tags"
  have tags: "vlan_tags 2 d (first_type tags et) off = Got (et, ?off)" "drop ?off d = x"
    using vlan_enc [OF _ _ ok(2) at, of 2] ok(1) by (auto simp: tags_ok_def)
  have "length (enc_tags tags et) = 4 * length tags" by (induction tags) simp_all
  then have "?off \<le> length d" using arg_cong [OF at, of length] len by simp
  then have "get_from d ?off = Some x" using tags(2) by (simp add: get_from_def)
  then show ?thesis using ok(2) by (auto simp: parse_link_state_def head tags(1) simp del: get_from_Some)
qed

lemma link_enc:
  assumes ok: "link_ok l" "et = 0x0800 \<or> et = 0x86DD" and x: "x \<noteq> []" "et = 0x86DD \<longleftrightarrow> drop_bit 4 (hd x) = 6"
  shows "parse_link_state env (link_type l) (enc_link l et x) ps = (if et = 0x0800 then parse_ipv4 env x ps else parse_ipv6 env x ps)"
proof (cases l)
  case (Ethernet macs tags)
  let ?d = "enc_link l et x"
  have at: "drop 12 ?d = be_bytes 2 (unat (first_type tags et)) @ enc_tags tags et @ x" using ok Ethernet by simp
  have "drop (12 + 2) ?d = enc_tags tags et @ x" using drop_cursor [OF at] by simp
  then have "drop 14 ?d = enc_tags tags et @ x" by simp
  moreover have "link_header 1 ?d = Got (first_type tags et, 14)" by (simp add: link_header_def be16_field [OF at])
  ultimately show ?thesis using link_tagged [of 1 ?d tags et 14 x] ok Ethernet by simp
next
  case (Cooked pre tags)
  let ?d = "enc_link l et x"
  have at: "drop 14 ?d = be_bytes 2 (unat (first_type tags et)) @ enc_tags tags et @ x" using ok Cooked by simp
  have "drop (14 + 2) ?d = enc_tags tags et @ x" using drop_cursor [OF at] by simp
  then have "drop 16 ?d = enc_tags tags et @ x" by simp
  moreover have "link_header 113 ?d = Got (first_type tags et, 16)" by (simp add: link_header_def be16_field [OF at])
  ultimately show ?thesis using link_tagged [of 113 ?d tags et 16 x] ok Cooked by simp
next
  case (Cooked2 rest)
  let ?d = "enc_link l et x"
  have at: "drop 0 ?d = be_bytes 2 (unat et) @ rest @ x" using Cooked2 by simp
  have "link_header 276 ?d = Got (first_type [] et, 20)" using be16_field [OF at] by (simp add: link_header_def)
  moreover have "drop 20 ?d = enc_tags [] et @ x" using ok Cooked2 by simp
  ultimately show ?thesis using link_tagged [of 276 ?d "[]" et 20 x] ok Cooked2 by (simp add: tags_ok_def)
next
  case (Bare lt)
  obtain b y where "x = b # y" using x(1) by (cases x) auto
  then have "link_header lt x = Got (first_type [] et, 0)"
    using ok x(2) Bare by (auto simp: link_header_def get_at_def)
  then show ?thesis using link_tagged [of lt x "[]" et 0 x] ok Bare by (simp add: tags_ok_def)
qed

section \<open>IPv4\<close>

record ip4_layer =
  i4_tos :: u8
  i4_ident :: u16
  i4_frag :: u16
  i4_ttl :: u8
  i4_csum :: u16
  i4_options :: bytes

text \<open>The options are padded to words, at most ten of them; a later fragment has no transport header.\<close>

definition ip4_ok :: "ip4_layer \<Rightarrow> bool" where
  "ip4_ok h \<longleftrightarrow> i4_frag h AND 0x1fff = 0 \<and> (\<exists>k \<le> 10. length (i4_options h) = 4 * k)"

definition enc_ip4 :: "ip4_layer \<Rightarrow> u8 \<Rightarrow> bytes \<Rightarrow> bytes \<Rightarrow> bytes \<Rightarrow> bytes" where
  "enc_ip4 h proto src dst rest =
     [word_of_nat (0x45 + length (i4_options h) div 4), i4_tos h] @ be_bytes 2 (20 + length (i4_options h) + length rest)
       @ be_bytes 2 (unat (i4_ident h)) @ be_bytes 2 (unat (i4_frag h)) @ [i4_ttl h, proto] @ be_bytes 2 (unat (i4_csum h))
       @ src @ dst @ i4_options h @ rest"

lemma ihl_word:
  assumes "k \<le> 10"
  shows "drop_bit 4 (word_of_nat (0x45 + k) :: u8) = 4" "unat ((word_of_nat (0x45 + k) :: u8) AND 0x0F) * 4 = 20 + 4 * k"
proof -
  have "k = 0 \<or> k = 1 \<or> k = 2 \<or> k = 3 \<or> k = 4 \<or> k = 5 \<or> k = 6 \<or> k = 7 \<or> k = 8 \<or> k = 9 \<or> k = 10"
    using assms by presburger
  then show "drop_bit 4 (word_of_nat (0x45 + k) :: u8) = 4" "unat ((word_of_nat (0x45 + k) :: u8) AND 0x0F) * 4 = 20 + 4 * k" by auto
qed

lemma parse_ip4:
  assumes ok: "ip4_ok h" and small: "length (i4_options h) + length rest + 20 < 65536"
  shows "parse_ipv4 env (enc_ip4 h proto [a, b, c, e] [a', b', c', e'] rest @ pad) ps
    = parse_l4 env proto (V4 a b c e) (V4 a' b' c' e') (word_of_nat (20 + length (i4_options h) + length rest)) rest ps"
proof -
  obtain k where k: "k \<le> 10" "length (i4_options h) = 4 * k" using ok by (auto simp: ip4_ok_def)
  let ?ip = "enc_ip4 h proto [a, b, c, e] [a', b', c', e'] rest" and ?first = "word_of_nat (0x45 + k) :: u8"
  let ?n = "20 + length (i4_options h) + length rest"
  let ?total = "u16_be (word_of_nat (?n div 256)) (word_of_nat ?n)"
  have ip: "?ip = [?first, i4_tos h, word_of_nat (?n div 256), word_of_nat ?n, word_of_nat (unat (i4_ident h) div 256),
      word_of_nat (unat (i4_ident h)), word_of_nat (unat (i4_frag h) div 256), word_of_nat (unat (i4_frag h)), i4_ttl h, proto,
      word_of_nat (unat (i4_csum h) div 256), word_of_nat (unat (i4_csum h)), a, b, c, e, a', b', c', e'] @ i4_options h @ rest"
    using k(2) by (simp only: enc_ip4_def be_bytes_2 append.simps) simp
  have fields: "get_at (?ip @ pad) 0 = Some ?first" "be16 (?ip @ pad) 6 = Some (i4_frag h)" "be16 (?ip @ pad) 2 = Some ?total"
    unfolding ip be16_eval get_at_def by (simp_all add: u16_be_word_cast)
  have total: "unat ?total = ?n" using small by (intro u16_be_bytes) simp
  have len: "length ?ip = ?n" unfolding ip by simp
  have cut: "slice (?ip @ pad) 0 (min (length (?ip @ pad)) (unat ?total)) = Got ?ip"
    unfolding total using len by simp
  have inner: "get_at ?ip 9 = Some proto" "v4_at ?ip 12 = Got (V4 a b c e)" "v4_at ?ip 16 = Got (V4 a' b' c' e')"
    unfolding ip get_at_def v4_at_def by (simp_all add: idx_def)
  have "drop 20 ?ip = i4_options h @ rest" unfolding ip by simp
  then have "drop (20 + 4 * k) ?ip = rest" using drop_cursor k(2) by metis
  then have payload: "get_from ?ip (20 + 4 * k) = Some rest" using len k(2) by (simp add: get_from_def)
  have cast: "ucast ?total = (word_of_nat ?n :: u32)"
  proof -
    have "(ucast ?total :: u32) = word_of_nat (unat ?total)" by simp
    then show ?thesis by (simp only: total)
  qed
  show ?thesis
    unfolding parse_ipv4_def fields of_option_simps andthen.simps Let_def ihl_word [OF k(1)]
    using ok total len cut inner payload k cast by (simp add: ip4_ok_def del: get_at_Some get_from_Some slice_Got)
qed

section \<open>IPv6\<close>

text \<open>Options and routing headers, the authentication header, and the header of a first or only fragment.\<close>

datatype ext6 = OptionsExt u8 u8 bytes | AuthExt u8 bytes | FragmentExt u8 u16 bytes

fun ext6_kind :: "ext6 \<Rightarrow> u8" where
  "ext6_kind (OptionsExt kind n body) = kind"
| "ext6_kind (AuthExt n body) = 51"
| "ext6_kind (FragmentExt r f ident) = 44"

fun ext6_ok :: "ext6 \<Rightarrow> bool" where
  "ext6_ok (OptionsExt kind n body) \<longleftrightarrow> (kind = 0 \<or> kind = 43 \<or> kind = 60) \<and> length body = 8 * unat n + 6"
| "ext6_ok (AuthExt n body) \<longleftrightarrow> length body = 4 * unat n + 6"
| "ext6_ok (FragmentExt r f ident) \<longleftrightarrow> f AND 0xfff8 = 0 \<and> length ident = 4"

fun enc_ext6 :: "ext6 \<Rightarrow> u8 \<Rightarrow> bytes" where
  "enc_ext6 (OptionsExt kind n body) next = [next, n] @ body"
| "enc_ext6 (AuthExt n body) next = [next, n] @ body"
| "enc_ext6 (FragmentExt r f ident) next = [next, r] @ be_bytes 2 (unat f) @ ident"

fun first_kind :: "ext6 list \<Rightarrow> u8 \<Rightarrow> u8" where
  "first_kind [] proto = proto"
| "first_kind (e # es) proto = ext6_kind e"

fun enc_exts6 :: "ext6 list \<Rightarrow> u8 \<Rightarrow> bytes" where
  "enc_exts6 [] proto = []"
| "enc_exts6 (e # es) proto = enc_ext6 e (first_kind es proto) @ enc_exts6 es proto"

lemma ext6_step:
  assumes ok: "ext6_ok e" and d: "drop off d = enc_ext6 e next @ r"
  shows "ipv6_headers (Suc n) env d (ext6_kind e) off src dst nbytes ps
    = ipv6_headers n env d next (off + length (enc_ext6 e next)) src dst nbytes ps"
proof -
  obtain b rest where e: "enc_ext6 e next = next # b # rest" by (cases e) auto
  have len: "off + length (enc_ext6 e next) \<le> length d" using arg_cong [OF d, of length] e by simp
  have at0: "get_at d off = Some next" using get_at_cursor [of off d "next" "b # rest @ r"] d e by simp
  have "drop (off + 1) d = b # rest @ r" using drop_cursor [of off d "[next]"] d e by simp
  then have at1: "get_at d (off + 1) = Some b" by (rule get_at_cursor)
  have no: "\<not> length d < off + length (enc_ext6 e next)" using len by simp
  show ?thesis
  proof (cases e)
    case (OptionsExt kind m body)
    then have "b = m" "length (enc_ext6 e next) = (unat m + 1) * 8" using ok e by simp_all
    then show ?thesis using OptionsExt ok at0 at1 no by (auto simp del: get_at_Some)
  next
    case (AuthExt m body)
    then have "b = m" "length (enc_ext6 e next) = (unat m + 2) * 4" using ok e by simp_all
    then show ?thesis using AuthExt ok at0 at1 no by (auto simp del: get_at_Some)
  next
    case (FragmentExt r' f ident)
    have "drop (off + 2) d = be_bytes 2 (unat f) @ ident @ r" using drop_cursor [of off d "[next, r']"] d FragmentExt by simp
    then have f: "be16 d (off + 2) = Some f" by (rule be16_field)
    have "length (enc_ext6 e next) = 8" using ok FragmentExt by simp
    then show ?thesis using FragmentExt ok at0 f no by (auto simp del: get_at_Some)
  qed
qed

lemma exts6_enc:
  assumes "list_all ext6_ok es" "length es < n" "proto = 6 \<or> proto = 17" "drop off d = enc_exts6 es proto @ x" "off \<le> length d"
  shows "ipv6_headers n env d (first_kind es proto) off src dst nbytes ps = parse_l4 env proto src dst nbytes x ps"
  using assms
proof (induction es arbitrary: n off)
  case Nil
  then obtain m where "n = Suc m" by (cases n) auto
  moreover have "get_from d off = Some x" using Nil.prems by (simp add: get_from_def)
  ultimately show ?case using Nil.prems(3) by (auto simp del: get_from_Some)
next
  case (Cons e es)
  then obtain m where n: "n = Suc m" by (cases n) auto
  let ?enc = "enc_ext6 e (first_kind es proto)"
  have d: "drop off d = ?enc @ enc_exts6 es proto @ x" using Cons.prems(4) by simp
  have "off + length ?enc \<le> length d" using arg_cong [OF d, of length] Cons.prems(5) by simp
  from Cons.IH [OF _ _ Cons.prems(3) drop_cursor [OF d] this, of m] ext6_step [OF _ d, of m env src dst nbytes ps] Cons.prems(1,2)
  show ?case by (simp add: n del: ipv6_headers.simps)
qed

record ip6_layer =
  i6_first :: u8
  i6_flow :: bytes
  i6_hops :: u8
  i6_exts :: "ext6 list"

definition ip6_ok :: "ip6_layer \<Rightarrow> bool" where
  "ip6_ok h \<longleftrightarrow> drop_bit 4 (i6_first h) = 6 \<and> length (i6_flow h) = 3 \<and> length (i6_exts h) < 8 \<and> list_all ext6_ok (i6_exts h)"

definition ip6_size :: "ip6_layer \<Rightarrow> u8 \<Rightarrow> bytes \<Rightarrow> nat" where
  "ip6_size h proto rest = length (enc_exts6 (i6_exts h) proto) + length rest"

definition enc_ip6 :: "ip6_layer \<Rightarrow> u8 \<Rightarrow> 128 word \<Rightarrow> 128 word \<Rightarrow> bytes \<Rightarrow> bytes" where
  "enc_ip6 h proto src dst rest =
     [i6_first h] @ i6_flow h @ be_bytes 2 (ip6_size h proto rest) @ [first_kind (i6_exts h) proto, i6_hops h]
       @ be_bytes 16 (unat src) @ be_bytes 16 (unat dst) @ enc_exts6 (i6_exts h) proto @ rest"

lemma v6_octets: "v6_of_octets (be_bytes 16 (unat v)) = V6 v" for v :: "128 word"
  using unsigned_less [of v, where ?'a = nat] by (simp add: v6_of_octets_def be_bytes_def be_nat_rev le_nat_le_bytes)

lemma parse_ip6:
  assumes ok: "ip6_ok h" "proto = 6 \<or> proto = 17" and small: "ip6_size h proto rest < 65536"
  shows "parse_ipv6 env (enc_ip6 h proto src dst rest @ pad) ps
    = parse_l4 env proto (V6 src) (V6 dst) (word_of_nat (40 + ip6_size h proto rest)) rest ps"
proof -
  let ?n = "ip6_size h proto rest" and ?ip = "enc_ip6 h proto src dst rest"
  let ?d = "?ip @ pad" and ?len = "word_of_nat (ip6_size h proto rest) :: u16"
  let ?body = "enc_exts6 (i6_exts h) proto @ rest"
  obtain x y z where flow: "i6_flow h = [x, y, z]" using ok(1) by (auto simp: ip6_ok_def numeral_3_eq_3 length_Suc_conv)
  have n: "unat ?len = ?n" using small by (simp add: unat_of_nat)
  have ip: "?ip = [i6_first h, x, y, z] @ be_bytes 2 (unat ?len) @ [first_kind (i6_exts h) proto, i6_hops h]
       @ be_bytes 16 (unat src) @ be_bytes 16 (unat dst) @ ?body"
    by (simp add: enc_ip6_def flow n)
  have len: "length ?ip = 40 + ?n" unfolding ip by (simp add: ip6_size_def)
  have at4: "drop 4 ?d = be_bytes 2 (unat ?len) @ [first_kind (i6_exts h) proto, i6_hops h]
       @ be_bytes 16 (unat src) @ be_bytes 16 (unat dst) @ ?body @ pad" unfolding ip by simp
  have at6: "drop (4 + 2) ?d = first_kind (i6_exts h) proto # i6_hops h # be_bytes 16 (unat src) @ be_bytes 16 (unat dst) @ ?body @ pad"
    using drop_cursor [OF at4] by simp
  have first: "idx ?d 0 = Got (i6_first h)" unfolding ip by (simp add: idx_def)
  have plen: "be16 ?d 4 = Some ?len" by (rule be16_field [OF at4])
  have kind: "get_at ?d 6 = Some (first_kind (i6_exts h) proto)" using get_at_cursor [OF at6] by simp
  have cut: "slice ?d 0 (min (length ?d) (40 + unat ?len)) = Got ?ip" unfolding n using len by simp
  have srcs: "slice ?ip 8 24 = Got (be_bytes 16 (unat src))" "slice ?ip 24 40 = Got (be_bytes 16 (unat dst))"
    unfolding ip by (simp_all add: slice_def be_bytes_2)
  have at40: "drop 40 ?ip = enc_exts6 (i6_exts h) proto @ rest" unfolding ip by (simp add: be_bytes_2)
  have cast: "ucast ?len + 40 = (word_of_nat (40 + ?n) :: u32)"
  proof -
    have "(ucast ?len :: u32) = word_of_nat (unat ?len)" by simp
    then show ?thesis by (simp only: n) simp
  qed
  have "ipv6_headers 8 env ?ip (first_kind (i6_exts h) proto) 40 (V6 src) (V6 dst) (ucast ?len + 40) ps
      = parse_l4 env proto (V6 src) (V6 dst) (ucast ?len + 40) rest ps"
    using ok(1) len by (intro exts6_enc ok(2) at40) (auto simp: ip6_ok_def)
  moreover have "\<not> length ?d < 40" using len by simp
  moreover have "drop_bit 4 (i6_first h) = 6" using ok(1) by (simp add: ip6_ok_def)
  ultimately show ?thesis
    unfolding parse_ipv6_def first plen kind andthen.simps of_option_simps cut srcs v6_octets by (simp only: if_False cast) simp
qed

section \<open>All layers\<close>

datatype net_layer = Ip4 ip4_layer | Ip6 ip6_layer

record layers =
  la_link :: link_layer
  la_net :: net_layer
  la_pad :: bytes

text \<open>The network layer fits the addresses, and the packet its length field.\<close>

fun net_ok :: "net_layer \<Rightarrow> IpAddr \<Rightarrow> IpAddr \<Rightarrow> u8 \<Rightarrow> bytes \<Rightarrow> bool" where
  "net_ok (Ip4 h) (V4 a b c e) (V4 a' b' c' e') proto rest \<longleftrightarrow> ip4_ok h \<and> length (i4_options h) + length rest + 20 < 65536"
| "net_ok (Ip6 h) (V6 s) (V6 d) proto rest \<longleftrightarrow> ip6_ok h \<and> ip6_size h proto rest < 65536"
| "net_ok _ _ _ _ _ \<longleftrightarrow> False"

fun enc_net :: "net_layer \<Rightarrow> IpAddr \<Rightarrow> IpAddr \<Rightarrow> u8 \<Rightarrow> bytes \<Rightarrow> bytes" where
  "enc_net (Ip4 h) (V4 a b c e) (V4 a' b' c' e') proto rest = enc_ip4 h proto [a, b, c, e] [a', b', c', e'] rest"
| "enc_net (Ip6 h) (V6 s) (V6 d) proto rest = enc_ip6 h proto s d rest"
| "enc_net _ _ _ _ _ = []"

fun net_type :: "net_layer \<Rightarrow> u16" where
  "net_type (Ip4 h) = 0x0800"
| "net_type (Ip6 h) = 0x86DD"

fun net_size :: "net_layer \<Rightarrow> u8 \<Rightarrow> bytes \<Rightarrow> nat" where
  "net_size (Ip4 h) proto rest = 20 + length (i4_options h) + length rest"
| "net_size (Ip6 h) proto rest = 40 + ip6_size h proto rest"

definition layers_ok :: "layers \<Rightarrow> IpAddr \<Rightarrow> IpAddr \<Rightarrow> u8 \<Rightarrow> bytes \<Rightarrow> bool" where
  "layers_ok la src dst proto rest \<longleftrightarrow> link_ok (la_link la) \<and> net_ok (la_net la) src dst proto rest \<and> (proto = 6 \<or> proto = 17)"

definition enc_layers :: "layers \<Rightarrow> IpAddr \<Rightarrow> IpAddr \<Rightarrow> u8 \<Rightarrow> bytes \<Rightarrow> bytes" where
  "enc_layers la src dst proto rest = enc_link (la_link la) (net_type (la_net la)) (enc_net (la_net la) src dst proto rest @ la_pad la)"

lemma first_nibbles:
  "ip4_ok h \<Longrightarrow> drop_bit 4 (hd (enc_ip4 h proto src dst rest @ pad)) = 4"
  "drop_bit 4 (hd (enc_ip6 h' proto s d rest @ pad)) = drop_bit 4 (i6_first h')"
  using ihl_word(1) by (auto simp: ip4_ok_def enc_ip4_def enc_ip6_def)

text \<open>A frame is parsed to exactly the transport layer in it, and what follows in the frame is left out.\<close>

lemma layers_carry:
  assumes "layers_ok la src dst proto rest"
  shows "parse_link_live env (link_type (la_link la)) (enc_layers la src dst proto rest) ps
     = parse_l4 env proto src dst (word_of_nat (net_size (la_net la) proto rest)) rest ps"
proof (cases "la_net la")
  case (Ip4 h)
  then obtain a b c e a' b' c' e' where q: "src = V4 a b c e" "dst = V4 a' b' c' e'" and h: "ip4_ok h" "length (i4_options h) + length rest + 20 < 65536"
    using assms by (cases src; cases dst) (auto simp: layers_ok_def)
  let ?x = "enc_ip4 h proto [a, b, c, e] [a', b', c', e'] rest @ la_pad la"
  have "?x \<noteq> []" "drop_bit 4 (hd ?x) = 4" using first_nibbles(1) [OF h(1)] by (auto simp: enc_ip4_def)
  then show ?thesis
    using link_enc [where l = "la_link la" and et = "0x0800" and x = ?x and env = env and ps = ps] parse_ip4 [OF h] assms Ip4 q
    by (simp add: parse_link_live_def enc_layers_def layers_ok_def)
next
  case (Ip6 h)
  then obtain s d where q: "src = V6 s" "dst = V6 d" and h: "ip6_ok h" "ip6_size h proto rest < 65536"
    using assms by (cases src; cases dst) (auto simp: layers_ok_def)
  let ?x = "enc_ip6 h proto s d rest @ la_pad la"
  have "?x \<noteq> []" "drop_bit 4 (hd ?x) = 6" using first_nibbles(2) h(1) by (auto simp: enc_ip6_def ip6_ok_def)
  then show ?thesis
    using link_enc [where l = "la_link la" and et = "0x86DD" and x = ?x and env = env and ps = ps] parse_ip6 [OF h(1) _ h(2)] assms Ip6 q
    by (simp add: parse_link_live_def enc_layers_def layers_ok_def)
qed

lemma layers_small:
  assumes "layers_ok la src dst proto rest"
  shows "length rest < 65536"
  using assms by (cases "(la_net la, src, dst, proto, rest)" rule: net_ok.cases) (auto simp: layers_ok_def ip6_size_def)

lemma udp_layers:
  assumes "layers_ok la src dst 17 (enc_udp sport dport csum payload)"
  shows "parse_link_live env (link_type (la_link la)) (enc_layers la src dst 17 (enc_udp sport dport csum payload)) ps
     = andthen (udp_sni env src sport payload ps) (\<lambda>r.
         Got (add_dns \<lparr>pk_proto = Udp, pk_src = src, pk_sport = sport, pk_dst = dst, pk_dport = dport,
           pk_bytes = word_of_nat (net_size (la_net la) 17 (enc_udp sport dport csum payload)), pk_sni = fst r, pk_dns_addrs = []\<rparr> payload,
           snd r))"
proof -
  have "length payload + 8 < 65536" using layers_small [OF assms] by (simp add: enc_udp_def)
  then show ?thesis unfolding layers_carry [OF assms] by (simp add: parse_l4_def l4_fields_udp Let_def)
qed

text \<open>A frame of Ethernet and IPv4 without tags and options.\<close>

definition plain_layers :: "bytes \<Rightarrow> layers" where
  "plain_layers pad = \<lparr>la_link = Ethernet (replicate 12 2) [],
     la_net = Ip4 \<lparr>i4_tos = 0, i4_ident = 7, i4_frag = 0x4000, i4_ttl = 64, i4_csum = 0, i4_options = []\<rparr>, la_pad = pad\<rparr>"

lemma plain_layers_ok:
  "length rest + 20 < 65536 \<Longrightarrow> proto = 6 \<or> proto = 17 \<Longrightarrow> layers_ok (plain_layers pad) (V4 a b c e) (V4 a' b' c' e') proto rest"
  by (simp add: layers_ok_def plain_layers_def tags_ok_def ip4_ok_def)

text \<open>IPv6 behind a VLAN tag, with a header of padding options.\<close>

definition tagged_layers :: layers where
  "tagged_layers = \<lparr>la_link = Ethernet (replicate 12 2) [(0x8100, 5)],
     la_net = Ip6 \<lparr>i6_first = 0x60, i6_flow = [0, 0, 1], i6_hops = 64, i6_exts = [OptionsExt 0 0 [1, 4, 0, 0, 0, 0]]\<rparr>, la_pad = []\<rparr>"

lemma tagged_layers_ok:
  "length rest < 65528 \<Longrightarrow> proto = 6 \<or> proto = 17 \<Longrightarrow> layers_ok tagged_layers (V6 s) (V6 d) proto rest"
  by (simp add: layers_ok_def tagged_layers_def tags_ok_def ip6_ok_def ip6_size_def)

end
