(* ===== verification/Names_Shown.thy ===== *)
theory Names_Shown
  imports Names_Facts Frame_Layers Ip_Text
begin

text \<open>
  From the wire to the window: the answer of a DNS server, laid out by RFC 1035 in a UDP datagram and
  whatever layers carry it, and the name of the connections to the address it gives. The theory
  composes the frame parser, the DNS parser, the packet task and the pass over the names.
\<close>

section \<open>A response as RFC 1035 lays it out\<close>

definition enc_name :: "bytes list \<Rightarrow> bytes" where
  "enc_name labels = concat (map (\<lambda>l. word_of_nat (length l) # l) labels) @ [0]"

text \<open>An address record of the queried name, which stands at offset 12.\<close>

definition enc_a_record :: "u8 \<times> u8 \<times> u8 \<times> u8 \<Rightarrow> u32 \<Rightarrow> bytes" where
  "enc_a_record ip ttl =
     (case ip of (a, b, c, e) \<Rightarrow> [0xC0, 12, 0, 1, 0, 1] @ be_bytes 4 (unat ttl) @ [0, 4, a, b, c, e])"

definition enc_response :: "u16 \<Rightarrow> u16 \<Rightarrow> bytes list \<Rightarrow> u8 \<times> u8 \<times> u8 \<times> u8 \<Rightarrow> u32 \<Rightarrow> bytes" where
  "enc_response ident flags labels ip ttl =
     be_bytes 2 (unat ident) @ be_bytes 2 (unat flags) @ [0, 1, 0, 1, 0, 0, 0, 0]
       @ enc_name labels @ [0, 1, 0, 1] @ enc_a_record ip ttl"

definition labels_ok :: "bytes list \<Rightarrow> bool" where
  "labels_ok labels \<longleftrightarrow> (\<forall>l \<in> set labels. l \<noteq> [] \<and> length l \<le> 63) \<and> wire_size labels \<le> MAX_DNS_NAME \<and> length labels < 127"

lemma length_enc_name: "length (enc_name labels) = wire_size labels"
  by (induction labels) (simp_all add: enc_name_def wire_size_def)

lemma enc_name_Cons: "enc_name (l # labels) = word_of_nat (length l) # l @ enc_name labels"
  by (simp add: enc_name_def)

lemma name_at_enc:
  "\<forall>l \<in> set labels. l \<noteq> [] \<and> length l \<le> 63 \<Longrightarrow> drop p d = enc_name labels @ r \<Longrightarrow> p \<le> length d \<Longrightarrow>
     name_at d p labels (p + wire_size labels) (Suc (length labels))"
proof (induction labels arbitrary: p)
  case Nil
  then have "get_at d p = Some 0" by (intro get_at_cursor [of _ _ _ r]) (simp add: enc_name_def)
  from name_at.at_root [OF this] show ?case by (simp add: wire_size_def)
next
  case (Cons l labels)
  let ?len = "word_of_nat (length l) :: u8"
  have small: "length l \<le> 63" "l \<noteq> []" using Cons.prems(1) by auto
  then have len: "unat ?len = length l" by (simp add: unat_of_nat_u8)
  have at: "drop p d = ?len # l @ enc_name labels @ r" using Cons.prems(2) by (simp add: enc_name_Cons)
  then have "p < length d" by (metis drop_eq_Nil list.distinct(1) not_le)
  have rest: "drop (p + 1) d = l @ enc_name labels @ r" using drop_cursor [of p d "[?len]"] at by simp
  have label: "get_range d (p + 1) (p + 1 + unat ?len) = Some l"
    unfolding len using rest \<open>p < length d\<close> by (intro get_range_cursor) simp_all
  have "drop (p + 1 + length l) d = enc_name labels @ r" using drop_cursor [OF rest] .
  moreover have "p + 1 + length l \<le> length d" using label len by auto
  ultimately have rec: "name_at d (p + 1 + unat ?len) labels (p + 1 + unat ?len + wire_size labels) (Suc (length labels))"
    unfolding len using Cons.prems(1) by (intro Cons.IH) simp_all
  have "0 < ?len" "?len \<le> 63" using small len by (simp_all add: word_less_nat_alt word_le_nat_alt)
  from name_at.at_label [OF get_at_cursor [OF at] this label rec]
  have "name_at d p (l # labels) (p + 1 + unat ?len + wire_size labels) (Suc (Suc (length labels)))" .
  moreover have "p + wire_size (l # labels) = p + 1 + unat ?len + wire_size labels" unfolding len by (simp add: wire_size_def)
  ultimately show ?case by (simp add: ac_simps)
qed

lemma dns_name_enc:
  assumes "labels_ok labels" "drop p d = enc_name labels @ r" "p \<le> length d"
  shows "dns_name d p = Some (dotted [] labels, p + wire_size labels)"
proof -
  have "name_at d p labels (p + wire_size labels) (Suc (length labels))"
    using assms by (intro name_at_enc) (auto simp: labels_ok_def)
  then show ?thesis using assms(1) unfolding dns_name_iff labels_ok_def by (intro exI conjI) auto
qed

lemma dns_name_pointer:
  assumes "labels_ok labels" "drop 12 d = enc_name labels @ r" "12 \<le> length d" "drop p d = 0xC0 # 12 # r'"
  shows "dns_name d p = Some (dotted [] labels, p + 2)"
proof -
  have name: "name_at d 12 labels (12 + wire_size labels) (Suc (length labels))"
    using assms by (intro name_at_enc) (auto simp: labels_ok_def)
  have "drop (p + 1) d = 12 # r'" using drop_cursor [of p d "[0xC0]"] assms(4) by simp
  from name_at.at_pointer [OF get_at_cursor [OF assms(4)] _ get_at_cursor [OF this], of labels] name
  have "name_at d p labels (p + 2) (Suc (Suc (length labels)))" by simp
  then show ?thesis using assms(1) unfolding dns_name_iff labels_ok_def by (intro exI conjI) auto
qed

lemma dns_rr_at_enc:
  assumes "dns_name d p0 = Some (q, p)" and "drop p d = [0, 1, 0, 1] @ be_bytes 4 (unat ttl) @ [0, 4, a, b, c, e] @ r" and "p \<le> length d"
  shows "dns_rr_at d p0 = Some \<lparr>rr_owner = q, rr_type = 1, rr_ttl = ttl, rr_pos = p + 10, rr_data = [a, b, c, e]\<rparr>"
proof -
  have four: "length (be_bytes 4 n) = 4" for n by (simp add: be_bytes_def)
  have ttl_at: "drop (p + 4) d = be_bytes 4 (unat ttl) @ [0, 4, a, b, c, e] @ r"
    using drop_cursor [OF assms(2)] by (simp add: eval_nat_numeral)
  have class_at: "drop (p + 2) d = 0 # 1 # be_bytes 4 (unat ttl) @ [0, 4, a, b, c, e] @ r"
    using drop_cursor [of p d "[0, 1]"] assms(2) by simp
  have len_at: "drop (p + 8) d = 0 # 4 # [a, b, c, e] @ r" using drop_cursor [OF ttl_at] by (simp add: four ac_simps)
  have data_at: "drop (p + 10) d = [a, b, c, e] @ r" using drop_cursor [of "p + 8" d "[0, 4]"] len_at by (simp add: ac_simps)
  have ends: "p + 10 \<le> length d" using data_at by (cases "p + 10 \<le> length d") simp_all
  then have early: "p + 4 \<le> length d" by simp
  have "be_nat (be_bytes 4 (unat ttl)) = unat ttl"
    using unsigned_less [of ttl, where ?'a = nat] by (simp add: be_bytes_def be_nat_rev le_nat_le_bytes)
  then have ttl_read: "get_range d (p + 4) (p + 8) = Some (be_bytes 4 (unat ttl))" "word_of_nat (be_nat (be_bytes 4 (unat ttl))) = ttl"
    using get_range_cursor [OF ttl_at early] by (simp_all add: four ac_simps del: get_range_Some)
  have data: "get_range d (p + 10) (p + 10 + 4) = Some [a, b, c, e]" using get_range_cursor [OF data_at ends] by (simp del: get_range_Some)
  have fields: "be16 d p = Some 1" "be16 d (p + 2) = Some 1" "be16 d (p + 8) = Some 4"
    using be16_cursor [of p d 0 1] be16_cursor [OF class_at] be16_cursor [OF len_at] assms(2) by (simp_all add: u16_be_def)
  have four_word: "unat (4 :: u16) = 4" by simp
  show ?thesis
    unfolding dns_rr_at_def assms(1) bind.bind_lunit prod.case fields ttl_read(1) option.case Let_def four_word data
    by (simp add: ttl_read(2))
qed

text \<open>The parser reads back what the response says.\<close>

lemma parse_dns_enc:
  assumes "labels_ok labels" "flags AND 0x8000 \<noteq> 0" "flags AND 0x020f = 0" "pk_dns_addrs pkt = []"
  shows "parse_dns (enc_response ident flags labels (a, b, c, e) ttl) pkt
     = pkt\<lparr>pk_dns_addrs := [(dotted [] labels, V4 a b c e, ttl)]\<rparr>"
proof -
  let ?rec = "[0, 1, 0, 1] @ be_bytes 4 (unat ttl) @ [0, 4, a, b, c, e]"
  let ?head = "be_bytes 2 (unat ident) @ be_bytes 2 (unat flags) @ [0, 1, 0, 1, 0, 0, 0, 0]"
  let ?d = "enc_response ident flags labels (a, b, c, e) ttl" and ?q = "dotted [] labels" and ?p = "12 + wire_size labels"
  have head: "?head = [word_of_nat (unat ident div 256), word_of_nat (unat ident), word_of_nat (unat flags div 256), word_of_nat (unat flags),
      0, 1, 0, 1, 0, 0, 0, 0]" by (simp only: be_bytes_2 append.simps)
  have d: "?d = ?head @ enc_name labels @ [0, 1, 0, 1] @ [0xC0, 12] @ ?rec"
    by (simp add: enc_response_def enc_a_record_def)
  have twelve: "length ?head = 12" unfolding head by simp
  have name_at: "drop 12 ?d = enc_name labels @ [0, 1, 0, 1] @ [0xC0, 12] @ ?rec"
    using drop_cursor [of 0 ?d ?head] twelve d by simp
  have query_at: "drop ?p ?d = [0, 1, 0, 1] @ [0xC0, 12] @ ?rec"
    using drop_cursor [OF name_at] by (simp only: length_enc_name)
  have owner_at: "drop (?p + 4) ?d = 0xC0 # 12 # ?rec" using drop_cursor [OF query_at] by simp
  have rec_at: "drop (?p + 4 + 2) ?d = [0, 1, 0, 1] @ be_bytes 4 (unat ttl) @ [0, 4, a, b, c, e] @ []"
    using drop_cursor [of "?p + 4" ?d "[0xC0, 12]"] owner_at by simp
  have len: "length ?d = 12 + wire_size labels + 20" unfolding d using twelve by (simp add: length_enc_name be_bytes_def)
  have query: "dns_name ?d 12 = Some (?q, ?p)" using dns_name_enc [OF assms(1) name_at] len by simp
  have owner: "dns_name ?d (?p + 4) = Some (?q, ?p + 4 + 2)" using dns_name_pointer [OF assms(1) name_at _ owner_at] len by simp
  have rr: "dns_rr_at ?d (?p + 4) = Some \<lparr>rr_owner = ?q, rr_type = 1, rr_ttl = ttl, rr_pos = ?p + 4 + 2 + 10, rr_data = [a, b, c, e]\<rparr>"
    using dns_rr_at_enc [OF owner rec_at] len by simp
  have "be16 ?d 2 = Some (u16_be (word_of_nat (unat flags div 256)) (word_of_nat (unat flags)))"
    unfolding d head be16_eval by simp
  moreover have "be16 ?d 4 = Some (u16_be 0 1)" "be16 ?d 6 = Some (u16_be 0 1)"
    unfolding d head be16_eval by simp_all
  ultimately have fields: "be16 ?d 2 = Some flags" "be16 ?d 4 = Some 1" "be16 ?d 6 = Some 1"
    unfolding u16_be_word by (simp_all add: u16_be_def)
  have counts: "dns_count ?d 4 = Suc 0" "dns_count ?d 6 = Suc 0" using fields by (simp_all add: dns_count_def)
  have same: "in_chain [?q] ?q" by (simp add: in_chain_def eq_ignore_ascii_case_def)
  have "dns_answers ?d (Suc 0) (?p + 4) (Some ?q) [?q] (- 1) [] = [(?q, V4 a b c e, ttl)]"
    using rr same by (simp add: MAX_DNS_ADDRS_def rr_address_def shown_name_def Let_def)
  moreover have "dns_questions ?d (Suc 0) 12 None = Some (Some ?q, ?p + 4)" using query by simp
  ultimately show ?thesis
    using fields(1) assms(2-4) len unfolding parse_dns_def counts by (simp add: Let_def del: dns_answers.simps dns_questions.simps)
qed

section \<open>The response in its frame\<close>

lemma be_nat_4: "be_nat [w, x, y, z] = unat w * 16777216 + unat x * 65536 + unat y * 256 + unat z"
  by simp

text \<open>A response is never taken for a QUIC packet: where QUIC has its version, it has a zero in the last byte.\<close>

lemma response_not_quic: "quic_header_of (enc_response ident flags labels ip ttl) = None"
proof -
  let ?d = "enc_response ident flags labels ip ttl"
  let ?i = "word_of_nat (unat ident) :: u8" and ?h = "word_of_nat (unat flags div 256) :: u8" and ?l = "word_of_nat (unat flags) :: u8"
  have d: "?d = [word_of_nat (unat ident div 256), ?i, ?h, ?l, 0, 1, 0, 1, 0, 0, 0, 0]
      @ enc_name labels @ [0, 1, 0, 1] @ enc_a_record ip ttl"
    unfolding enc_response_def be_bytes_2 by simp
  have range: "get_range ?d 1 5 = Some [?i, ?h, ?l, 0]" unfolding d by (simp add: get_range_def)
  let ?v = "be_nat [?i, ?h, ?l, 0]"
  have v: "?v = unat ?i * 16777216 + unat ?h * 65536 + unat ?l * 256" by (simp only: be_nat_4) simp
  then have bound: "?v < 2 ^ 32" using be_nat_less [of "[?i, ?h, ?l, 0]"] by simp
  have "even ?v" unfolding v by simp
  then have odd: "?v \<noteq> 1" "?v \<noteq> 0x6b3343cf" by (metis odd_one, metis odd_numeral)
  have "unat (word_of_nat n :: u32) = n" if "n < 2 ^ 32" for n using that by (simp add: unat_of_nat)
  note read_back = this [OF bound]
  have one: "unat (1 :: u32) = 1" "unat (0x6b3343cf :: u32) = 0x6b3343cf" by simp_all
  have "(word_of_nat ?v :: u32) \<noteq> 1" using odd(1) read_back one(1) by metis
  moreover have "(word_of_nat ?v :: u32) \<noteq> 0x6b3343cf" using odd(2) read_back one(2) by metis
  ultimately have none: "find (\<lambda>v. qv_id v = word_of_nat ?v) VERSIONS = None" by (simp add: VERSIONS_def del: be_nat.simps)
  show ?thesis
    unfolding quic_header_of_def range Option.bind.simps none by (cases "get_at ?d 0") (simp_all del: get_at_Some get_at_None)
qed

lemma udp_sni_response: "udp_sni env src sport (enc_response ident flags labels ip ttl) ps = Got (None, ps)"
  by (auto simp: udp_sni_def quic_feed.simps response_not_quic simp del: get_at_Some split: option.split)

lemma length_enc_response: "length (enc_response ident flags labels ip ttl) = 32 + wire_size labels"
  by (cases ip) (simp add: enc_response_def enc_a_record_def length_enc_name be_bytes_def)

definition dns_datagram :: "u16 \<Rightarrow> u16 \<Rightarrow> bytes \<Rightarrow> bytes" where
  "dns_datagram dport csum response = enc_udp 53 dport csum response"

definition dns_packet :: "layers \<Rightarrow> IpAddr \<Rightarrow> IpAddr \<Rightarrow> u16 \<Rightarrow> bytes \<Rightarrow> (string \<times> IpAddr \<times> u32) list \<Rightarrow> Packet" where
  "dns_packet la src dst dport datagram answers =
     \<lparr>pk_proto = Udp, pk_src = src, pk_sport = 53, pk_dst = dst, pk_dport = dport,
      pk_bytes = word_of_nat (net_size (la_net la) 17 datagram), pk_sni = None, pk_dns_addrs = answers\<rparr>"

lemma dns_frame_parsed:
  assumes d: "d = dns_datagram dport csum (enc_response qid flags labels (a, b, c, e) ttl)"
    and "layers_ok la src dst 17 d" "labels_ok labels" "flags AND 0x8000 \<noteq> 0" "flags AND 0x020f = 0"
  shows "parse_link_live env (link_type (la_link la)) (enc_layers la src dst 17 d) ps
     = Got (dns_packet la src dst dport d [(dotted [] labels, V4 a b c e, ttl)], ps)"
proof -
  let ?m = "enc_response qid flags labels (a, b, c, e) ttl"
  have "?m \<noteq> []" using length_enc_response [of qid flags labels "(a, b, c, e)" ttl] by auto
  then show ?thesis
    using udp_layers [of la src dst 53 dport csum ?m env ps] assms
    by (simp add: dns_datagram_def dns_packet_def udp_sni_response add_dns_def is_dns_port_def dns_payload_def parse_dns_enc)
qed

section \<open>The names in a record\<close>

lemma disown_names [simp]: "c_sni (disown c) = c_sni c" "c_domain (disown c) = c_domain c"
  by (simp_all add: disown_def)

lemma attribute_udp_names [simp]:
  "c_sni (attribute_udp owner procs c) = c_sni c" "c_domain (attribute_udp owner procs c) = c_domain c"
  by (simp_all add: attribute_udp_def Let_def split: UdpMatch.split option.split)

lemma packet_names:
  "c_sni (apply_packet_conn now out owner p c) = (case pk_sni p of None \<Rightarrow> c_sni c | Some n \<Rightarrow> Some n)"
  "c_domain (apply_packet_conn now out owner p c) = (case pk_sni p of None \<Rightarrow> c_domain c | Some n \<Rightarrow> Some n)"
  by (simp_all add: apply_packet_conn_def Let_def split: option.split)

section \<open>The name of the address\<close>

lemma remember_unique:
  assumes "hm_has (s_dns s) ip \<or> length (s_dns s) < MAX_NAMES" and "name \<noteq> []" "length name \<le> 253" "ttl \<noteq> 0"
    and "\<And>e. hm_get (s_dns s) ip = Some e \<Longrightarrow> de_overflow_until e \<le> later
      \<and> (\<forall>n \<in> set (de_names e). now < dn_expires n \<longrightarrow> dn_name n = to_ascii_lowercase name)"
    and "later < sat_add64 now (min (ucast ttl) 86400 * 1000)"
  shows "\<exists>e. hm_get (s_dns (remember_name_for now ip name ttl s)) ip = Some e \<and> dns_unique e later = Some (to_ascii_lowercase name)"
proof -
  let ?e = "case hm_get (s_dns s) ip of None \<Rightarrow> dns_entry_default | Some e \<Rightarrow> e"
  have room: "(MAX_NAMES \<le> length (s_dns s) \<and> \<not> hm_has (s_dns s) ip) = False" using assms(1) by auto
  have get: "hm_get (s_dns (remember_name_for now ip name ttl s)) ip = Some (remember_entry now (to_ascii_lowercase name) ttl ?e)"
    using assms(2,3) unfolding remember_name_for_def room Let_def by (simp add: hm_get_entry)
  have kept: "filter (\<lambda>n. now < dn_expires n \<and> dn_name n \<noteq> to_ascii_lowercase name) (de_names ?e) = []" "de_overflow_until ?e \<le> later"
    using assms(5) by (auto simp: filter_empty_conv dns_entry_default_def split: option.split)
  then have "dns_unique (remember_entry now (to_ascii_lowercase name) ttl ?e) later = Some (to_ascii_lowercase name)"
    using assms(4,6) by (simp add: remember_entry_def dns_unique_def Let_def not_less)
  with get show ?thesis by blast
qed

lemma enrich_conn_dns:
  assumes "parse (c_remote conn) = Some ip" "c_sni conn = None" "\<not> frozen_name (well_known_label ip (c_rport conn)) conn"
    and "hm_get dns ip = Some e" "dns_unique e now = Some name"
  shows "enrich_conn parse ru dns now conn = conn\<lparr>c_domain := Some name\<rparr>"
  using assms by (simp add: enrich_conn_def Let_def)


text \<open>A host asks the resolver 9.9.9.9 for a name of its own address.\<close>

definition resolver_store :: Store where
  "resolver_store = set_local_ips (Some [V4 192 0 2 10]) (store_default 0)"

definition resolver_datagram :: bytes where
  "resolver_datagram = dns_datagram 5000 0 (enc_response 7 0x8180 [[97]] (9, 9, 9, 9) 60)"

definition resolver_frame :: bytes where
  "resolver_frame = enc_layers (plain_layers [0, 0]) (V4 9 9 9 9) (V4 192 0 2 10) 17 resolver_datagram"

lemma resolver_layers: "layers_ok (plain_layers [0, 0]) (V4 9 9 9 9) (V4 192 0 2 10) 17 resolver_datagram"
  by (rule plain_layers_ok) (simp_all add: resolver_datagram_def dns_datagram_def enc_udp_def length_enc_response wire_size_def)

lemma resolver_name: "dotted [] [[97]] = ''a''" "to_ascii_lowercase ''a'' = ''a''"
  by (simp_all add: dotted_def add_label_def sample_texts) code_simp

lemma resolver_record:
  assumes "p = \<lparr>pk_proto = Udp, pk_src = V4 9 9 9 9, pk_sport = 53, pk_dst = V4 192 0 2 10, pk_dport = 5000,
         pk_bytes = n, pk_sni = None, pk_dns_addrs = as\<rparr>"
  shows "\<exists>k conn. hm_get (s_conns (snd (apply_packet clk p resolver_store))) k = Some conn \<and> k_remote k = V4 9 9 9 9
     \<and> c_sni conn = None \<and> c_domain conn = None"
proof -
  let ?s = "remember_all clk 0 as (resolver_store\<lparr>s_packets_seen := s_packets_seen resolver_store + 1\<rparr>)"
  let ?k = "packet_key p ?s"
  have local: "s_local_ips (remember_all clk i as s) = s_local_ips s" for i s
    by (induction clk i as s rule: remember_all.induct) (simp_all add: remember_name_for_def Let_def)
  have conns: "s_conns ?s = []" by (simp add: resolver_store_def set_local_ips_def store_default_def)
  have wf: "store_wf ?s" using store_default_wf store_wf_conns [of ?s "store_default 0"] conns by (simp add: store_default_def)
  have fresh: "hm_get (s_conns ?s) ?k = None" unfolding conns by (simp add: hm_get_def)
  have remote: "k_remote ?k = V4 9 9 9 9"
    unfolding packet_key_def packet_outgoing_def local
    by (simp add: assms resolver_store_def set_local_ips_def store_default_def)
  let ?conn = "apply_packet_conn (clk (length as + 1)) (packet_outgoing p ?s) (udp_owner ?s ?k) p (new_conn (clk (length as)) ?k True)"
  have "hm_get (s_conns (snd (apply_packet clk p resolver_store))) ?k = Some ?conn"
    using entry_lookup [OF wf] fresh by (simp add: apply_packet_def Let_def assms hm_has_get)
  moreover have "pk_sni p = None" by (simp add: assms)
  then have "c_sni ?conn = None" "c_domain ?conn = None" by (simp_all add: packet_names new_conn_def)
  ultimately show ?thesis using remote by blast
qed


end
