(* ===== verification/Pipeline.thy ===== *)
theory Pipeline
  imports Names_Shown
begin

text \<open>
  The pipeline of a live capture: a frame is parsed by the reader task and its packet is applied by the
  packet task. What the two connections to a name, over TLS and over QUIC, have in common: the record of
  the flow a packet belongs to, and when it shows the name.
\<close>

type_synonym pipeline = "parsers \<times> Store"

text \<open>The answer is the server name that the frame reveals.\<close>

definition watch_frame :: "frame_env \<Rightarrow> (nat \<Rightarrow> u64) \<Rightarrow> u16 \<Rightarrow> bytes \<Rightarrow> pipeline \<Rightarrow> (string option \<times> pipeline) fallible" where
  "watch_frame env clk linktype frame st =
     andthen (parse_link_live env linktype frame (fst st)) (\<lambda>r.
       Got (pk_sni (fst r), (snd r, snd (apply_packet clk (fst r) (snd st)))))"

lemma watch_parsed:
  "parse_link_live env linktype frame (fst st) = Got (p, ps) \<Longrightarrow>
   watch_frame env clk linktype frame st = Got (pk_sni p, (ps, snd (apply_packet clk p (snd st))))"
  by (simp add: watch_frame_def)

text \<open>The endpoints of a flow, client first.\<close>

record ends =
  en_proto :: Proto
  en_src :: IpAddr
  en_sport :: u16
  en_dst :: IpAddr
  en_dport :: u16

definition no_dns_ports :: "ends \<Rightarrow> bool" where
  "no_dns_ports en \<longleftrightarrow> \<not> is_dns_port (en_sport en) \<and> \<not> is_dns_port (en_dport en)"

definition ends_packet :: "ends \<Rightarrow> u32 \<Rightarrow> string option \<Rightarrow> Packet" where
  "ends_packet en n sni = \<lparr>pk_proto = en_proto en, pk_src = en_src en, pk_sport = en_sport en, pk_dst = en_dst en,
     pk_dport = en_dport en, pk_bytes = n, pk_sni = sni, pk_dns_addrs = []\<rparr>"

lemma ends_packet_sni [simp]: "pk_sni (ends_packet en n sni) = sni"
  by (simp add: ends_packet_def)

section \<open>The record of a connection\<close>

definition ends_key :: "ends \<Rightarrow> Store \<Rightarrow> ConnKey" where
  "ends_key en s = packet_key (ends_packet en 0 None) s"

definition shows_name :: "ends \<Rightarrow> string \<Rightarrow> Store \<Rightarrow> bool" where
  "shows_name en name s \<longleftrightarrow>
     (\<exists>conn. hm_get (s_conns s) (ends_key en s) = Some conn \<and> c_sni conn = Some name \<and> c_domain conn = Some name)"

lemma apply_named_packet:
  assumes "reachable s" and "sni = Some name \<or> sni = None \<and> shows_name en name s"
  shows "shows_name en name (snd (apply_packet clk (ends_packet en n sni) s))"
proof -
  let ?p = "ends_packet en n sni"
  let ?s = "s\<lparr>s_packets_seen := s_packets_seen s + 1\<rparr>" and ?s' = "snd (apply_packet clk (ends_packet en n sni) s)"
  have wf: "store_wf ?s" using reachable_wf [OF assms(1)] by (simp add: store_wf_def)
  have key: "packet_key ?p ?s = ends_key en s" "ends_key en ?s' = ends_key en s"
    by (simp_all add: ends_key_def packet_key_def packet_outgoing_def ends_packet_def apply_packet_def entry_def Let_def)
  have dns: "pk_dns_addrs ?p = []" by (simp add: ends_packet_def)
  obtain t t' b o' w where "?s' = entry t (ends_key en s) b (apply_packet_conn t' o' w ?p) ?s"
    using that by (simp add: apply_packet_def Let_def dns key(1))
  then have get: "hm_get (s_conns ?s') (ends_key en s)
      = Some (apply_packet_conn t' o' w ?p (case hm_get (s_conns s) (ends_key en s) of None \<Rightarrow> new_conn t (ends_key en s) b | Some c \<Rightarrow> c))"
    using entry_lookup [OF wf] by simp
  show ?thesis
    unfolding shows_name_def key(2) get using assms(2) packet_names [of _ _ _ ?p] by (auto simp: shows_name_def)
qed

lemma packet_reachable: "reachable s \<Longrightarrow> reachable (snd (apply_packet clk p s))"
  by (rule reachable.step [OF _ store_step.packet])

lemma shows_name_enriched:
  assumes "shows_name en name s"
  shows "shows_name en name (enrich_names parse ru reads s)"
proof -
  obtain conn where conn: "hm_get (s_conns s) (ends_key en s) = Some conn" "c_sni conn = Some name" "c_domain conn = Some name"
    using assms by (auto simp: shows_name_def)
  have key: "ends_key en (enrich_names parse ru reads s) = ends_key en s"
    by (simp add: ends_key_def packet_key_def packet_outgoing_def enrich_names_def)
  have kept: "enrich_conn parse ru dns t conn = conn" for dns t using conn(2) by (simp add: enrich_conn_def)
  have "hm_get (s_conns (enrich_names parse ru reads s)) (ends_key en s) = Some conn"
    using conn(1) by (simp add: enrich_names_def hm_get_map kept)
  then show ?thesis unfolding shows_name_def key using conn(2,3) by blast
qed

end
