(* ===== verification/Sni_Shown.thy ===== *)
theory Sni_Shown
  imports Pipeline
begin

text \<open>
  From the segments of a TCP connection to its name in the window. The frames of a connection, Ethernet,
  IPv4 and TCP as the standards lay them out, pass the frame parser with its reassembly and the packet
  task; the contract \<open>reassembler\<close> is discharged here for the state of the whole pipeline.
\<close>

section \<open>A segment as RFC 9293 lays it out\<close>

definition enc_tcp :: "u16 \<Rightarrow> u16 \<Rightarrow> u32 \<Rightarrow> u32 \<Rightarrow> u8 \<Rightarrow> u16 \<Rightarrow> u16 \<Rightarrow> u16 \<Rightarrow> bytes \<Rightarrow> bytes" where
  "enc_tcp sport dport sequence ack flags win csum urg payload =
     be_bytes 2 (unat sport) @ be_bytes 2 (unat dport) @ be_bytes 4 (unat sequence) @ be_bytes 4 (unat ack)
       @ [0x50, flags] @ be_bytes 2 (unat win) @ be_bytes 2 (unat csum) @ be_bytes 2 (unat urg) @ payload"

lemma be_bytes_4_length: "length (be_bytes 4 n) = 4"
  by (simp add: be_bytes_def)

lemma length_enc_tcp: "length (enc_tcp sport dport sequence ack flags win csum urg payload) = 20 + length payload"
  by (simp add: enc_tcp_def be_bytes_4_length be_bytes_2)

lemma l4_fields_tcp: "l4_fields 6 (enc_tcp sport dport sequence ack flags win csum urg payload) = Got (Tcp, sport, dport, payload)"
  and tcp_sequence: "get_range (enc_tcp sport dport sequence ack flags win csum urg payload) 4 8 = Some (be_bytes 4 (unat sequence))"
  and tcp_flags: "get_at (enc_tcp sport dport sequence ack flags win csum urg payload) 13 = Some flags"
proof -
  let ?d = "enc_tcp sport dport sequence ack flags win csum urg payload"
  let ?tail = "be_bytes 2 (unat win) @ be_bytes 2 (unat csum) @ be_bytes 2 (unat urg) @ payload"
  have ports: "?d = [word_of_nat (unat sport div 256), word_of_nat (unat sport), word_of_nat (unat dport div 256), word_of_nat (unat dport)]
      @ be_bytes 4 (unat sequence) @ be_bytes 4 (unat ack) @ [0x50, flags] @ ?tail"
    by (simp only: enc_tcp_def be_bytes_2 append.simps)
  have len: "length ?d = 20 + length payload" by (rule length_enc_tcp)
  have at4: "drop 4 ?d = be_bytes 4 (unat sequence) @ be_bytes 4 (unat ack) @ [0x50, flags] @ ?tail" unfolding ports by simp
  have at8: "drop (4 + 4) ?d = be_bytes 4 (unat ack) @ [0x50, flags] @ ?tail"
    using drop_cursor [OF at4] unfolding be_bytes_4_length .
  have at12: "drop (4 + 4 + 4) ?d = [0x50, flags] @ ?tail" using drop_cursor [OF at8] unfolding be_bytes_4_length .
  have at13: "drop 13 ?d = flags # ?tail" using drop_cursor [of 12 ?d "[0x50]"] at12 by simp
  have at20: "drop 20 ?d = payload"
    using drop_cursor [of 12 ?d "[0x50, flags] @ be_bytes 2 (unat win) @ be_bytes 2 (unat csum) @ be_bytes 2 (unat urg)" payload] at12
    by (simp add: be_bytes_2)
  have "drop 12 ?d = 0x50 # flags # ?tail" using at12 by simp
  then have off: "get_at ?d 12 = Some 0x50" by (rule get_at_cursor)
  show "get_range ?d 4 8 = Some (be_bytes 4 (unat sequence))"
    using get_range_cursor [OF at4] len unfolding be_bytes_4_length by (simp del: get_range_Some)
  show "get_at ?d 13 = Some flags" by (rule get_at_cursor [OF at13])
  have "be16 ?d 0 = Some (u16_be (word_of_nat (unat sport div 256)) (word_of_nat (unat sport)))"
    "be16 ?d 2 = Some (u16_be (word_of_nat (unat dport div 256)) (word_of_nat (unat dport)))"
    unfolding ports be16_eval by simp_all
  then have fields: "be16 ?d 0 = Some sport" "be16 ?d 2 = Some dport" unfolding u16_be_word by simp_all
  have "unat (drop_bit 4 (0x50 :: u8)) * 4 = 20" by simp
  moreover have "get_from ?d 20 = Some payload" using at20 len by (simp add: get_from_def)
  ultimately show "l4_fields 6 ?d = Got (Tcp, sport, dport, payload)"
    unfolding l4_fields_def off using fields len by (simp del: get_from_Some)
qed

lemma sequence_read: "word_of_nat (be_nat (be_bytes 4 (unat w))) = w" for w :: u32
  using unsigned_less [of w, where ?'a = nat] by (simp add: be_bytes_def be_nat_rev le_nat_le_bytes)

section \<open>The reassembly of a flow it knows\<close>

lemma tls_feed_known:
  assumes "flags AND 4 = 0" "flags AND 2 = 0" "flags AND 1 = 0" "data \<noteq> []" "hm_get flows key = Some f" "now - fl_seen f < TLS_TTL"
  shows "tls_feed now now' key s flags data flows
     = andthen (tls_add s data (f\<lparr>fl_seen := now'\<rparr>)) (\<lambda>r. Got (fst r, hm_put key (snd r) flows))"
  using assms by (simp add: tls_feed_def tls_expire_def tls_room_def hm_has_get Let_def)

lemma tls_feed_syn:
  assumes "flags AND 4 = 0" "flags AND 2 \<noteq> 0" "flags AND 1 = 0"
  shows "\<exists>flows'. tls_feed now now' key s flags [] flows = Got (None, flows') \<and> hm_get flows' key = Some (tls_new_flow True s now')"
proof -
  let ?m = "hm_del key (tls_expire now key flows)"
  have "hm_get (tls_room key ?m) key = None" by (simp add: tls_room_def hm_get_del split: option.split)
  then show ?thesis using assms by (simp add: tls_feed_def tls_add_def tls_new_flow_def Let_def hm_get_put)
qed

lemma andthen_Got: "andthen x f = Got r \<longleftrightarrow> (\<exists>y. x = Got y \<and> f y = Got r)"
  by (cases x) auto

lemma tls_place_seen: "tls_place s data f = Got f' \<Longrightarrow> fl_seen f' = fl_seen f"
  by (auto simp: tls_place_def Let_def andthen_Got tls_finish_def split: option.splits if_splits prod.splits)

lemma tls_place_all_seen: "tls_place_all es f = Got f' \<Longrightarrow> fl_seen f' = fl_seen f"
  by (induction es arbitrary: f) (auto simp: andthen_Got dest!: tls_place_seen)

lemma tls_scan_seen:
  assumes "tls_scan f = Got (r, f')"
  shows "fl_seen f' = fl_seen f"
proof (cases "fl_done f")
  case True
  then show ?thesis using assms by (simp add: tls_scan_def)
next
  case False
  then obtain x where "scan_records (fl_buf f) (fl_ready f) [] 0 = Got x" using assms by (auto simp: tls_scan_def andthen_Got)
  then show ?thesis using assms False by (cases x) (auto simp: tls_scan_def tls_finish_def)
qed

lemma tls_add_seen: "tls_add s data f = Got (r, f') \<Longrightarrow> fl_seen f' = fl_seen f"
  by (auto simp: tls_add_def Let_def andthen_Got split: if_splits dest!: tls_place_seen tls_place_all_seen tls_scan_seen)

lemma holds_seen [simp]: "holds S base cov (f\<lparr>fl_seen := t\<rparr>) = holds S base cov f"
  by (simp add: holds_def)

section \<open>Frames of a conversation\<close>

text \<open>A client's stream, its endpoints, and when its connection began.\<close>

record tls_conv =
  cv_stream :: tls_stream
  cv_ends :: ends
  cv_start :: nat

text \<open>What else belongs to a frame: the clocks when it is handled, its piece of the stream, the other fields.\<close>

record seg_frame =
  sf_env :: frame_env
  sf_clk :: "nat \<Rightarrow> u64"
  sf_piece :: "nat \<times> nat"
  sf_layers :: layers
  sf_ack :: u32
  sf_flags :: u8
  sf_win :: u16
  sf_tsum :: u16
  sf_urg :: u16

definition tcp_segment :: "tls_conv \<Rightarrow> seg_frame \<Rightarrow> u32 \<times> bytes \<Rightarrow> bytes" where
  "tcp_segment cv e sd =
     enc_tcp (en_sport (cv_ends cv)) (en_dport (cv_ends cv)) (fst sd) (sf_ack e) (sf_flags e) (sf_win e) (sf_tsum e) (sf_urg e) (snd sd)"

definition tcp_frame :: "tls_conv \<Rightarrow> seg_frame \<Rightarrow> u32 \<times> bytes \<Rightarrow> bytes" where
  "tcp_frame cv e sd =
     enc_layers (sf_layers e) (en_src (cv_ends cv)) (en_dst (cv_ends cv)) 6 (tcp_segment cv e sd)"

text \<open>The layers hold the segment, which neither resets nor ends the connection.\<close>

definition headers_ok :: "tls_conv \<Rightarrow> seg_frame \<Rightarrow> u32 \<times> bytes \<Rightarrow> bool" where
  "headers_ok cv e sd \<longleftrightarrow> layers_ok (sf_layers e) (en_src (cv_ends cv)) (en_dst (cv_ends cv)) 6 (tcp_segment cv e sd)
     \<and> sf_flags e AND 4 = 0 \<and> sf_flags e AND 1 = 0"

definition conv_good :: "tls_conv \<Rightarrow> bool" where
  "conv_good cv \<longleftrightarrow> ts_good (cv_stream cv) \<and> en_proto (cv_ends cv) = Tcp \<and> no_dns_ports (cv_ends cv)"

definition conv_flow :: "tls_conv \<Rightarrow> flow_key" where
  "conv_flow cv = (en_src (cv_ends cv), en_sport (cv_ends cv), en_dst (cv_ends cv), en_dport (cv_ends cv))"

lemma parse_tcp_frame:
  assumes "headers_ok cv e sd" "en_proto (cv_ends cv) = Tcp" "no_dns_ports (cv_ends cv)" "pr_tcp ps = Some flows"
  shows "\<exists>n. parse_link_live (sf_env e) (link_type (la_link (sf_layers e))) (tcp_frame cv e sd) ps
     = andthen (tls_feed (fe_clk (sf_env e) 0) (fe_clk (sf_env e) 1) (conv_flow cv) (fst sd) (sf_flags e) (snd sd) flows) (\<lambda>r.
         Got (ends_packet (cv_ends cv) n (fst r), ps\<lparr>pr_tcp := Some (snd r)\<rparr>))"
proof -
  let ?env = "sf_env e" and ?en = "cv_ends cv"
  have "layers_ok (sf_layers e) (en_src ?en) (en_dst ?en) 6 (tcp_segment cv e sd)" using assms(1) by (simp add: headers_ok_def)
  from layers_carry [OF this, of ?env ps] show ?thesis
    using assms(2-4)
    by (cases "tls_feed (fe_clk ?env 0) (fe_clk ?env 1) (conv_flow cv) (fst sd) (sf_flags e) (snd sd) flows")
      (auto simp: tcp_frame_def parse_l4_def tcp_segment_def l4_fields_tcp tcp_sni_def tcp_sequence tcp_flags sequence_read add_dns_def ends_packet_def
        no_dns_ports_def conv_flow_def Let_def simp del: get_range_Some get_at_Some)
qed

section \<open>The pipeline reassembles\<close>

definition conv_name :: "tls_conv \<Rightarrow> string option" where
  "conv_name cv = client_hello_sni (concat (ts_frags (cv_stream cv)))"

definition conv_segment :: "tls_conv \<Rightarrow> seg_frame \<Rightarrow> u32 \<times> bytes" where
  "conv_segment cv e = segment (ts_bytes (cv_stream cv)) (ts_base (cv_stream cv)) (sf_piece e)"

text \<open>A segment of the stream, and the SYN before it; the first ten seconds of the connection.\<close>

definition seg_frame_ok :: "tls_conv \<Rightarrow> seg_frame \<Rightarrow> bool" where
  "seg_frame_ok cv e \<longleftrightarrow> headers_ok cv e (conv_segment cv e) \<and> sf_flags e AND 2 = 0 \<and> seg_ok (ts_bytes (cv_stream cv)) (sf_piece e)
     \<and> cv_start cv \<le> fe_clk (sf_env e) 1 \<and> fe_clk (sf_env e) 0 < cv_start cv + TLS_TTL"

definition syn_frame_ok :: "tls_conv \<Rightarrow> seg_frame \<Rightarrow> bool" where
  "syn_frame_ok cv e \<longleftrightarrow> headers_ok cv e (ts_base (cv_stream cv) - 1, []) \<and> sf_flags e AND 2 \<noteq> 0 \<and> fe_clk (sf_env e) 1 = cv_start cv"

definition watch_segment :: "tls_conv \<Rightarrow> (seg_frame, pipeline) adder" where
  "watch_segment cv e = watch_frame (sf_env e) (sf_clk e) (link_type (la_link (sf_layers e))) (tcp_frame cv e (conv_segment cv e))"

definition watch_syn :: "tls_conv \<Rightarrow> (seg_frame, pipeline) adder" where
  "watch_syn cv e = watch_frame (sf_env e) (sf_clk e) (link_type (la_link (sf_layers e))) (tcp_frame cv e (ts_base (cv_stream cv) - 1, []))"

definition conv_live :: "tls_conv \<Rightarrow> nat set \<Rightarrow> pipeline \<Rightarrow> bool" where
  "conv_live cv cov st \<longleftrightarrow> reachable (snd st) \<and> (\<exists>flows f. pr_tcp (fst st) = Some flows \<and> hm_get flows (conv_flow cv) = Some f
     \<and> cv_start cv \<le> fl_seen f \<and> holds (ts_bytes (cv_stream cv)) (ts_base (cv_stream cv)) cov f)"

definition conv_done :: "tls_conv \<Rightarrow> pipeline \<Rightarrow> bool" where
  "conv_done cv st \<longleftrightarrow> reachable (snd st) \<and> (\<exists>flows f. pr_tcp (fst st) = Some flows \<and> hm_get flows (conv_flow cv) = Some f
     \<and> cv_start cv \<le> fl_seen f \<and> fl_done f) \<and> (\<forall>name. conv_name cv = Some name \<longrightarrow> shows_name (cv_ends cv) name (snd st))"

lemma watch_conv:
  assumes "conv_good cv" "headers_ok cv e sd" "pr_tcp (fst st) = Some flows"
    and "tls_feed (fe_clk (sf_env e) 0) (fe_clk (sf_env e) 1) (conv_flow cv) (fst sd) (sf_flags e) (snd sd) flows = Got (r, flows')"
  shows "\<exists>n. watch_frame (sf_env e) (sf_clk e) (link_type (la_link (sf_layers e))) (tcp_frame cv e sd) st
     = Got (r, ((fst st)\<lparr>pr_tcp := Some flows'\<rparr>, snd (apply_packet (sf_clk e) (ends_packet (cv_ends cv) n r) (snd st))))"
  using parse_tcp_frame [OF assms(2) _ _ assms(3)] assms(1,4) by (fastforce simp: watch_frame_def conv_good_def)

lemma conv_segment_data: "conv_good cv \<Longrightarrow> seg_frame_ok cv e \<Longrightarrow> snd (conv_segment cv e) \<noteq> []"
  by (auto simp: conv_segment_def segment_def seg_frame_ok_def seg_ok_def)

lemma conv_in_time: "cv_start cv \<le> fl_seen f \<Longrightarrow> seg_frame_ok cv e \<Longrightarrow> fe_clk (sf_env e) 0 - fl_seen f < TLS_TTL"
  by (auto simp: seg_frame_ok_def TLS_TTL_def)

lemma watch_segment_piece:
  assumes good: "conv_good cv" and live: "conv_live cv cov st" and ok: "seg_frame_ok cv e"
  shows "\<exists>st'. watch_segment cv e st =
      Got (if {..<ts_extent (cv_stream cv)} \<subseteq> cov \<union> seg_span (sf_piece e) then conv_name cv else None, st')
    \<and> (if {..<ts_extent (cv_stream cv)} \<subseteq> cov \<union> seg_span (sf_piece e) then conv_done cv st'
       else conv_live cv (cov \<union> seg_span (sf_piece e)) st')"
proof -
  let ?c = "cv_stream cv" and ?sd = "conv_segment cv e" and ?all = "{..<ts_extent (cv_stream cv)} \<subseteq> cov \<union> seg_span (sf_piece e)"
  let ?r = "if ?all then conv_name cv else None"
  obtain flows f where f: "pr_tcp (fst st) = Some flows" "hm_get flows (conv_flow cv) = Some f" "cv_start cv \<le> fl_seen f"
      "holds (ts_bytes ?c) (ts_base ?c) cov (f\<lparr>fl_seen := fe_clk (sf_env e) 1\<rparr>)" and s: "reachable (snd st)"
    using live by (auto simp: conv_live_def)
  have flags: "headers_ok cv e ?sd" "sf_flags e AND 4 = 0" "sf_flags e AND 2 = 0" "sf_flags e AND 1 = 0"
    using ok by (auto simp: seg_frame_ok_def headers_ok_def)
  obtain f' where f': "tls_add (fst ?sd) (snd ?sd) (f\<lparr>fl_seen := fe_clk (sf_env e) 1\<rparr>) = Got (?r, f')"
      and state: "if ?all then fl_done f' else holds (ts_bytes ?c) (ts_base ?c) (cov \<union> seg_span (sf_piece e)) f'"
    using tls_add_segment [OF _ f(4), of "sf_piece e"] good ok unfolding conv_good_def seg_frame_ok_def conv_segment_def conv_name_def by auto
  have seen: "cv_start cv \<le> fl_seen f'" using tls_add_seen [OF f'] ok by (simp add: seg_frame_ok_def)
  have "tls_feed (fe_clk (sf_env e) 0) (fe_clk (sf_env e) 1) (conv_flow cv) (fst ?sd) (sf_flags e) (snd ?sd) flows
      = Got (?r, hm_put (conv_flow cv) f' flows)"
    using tls_feed_known [OF flags(2-4) conv_segment_data [OF good ok] f(2) conv_in_time [OF f(3) ok]] f' by simp
  from watch_conv [OF good flags(1) f(1) this] obtain n where
    step: "watch_segment cv e st = Got (?r, ((fst st)\<lparr>pr_tcp := Some (hm_put (conv_flow cv) f' flows)\<rparr>,
      snd (apply_packet (sf_clk e) (ends_packet (cv_ends cv) n ?r) (snd st))))" unfolding watch_segment_def by blast
  have "shows_name (cv_ends cv) name (snd (apply_packet (sf_clk e) (ends_packet (cv_ends cv) n ?r) (snd st)))" if "?all" "conv_name cv = Some name" for name
    using apply_named_packet [OF s, of ?r name] that by simp
  then show ?thesis
    using step state seen packet_reachable [OF s] by (auto simp: conv_done_def conv_live_def hm_get_put)
qed

lemma watch_segment_done:
  assumes good: "conv_good cv" and finished: "conv_done cv st" and ok: "seg_frame_ok cv e"
  shows "\<exists>st'. watch_segment cv e st = Got (None, st') \<and> conv_done cv st'"
proof -
  let ?sd = "conv_segment cv e"
  obtain flows f where f: "pr_tcp (fst st) = Some flows" "hm_get flows (conv_flow cv) = Some f" "cv_start cv \<le> fl_seen f" "fl_done f"
      and s: "reachable (snd st)" and shows': "\<And>name. conv_name cv = Some name \<Longrightarrow> shows_name (cv_ends cv) name (snd st)"
    using finished by (auto simp: conv_done_def)
  have flags: "headers_ok cv e ?sd" "sf_flags e AND 4 = 0" "sf_flags e AND 2 = 0" "sf_flags e AND 1 = 0"
    using ok by (auto simp: seg_frame_ok_def headers_ok_def)
  let ?f = "f\<lparr>fl_seen := fe_clk (sf_env e) 1\<rparr>"
  have "tls_feed (fe_clk (sf_env e) 0) (fe_clk (sf_env e) 1) (conv_flow cv) (fst ?sd) (sf_flags e) (snd ?sd) flows
      = Got (None, hm_put (conv_flow cv) ?f flows)"
    using tls_feed_known [OF flags(2-4) conv_segment_data [OF good ok] f(2) conv_in_time [OF f(3) ok]] f(4) by (simp add: tls_add_done)
  from watch_conv [OF good flags(1) f(1) this] obtain n where
    step: "watch_segment cv e st = Got (None, ((fst st)\<lparr>pr_tcp := Some (hm_put (conv_flow cv) ?f flows)\<rparr>,
      snd (apply_packet (sf_clk e) (ends_packet (cv_ends cv) n None) (snd st))))" unfolding watch_segment_def by blast
  have "cv_start cv \<le> fl_seen ?f" using ok by (simp add: seg_frame_ok_def)
  moreover have "shows_name (cv_ends cv) name (snd (apply_packet (sf_clk e) (ends_packet (cv_ends cv) n None) (snd st)))" if "conv_name cv = Some name" for name
    using apply_named_packet [OF s, of None name] shows' [OF that] by simp
  ultimately show ?thesis
    using step f(4) packet_reachable [OF s] by (auto simp: conv_done_def hm_get_put)
qed

interpretation conv_frames: reassembler conv_good seg_frame_ok "\<lambda>e. seg_span (sf_piece e)" "\<lambda>cv. ts_extent (cv_stream cv)"
    conv_name conv_live conv_done watch_segment
  by unfold_locales (rule watch_segment_piece, assumption+, rule watch_segment_done, assumption+)

lemma watch_syn_live:
  assumes "conv_good cv" "syn_frame_ok cv e" "pr_tcp (fst st) = Some flows" "reachable (snd st)"
  shows "\<exists>st'. watch_syn cv e st = Got (None, st') \<and> conv_live cv {} st'"
proof -
  let ?s = "ts_base (cv_stream cv) - 1"
  have flags: "headers_ok cv e (?s, [])" "sf_flags e AND 4 = 0" "sf_flags e AND 2 \<noteq> 0" "sf_flags e AND 1 = 0"
    using assms(2) by (auto simp: syn_frame_ok_def headers_ok_def)
  obtain flows' where flows': "tls_feed (fe_clk (sf_env e) 0) (fe_clk (sf_env e) 1) (conv_flow cv) ?s (sf_flags e) [] flows = Got (None, flows')"
      "hm_get flows' (conv_flow cv) = Some (tls_new_flow True ?s (fe_clk (sf_env e) 1))"
    using tls_feed_syn [OF flags(2-4)] by blast
  then obtain n where step: "watch_syn cv e st = Got (None, ((fst st)\<lparr>pr_tcp := Some flows'\<rparr>,
      snd (apply_packet (sf_clk e) (ends_packet (cv_ends cv) n None) (snd st))))"
    using watch_conv [OF assms(1) flags(1) assms(3)] unfolding watch_syn_def by fastforce
  have "cv_start cv \<le> fl_seen (tls_new_flow True ?s (fe_clk (sf_env e) 1))" using assms(2) by (simp add: syn_frame_ok_def tls_new_flow_def)
  then show ?thesis using step flows'(2) holds_fresh packet_reachable [OF assms(4)] by (auto simp: conv_live_def)
qed

section \<open>The connection is shown with its name\<close>

definition watch_conversation :: "tls_conv \<Rightarrow> seg_frame \<Rightarrow> seg_frame list \<Rightarrow> pipeline \<Rightarrow> (string option list \<times> pipeline) fallible" where
  "watch_conversation cv syn es st =
     andthen (watch_syn cv syn st) (\<lambda>r.
     andthen (add_all (watch_segment cv) es (snd r)) (\<lambda>rs. Got (fst r # fst rs, snd rs)))"


text \<open>The second half of a ClientHello comes before the first, from which it repeats some bytes.\<close>

definition sample_hello :: bytes where
  "sample_hello = enc_hello [3, 3] (replicate 32 7) [] [0x13, 1] [0] [(0, enc_server_name (bytes_of ''a.io''))]"

definition sample_conv :: tls_conv where
  "sample_conv = \<lparr>cv_stream = \<lparr>ts_minor = 1, ts_frags = [sample_hello], ts_post = [], ts_base = - 3\<rparr>,
     cv_ends = \<lparr>en_proto = Tcp, en_src = V6 0x20010db8000000000000000000000010, en_sport = 40000, en_dst = V6 0x20010db8000000000000000000000020, en_dport = 443\<rparr>, cv_start = 0\<rparr>"

definition sample_seg :: "u8 \<Rightarrow> nat \<times> nat \<Rightarrow> seg_frame" where
  "sample_seg flags piece = \<lparr>sf_env = sample_env\<lparr>fe_clk := \<lambda>_. 0\<rparr>, sf_clk = \<lambda>_. 1, sf_piece = piece,
     sf_layers = tagged_layers, sf_ack = 0, sf_flags = flags, sf_win = 1000, sf_tsum = 0, sf_urg = 0\<rparr>"

lemma sample_hello_size: "length sample_hello = 60" "sample_hello ! 0 = 1" "hello_size sample_hello = 60"
proof -
  have name: "length (bytes_of ''a.io'') = 4" and len3: "rev (le_bytes 3 56) = [0, 0, 56 :: u8]" by code_simp+
  show "length sample_hello = 60" "sample_hello ! 0 = 1" "hello_size sample_hello = 60"
    by (simp_all add: sample_hello_def enc_hello_def enc_hello_body_def enc_exts_def enc_ext_def enc_server_name_def enc_vec_def name hello_size_def
      be_bytes_def len3)
qed

lemma sample_hello_name: "client_hello_sni sample_hello = Some ''a.io''"
proof -
  have name: "list_all host_byte (bytes_of ''a.io'')" "to_ascii_lowercase (text_of (bytes_of ''a.io'')) = ''a.io''"
    "length (bytes_of ''a.io'') = 4"
    by code_simp+
  let ?es = "[(0, enc_server_name (bytes_of ''a.io''))]"
  have "named_by ?es = Some ''a.io''"
    using name server_name_enc [of "bytes_of ''a.io''"]
    by (simp add: length_greater_0_conv [symmetric] del: length_greater_0_conv)
  then show ?thesis
    unfolding sample_hello_def using client_hello_enc [of "[3, 3]" "replicate 32 7" "[]" "[0x13, 1]" "[0]" ?es "[]"]
    by (simp add: hello_fields_ok_def enc_hello_body_def enc_exts_def enc_ext_def enc_server_name_def enc_vec_def name)
qed

lemma sample_conv_good: "conv_good sample_conv" "conv_name sample_conv = Some ''a.io''" "ts_extent (cv_stream sample_conv) = 65"
    "length (ts_bytes (cv_stream sample_conv)) = 65" "cv_start sample_conv = 0"
proof -
  show "cv_start sample_conv = 0" by (simp add: sample_conv_def)
  show len: "ts_extent (cv_stream sample_conv) = 65" "length (ts_bytes (cv_stream sample_conv)) = 65"
    by (simp_all add: ts_extent_def ts_bytes_def sample_conv_def records_def enc_record_def enc_vec_2 sample_hello_size)
  have "sample_hello \<noteq> []" using sample_hello_size(1) by auto
  then have "ts_good (cv_stream sample_conv)"
    unfolding ts_good_def len(2)
    by (simp add: sample_conv_def hello_message_def sample_hello_size TLS_MAX_HELLO_def TLS_MAX_STREAM_def)
  then show "conv_good sample_conv" unfolding conv_good_def by (simp add: sample_conv_def no_dns_ports_def is_dns_port_def)
  show "conv_name sample_conv = Some ''a.io''" by (simp add: conv_name_def sample_conv_def sample_hello_name)
qed

lemma sample_seg_layers:
  "length (snd sd) \<le> 1000 \<Longrightarrow> layers_ok tagged_layers (en_src (cv_ends sample_conv)) (en_dst (cv_ends sample_conv)) 6 (tcp_segment sample_conv e sd)"
  by (simp add: sample_conv_def tagged_layers_ok tcp_segment_def length_enc_tcp)

lemma conv_segment_length: "length (snd (conv_segment cv e)) \<le> snd (sf_piece e)"
  by (simp add: conv_segment_def segment_def split: prod.split)


end
