(* ===== verification/Quic_Packets.thy ===== *)
theory Quic_Packets
  imports Quic
begin

text \<open>
  Initial packets as a client sends them: the frames of a payload (RFC 9000, 12.4), the long header
  (17.2.2), sealed with AES-128-GCM and with the header protected (RFC 9001, 5.3 and 5.4). The sealing
  function is not in the repository; it is an argument of the encoding, and \<open>aead_ok\<close> states what
  an AEAD documents: what is sealed opens to the plaintext under the same key, nonce and associated data.
\<close>

section \<open>The frames of a payload\<close>

text \<open>A variable-length integer as it is sent: the exponent of its size and its value.\<close>

type_synonym sent_int = "nat \<times> nat"

definition int_ok :: "sent_int \<Rightarrow> bool" where
  "int_ok i \<longleftrightarrow> fst i < 4 \<and> snd i < 2 ^ (8 * 2 ^ fst i - 2)"

definition enc_int :: "sent_int \<Rightarrow> bytes" where
  "enc_int i = enc_varint (fst i) (snd i)"

datatype sent_frame =
  Padding
| Ping
| Acked "sent_int list" sent_int "sent_int list" "sent_int list option"
| Handshake nat nat "nat \<times> nat"

text \<open>
  An ACK frame is its largest number and delay, the count of its ranges, the first range and two integers
  for each of the others, and three counters when it reports ECN. A CRYPTO frame is a piece of the stream.
\<close>

fun enc_frame :: "bytes \<Rightarrow> sent_frame \<Rightarrow> bytes" where
  "enc_frame S Padding = [0x00]"
| "enc_frame S Ping = [0x01]"
| "enc_frame S (Acked head n ranges ecn) =
     (if ecn = None then 0x02 else 0x03) # concat (map enc_int head) @ enc_int n @ concat (map enc_int ranges)
       @ (case ecn of None \<Rightarrow> [] | Some counts \<Rightarrow> concat (map enc_int counts))"
| "enc_frame S (Handshake ko kl e) =
     0x06 # enc_varint ko (fst e) @ enc_varint kl (snd e) @ snd (frame_of S e)"

fun sent_frame_ok :: "bytes \<Rightarrow> sent_frame \<Rightarrow> bool" where
  "sent_frame_ok S (Acked head n ranges ecn) \<longleftrightarrow> length head = 2 \<and> length ranges = 1 + 2 * snd n \<and> int_ok n
     \<and> list_all int_ok (head @ ranges) \<and> (case ecn of None \<Rightarrow> True | Some counts \<Rightarrow> length counts = 3 \<and> list_all int_ok counts)"
| "sent_frame_ok S (Handshake ko kl e) \<longleftrightarrow> frame_ok S e \<and> int_ok (ko, fst e) \<and> int_ok (kl, snd e)"
| "sent_frame_ok S f \<longleftrightarrow> True"

fun sent_piece :: "sent_frame \<Rightarrow> (nat \<times> nat) list" where
  "sent_piece (Handshake ko kl e) = [e]"
| "sent_piece f = []"

lemma length_enc_varint: "length (enc_varint k v) = 2 ^ k"
  by (simp add: enc_varint_def)

lemma int_value: "int_ok i \<Longrightarrow> unat (word_of_nat (snd i) :: u64) = snd i"
proof -
  assume i: "int_ok i"
  have "(2 :: nat) ^ fst i \<le> 2 ^ 3" using i by (intro power_increasing) (auto simp: int_ok_def)
  then have "(2 :: nat) ^ (8 * 2 ^ fst i - 2) \<le> 2 ^ 62" by (intro power_increasing) auto
  then have "snd i < 2 ^ 64" using i by (simp add: int_ok_def)
  then show ?thesis by (simp add: unat_of_nat)
qed

lemma cursor_step: "drop p d = t # u \<Longrightarrow> drop (p + 1) d = u \<and> p + 1 \<le> length d"
  by (metis Suc_eq_plus1 Suc_leI drop_all drop_Suc drop_tl list.distinct(1) list.sel(3) not_le)

lemma varint_int:
  assumes "int_ok i" "drop p d = enc_int i @ r" "p \<le> length d"
  shows "varint d p = Some (word_of_nat (snd i), 2 ^ fst i)" "drop (p + 2 ^ fst i) d = r" "p + 2 ^ fst i \<le> length d"
proof -
  show "varint d p = Some (word_of_nat (snd i), 2 ^ fst i)"
    using varint_enc [of "fst i" "snd i" p d r] assms by (simp add: int_ok_def enc_int_def)
  show "drop (p + 2 ^ fst i) d = r" using drop_cursor [OF assms(2)] by (simp add: enc_int_def length_enc_varint)
  show "p + 2 ^ fst i \<le> length d"
    using arg_cong [OF assms(2), of length] assms(3) by (simp add: enc_int_def length_enc_varint)
qed

lemma skip_ints:
  assumes "list_all int_ok is" "drop p d = concat (map enc_int is) @ r" "p \<le> length d"
  shows "\<exists>q. skip_varints d p (length is) = Some q \<and> drop q d = r \<and> q \<le> length d"
  using assms
proof (induction "is" arbitrary: p)
  case (Cons i "is'")
  have i: "int_ok i" "drop p d = enc_int i @ (concat (map enc_int is') @ r)" using Cons.prems by simp_all
  show ?case using varint_int [OF i Cons.prems(3)] Cons.IH [of "p + 2 ^ fst i"] Cons.prems(1) by simp
qed simp

lemma ack_enc:
  assumes ok: "sent_frame_ok S (Acked head n ranges ecn)" and d: "drop p d = enc_frame S (Acked head n ranges ecn) @ r"
  shows "\<exists>q. ack_frame d (if ecn = None then 0x02 else 0x03) (p + 1) = Some q \<and> drop q d = r \<and> q \<le> length d"
proof -
  let ?tail = "(case ecn of None \<Rightarrow> [] | Some counts \<Rightarrow> concat (map enc_int counts)) @ r"
  have ints: "list_all int_ok head" "list_all int_ok ranges" "int_ok n" "length head = 2" "length ranges = 1 + 2 * snd n"
    using ok by simp_all
  have "drop (p + 1) d = concat (map enc_int head) @ enc_int n @ concat (map enc_int ranges) @ ?tail" "p + 1 \<le> length d"
    using cursor_step [of p d "if ecn = None then 0x02 else 0x03"] d by simp_all
  then obtain q1 where q1: "skip_varints d (p + 1) 2 = Some q1" "drop q1 d = enc_int n @ concat (map enc_int ranges) @ ?tail" "q1 \<le> length d"
    using skip_ints [OF ints(1)] ints(4) by fastforce
  note count = varint_int [OF ints(3) q1(2,3)]
  obtain q2 where q2: "skip_varints d (q1 + 2 ^ fst n) (1 + 2 * snd n) = Some q2" "drop q2 d = ?tail" "q2 \<le> length d"
    using skip_ints [OF ints(2) count(2,3)] ints(5) by auto
  have "\<exists>q. (if ecn \<noteq> None then skip_varints d q2 3 else Some q2) = Some q \<and> drop q d = r \<and> q \<le> length d"
  proof (cases ecn)
    case None
    then show ?thesis using q2 by simp
  next
    case (Some counts)
    then show ?thesis using skip_ints [of counts q2 d r] ok q2 by simp
  qed
  then obtain q where q: "(if ecn \<noteq> None then skip_varints d q2 3 else Some q2) = Some q" "drop q d = r" "q \<le> length d" by blast
  have "ack_frame d (if ecn = None then 0x02 else 0x03) (p + 1) = (if ecn \<noteq> None then skip_varints d q2 3 else Some q2)"
    unfolding ack_frame_def q1(1) using count(1) q2(1) int_value [OF ints(3)] by (simp del: skip_varints.simps)
  then show ?thesis using q by simp
qed

lemma crypto_enc:
  assumes ok: "sent_frame_ok S (Handshake ko kl e)" and d: "drop p d = enc_frame S (Handshake ko kl e) @ r"
  shows "\<exists>q. crypto_frame d (p + 1) = Some (fst e, snd (frame_of S e), q) \<and> drop q d = r \<and> q \<le> length d"
proof -
  let ?data = "snd (frame_of S e)"
  have ints: "int_ok (ko, fst e)" "int_ok (kl, snd e)" and len: "length ?data = snd e"
    using ok by (auto simp: frame_ok_def frame_of_def)
  have at1: "drop (p + 1) d = enc_int (ko, fst e) @ enc_int (kl, snd e) @ ?data @ r" "p + 1 \<le> length d"
    using cursor_step [of p d "0x06"] d by (simp_all add: enc_int_def)
  note off = varint_int [OF ints(1) at1]
  note n = varint_int [OF ints(2) off(2,3)]
  let ?q = "p + 1 + 2 ^ ko + 2 ^ kl"
  have "get_range d ?q (?q + snd e) = Some ?data"
    using get_range_cursor [OF n(2)] n(3) len by simp
  moreover have "drop (?q + snd e) d = r" using drop_cursor [OF n(2)] len by simp
  moreover have "?q + snd e \<le> length d" using n(3) arg_cong [OF n(2), of length] len by simp
  ultimately show ?thesis
    using off(1) n(1) int_value [OF ints(1)] int_value [OF ints(2)] by (simp add: crypto_frame_def del: get_range_Some)
qed

lemma crypto_frames_end:
  assumes "length d \<le> p"
  shows "crypto_frames d p = []"
proof -
  have "get_at d p = None" using assms by simp
  then show ?thesis by (subst crypto_frames.simps) (simp del: get_at_None)
qed

text \<open>The scan finds the pieces of the stream, in the order they are sent, between whatever else is in the payload.\<close>

lemma crypto_frames_enc:
  assumes "list_all (sent_frame_ok S) fs" "drop p d = concat (map (enc_frame S) fs)" "p \<le> length d"
  shows "crypto_frames d p = map (frame_of S) (concat (map sent_piece fs))"
  using assms
proof (induction fs arbitrary: p)
  case Nil
  then show ?case by (simp add: crypto_frames_end)
next
  case (Cons f fs)
  let ?r = "concat (map (enc_frame S) fs)"
  have ok: "sent_frame_ok S f" "list_all (sent_frame_ok S) fs" and d: "drop p d = enc_frame S f @ ?r" using Cons.prems by simp_all
  obtain t u where t: "enc_frame S f = t # u" by (cases f) auto
  then have d': "drop p d = t # (u @ ?r)" using d by simp
  then have type: "get_at d p = Some t" by (rule get_at_cursor)
  have next_byte: "drop (p + 1) d = u @ ?r" "p + 1 \<le> length d" using cursor_step [OF d'] by auto
  have IH: "crypto_frames d q = map (frame_of S) (concat (map sent_piece fs))" if "drop q d = ?r" "q \<le> length d" for q
    using Cons.IH [OF ok(2)] that by simp
  show ?case
  proof (cases f)
    case (Acked head n ranges ecn)
    then obtain q where q: "ack_frame d (if ecn = None then 0x02 else 0x03) (p + 1) = Some q" "drop q d = ?r" "q \<le> length d"
      using ack_enc [of S head n ranges ecn p d ?r] ok d by auto
    have "t = (if ecn = None then 0x02 else 0x03)" using t Acked by simp
    then show ?thesis using q type IH [OF q(2,3)] Acked by (subst crypto_frames.simps) (auto simp del: get_at_Some split: if_splits)
  next
    case (Handshake ko kl e)
    then obtain q where q: "crypto_frame d (p + 1) = Some (fst e, snd (frame_of S e), q)" "drop q d = ?r" "q \<le> length d"
      using crypto_enc [of S ko kl e p d ?r] ok d by auto
    have "frame_of S e = (fst e, snd (frame_of S e))" by (simp add: frame_of_def)
    then show ?thesis using q type t IH [OF q(2,3)] Handshake by (subst crypto_frames.simps) (auto simp del: get_at_Some)
  qed (use type t next_byte IH [of "p + 1"] in \<open>simp_all add: crypto_frames.simps [of d p] del: get_at_Some\<close>)
qed

section \<open>All frames of a packet\<close>

definition frames_span :: "sent_frame list \<Rightarrow> nat set" where
  "frames_span fs = (\<Union>e \<in> set (concat (map sent_piece fs)). frame_span e)"

lemma quic_finish_kept [simp]: "qf_seen (quic_finish f) = qf_seen f" "qf_largest (quic_finish f) = qf_largest f"
  by (simp_all add: quic_finish_def)

lemma quic_write_kept:
  "quic_write off data f = Got f' \<Longrightarrow> qf_seen f' = qf_seen f \<and> qf_largest f' = qf_largest f"
  by (auto simp: quic_write_def Let_def copy_into_def slice_def split: if_splits)

lemma quic_add_kept:
  assumes "quic_add off data f = Got (r, f')"
  shows "qf_seen f' = qf_seen f \<and> qf_largest f' = qf_largest f"
proof -
  obtain f1 where f1: "quic_write off data f = Got f1" using assms by (cases "quic_write off data f") (simp_all add: quic_add_def)
  show ?thesis
    using assms quic_write_kept [OF f1] unfolding quic_add_def f1 andthen.simps Let_def
    by (cases "get_range (qf_buf (f1\<lparr>qf_ready := advance (qf_filled f1) (qf_ready f1)\<rparr>)) 0 4")
      (auto simp: hello_total_def idx_def slice_def simp del: get_range_Some get_range_None split: if_splits)
qed

lemma quic_add_pieces:
  assumes c: "qs_good c" and ok: "\<forall>e \<in> set es. frame_ok (qs_bytes c) e" and f: "qholds (qs_bytes c) cov f"
    and part: "\<not> {..<length (qs_msg c)} \<subseteq> cov"
  shows "\<exists>f'. quic_add_frames (map (frame_of (qs_bytes c)) es) f None =
      Got (if {..<length (qs_msg c)} \<subseteq> cov \<union> (\<Union>e \<in> set es. frame_span e) then client_hello_sni (qs_msg c) else None, f')
    \<and> (if {..<length (qs_msg c)} \<subseteq> cov \<union> (\<Union>e \<in> set es. frame_span e) then qf_done f'
       else qholds (qs_bytes c) (cov \<union> (\<Union>e \<in> set es. frame_span e)) f')
    \<and> qf_seen f' = qf_seen f \<and> qf_largest f' = qf_largest f"
  using ok f part
proof (induction es arbitrary: f cov)
  case (Cons e es)
  let ?full = "{..<length (qs_msg c)} \<subseteq> cov \<union> frame_span e"
  obtain f1 where f1: "quic_add (fst (frame_of (qs_bytes c) e)) (snd (frame_of (qs_bytes c) e)) f =
      Got (if ?full then client_hello_sni (qs_msg c) else None, f1)"
    and after: "if ?full then qf_done f1 else qholds (qs_bytes c) (cov \<union> frame_span e) f1"
    using quic_add_frame [OF c Cons.prems(2)] Cons.prems(1) by (meson list.set_intros(1))
  note kept = quic_add_kept [OF f1]
  have live: "\<not> qf_done f" using Cons.prems(2) by (simp add: qholds_def)
  show ?case
  proof (cases ?full)
    case True
    moreover have "{..<length (qs_msg c)} \<subseteq> cov \<union> (\<Union>e' \<in> set (e # es). frame_span e')" using True by auto
    ultimately show ?thesis
      using f1 after live kept by (simp add: quic_add_done_frames split: option.split)
  next
    case False
    have un: "cov \<union> (\<Union>e' \<in> set (e # es). frame_span e') = (cov \<union> frame_span e) \<union> (\<Union>e' \<in> set es. frame_span e')" by auto
    have "quic_add_frames (map (frame_of (qs_bytes c)) (e # es)) f None = quic_add_frames (map (frame_of (qs_bytes c)) es) f1 None"
      using f1 live False by simp
    then show ?thesis
      using Cons.IH [of "cov \<union> frame_span e" f1] Cons.prems(1) after False kept unfolding un by simp
  qed
qed simp

section \<open>The header of an Initial packet\<close>

text \<open>What a client chooses for one packet: the exponents are those of the token length and of the packet length.\<close>

record initial_packet =
  ip_scid :: bytes
  ip_token :: bytes
  ip_token_exp :: nat
  ip_len_exp :: nat
  ip_size :: nat
  ip_number :: nat

definition initial_first :: "quic_version \<Rightarrow> initial_packet \<Rightarrow> u8" where
  "initial_first v p = 0xc0 OR push_bit 4 (qv_initial v) OR word_of_nat (ip_size p - 1)"

definition initial_rest :: "quic_version \<Rightarrow> bytes \<Rightarrow> initial_packet \<Rightarrow> nat \<Rightarrow> bytes" where
  "initial_rest v dcid p n = be_bytes 4 (unat (qv_id v)) @ [word_of_nat (length dcid)] @ dcid
     @ [word_of_nat (length (ip_scid p))] @ ip_scid p
     @ enc_int (ip_token_exp p, length (ip_token p)) @ ip_token p @ enc_int (ip_len_exp p, ip_size p + n + 16)"

definition initial_ok :: "quic_version \<Rightarrow> bytes \<Rightarrow> initial_packet \<Rightarrow> nat \<Rightarrow> bool" where
  "initial_ok v dcid p n \<longleftrightarrow> v \<in> set VERSIONS \<and> length dcid \<le> 20 \<and> length (ip_scid p) < 256
     \<and> int_ok (ip_token_exp p, length (ip_token p)) \<and> int_ok (ip_len_exp p, ip_size p + n + 16)
     \<and> 1 \<le> ip_size p \<and> ip_size p \<le> 4 \<and> 4 \<le> ip_size p + n"

lemma known_version:
  assumes "v \<in> set VERSIONS"
  shows "find (\<lambda>v'. qv_id v' = qv_id v) VERSIONS = Some v" "qv_initial v \<noteq> qv_retry v" "qv_initial v = 0 \<or> qv_initial v = 1"
  using assms by (auto simp: VERSIONS_def)

lemma low_nibble_masked: "(x XOR (m AND 0x0f)) AND 0x80 = x AND 0x80" "drop_bit 4 (x XOR (m AND 0x0f)) = drop_bit 4 x" for x m :: u8
proof -
  have nibble: "bit (0x0f :: u8) n \<longleftrightarrow> n < 4" for n
  proof -
    have "(0x0f :: u8) = mask 4" by (simp add: mask_eq_exp_minus_1)
    then show ?thesis by (simp only: bit_mask_iff) auto
  qed
  have "(x XOR (m AND 0x0f)) AND 0x80 = (x AND 0x80) XOR (m AND (0x0f AND 0x80))"
    by (simp only: bit.conj_xor_distrib2 and.assoc)
  then show "(x XOR (m AND 0x0f)) AND 0x80 = x AND 0x80" by simp
  show "drop_bit 4 (x XOR (m AND 0x0f)) = drop_bit 4 x" by (rule bit_word_eqI) (auto simp: bit_simps nibble)
qed

lemma initial_first_bits:
  assumes "v \<in> set VERSIONS" "1 \<le> ip_size p" "ip_size p \<le> 4"
  shows "initial_first v p AND 0x80 \<noteq> 0" "drop_bit 4 (initial_first v p) AND 3 = qv_initial v"
    "unat (initial_first v p AND 3) + 1 = ip_size p"
proof -
  have "ip_size p = 1 \<or> ip_size p = 2 \<or> ip_size p = 3 \<or> ip_size p = 4" using assms(2,3) by linarith
  then show "initial_first v p AND 0x80 \<noteq> 0" "drop_bit 4 (initial_first v p) AND 3 = qv_initial v"
    "unat (initial_first v p AND 3) + 1 = ip_size p"
    using known_version(3) [OF assms(1)] by (auto simp: initial_first_def)
qed

lemma unat_length: "n < 256 \<Longrightarrow> unat (word_of_nat n :: u8) = n"
  by (simp add: unat_of_nat)

lemma initial_header:
  assumes ok: "initial_ok v dcid p n" and b: "b AND 0x80 \<noteq> 0" "drop_bit 4 b AND 3 = qv_initial v" and tail: "length tail = ip_size p + n + 16"
  shows "quic_header_of (b # initial_rest v dcid p n @ tail @ post)
     = Some \<lparr>qh_version = v, qh_initial = True, qh_dcid = dcid, qh_pn_off = 1 + length (initial_rest v dcid p n),
         qh_end = 1 + length (initial_rest v dcid p n) + length tail\<rparr>"
proof -
  let ?d = "b # initial_rest v dcid p n @ tail @ post"
  let ?t = "(ip_token_exp p, length (ip_token p))" and ?l = "(ip_len_exp p, ip_size p + n + 16)"
  note ok' = ok [unfolded initial_ok_def]
  let ?tl = "2 ^ ip_token_exp p" and ?ll = "2 ^ ip_len_exp p"
  have len: "length (initial_rest v dcid p n) = 6 + length dcid + length (ip_scid p) + ?tl + length (ip_token p) + ?ll"
    by (simp add: initial_rest_def enc_int_def length_enc_varint)
  have at1: "drop 1 ?d = be_bytes 4 (unat (qv_id v)) @ [word_of_nat (length dcid)] @ dcid @ [word_of_nat (length (ip_scid p))] @ ip_scid p
      @ enc_int ?t @ ip_token p @ enc_int ?l @ tail @ post"
    by (simp add: initial_rest_def)
  have at5: "drop 5 ?d = [word_of_nat (length dcid)] @ dcid @ [word_of_nat (length (ip_scid p))] @ ip_scid p
      @ enc_int ?t @ ip_token p @ enc_int ?l @ tail @ post"
    using drop_cursor [OF at1] by simp
  have at6: "drop 6 ?d = dcid @ [word_of_nat (length (ip_scid p))] @ ip_scid p @ enc_int ?t @ ip_token p @ enc_int ?l @ tail @ post"
    using drop_cursor [OF at5] by simp
  let ?p = "6 + length dcid"
  have at7: "drop ?p ?d = [word_of_nat (length (ip_scid p))] @ ip_scid p @ enc_int ?t @ ip_token p @ enc_int ?l @ tail @ post"
    using drop_cursor [OF at6] .
  let ?q = "?p + (1 + length (ip_scid p))"
  have at8: "drop ?q ?d = enc_int ?t @ ip_token p @ enc_int ?l @ tail @ post"
    using drop_cursor [of ?p ?d "word_of_nat (length (ip_scid p)) # ip_scid p"] at7 by simp
  have le8: "?q \<le> length ?d" using len by simp
  note token = varint_int [OF _ at8 le8, unfolded fst_conv snd_conv]
  have t: "int_ok ?t" "int_ok ?l" using ok' by simp_all
  let ?r = "?q + (?tl + length (ip_token p))"
  have at9: "drop ?r ?d = enc_int ?l @ tail @ post"
    using drop_cursor [OF token(2) [OF t(1)]] by (simp only: add.assoc)
  have le9: "?r \<le> length ?d" using len by simp
  note size = varint_int [OF t(2) at9 le9, unfolded fst_conv snd_conv]
  have first: "get_at ?d 0 = Some b" by (rule get_at_cursor [where r = "drop 1 ?d"]) simp
  have id: "get_range ?d 1 5 = Some (be_bytes 4 (unat (qv_id v)))" using get_range_cursor [OF at1] by simp
  have idv: "word_of_nat (be_nat (be_bytes 4 (unat (qv_id v)))) = qv_id v"
    using unsigned_less [of "qv_id v", where ?'a = nat] by (simp add: be_nat_be_bytes)
  have dl: "unat (word_of_nat (length dcid) :: u8) = length dcid" "unat (word_of_nat (length (ip_scid p)) :: u8) = length (ip_scid p)"
    using ok' by (simp_all add: unat_length)
  then have small: "\<not> 20 < (word_of_nat (length dcid) :: u8)" using ok' by (simp only: word_less_nat_alt) simp
  have ids: "get_at ?d 5 = Some (word_of_nat (length dcid))" "get_range ?d 6 ?p = Some dcid"
    "get_at ?d ?p = Some (word_of_nat (length (ip_scid p)))"
    using get_at_cursor [OF at5 [simplified append.simps]] get_range_cursor [OF at6] get_at_cursor [OF at7 [simplified append.simps]] len by simp_all
  have fin: "?r + ?ll + (ip_size p + n + 16) = 1 + length (initial_rest v dcid p n) + length tail" "?r + ?ll = 1 + length (initial_rest v dcid p n)"
    "1 + length (initial_rest v dcid p n) + length tail \<le> length ?d"
    using len tail by simp_all
  have v: "find (\<lambda>v'. qv_id v' = qv_id v) VERSIONS = Some v" "qv_initial v \<noteq> qv_retry v" using known_version ok' by blast+
  have lens: "unat (word_of_nat (length (ip_token p)) :: u64) = length (ip_token p)"
    "unat (word_of_nat (ip_size p + n + 16) :: u64) = ip_size p + n + 16"
    using int_value [OF t(1)] int_value [OF t(2)] by (simp_all only: snd_conv)
  show ?thesis
    unfolding quic_header_of_def first id Option.bind.bind_lunit Let_def if_not_P [OF b(1)] idv v(1) b(2) if_not_P [OF v(2)]
      ids(1) if_not_P [OF small] dl(1) ids(2) ids(3) dl(2) token(1) [OF t(1)] 
    using size(1) lens fin by simp
qed

section \<open>Sealing and opening\<close>

type_synonym sealer = "bytes \<Rightarrow> bytes \<Rightarrow> bytes \<Rightarrow> bytes \<Rightarrow> bytes \<times> bytes"

text \<open>AES-128-GCM: a ciphertext as long as the plaintext and a tag of 16 bytes, which opens again (NIST SP 800-38D, RFC 5116).\<close>

definition aead_ok :: "crypto \<Rightarrow> sealer \<Rightarrow> bool" where
  "aead_ok c seal \<longleftrightarrow> (\<forall>key nonce ad plain. length key = 16 \<and> length nonce = 12 \<longrightarrow>
     length (fst (seal key nonce ad plain)) = length plain \<and> length (snd (seal key nonce ad plain)) = 16
     \<and> gcm_open c key nonce ad (fst (seal key nonce ad plain)) (snd (seal key nonce ad plain)) = Some plain)"

definition xor_bytes :: "bytes \<Rightarrow> bytes \<Rightarrow> bytes" where
  "xor_bytes xs ys = map (\<lambda>(a, b). a XOR b) (zip xs ys)"

definition sent_number :: "initial_packet \<Rightarrow> bytes" where
  "sent_number p = be_bytes (ip_size p) (ip_number p)"

definition sealed_body :: "sealer \<Rightarrow> quic_keys \<Rightarrow> quic_version \<Rightarrow> bytes \<Rightarrow> initial_packet \<Rightarrow> bytes \<Rightarrow> bytes" where
  "sealed_body seal keys v dcid p plain =
     (let sealed = seal (qk_aead keys) (keys_nonce keys (word_of_nat (ip_number p)))
        (initial_first v p # initial_rest v dcid p (length plain) @ sent_number p) plain in
      fst sealed @ snd sealed)"

text \<open>The sample for the mask is taken as if the packet number had four bytes.\<close>

definition packet_mask :: "crypto \<Rightarrow> quic_keys \<Rightarrow> initial_packet \<Rightarrow> bytes \<Rightarrow> bytes" where
  "packet_mask c keys p body = aes_block c (qk_hp keys) (take 16 (drop (4 - ip_size p) body))"

definition protect :: "quic_version \<Rightarrow> bytes \<Rightarrow> initial_packet \<Rightarrow> nat \<Rightarrow> bytes \<Rightarrow> bytes \<Rightarrow> bytes" where
  "protect v dcid p n mk body =
     (initial_first v p XOR (mk ! 0 AND 0x0f)) # initial_rest v dcid p n @ xor_bytes (sent_number p) (drop 1 mk) @ body"

definition seal_packet :: "crypto \<Rightarrow> sealer \<Rightarrow> quic_keys \<Rightarrow> quic_version \<Rightarrow> bytes \<Rightarrow> initial_packet \<Rightarrow> bytes \<Rightarrow> bytes" where
  "seal_packet c seal keys v dcid p plain =
     (let body = sealed_body seal keys v dcid p plain in
      protect v dcid p (length plain) (packet_mask c keys p body) body)"

lemma xor_back: "(b XOR m) XOR m = b" for b m :: u8
  by (simp only: xor.assoc) simp

lemma length_xor_bytes: "length xs \<le> length ys \<Longrightarrow> length (xor_bytes xs ys) = length xs"
  by (simp add: xor_bytes_def)

lemma unmask_bytes:
  assumes "length pre = off + i" "drop (1 + i) mk = ms" "length bs \<le> length ms"
  shows "unmask_number mk off [i..<i + length bs] (pre @ xor_bytes bs ms @ rest) n
     = Got (pre @ bs @ rest, fold (\<lambda>b v. push_bit 8 v OR ucast b) bs n)"
  using assms
proof (induction bs arbitrary: pre i ms n)
  case Nil
  then show ?case by (simp add: xor_bytes_def)
next
  case (Cons b bs)
  then obtain m ms' where ms: "ms = m # ms'" by (cases ms) auto
  let ?pkt = "pre @ (b XOR m) # xor_bytes bs ms' @ rest"
  have pkt: "pre @ xor_bytes (b # bs) ms @ rest = ?pkt" by (simp add: ms xor_bytes_def)
  have mk: "drop (1 + i) mk = m # ms'" using Cons.prems(2) ms by simp
  then have next_mask: "drop (1 + Suc i) mk = ms'" using cursor_step [of "1 + i" mk m ms'] by simp
  have m: "idx mk (1 + i) = Got m" using get_at_cursor [OF mk] by (auto simp: idx_def)
  have b: "idx ?pkt (off + i) = Got (b XOR m)" using Cons.prems(1) by (simp add: idx_def nth_append)
  have put: "?pkt[off + i := b] = (pre @ [b]) @ xor_bytes bs ms' @ rest" using Cons.prems(1) by (simp add: list_update_append)
  have range: "[i..<i + length (b # bs)] = i # [Suc i..<Suc i + length bs]" by (simp add: upt_rec)
  have "length (pre @ [b]) = off + Suc i" "length bs \<le> length ms'" using Cons.prems ms by simp_all
  from Cons.IH [OF this(1) next_mask this(2), of "push_bit 8 n OR ucast b"] show ?case
    unfolding pkt range unmask_number.simps m andthen.simps b Let_def xor_back put by simp
qed

lemma number_bytes:
  assumes "ip_size p \<le> 4"
  shows "fold (\<lambda>b v. push_bit 8 v OR ucast b) (sent_number p) 0 = (word_of_nat (ip_number p) AND mask (8 * ip_size p) :: u64)"
proof -
  have "(256 :: nat) ^ ip_size p \<le> 256 ^ 4" using assms by (intro power_increasing) auto
  then have small: "be_nat (sent_number p) < 2 ^ 64" using be_nat_less [of "sent_number p"] by (simp add: sent_number_def)
  have "(256 :: nat) ^ ip_size p = 2 ^ (8 * ip_size p)" by (simp add: power_mult)
  moreover have "ip_number p mod 2 ^ 64 mod 2 ^ (8 * ip_size p) = ip_number p mod 2 ^ (8 * ip_size p)"
    using assms by (intro mod_mod_cancel le_imp_power_dvd) simp
  ultimately have "unat (fold (\<lambda>b v. push_bit 8 v OR ucast b) (sent_number p) (0 :: u64)) = unat (word_of_nat (ip_number p) AND mask (8 * ip_size p) :: u64)"
    using small fold_bytes [of 0 "sent_number p"]
    by (simp add: unat_and_mask unat_of_nat sent_number_def be_nat_be_bytes)
  then show ?thesis by (simp only: word_unat_eq_iff)
qed

lemma keys_lengths:
  assumes "crypto_ok c" "keys_new c v dcid = Some keys"
  shows "length (qk_aead keys) = 16" "length (keys_nonce keys n) = 12"
proof -
  obtain key iv hp where s: "secrets c v dcid = Some (key, iv, hp)" and k: "keys = \<lparr>qk_aead = key, qk_iv = iv, qk_hp = hp\<rparr>" "length key = 16"
    using assms(2) by (auto simp: keys_new_def bind_eq_Some_conv split: if_splits)
  have "length iv = 12" using s assms(1) by (auto simp: secrets_def expand_label_def crypto_ok_def bind_eq_Some_conv Let_def)
  then show "length (qk_aead keys) = 16" "length (keys_nonce keys n) = 12" using k by (simp_all add: keys_nonce_def)
qed

lemma open_protected:
  assumes ok: "initial_ok v dcid p (length plain)" and near: "ip_number p < 2 ^ 62" "expected_number largest \<le> 2 ^ 62"
      "expected_number largest < ip_number p + 2 ^ (8 * ip_size p) div 2" "ip_number p \<le> expected_number largest + 2 ^ (8 * ip_size p) div 2"
    and ct: "length ct = length plain" "length tag = 16"
    and gcm: "gcm_open c (qk_aead keys) (keys_nonce keys (word_of_nat (ip_number p)))
        (initial_first v p # initial_rest v dcid p (length plain) @ sent_number p) ct tag = Some plain"
    and mk: "packet_mask c keys p (ct @ tag) = mk" "length mk = 16"
    and d: "d = protect v dcid p (length plain) mk (ct @ tag)"
  shows "\<exists>h. quic_header_of (d @ post) = Some h
    \<and> qh_initial h \<and> qh_version h = v \<and> qh_dcid h = dcid \<and> qh_end h = length d
    \<and> open_packet c keys (d @ post) h largest = Got (plain, word_of_nat (ip_number p))"
proof -
  have v: "v \<in> set VERSIONS" and size: "1 \<le> ip_size p" "ip_size p \<le> 4" "4 \<le> ip_size p + length plain"
    using ok by (auto simp: initial_ok_def)
  note bits = initial_first_bits [OF v size(1,2)]
  obtain rest first num where rest: "initial_rest v dcid p (length plain) = rest" and first: "initial_first v p = first"
    and num: "sent_number p = num" by blast
  obtain masked where masked: "xor_bytes num (drop 1 mk) = masked" by blast
  obtain b where b: "first XOR (mk ! 0 AND 0x0f) = b" by blast
  have d': "d = b # rest @ masked @ ct @ tag" unfolding d protect_def rest first num masked b ..
  have nums: "length num = ip_size p" "length masked = ip_size p"
    using mk(2) size by (auto simp: sent_number_def length_xor_bytes simp flip: num masked)
  let ?sample = "take 16 (drop (4 - ip_size p) (ct @ tag))"
  have sample: "length ?sample = 16" using ct size by simp
  then have block: "keys_mask c keys ?sample = Some mk" using mk(1) by (simp add: packet_mask_def keys_mask_def)
  let ?h = "\<lparr>qh_version = v, qh_initial = True, qh_dcid = dcid, qh_pn_off = 1 + length rest, qh_end = length d\<rparr>"
  have "b AND 0x80 \<noteq> 0" "drop_bit 4 b AND 3 = qv_initial v" using bits(1,2) by (simp_all only: low_nibble_masked not_False_eq_True flip: b first)
  moreover have "length (masked @ ct @ tag) = ip_size p + length plain + 16" using nums ct by simp
  ultimately have header: "quic_header_of (d @ post) = Some ?h"
    using initial_header [OF ok, of b "masked @ ct @ tag" post] unfolding rest d' by simp
  let ?off = "1 + length rest"
  have fin: "length d = ?off + ip_size p + length ct + 16" unfolding d' using nums ct by simp
  have pkt: "slice (d @ post) 0 (length d) = Got d" by simp
  have "drop (?off + 4) d = drop 4 (drop ?off d)" unfolding drop_drop by (simp only: add.commute)
  also have "drop ?off d = masked @ ct @ tag" by (simp add: d')
  finally have "drop (?off + 4) d = drop (4 - ip_size p) (ct @ tag)" using nums(2) size by simp
  then have "drop (?off + 4) d = ?sample @ drop 16 (drop (4 - ip_size p) (ct @ tag))" by (simp only: append_take_drop_id)
  then have range: "get_range d (?off + 4) (?off + 20) = Some ?sample"
    using get_range_cursor [of "?off + 4" d ?sample] sample fin ct size by (simp del: get_range_Some)
  have heads: "idx mk 0 = Got (mk ! 0)" "idx d 0 = Got b" using mk(2) by (simp_all add: idx_def d')
  have unfirst: "b XOR (mk ! 0 AND 0x0f) = first" unfolding b [symmetric] by (rule xor_back)
  have put: "d[0 := first] = (first # rest) @ masked @ ct @ tag" by (simp add: d')
  have unmask: "unmask_number mk ?off [0..<ip_size p] ((first # rest) @ masked @ ct @ tag) 0
      = Got ((first # rest) @ num @ ct @ tag, word_of_nat (ip_number p) AND mask (8 * ip_size p))"
    using unmask_bytes [of "first # rest" ?off 0 mk "drop 1 mk" num "ct @ tag" 0] mk(2) nums size number_bytes [OF size(2)]
    unfolding num masked by simp
  have "8 * ip_size p \<le> 32" "0 < 8 * ip_size p" "unat (word_of_nat (ip_number p) :: u64) = ip_number p"
    using size near(1) by (simp_all add: unat_of_nat)
  then have pn: "decode_number (word_of_nat (ip_number p) AND mask (8 * ip_size p)) (ip_size p * 8) largest = word_of_nat (ip_number p)"
    using decode_number_eq [of "8 * ip_size p" "word_of_nat (ip_number p)" largest] near by (simp add: mult.commute)
  let ?plainpkt = "(first # rest) @ num @ ct @ tag"
  have tag_at: "length d - 16 = ?off + ip_size p + length ct" "\<not> (length d < 16 \<or> length d - 16 < ?off + ip_size p)"
    unfolding fin by simp_all
  have cuts: "slice ?plainpkt (?off + ip_size p + length ct) (length ?plainpkt) = Got tag"
    "slice ?plainpkt 0 (?off + ip_size p) = Got (first # rest @ num)"
    "slice ?plainpkt (?off + ip_size p) (?off + ip_size p + length ct) = Got ct"
    using nums ct by (simp_all add: slice_def)
  have "open_packet c keys (d @ post) ?h largest = Got (plain, word_of_nat (ip_number p))"
    unfolding open_packet_def Let_def quic_header.select_convs pkt andthen.simps range of_option_simps block heads unfirst bits(3) [unfolded first] put unmask
      fst_conv snd_conv pn if_not_P [OF tag_at(2)] tag_at(1) cuts gcm [unfolded first rest num]
    using fin by simp
  then show ?thesis using header by (intro exI [of _ ?h] conjI) simp_all
qed

lemma open_sealed:
  assumes c: "crypto_ok c" "aead_ok c seal" "keys_new c v dcid = Some keys" and ok: "initial_ok v dcid p (length plain)"
    and near: "ip_number p < 2 ^ 62" "expected_number largest \<le> 2 ^ 62" "expected_number largest < ip_number p + 2 ^ (8 * ip_size p) div 2"
      "ip_number p \<le> expected_number largest + 2 ^ (8 * ip_size p) div 2"
  shows "\<exists>h. quic_header_of (seal_packet c seal keys v dcid p plain @ post) = Some h
    \<and> qh_initial h \<and> qh_version h = v \<and> qh_dcid h = dcid \<and> qh_end h = length (seal_packet c seal keys v dcid p plain)
    \<and> open_packet c keys (seal_packet c seal keys v dcid p plain @ post) h largest = Got (plain, word_of_nat (ip_number p))"
proof -
  let ?ad = "initial_first v p # initial_rest v dcid p (length plain) @ sent_number p"
  obtain ct tag where sealed: "seal (qk_aead keys) (keys_nonce keys (word_of_nat (ip_number p))) ?ad plain = (ct, tag)" by fastforce
  have key: "length (qk_aead keys) = 16 \<and> length (keys_nonce keys (word_of_nat (ip_number p))) = 12" using keys_lengths [OF c(1,3)] by blast
  have ct: "length ct = length plain" "length tag = 16"
    "gcm_open c (qk_aead keys) (keys_nonce keys (word_of_nat (ip_number p))) ?ad ct tag = Some plain"
    using c(2) [unfolded aead_ok_def, rule_format, OF key, of ?ad plain] unfolding sealed by simp_all
  have body: "sealed_body seal keys v dcid p plain = ct @ tag" by (simp add: sealed_body_def sealed Let_def)
  have "length (take 16 (drop (4 - ip_size p) (ct @ tag))) = 16" using ct ok by (simp add: initial_ok_def)
  then have mk: "length (packet_mask c keys p (ct @ tag)) = 16" using c(1) by (simp only: packet_mask_def crypto_ok_def)
  have "seal_packet c seal keys v dcid p plain = protect v dcid p (length plain) (packet_mask c keys p (ct @ tag)) (ct @ tag)"
    by (simp add: seal_packet_def body Let_def)
  from open_protected [OF ok near ct refl mk this] show ?thesis .
qed

lemma length_initial_rest:
  "length (initial_rest v dcid p n) = 6 + length dcid + length (ip_scid p) + 2 ^ ip_token_exp p + length (ip_token p) + 2 ^ ip_len_exp p"
  by (simp add: initial_rest_def enc_int_def length_enc_varint)

lemma length_sealed:
  assumes c: "crypto_ok c" "aead_ok c seal" "keys_new c v dcid = Some keys" and ok: "initial_ok v dcid p (length plain)"
  shows "length (seal_packet c seal keys v dcid p plain) = 1 + length (initial_rest v dcid p (length plain)) + ip_size p + length plain + 16"
proof -
  let ?ad = "initial_first v p # initial_rest v dcid p (length plain) @ sent_number p"
  obtain ct tag where sealed: "seal (qk_aead keys) (keys_nonce keys (word_of_nat (ip_number p))) ?ad plain = (ct, tag)" by fastforce
  have key: "length (qk_aead keys) = 16 \<and> length (keys_nonce keys (word_of_nat (ip_number p))) = 12" using keys_lengths [OF c(1,3)] by blast
  have ct: "length ct = length plain" "length tag = 16"
    using c(2) [unfolded aead_ok_def, rule_format, OF key, of ?ad plain] unfolding sealed by simp_all
  have body: "sealed_body seal keys v dcid p plain = ct @ tag" by (simp add: sealed_body_def sealed Let_def)
  have "length (take 16 (drop (4 - ip_size p) (ct @ tag))) = 16" using ct ok by (simp add: initial_ok_def)
  then have mk: "length (packet_mask c keys p (ct @ tag)) = 16" using c(1) by (simp only: packet_mask_def crypto_ok_def)
  have "length (xor_bytes (sent_number p) (drop 1 (packet_mask c keys p (ct @ tag)))) = ip_size p"
    using mk ok by (subst length_xor_bytes) (auto simp: sent_number_def initial_ok_def)
  then show ?thesis using ct by (simp add: seal_packet_def body Let_def protect_def)
qed

section \<open>The packets of a connection\<close>

text \<open>
  A client's connection: its handshake stream, its version and connection id, a bound of its packet numbers,
  and when it began; and one of its datagrams, Initial packets with the frames in them and what follows these.
\<close>

record quic_conv =
  qc_stream :: quic_stream
  qc_version :: quic_version
  qc_dcid :: bytes
  qc_crypto :: crypto
  qc_seal :: sealer
  qc_limit :: nat
  qc_src :: IpAddr
  qc_sport :: u16
  qc_start :: nat

type_synonym sent_packet = "initial_packet \<times> sent_frame list"

record quic_datagram =
  qd_packets :: "sent_packet list"
  qd_rest :: bytes

definition packet_plain :: "quic_conv \<Rightarrow> sent_packet \<Rightarrow> bytes" where
  "packet_plain cv e = concat (map (enc_frame (qs_bytes (qc_stream cv))) (snd e))"

definition enc_packet :: "quic_conv \<Rightarrow> sent_packet \<Rightarrow> bytes" where
  "enc_packet cv e =
     seal_packet (qc_crypto cv) (qc_seal cv) (the (keys_new (qc_crypto cv) (qc_version cv) (qc_dcid cv))) (qc_version cv) (qc_dcid cv)
       (fst e) (packet_plain cv e)"

definition enc_datagram :: "quic_conv \<Rightarrow> quic_datagram \<Rightarrow> bytes" where
  "enc_datagram cv e = concat (map (enc_packet cv) (qd_packets e)) @ qd_rest e"

definition quic_good :: "quic_conv \<Rightarrow> bool" where
  "quic_good cv \<longleftrightarrow> qs_good (qc_stream cv) \<and> crypto_ok (qc_crypto cv) \<and> aead_ok (qc_crypto cv) (qc_seal cv)
     \<and> keys_new (qc_crypto cv) (qc_version cv) (qc_dcid cv) \<noteq> None"

text \<open>
  Each number is sent in as many bytes as tell it from all the others (RFC 9000, 17.1). What follows the
  Initial packets in their datagram may be packets of other types, or anything else.
\<close>

definition packet_ok :: "quic_conv \<Rightarrow> sent_packet \<Rightarrow> bool" where
  "packet_ok cv e \<longleftrightarrow> initial_ok (qc_version cv) (qc_dcid cv) (fst e) (length (packet_plain cv e))
     \<and> list_all (sent_frame_ok (qs_bytes (qc_stream cv))) (snd e)
     \<and> ip_number (fst e) < qc_limit cv \<and> qc_limit cv < 2 ^ (8 * ip_size (fst e)) div 2"

function no_initial :: "bytes \<Rightarrow> bool" where
  "no_initial d = (case quic_header_of d of None \<Rightarrow> True | Some h \<Rightarrow> \<not> qh_initial h \<and> no_initial (drop (qh_end h) d))"
  by pat_completeness auto
termination
  by (relation "measure length") (auto dest!: quic_header_end)

declare no_initial.simps [simp del]

definition datagram_ok :: "quic_conv \<Rightarrow> quic_datagram \<Rightarrow> bool" where
  "datagram_ok cv e \<longleftrightarrow> qd_packets e \<noteq> [] \<and> list_all (packet_ok cv) (qd_packets e) \<and> no_initial (qd_rest e)"

definition datagram_span :: "quic_datagram \<Rightarrow> nat set" where
  "datagram_span e = (\<Union>p \<in> set (qd_packets e). frames_span (snd p))"

definition quic_conv_key :: "quic_conv \<Rightarrow> quic_key" where
  "quic_conv_key cv = (qc_src cv, qc_sport cv, qc_dcid cv)"

definition quic_full :: "quic_conv \<Rightarrow> nat set \<Rightarrow> bool" where
  "quic_full cv cov \<longleftrightarrow> {..<length (qs_msg (qc_stream cv))} \<subseteq> cov"

definition quic_name :: "quic_conv \<Rightarrow> string option" where
  "quic_name cv = client_hello_sni (qs_msg (qc_stream cv))"

definition flow_known :: "quic_conv \<Rightarrow> quic_flow \<Rightarrow> bool" where
  "flow_known cv f \<longleftrightarrow> qc_start cv \<le> qf_seen f \<and> expected_number (qf_largest f) \<le> qc_limit cv"

text \<open>The table while the message has gaps, and once the name is out.\<close>

definition quic_waits :: "quic_conv \<Rightarrow> nat set \<Rightarrow> quic_table \<Rightarrow> bool" where
  "quic_waits cv cov flows \<longleftrightarrow> \<not> quic_full cv cov \<and>
     (case hm_get flows (quic_conv_key cv) of
        None \<Rightarrow> cov = {}
      | Some f \<Rightarrow> flow_known cv f \<and> qholds (qs_bytes (qc_stream cv)) cov f) \<and> hm_wf flows"

definition quic_knows :: "quic_conv \<Rightarrow> quic_table \<Rightarrow> bool" where
  "quic_knows cv flows \<longleftrightarrow> (\<exists>f. hm_get flows (quic_conv_key cv) = Some f \<and> flow_known cv f \<and> qf_done f)"

lemma quic_room_known: "hm_get flows key = Some f \<Longrightarrow> quic_room now key flows = flows"
  by (simp add: quic_room_def hm_has_get)

lemma quic_room_absent: "hm_wf flows \<Longrightarrow> hm_get flows key = None \<Longrightarrow> hm_get (quic_room now key flows) key = None"
  using quic_table.room_subset [of flows now key key] by (cases "hm_get (quic_room now key flows) key") auto

lemma quic_expire_known: "hm_get flows key = Some f \<Longrightarrow> now - qf_seen f < QUIC_TTL \<Longrightarrow> quic_expire now key flows = flows"
  by (simp add: quic_expire_def)

lemma quic_expire_absent: "hm_get flows key = None \<Longrightarrow> quic_expire now key flows = flows"
  by (simp add: quic_expire_def)

lemma quic_flow_live:
  assumes "hm_get flows key = Some f" "\<not> qf_done f"
  shows "quic_flow_at now key flows = (Some (f\<lparr>qf_seen := now\<rparr>), hm_put key (f\<lparr>qf_seen := now\<rparr>) flows)"
  using assms by (simp add: quic_flow_at_def quic_room_known [OF assms(1)] Let_def)

lemma quic_flow_done:
  assumes "hm_get flows key = Some f" "qf_done f"
  shows "quic_flow_at now key flows = (None, hm_put key (f\<lparr>qf_seen := now\<rparr>) flows)"
  using assms by (simp add: quic_flow_at_def quic_room_known [OF assms(1)] Let_def)

definition quic_new_flow :: "nat \<Rightarrow> quic_flow" where
  "quic_new_flow now = \<lparr>qf_buf = [], qf_filled = [], qf_ready = 0, qf_seen = now, qf_done = False, qf_largest = None\<rparr>"

lemma quic_flow_fresh:
  assumes "hm_wf flows" "hm_get flows key = None"
  shows "quic_flow_at now key flows = (Some (quic_new_flow now), hm_put key (quic_new_flow now) (quic_room now key flows))"
  using quic_room_absent [OF assms] by (simp add: quic_flow_at_def quic_new_flow_def Let_def)

lemma qholds_stamped [simp]: "qholds S cov (f\<lparr>qf_seen := t\<rparr>) = qholds S cov f" "qholds S cov (f\<lparr>qf_largest := l\<rparr>) = qholds S cov f"
  by (simp_all add: qholds_def)

lemma largest_bound:
  assumes "expected_number l \<le> limit" "unat pn < limit"
  shows "expected_number (Some (case l of None \<Rightarrow> pn | Some old \<Rightarrow> max old pn)) \<le> limit"
  using assms by (cases l) (auto simp: expected_number_def max_def)

lemma packet_opens:
  assumes good: "quic_good cv" and ok: "packet_ok cv e" and near: "expected_number largest \<le> qc_limit cv"
  shows "\<exists>h keys. quic_header_of (enc_packet cv e @ post) = Some h \<and> qh_initial h \<and> qh_version h = qc_version cv \<and> qh_dcid h = qc_dcid cv
    \<and> drop (qh_end h) (enc_packet cv e @ post) = post \<and> keys_new (qc_crypto cv) (qc_version cv) (qc_dcid cv) = Some keys
    \<and> open_packet (qc_crypto cv) keys (enc_packet cv e @ post) h largest = Got (packet_plain cv e, word_of_nat (ip_number (fst e)))"
proof -
  let ?p = "fst e" and ?half = "2 ^ (8 * ip_size (fst e)) div 2 :: nat"
  obtain keys where keys: "keys_new (qc_crypto cv) (qc_version cv) (qc_dcid cv) = Some keys" using good by (auto simp: quic_good_def)
  have n: "ip_number ?p < qc_limit cv" "qc_limit cv < ?half" and ini: "initial_ok (qc_version cv) (qc_dcid cv) ?p (length (packet_plain cv e))"
    using ok by (auto simp: packet_ok_def)
  have "(2 :: nat) ^ (8 * ip_size ?p) \<le> 2 ^ 32" using ini by (intro power_increasing) (auto simp: initial_ok_def)
  then have "?half \<le> 2 ^ 62" by simp
  then have "ip_number ?p < 2 ^ 62" "expected_number largest \<le> 2 ^ 62" "expected_number largest < ip_number ?p + ?half"
      "ip_number ?p \<le> expected_number largest + ?half" using n near by linarith+
  from open_sealed [OF _ _ keys ini this, of "qc_seal cv" post] good show ?thesis
    unfolding quic_good_def enc_packet_def keys option.sel by auto
qed

lemma sent_pieces_ok: "list_all (sent_frame_ok S) fs \<Longrightarrow> \<forall>e \<in> set (concat (map sent_piece fs)). frame_ok S e"
proof (induction fs)
  case (Cons f fs)
  then show ?case by (cases f) auto
qed simp

lemma quic_packet_live:
  assumes good: "quic_good cv" and ok: "packet_ok cv e" and h: "qh_initial h" "qh_version h = qc_version cv" "qh_dcid h = qc_dcid cv"
    and keys: "keys_new (qc_crypto cv) (qc_version cv) (qc_dcid cv) = Some keys"
    and table: "quic_expire now (quic_conv_key cv) flows = flows"
    and opened: "open_packet (qc_crypto cv) keys d h (case hm_get flows (quic_conv_key cv) of None \<Rightarrow> None | Some f \<Rightarrow> qf_largest f)
        = Got (packet_plain cv e, word_of_nat (ip_number (fst e)))"
    and flow: "quic_flow_at now' (quic_conv_key cv) flows = (Some f, flows2)" "qholds (qs_bytes (qc_stream cv)) cov f" "flow_known cv f"
    and wf: "hm_wf flows2" and part: "\<not> quic_full cv cov"
  shows "\<exists>flows'. quic_packet (qc_crypto cv) now now' (qc_src cv) (qc_sport cv) d h flows None
      = Got (if quic_full cv (cov \<union> frames_span (snd e)) then quic_name cv else None, flows')
    \<and> (if quic_full cv (cov \<union> frames_span (snd e)) then quic_knows cv flows'
       else quic_waits cv (cov \<union> frames_span (snd e)) flows')"
proof -
  let ?c = "qc_stream cv" and ?pn = "word_of_nat (ip_number (fst e)) :: u64" and ?key = "quic_conv_key cv"
  let ?es = "concat (map sent_piece (snd e))"
  let ?f = "f\<lparr>qf_largest := Some (case qf_largest f of None \<Rightarrow> ?pn | Some old \<Rightarrow> max old ?pn)\<rparr>"
  have c: "qs_good ?c" using good by (simp add: quic_good_def)
  have sent: "list_all (sent_frame_ok (qs_bytes ?c)) (snd e)" using ok by (simp add: packet_ok_def)
  then have "\<forall>e' \<in> set ?es. frame_ok (qs_bytes ?c) e'" by (rule sent_pieces_ok)
  from quic_add_pieces [OF c this, of cov ?f] flow(2) part obtain f' where
    f': "quic_add_frames (map (frame_of (qs_bytes ?c)) ?es) ?f None
        = Got (if quic_full cv (cov \<union> frames_span (snd e)) then quic_name cv else None, f')"
      "if quic_full cv (cov \<union> frames_span (snd e)) then qf_done f' else qholds (qs_bytes ?c) (cov \<union> frames_span (snd e)) f'"
      "qf_seen f' = qf_seen f" "qf_largest f' = qf_largest ?f"
    unfolding quic_full_def quic_name_def frames_span_def by auto
  have "unat ?pn \<le> ip_number (fst e)" by (simp add: unat_of_nat)
  then have "unat ?pn < qc_limit cv" using ok by (simp add: packet_ok_def)
  then have known: "flow_known cv f'" using flow(3) f'(3,4) largest_bound [of "qf_largest f" "qc_limit cv" ?pn] by (simp add: flow_known_def)
  have "packet_plain cv e = concat (map (enc_frame (qs_bytes ?c)) (snd e))" by (simp add: packet_plain_def)
  then have scan: "crypto_frames (packet_plain cv e) 0 = map (frame_of (qs_bytes ?c)) ?es"
    using crypto_frames_enc [OF sent, of 0 "packet_plain cv e"] by simp
  have "quic_packet (qc_crypto cv) now now' (qc_src cv) (qc_sport cv) d h flows None
      = Got (if quic_full cv (cov \<union> frames_span (snd e)) then quic_name cv else None, hm_put ?key f' flows2)"
    unfolding quic_packet_def h(2,3) quic_conv_key_def [symmetric] Let_def table opened keys option.case fallible.case flow(1) prod.case scan f'(1)
    using h(1) by simp
  moreover have "hm_wf (hm_put ?key f' flows2)" using wf by (simp add: hm_wf_put)
  ultimately show ?thesis using f'(2) known by (auto simp: quic_knows_def quic_waits_def hm_get_put)
qed

lemma quic_packet_known:
  assumes h: "qh_initial h" "qh_version h = qc_version cv" "qh_dcid h = qc_dcid cv"
    and keys: "keys_new (qc_crypto cv) (qc_version cv) (qc_dcid cv) = Some keys"
    and f: "hm_get flows (quic_conv_key cv) = Some f" "qf_done f" "now - qf_seen f < QUIC_TTL"
    and opened: "open_packet (qc_crypto cv) keys d h (qf_largest f) = Got opened"
  shows "quic_packet (qc_crypto cv) now now' (qc_src cv) (qc_sport cv) d h flows sni
      = Got (sni, hm_put (quic_conv_key cv) (f\<lparr>qf_seen := now'\<rparr>) flows)"
  unfolding quic_packet_def h(2,3) quic_conv_key_def [symmetric] Let_def quic_expire_known [OF f(1,3)] f(1) keys option.case opened
    fallible.case quic_flow_done [OF f(1,2)] prod.case
  using h(1) by (cases opened) simp

lemma feed_packet:
  assumes "quic_header_of d = Some h" "drop (qh_end h) d = post"
    and "quic_packet c (clk i) (clk (i + 1)) src sport d h flows sni = Got (r, flows')"
  shows "quic_feed c clk i src sport d flows sni = quic_feed c clk (i + 2) src sport post flows' r"
proof -
  have "slice d (qh_end h) (length d) = Got post" using quic_header_end [OF assms(1)] assms(2) by auto
  then show ?thesis by (subst quic_feed.simps) (simp only: assms(1,3) option.case andthen.simps fst_conv snd_conv)
qed

text \<open>A datagram is read within ten seconds of the start: every second reading of the clock stamps the flow.\<close>

definition feed_in_time :: "quic_conv \<Rightarrow> (nat \<Rightarrow> nat) \<Rightarrow> bool" where
  "feed_in_time cv clk \<longleftrightarrow> (\<forall>i. qc_start cv \<le> clk (2 * i + 1) \<and> clk (2 * i) < qc_start cv + QUIC_TTL)"

lemma in_time: "feed_in_time cv clk \<Longrightarrow> qc_start cv \<le> clk (2 * i + 1)" "feed_in_time cv clk \<Longrightarrow> clk (2 * i) < qc_start cv + QUIC_TTL"
  by (auto simp: feed_in_time_def)

lemma still_fresh: "qc_start cv \<le> qf_seen f \<Longrightarrow> now < qc_start cv + QUIC_TTL \<Longrightarrow> now - qf_seen f < QUIC_TTL"
  by (auto simp: QUIC_TTL_def)

lemma feed_one:
  assumes good: "quic_good cv" and ok: "packet_ok cv e" and time: "feed_in_time cv clk" and waits: "quic_waits cv cov flows"
  shows "\<exists>flows'. quic_feed (qc_crypto cv) clk (2 * i) (qc_src cv) (qc_sport cv) (enc_packet cv e @ post) flows None
      = quic_feed (qc_crypto cv) clk (2 * Suc i) (qc_src cv) (qc_sport cv) post flows'
          (if quic_full cv (cov \<union> frames_span (snd e)) then quic_name cv else None)
    \<and> (if quic_full cv (cov \<union> frames_span (snd e)) then quic_knows cv flows'
       else quic_waits cv (cov \<union> frames_span (snd e)) flows')"
proof -
  let ?key = "quic_conv_key cv" and ?now = "clk (2 * i)" and ?now' = "clk (2 * i + 1)"
  let ?largest = "case hm_get flows ?key of None \<Rightarrow> None | Some f \<Rightarrow> qf_largest f"
  have wf: "hm_wf flows" and part: "\<not> quic_full cv cov" using waits by (auto simp: quic_waits_def)
  note t = in_time [OF time, of i]
  have "expected_number ?largest \<le> qc_limit cv"
    using waits by (auto simp: quic_waits_def flow_known_def expected_number_def split: option.splits)
  from packet_opens [OF good ok this, of post] obtain h keys where h: "quic_header_of (enc_packet cv e @ post) = Some h" "qh_initial h"
      "qh_version h = qc_version cv" "qh_dcid h = qc_dcid cv" "drop (qh_end h) (enc_packet cv e @ post) = post"
      and keys: "keys_new (qc_crypto cv) (qc_version cv) (qc_dcid cv) = Some keys"
      and opened: "open_packet (qc_crypto cv) keys (enc_packet cv e @ post) h ?largest = Got (packet_plain cv e, word_of_nat (ip_number (fst e)))"
    by blast
  have "\<exists>f flows2. quic_flow_at ?now' ?key flows = (Some f, flows2) \<and> qholds (qs_bytes (qc_stream cv)) cov f \<and> flow_known cv f
      \<and> hm_wf flows2 \<and> quic_expire ?now ?key flows = flows"
  proof (cases "hm_get flows ?key")
    case None
    then have "cov = {}" using waits by (simp add: quic_waits_def)
    then have "qholds (qs_bytes (qc_stream cv)) cov (quic_new_flow ?now')" by (simp add: qholds_def quic_new_flow_def sparse_empty)
    moreover have "flow_known cv (quic_new_flow ?now')" using t by (simp add: flow_known_def quic_new_flow_def expected_number_def)
    ultimately show ?thesis
      using quic_flow_fresh [OF wf None] quic_expire_absent [OF None] hm_wf_put [OF quic_table.room_wf [OF wf]] by blast
  next
    case (Some f)
    then have f: "flow_known cv f" "qholds (qs_bytes (qc_stream cv)) cov f" using waits by (simp_all add: quic_waits_def)
    then have "\<not> qf_done f" "?now - qf_seen f < QUIC_TTL" "flow_known cv (f\<lparr>qf_seen := ?now'\<rparr>)"
      using t still_fresh [of cv f ?now] by (auto simp: qholds_def flow_known_def)
    then show ?thesis using quic_flow_live [OF Some] quic_expire_known [OF Some] f(2) hm_wf_put [OF wf] by auto
  qed
  then obtain f flows2 where flow: "quic_flow_at ?now' ?key flows = (Some f, flows2)" "qholds (qs_bytes (qc_stream cv)) cov f" "flow_known cv f"
      and wf2: "hm_wf flows2" and table: "quic_expire ?now ?key flows = flows" by blast
  from quic_packet_live [OF good ok h(2-4) keys table opened flow wf2 part] feed_packet [OF h(1,5), of _ clk "2 * i"] show ?thesis
    by fastforce
qed

lemma feed_one_known:
  assumes good: "quic_good cv" and ok: "packet_ok cv e" and time: "feed_in_time cv clk" and knows: "quic_knows cv flows"
  shows "\<exists>flows'. quic_feed (qc_crypto cv) clk (2 * i) (qc_src cv) (qc_sport cv) (enc_packet cv e @ post) flows sni
      = quic_feed (qc_crypto cv) clk (2 * Suc i) (qc_src cv) (qc_sport cv) post flows' sni
    \<and> quic_knows cv flows'"
proof -
  obtain f where f: "hm_get flows (quic_conv_key cv) = Some f" "flow_known cv f" "qf_done f" using knows by (auto simp: quic_knows_def)
  note t = in_time [OF time, of i]
  have time': "clk (2 * i) - qf_seen f < QUIC_TTL" "flow_known cv (f\<lparr>qf_seen := clk (2 * i + 1)\<rparr>)"
    using f(2) t still_fresh [of cv f "clk (2 * i)"] by (auto simp: flow_known_def)
  obtain h keys where h: "quic_header_of (enc_packet cv e @ post) = Some h" "qh_initial h" "qh_version h = qc_version cv" "qh_dcid h = qc_dcid cv"
      "drop (qh_end h) (enc_packet cv e @ post) = post" and keys: "keys_new (qc_crypto cv) (qc_version cv) (qc_dcid cv) = Some keys"
      and opened: "open_packet (qc_crypto cv) keys (enc_packet cv e @ post) h (qf_largest f) = Got (packet_plain cv e, word_of_nat (ip_number (fst e)))"
    using packet_opens [OF good ok, of "qf_largest f" post] f(2) by (auto simp: flow_known_def)
  from quic_packet_known [OF h(2-4) keys f(1,3) time'(1) opened, of "clk (2 * i + 1)"] feed_packet [OF h(1,5), of _ clk "2 * i"] show ?thesis
    using f(3) time'(2) by (auto simp: quic_knows_def hm_get_put)
qed

text \<open>The rest of the datagram leaves the flow as it is.\<close>

lemma expire_keeps:
  assumes "\<forall>f. hm_get flows key = Some f \<longrightarrow> now - qf_seen f < QUIC_TTL"
  shows "hm_get (quic_expire now key' flows) key = hm_get flows key" "hm_wf flows \<Longrightarrow> hm_wf (quic_expire now key' flows)"
  using assms by (auto simp: quic_expire_def hm_get_del hm_wf_del split: option.split)

lemma feed_rest:
  assumes "no_initial d" "feed_in_time cv clk" "\<forall>f. hm_get flows (quic_conv_key cv) = Some f \<longrightarrow> qc_start cv \<le> qf_seen f"
  shows "\<exists>flows'. quic_feed c clk (2 * i) src sport d flows sni = Got (sni, flows')
    \<and> hm_get flows' (quic_conv_key cv) = hm_get flows (quic_conv_key cv) \<and> (hm_wf flows \<longrightarrow> hm_wf flows')"
  using assms
proof (induction d arbitrary: i flows rule: no_initial.induct)
  case (1 d)
  show ?case
  proof (cases "quic_header_of d")
    case None
    then show ?thesis by (subst quic_feed.simps) simp
  next
    case (Some h)
    then have h: "\<not> qh_initial h" "no_initial (drop (qh_end h) d)" using 1(2) by (simp_all add: no_initial.simps [of d])
    let ?flows = "quic_expire (clk (2 * i)) (src, sport, qh_dcid h) flows"
    have fresh: "\<forall>f. hm_get flows (quic_conv_key cv) = Some f \<longrightarrow> clk (2 * i) - qf_seen f < QUIC_TTL"
      using 1(4) in_time(2) [OF 1(3), of i] still_fresh by blast
    note kept = expire_keeps [OF fresh, of "(src, sport, qh_dcid h)"]
    have "quic_packet c (clk (2 * i)) (clk (2 * i + 1)) src sport d h flows sni = Got (sni, ?flows)"
      using h(1) by (simp add: quic_packet_def Let_def)
    from feed_packet [OF Some refl this] have "quic_feed c clk (2 * i) src sport d flows sni
        = quic_feed c clk (2 * Suc i) src sport (drop (qh_end h) d) ?flows sni" by simp
    then show ?thesis using 1(1) [OF Some h(2) 1(3), of ?flows "Suc i"] 1(4) kept by (simp only:) metis
  qed
qed

lemma waits_kept:
  "quic_waits cv cov flows \<Longrightarrow> hm_get flows' (quic_conv_key cv) = hm_get flows (quic_conv_key cv) \<Longrightarrow> hm_wf flows' \<Longrightarrow> quic_waits cv cov flows'"
  by (simp add: quic_waits_def)

lemma feed_packets_known:
  assumes "quic_good cv" "list_all (packet_ok cv) ps" "no_initial rest" "feed_in_time cv clk" "quic_knows cv flows"
  shows "\<exists>flows'. quic_feed (qc_crypto cv) clk (2 * i) (qc_src cv) (qc_sport cv) (concat (map (enc_packet cv) ps) @ rest) flows sni
      = Got (sni, flows') \<and> quic_knows cv flows'"
  using assms(2,5)
proof (induction ps arbitrary: i flows)
  case Nil
  then show ?case
    using feed_rest [OF assms(3,4), of flows "qc_crypto cv" i "qc_src cv" "qc_sport cv" sni]
    by (auto simp: quic_knows_def flow_known_def)
next
  case (Cons p ps)
  obtain flows1 where f1: "quic_feed (qc_crypto cv) clk (2 * i) (qc_src cv) (qc_sport cv) (enc_packet cv p @ (concat (map (enc_packet cv) ps) @ rest)) flows sni
      = quic_feed (qc_crypto cv) clk (2 * Suc i) (qc_src cv) (qc_sport cv) (concat (map (enc_packet cv) ps) @ rest) flows1 sni" "quic_knows cv flows1"
    using feed_one_known [OF assms(1) _ assms(4) Cons.prems(2), of p i] Cons.prems(1) by fastforce
  then show ?case using Cons.IH [of flows1 "Suc i"] Cons.prems(1) by simp
qed

lemma feed_packets:
  assumes "quic_good cv" "list_all (packet_ok cv) ps" "no_initial rest" "feed_in_time cv clk" "quic_waits cv cov flows"
  shows "\<exists>flows'. quic_feed (qc_crypto cv) clk (2 * i) (qc_src cv) (qc_sport cv) (concat (map (enc_packet cv) ps) @ rest) flows None
      = Got (if quic_full cv (cov \<union> (\<Union>p \<in> set ps. frames_span (snd p))) then quic_name cv else None, flows')
    \<and> (if quic_full cv (cov \<union> (\<Union>p \<in> set ps. frames_span (snd p))) then quic_knows cv flows'
       else quic_waits cv (cov \<union> (\<Union>p \<in> set ps. frames_span (snd p))) flows')"
  using assms(2,5)
proof (induction ps arbitrary: i flows cov)
  case Nil
  then have "\<forall>f. hm_get flows (quic_conv_key cv) = Some f \<longrightarrow> qc_start cv \<le> qf_seen f"
    by (auto simp: quic_waits_def flow_known_def)
  from feed_rest [OF assms(3,4) this, of "qc_crypto cv" i "qc_src cv" "qc_sport cv" None] show ?case
    using Nil waits_kept by (fastforce simp: quic_waits_def)
next
  case (Cons p ps)
  let ?rest = "concat (map (enc_packet cv) ps) @ rest" and ?full = "quic_full cv (cov \<union> frames_span (snd p))"
  have p: "packet_ok cv p" "list_all (packet_ok cv) ps" using Cons.prems(1) by simp_all
  obtain flows1 where f1: "quic_feed (qc_crypto cv) clk (2 * i) (qc_src cv) (qc_sport cv) (enc_packet cv p @ ?rest) flows None
      = quic_feed (qc_crypto cv) clk (2 * Suc i) (qc_src cv) (qc_sport cv) ?rest flows1 (if ?full then quic_name cv else None)"
      "if ?full then quic_knows cv flows1 else quic_waits cv (cov \<union> frames_span (snd p)) flows1"
    using feed_one [OF assms(1) p(1) assms(4) Cons.prems(2), of i ?rest] by blast
  have all: "cov \<union> (\<Union>q \<in> set (p # ps). frames_span (snd q)) = (cov \<union> frames_span (snd p)) \<union> (\<Union>q \<in> set ps. frames_span (snd q))" by auto
  have split: "concat (map (enc_packet cv) (p # ps)) @ rest = enc_packet cv p @ ?rest" by simp
  show ?case
  proof (cases ?full)
    case True
    then have "quic_full cv (cov \<union> frames_span (snd p) \<union> (\<Union>q \<in> set ps. frames_span (snd q)))" by (auto simp: quic_full_def)
    then show ?thesis unfolding all split f1(1)
      using feed_packets_known [OF assms(1) p(2) assms(3,4), of flows1 "Suc i" "quic_name cv"] f1(2) True by simp
  next
    case False
    then show ?thesis unfolding all split f1(1) using Cons.IH [OF p(2), of "cov \<union> frames_span (snd p)" flows1 "Suc i"] f1(2) by simp
  qed
qed

text \<open>One more datagram of the connection.\<close>

lemma feed_datagram:
  assumes "quic_good cv" and "datagram_ok cv e" and "feed_in_time cv clk" and "quic_waits cv cov flows"
  shows "\<exists>flows'. quic_feed (qc_crypto cv) clk 0 (qc_src cv) (qc_sport cv) (enc_datagram cv e) flows None
      = Got (if quic_full cv (cov \<union> datagram_span e) then quic_name cv else None, flows')
    \<and> (if quic_full cv (cov \<union> datagram_span e) then quic_knows cv flows' else quic_waits cv (cov \<union> datagram_span e) flows')"
proof -
  have ok: "list_all (packet_ok cv) (qd_packets e)" "no_initial (qd_rest e)"
    using assms(2) by (simp_all add: datagram_ok_def)
  show ?thesis
    unfolding enc_datagram_def datagram_span_def
    using feed_packets [OF assms(1) ok assms(3,4), of 0] by (simp only: mult_0_right)
qed

lemma feed_again:
  assumes "quic_good cv" and "datagram_ok cv e" and "feed_in_time cv clk" and "quic_knows cv flows"
  shows "\<exists>flows'. quic_feed (qc_crypto cv) clk 0 (qc_src cv) (qc_sport cv) (enc_datagram cv e) flows None = Got (None, flows')
    \<and> quic_knows cv flows'"
  using feed_packets_known [OF assms(1) _ _ assms(3,4), of "qd_packets e" "qd_rest e" 0 None] assms(2)
  by (simp add: datagram_ok_def enc_datagram_def)

lemma datagram_header:
  assumes "quic_good cv" "datagram_ok cv e"
  shows "\<exists>h. quic_header_of (enc_datagram cv e) = Some h"
proof -
  obtain p ps where "qd_packets e = p # ps" "packet_ok cv p" using assms(2) by (cases "qd_packets e") (auto simp: datagram_ok_def)
  then show ?thesis
    using packet_opens [OF assms(1), of p None "concat (map (enc_packet cv) ps) @ qd_rest e"] by (auto simp: enc_datagram_def expected_number_def)
qed

end
