(* ===== verification/Quic_Shown.thy ===== *)
theory Quic_Shown
  imports Quic_Packets Sni_Shown
begin

text \<open>
  From the Initial packets of a QUIC connection to its name in the window: the datagrams of a client, sealed
  and protected as RFC 9001 lays down, in UDP and whatever layers carry it, pass the frame parser, the QUIC assembler
  and the packet task. The contract \<open>reassembler\<close> is discharged for the state of the pipeline.
\<close>

section \<open>Frames of a connection\<close>

record quic_dialog =
  qa_conv :: quic_conv
  qa_ends :: ends

definition dialog_good :: "quic_dialog \<Rightarrow> bool" where
  "dialog_good a \<longleftrightarrow> quic_good (qa_conv a) \<and> en_proto (qa_ends a) = Udp \<and> no_dns_ports (qa_ends a)
     \<and> qc_src (qa_conv a) = en_src (qa_ends a) \<and> qc_sport (qa_conv a) = en_sport (qa_ends a)"

text \<open>What else belongs to a frame: the clocks when it is handled, its datagram, the other fields.\<close>

record sent_udp =
  us_env :: frame_env
  us_clk :: "nat \<Rightarrow> u64"
  us_datagram :: quic_datagram
  us_layers :: layers
  us_csum :: u16

definition udp_payload :: "quic_dialog \<Rightarrow> sent_udp \<Rightarrow> bytes" where
  "udp_payload a e = enc_datagram (qa_conv a) (us_datagram e)"

definition udp_datagram :: "quic_dialog \<Rightarrow> sent_udp \<Rightarrow> bytes" where
  "udp_datagram a e = enc_udp (en_sport (qa_ends a)) (en_dport (qa_ends a)) (us_csum e) (udp_payload a e)"

definition udp_frame :: "quic_dialog \<Rightarrow> sent_udp \<Rightarrow> bytes" where
  "udp_frame a e = enc_layers (us_layers e) (en_src (qa_ends a)) (en_dst (qa_ends a)) 17 (udp_datagram a e)"

definition udp_frame_ok :: "quic_dialog \<Rightarrow> sent_udp \<Rightarrow> bool" where
  "udp_frame_ok a e \<longleftrightarrow> datagram_ok (qa_conv a) (us_datagram e) \<and> fe_crypto (us_env e) = qc_crypto (qa_conv a)
     \<and> feed_in_time (qa_conv a) (fe_clk (us_env e))
     \<and> layers_ok (us_layers e) (en_src (qa_ends a)) (en_dst (qa_ends a)) 17 (udp_datagram a e)"

lemma long_header: "quic_header_of d = Some h \<Longrightarrow> \<exists>b. get_at d 0 = Some b \<and> b AND 0x80 \<noteq> 0"
  by (auto simp: quic_header_of_def bind_eq_Some_conv Let_def simp del: get_at_Some split: if_splits)

lemma payload_header:
  assumes "dialog_good a" "udp_frame_ok a e"
  shows "\<exists>b. get_at (udp_payload a e) 0 = Some b \<and> b AND 0x80 \<noteq> 0"
  using datagram_header [of "qa_conv a" "us_datagram e"] assms long_header
  by (auto simp: dialog_good_def udp_frame_ok_def udp_payload_def simp del: get_at_Some)

lemma watch_udp:
  assumes good: "dialog_good a" and ok: "udp_frame_ok a e" and flows: "pr_quic (fst st) = Some flows"
    and feed: "quic_feed (qc_crypto (qa_conv a)) (fe_clk (us_env e)) 0 (qc_src (qa_conv a)) (qc_sport (qa_conv a)) (udp_payload a e) flows None
        = Got (r, flows')"
  shows "\<exists>n. watch_frame (us_env e) (us_clk e) (link_type (la_link (us_layers e))) (udp_frame a e) st
     = Got (r, ((fst st)\<lparr>pr_quic := Some flows'\<rparr>, snd (apply_packet (us_clk e) (ends_packet (qa_ends a) n r) (snd st))))"
proof -
  let ?en = "qa_ends a"
  obtain b where b: "get_at (udp_payload a e) 0 = Some b" "b AND 0x80 \<noteq> 0" using payload_header [OF good ok] by blast
  have src: "en_src ?en = qc_src (qa_conv a)" "en_sport ?en = qc_sport (qa_conv a)" "en_proto ?en = Udp" "no_dns_ports ?en"
    using good by (simp_all add: dialog_good_def)
  have "udp_sni (us_env e) (en_src ?en) (en_sport ?en) (udp_payload a e) (fst st) = Got (r, (fst st)\<lparr>pr_quic := Some flows'\<rparr>)"
    using feed ok b(2) unfolding udp_sni_def b(1) flows src udp_frame_ok_def by simp
  moreover have "layers_ok (us_layers e) (en_src ?en) (en_dst ?en) 17 (enc_udp (en_sport ?en) (en_dport ?en) (us_csum e) (udp_payload a e))"
    using ok by (simp add: udp_frame_ok_def udp_datagram_def)
  ultimately have "\<exists>n. parse_link_live (us_env e) (link_type (la_link (us_layers e))) (udp_frame a e) (fst st)
     = Got (ends_packet ?en n r, (fst st)\<lparr>pr_quic := Some flows'\<rparr>)"
    using src(3,4) by (auto simp: udp_layers udp_frame_def udp_datagram_def add_dns_def no_dns_ports_def ends_packet_def)
  then show ?thesis using watch_parsed by fastforce
qed

section \<open>The pipeline reassembles\<close>

definition watch_quic :: "quic_dialog \<Rightarrow> (sent_udp, pipeline) adder" where
  "watch_quic a e = watch_frame (us_env e) (us_clk e) (link_type (la_link (us_layers e))) (udp_frame a e)"

definition dialog_live :: "quic_dialog \<Rightarrow> nat set \<Rightarrow> pipeline \<Rightarrow> bool" where
  "dialog_live a cov st \<longleftrightarrow> reachable (snd st) \<and> (\<exists>flows. pr_quic (fst st) = Some flows \<and> quic_waits (qa_conv a) cov flows)"

definition dialog_done :: "quic_dialog \<Rightarrow> pipeline \<Rightarrow> bool" where
  "dialog_done a st \<longleftrightarrow> reachable (snd st) \<and> (\<exists>flows. pr_quic (fst st) = Some flows \<and> quic_knows (qa_conv a) flows)
     \<and> (\<forall>name. quic_name (qa_conv a) = Some name \<longrightarrow> shows_name (qa_ends a) name (snd st))"

definition sent_span :: "sent_udp \<Rightarrow> nat set" where
  "sent_span e = datagram_span (us_datagram e)"

lemma watch_quic_piece:
  assumes good: "dialog_good a" and live: "dialog_live a cov st" and ok: "udp_frame_ok a e"
  shows "\<exists>st'. watch_quic a e st = Got (if quic_full (qa_conv a) (cov \<union> sent_span e) then quic_name (qa_conv a) else None, st')
    \<and> (if quic_full (qa_conv a) (cov \<union> sent_span e) then dialog_done a st' else dialog_live a (cov \<union> sent_span e) st')"
proof -
  let ?r = "if quic_full (qa_conv a) (cov \<union> sent_span e) then quic_name (qa_conv a) else None"
  obtain flows where s: "reachable (snd st)" and flows: "pr_quic (fst st) = Some flows" "quic_waits (qa_conv a) cov flows"
    using live by (auto simp: dialog_live_def)
  have parts: "quic_good (qa_conv a)" "datagram_ok (qa_conv a) (us_datagram e)" "feed_in_time (qa_conv a) (fe_clk (us_env e))"
    using good ok by (simp_all add: dialog_good_def udp_frame_ok_def)
  obtain flows' where feed: "quic_feed (qc_crypto (qa_conv a)) (fe_clk (us_env e)) 0 (qc_src (qa_conv a)) (qc_sport (qa_conv a)) (udp_payload a e)
        flows None = Got (?r, flows')"
      and table: "if quic_full (qa_conv a) (cov \<union> sent_span e) then quic_knows (qa_conv a) flows' else quic_waits (qa_conv a) (cov \<union> sent_span e) flows'"
    using feed_datagram [OF parts flows(2)] unfolding udp_payload_def sent_span_def by blast
  obtain n where step: "watch_quic a e st = Got (?r, ((fst st)\<lparr>pr_quic := Some flows'\<rparr>,
      snd (apply_packet (us_clk e) (ends_packet (qa_ends a) n ?r) (snd st))))"
    using watch_udp [OF good ok flows(1) feed] unfolding watch_quic_def by blast
  have "shows_name (qa_ends a) name (snd (apply_packet (us_clk e) (ends_packet (qa_ends a) n ?r) (snd st)))"
    if "quic_full (qa_conv a) (cov \<union> sent_span e)" "quic_name (qa_conv a) = Some name" for name
    using apply_named_packet [OF s, of ?r name] that by simp
  then show ?thesis using step table packet_reachable [OF s] by (auto simp: dialog_done_def dialog_live_def)
qed

lemma watch_quic_done:
  assumes good: "dialog_good a" and finished: "dialog_done a st" and ok: "udp_frame_ok a e"
  shows "\<exists>st'. watch_quic a e st = Got (None, st') \<and> dialog_done a st'"
proof -
  obtain flows where s: "reachable (snd st)" and flows: "pr_quic (fst st) = Some flows" "quic_knows (qa_conv a) flows"
      and named: "\<And>name. quic_name (qa_conv a) = Some name \<Longrightarrow> shows_name (qa_ends a) name (snd st)"
    using finished by (auto simp: dialog_done_def)
  have parts: "quic_good (qa_conv a)" "datagram_ok (qa_conv a) (us_datagram e)" "feed_in_time (qa_conv a) (fe_clk (us_env e))"
    using good ok by (simp_all add: dialog_good_def udp_frame_ok_def)
  obtain flows' where feed: "quic_feed (qc_crypto (qa_conv a)) (fe_clk (us_env e)) 0 (qc_src (qa_conv a)) (qc_sport (qa_conv a)) (udp_payload a e)
        flows None = Got (None, flows')" "quic_knows (qa_conv a) flows'"
    using feed_again [OF parts flows(2)] unfolding udp_payload_def by blast
  obtain n where step: "watch_quic a e st = Got (None, ((fst st)\<lparr>pr_quic := Some flows'\<rparr>,
      snd (apply_packet (us_clk e) (ends_packet (qa_ends a) n None) (snd st))))"
    using watch_udp [OF good ok flows(1) feed(1)] unfolding watch_quic_def by blast
  have "shows_name (qa_ends a) name (snd (apply_packet (us_clk e) (ends_packet (qa_ends a) n None) (snd st)))"
    if "quic_name (qa_conv a) = Some name" for name
    using apply_named_packet [OF s, of None name] named [OF that] by simp
  then show ?thesis using step feed(2) packet_reachable [OF s] by (auto simp: dialog_done_def)
qed

interpretation quic_frames: reassembler dialog_good udp_frame_ok sent_span "\<lambda>a. length (qs_msg (qc_stream (qa_conv a)))"
    "\<lambda>a. quic_name (qa_conv a)" dialog_live dialog_done watch_quic
  by unfold_locales (rule watch_quic_piece [unfolded quic_full_def], assumption+, rule watch_quic_done, assumption+)

section \<open>The connection is shown with its name\<close>

text \<open>
  C25. A QUIC connection is shown with the server name its client asks for. However the ClientHello is cut into
  CRYPTO frames and these are put, among padding, pings and acknowledgements, into Initial packets of QUIC 1
  or 2, sealed and protected as RFC 9001 says, however many of them share a datagram and whatever other packets
  follow them there, over IPv4 or IPv6 on any link the parser knows, and in whatever order the datagrams come,
  repeated or overlapping, within ten seconds: no frame makes the pipeline panic, exactly one of them reveals
  the name, and from then on the record of the connection has it as its SNI and as its domain, which a pass
  over the names keeps.
\<close>

theorem quic_names_connection:
  assumes "dialog_good a" and "quic_name (qa_conv a) = Some name" and "\<forall>e \<in> set es. udp_frame_ok a e"
    and "{..<length (qs_msg (qc_stream (qa_conv a)))} \<subseteq> (\<Union>e \<in> set es. sent_span e)"
    and "pr_quic ps = Some flows" and "hm_wf flows" and "hm_get flows (quic_conv_key (qa_conv a)) = None" and "reachable s"
  shows "\<exists>k ps' s'. k < length es
    \<and> add_all (watch_quic a) es (ps, s) = Got (replicate k None @ Some name # replicate (length es - Suc k) None, (ps', s'))
    \<and> shows_name (qa_ends a) name (enrich_names parse_ip ru reads s')"
proof -
  have "qs_msg (qc_stream (qa_conv a)) \<noteq> []" using assms(1) by (auto simp: dialog_good_def quic_good_def qs_good_def)
  then have part: "\<not> {..<length (qs_msg (qc_stream (qa_conv a)))} \<subseteq> {}" by (auto simp: lessThan_empty_iff)
  then have "dialog_live a {} (ps, s)" using assms(5-8) by (simp add: dialog_live_def quic_waits_def quic_full_def)
  then obtain k st' where k: "k < length es" "dialog_done a st'"
      "add_all (watch_quic a) es (ps, s) = Got (replicate k None @ quic_name (qa_conv a) # replicate (length es - Suc k) None, st')"
    using quic_frames.any_order [OF assms(1) _ assms(3) _ part, of "(ps, s)"] assms(4) by auto
  then have "shows_name (qa_ends a) name (snd st')" using assms(2) by (simp add: dialog_done_def)
  then have "shows_name (qa_ends a) name (enrich_names parse_ip ru reads (snd st'))" by (rule shows_name_enriched)
  then show ?thesis using k assms(2) by (intro exI [of _ k] exI [of _ "fst st'"] exI [of _ "snd st'"]) simp
qed

text \<open>Two Initial packets: the second half of the message comes first, with an acknowledgement and a ping.\<close>

definition sample_aead :: crypto where
  "sample_aead = sample_crypto\<lparr>gcm_open := \<lambda>key nonce ad ct tag. if tag = replicate 16 5 then Some ct else None\<rparr>"

definition sample_seal :: sealer where
  "sample_seal key nonce ad plain = (plain, replicate 16 5)"

definition sample_dialog :: quic_dialog where
  "sample_dialog = \<lparr>qa_conv = \<lparr>qc_stream = \<lparr>qs_msg = sample_hello, qs_post = []\<rparr>, qc_version = hd VERSIONS, qc_dcid = [1, 2, 3, 4],
       qc_crypto = sample_aead, qc_seal = sample_seal, qc_limit = 2, qc_src = V6 16, qc_sport = 50000, qc_start = 0\<rparr>,
     qa_ends = \<lparr>en_proto = Udp, en_src = V6 16, en_sport = 50000, en_dst = V6 32, en_dport = 443\<rparr>\<rparr>"

definition sample_udp :: "nat \<Rightarrow> sent_frame list \<Rightarrow> sent_udp" where
  "sample_udp n frames = \<lparr>us_env = \<lparr>fe_crypto = sample_aead, fe_clk = \<lambda>_. 0\<rparr>, us_clk = \<lambda>_. 1,
     us_datagram = \<lparr>qd_packets = [(\<lparr>ip_scid = [9], ip_token = [], ip_token_exp = 0, ip_len_exp = 1, ip_size = 1, ip_number = n\<rparr>, frames)],
       qd_rest = [0, 0]\<rparr>,
     us_layers = tagged_layers, us_csum = 0\<rparr>"

definition sample_later :: sent_udp where
  "sample_later = sample_udp 1 [Acked [(0, 0), (0, 0)] (0, 0) [(0, 0)] None, Handshake 0 0 (30, 30), Ping]"

definition sample_first :: sent_udp where
  "sample_first = sample_udp 0 [Handshake 0 0 (0, 35), Padding]"

lemma sample_aead_ok: "crypto_ok sample_aead" "aead_ok sample_aead sample_seal"
  "keys_new sample_aead v dcid = Some \<lparr>qk_aead = replicate 16 3, qk_iv = replicate 12 3, qk_hp = replicate 16 3\<rparr>"
  by (auto simp: crypto_ok_def sample_crypto_def sample_aead_def aead_ok_def sample_seal_def keys_new_def secrets_def expand_label_def Let_def)

lemma sample_dialog_good: "dialog_good sample_dialog" "quic_name (qa_conv sample_dialog) = Some ''a.io''"
  using sample_hello_size sample_aead_ok
  by (simp_all add: dialog_good_def quic_good_def sample_dialog_def qs_good_def QUIC_MAX_HELLO_def no_dns_ports_def is_dns_port_def
      quic_name_def sample_hello_name)

lemma sample_udp_ok:
  assumes "list_all (sent_frame_ok sample_hello) frames" "n < 2"
    and "3 \<le> length (concat (map (enc_frame sample_hello) frames))" "length (concat (map (enc_frame sample_hello) frames)) \<le> 100"
  shows "udp_frame_ok sample_dialog (sample_udp n frames)"
proof -
  let ?cv = "qa_conv sample_dialog" and ?e = "sample_udp n frames"
  let ?pkt = "hd (qd_packets (us_datagram ?e))"
  have one: "qd_packets (us_datagram ?e) = [?pkt]" "snd ?pkt = frames" "qd_rest (us_datagram ?e) = [0, 0]"
    by (simp_all add: sample_udp_def)
  have plain: "packet_plain ?cv ?pkt = concat (map (enc_frame sample_hello) frames)"
    unfolding packet_plain_def one(2) by (simp add: sample_dialog_def qs_bytes_def)
  have ini: "initial_ok (qc_version ?cv) (qc_dcid ?cv) (fst ?pkt) (length (packet_plain ?cv ?pkt))"
    unfolding plain using assms by (simp add: initial_ok_def sample_dialog_def sample_udp_def VERSIONS_def int_ok_def)
  have "quic_header_of [0, 0] = None" by (simp add: quic_header_of_def get_at_def)
  then have rest: "no_initial [0, 0]" by (simp add: no_initial.simps)
  have "packet_ok ?cv ?pkt"
    unfolding packet_ok_def one(2) using ini assms(1,2) by (simp add: sample_dialog_def sample_udp_def qs_bytes_def)
  then have ok: "datagram_ok ?cv (us_datagram ?e)" unfolding datagram_ok_def one(3) using rest by (subst one(1), subst one(1)) simp
  have crypto: "qc_crypto ?cv = sample_aead" "qc_seal ?cv = sample_seal" by (simp_all add: sample_dialog_def)
  have size: "length (enc_packet ?cv ?pkt) < 190"
    using length_sealed [OF sample_aead_ok ini] assms(4)
    unfolding enc_packet_def crypto sample_aead_ok(3) option.sel length_initial_rest plain
    by (simp add: sample_udp_def sample_dialog_def)
  have "length (udp_payload sample_dialog ?e) < 200"
    unfolding udp_payload_def enc_datagram_def one(3) using size by (subst one(1)) simp
  then have "length (udp_datagram sample_dialog ?e) < 300" by (simp add: udp_datagram_def enc_udp_def)
  then have "layers_ok (us_layers ?e) (en_src (qa_ends sample_dialog)) (en_dst (qa_ends sample_dialog)) 17 (udp_datagram sample_dialog ?e)"
    using tagged_layers_ok [of "udp_datagram sample_dialog ?e" 17 16 32] by (simp add: sample_udp_def sample_dialog_def)
  then show ?thesis using ok by (simp add: udp_frame_ok_def feed_in_time_def QUIC_TTL_def) (simp add: sample_udp_def sample_dialog_def)
qed

lemma sample_frames_ok: "udp_frame_ok sample_dialog sample_later" "udp_frame_ok sample_dialog sample_first"
  unfolding sample_later_def sample_first_def
  using sample_hello_size(1)
  by (intro sample_udp_ok; simp add: int_ok_def frame_ok_def enc_int_def length_enc_varint frame_of_def)+

theorem quic_names_connection_witness:
  "\<exists>k ps' s'. k < length [sample_later, sample_first]
    \<and> add_all (watch_quic sample_dialog) [sample_later, sample_first] (fresh_parsers, store_default 0)
        = Got (replicate k None @ Some ''a.io'' # replicate (length [sample_later, sample_first] - Suc k) None, (ps', s'))
    \<and> shows_name (qa_ends sample_dialog) ''a.io'' (enrich_names parse_ip False (\<lambda>_. 3) s')"
proof -
  have span: "sent_span sample_later = {30..<60}" "sent_span sample_first = {0..<35}"
    by (simp_all add: sent_span_def datagram_span_def frames_span_def sample_later_def sample_first_def sample_udp_def frame_span_def QUIC_MAX_HELLO_def)
  have "length (qs_msg (qc_stream (qa_conv sample_dialog))) = 60" using sample_hello_size(1) by (simp add: sample_dialog_def)
  then show ?thesis
    by (intro quic_names_connection [OF sample_dialog_good, where flows = "[]"])
      (auto simp: sample_frames_ok span fresh_parsers_def hm_wf_def hm_get_def intro: reachable.start)
qed

end
