(* ===== verification/Store_Ledger.thy ===== *)
theory Store_Ledger
  imports Store_Owners
begin

text \<open>
  What the counters of a connection mean over a whole run of the program. An abstract ledger books every
  packet on the account of its connection and may forget accounts; the store of
  \<^verbatim>\<open>src/src/state.rs\<close> refines it, so its counters are the totals of the packets of the connection since
  its record was made, and of all of them as long as the history was never full and never cleared.
\<close>

section \<open>The ledger\<close>

text \<open>A booking: out of the host or into it, and the size; a run books on the keys of connections.\<close>

type_synonym account = "(bool \<times> u32) list"
type_synonym booking = "ConnKey \<times> bool \<times> u32"
type_synonym ledger = "ConnKey \<Rightarrow> account option"

definition booked_on :: "ConnKey \<Rightarrow> booking list \<Rightarrow> account" where
  "booked_on k bs = map snd (filter (\<lambda>b. fst b = k) bs)"

definition total_bytes :: "bool \<Rightarrow> account \<Rightarrow> u64" where
  "total_bytes out xs = sum_list (map (\<lambda>x. ucast (snd x)) (filter (\<lambda>x. fst x = out) xs))"

definition total_packets :: "bool \<Rightarrow> account \<Rightarrow> u64" where
  "total_packets out xs = word_of_nat (length (filter (\<lambda>x. fst x = out) xs))"

text \<open>The runs of the ledger; the flag says that something may have been forgotten.\<close>

inductive ledger_run :: "bool \<Rightarrow> booking list \<Rightarrow> ledger \<Rightarrow> bool" where
  blank: "ledger_run False [] (\<lambda>_. None)"
| opened: "ledger_run lossy bs L \<Longrightarrow> L k = None \<Longrightarrow> ledger_run lossy bs (L(k \<mapsto> []))"
| booked: "ledger_run lossy bs L \<Longrightarrow> L k = Some xs \<Longrightarrow> ledger_run lossy (bs @ [(k, x)]) (L(k \<mapsto> xs @ [x]))"
| forgot: "ledger_run lossy bs L \<Longrightarrow> ledger_run True bs (L |` A)"

lemma ledger_lossy:
  assumes "ledger_run lossy bs L" and "lossy \<longrightarrow> lossy'"
  shows "ledger_run lossy' bs L"
proof (cases lossy')
  case True
  then show ?thesis using ledger_run.forgot [OF assms(1), of UNIV] by (simp add: restrict_map_def)
next
  case False
  then show ?thesis using assms by simp
qed

lemma booked_on_simps [simp]:
  "booked_on k [] = []" "booked_on k (bs @ [b]) = booked_on k bs @ (if fst b = k then [snd b] else [])"
  by (simp_all add: booked_on_def)

text \<open>An account holds what was booked since it was opened, and everything when nothing was forgotten.\<close>

lemma ledger_account:
  "ledger_run lossy bs L \<Longrightarrow>
     (case L k of
        None \<Rightarrow> lossy \<or> booked_on k bs = []
      | Some xs \<Rightarrow> \<exists>n \<le> length bs. xs = booked_on k (drop n bs) \<and> (lossy \<or> n = 0))"
proof (induction rule: ledger_run.induct)
  case (opened lossy bs L k')
  show ?case
  proof (cases "k' = k")
    case True
    have "\<exists>n \<le> length bs. [] = booked_on k (drop n bs) \<and> (lossy \<or> n = 0)"
    proof (cases lossy)
      case True
      then show ?thesis by (intro exI [of _ "length bs"]) simp
    next
      case False
      then show ?thesis using opened True by (intro exI [of _ 0]) simp
    qed
    then show ?thesis using True by simp
  next
    case False
    then show ?thesis using opened by simp
  qed
next
  case (booked lossy bs L k' xs x)
  show ?case
  proof (cases "L k")
    case None
    then show ?thesis using booked by auto
  next
    case (Some ys)
    then obtain n where "n \<le> length bs" "ys = booked_on k (drop n bs)" "lossy \<or> n = 0" using booked.IH by auto
    then show ?thesis using Some booked.hyps(2) by (auto intro!: exI [of _ n])
  qed
next
  case (forgot lossy bs L A)
  show ?case
  proof (cases "L k")
    case None
    then show ?thesis by (simp add: restrict_map_def)
  next
    case (Some xs)
    then have "\<exists>n \<le> length bs. xs = booked_on k (drop n bs)" using forgot.IH by auto
    then show ?thesis using Some by (simp add: restrict_map_def)
  qed
qed simp

section \<open>The runs of the store\<close>

text \<open>The operations that neither count nor forget.\<close>

inductive quiet_step :: "Store \<Rightarrow> Store \<Rightarrow> bool" where
  addresses: "quiet_step s (set_local_ips ips s)"
| named: "quiet_step s (remember_name_for now ip name ttl s)"
| restored: "quiet_step s (snd (restore_dns now ip e s))"
| enriched: "quiet_step s (enrich_names parse_ip ru reads s)"
| whois: "quiet_step s (apply_whois parse_ip cache s)"
| looked_up: "quiet_step s (snd (snd (whois_done at ip w (fails, cache, s))))"

text \<open>
  A run with the packets it was given, each with the connection and direction that \<^verbatim>\<open>apply_packet\<close>
  chose; the flag says that the history was cleared or had no room for what came.
\<close>

inductive store_run :: "bool \<Rightarrow> booking list \<Rightarrow> Store \<Rightarrow> bool" where
  begun: "store_run False [] (store_default now)"
| packet: "store_run lossy bs s \<Longrightarrow> store_run (lossy \<or> MAX_CONNS \<le> length (s_conns s))
     (bs @ [(packet_key p s, packet_outgoing p s, pk_bytes p)]) (snd (apply_packet clk p s))"
| snapshot: "store_run lossy bs s \<Longrightarrow>
     store_run (lossy \<or> MAX_CONNS < length (s_conns s) + length socks) bs (apply_sockets clk socks procs s)"
| cleared: "store_run lossy bs s \<Longrightarrow> store_run True bs (clear_history s)"
| quiet: "store_run lossy bs s \<Longrightarrow> quiet_step s s' \<Longrightarrow> store_run lossy bs s'"

inductive_cases quiet_stepE: "quiet_step s s'"

lemma quiet_store_step: "quiet_step s s' \<Longrightarrow> store_step s s'"
  by (erule quiet_stepE) (auto intro: store_step.intros)

text \<open>The runs reach exactly the reachable stores.\<close>

lemma store_run_reachable: "store_run lossy bs s \<Longrightarrow> reachable s"
  by (induction rule: store_run.induct) (blast intro: reachable.intros store_step.intros quiet_store_step)+

lemma reachable_store_run: "reachable s \<Longrightarrow> \<exists>lossy bs. store_run lossy bs s"
proof (induction rule: reachable.induct)
  case (step s s')
  then obtain lossy bs where run: "store_run lossy bs s" by blast
  from \<open>store_step s s'\<close> run show ?case
    by (cases rule: store_step.cases) (blast intro: store_run.intros quiet_step.intros)+
qed (blast intro: store_run.begun)

section \<open>The refinement\<close>

definition amounts :: "Conn \<Rightarrow> u64 \<times> u64 \<times> u64 \<times> u64" where
  "amounts c = (c_tx_bytes c, c_tx_pkts c, c_rx_bytes c, c_rx_pkts c)"

definition totals :: "account \<Rightarrow> u64 \<times> u64 \<times> u64 \<times> u64" where
  "totals xs = (total_bytes True xs, total_packets True xs, total_bytes False xs, total_packets False xs)"

definition in_ledger :: "ledger \<Rightarrow> conn_map \<Rightarrow> bool" where
  "in_ledger L m \<longleftrightarrow> (\<forall>k. map_option amounts (hm_get m k) = map_option totals (L k))"

lemma amounts_kept [simp]:
  "amounts (apply_socket_conn t procs owner s c) = amounts c"
  "amounts (sweep_conn t procs alive owner k c) = amounts c"
  "amounts (enrich_conn parse ru dns t c) = amounts c"
  "amounts (lookup_conn ip w c) = amounts c"
  "amounts (apply_whois_conn parse cache c) = amounts c"
  by (auto simp: amounts_def record_ops split: UdpMatch.split option.split)

lemma amounts_new [simp]: "amounts (new_conn t k b) = totals []"
  by (simp add: amounts_def new_conn_def totals_def total_bytes_def total_packets_def)

lemma amounts_packet:
  "amounts c = totals xs \<Longrightarrow> amounts (apply_packet_conn t out owner p c) = totals (xs @ [(out, pk_bytes p)])"
  by (cases out) (auto simp: amounts_def totals_def packet_conn_counters total_bytes_def total_packets_def)

lemma in_ledger_map: "in_ledger L m \<Longrightarrow> (\<And>k c. amounts (f k c) = amounts c) \<Longrightarrow> in_ledger L (hm_map f m)"
  by (auto simp: in_ledger_def hm_get_map option.map_comp comp_def)

lemma quiet_in_ledger: "quiet_step s s' \<Longrightarrow> in_ledger L (s_conns s) \<Longrightarrow> in_ledger L (s_conns s')"
  by (erule quiet_stepE)
    (auto simp: conns_kept enrich_names_def apply_whois_def whois_done_def Let_def intro: in_ledger_map)

text \<open>Making room forgets what is evicted, and then only.\<close>

lemma ledger_room:
  assumes "hm_wf m" and "ledger_run lossy bs L" and "in_ledger L m"
  shows "\<exists>L'. ledger_run (lossy \<or> \<not> hm_has m k \<and> MAX_CONNS \<le> length m) bs L' \<and> in_ledger L' (conn_room k m)"
proof (cases "conn_room k m = m")
  case True
  have "ledger_run (lossy \<or> \<not> hm_has m k \<and> MAX_CONNS \<le> length m) bs L" by (rule ledger_lossy [OF assms(2)]) blast
  then show ?thesis using True assms(3) by auto
next
  case False
  then have full: "\<not> hm_has m k \<and> MAX_CONNS \<le> length m"
    using evict_small [of m] by (auto simp: conn_room_def not_less [symmetric] split: if_splits)
  let ?A = "{k'. hm_has (conn_room k m) k'}"
  have "map_option amounts (hm_get (conn_room k m) k') = map_option totals ((L |` ?A) k')" for k'
  proof (cases "hm_get (conn_room k m) k'")
    case None
    then show ?thesis by (simp add: hm_has_get restrict_map_def)
  next
    case (Some c)
    then have "hm_get m k' = Some c" by (rule conn_table.room_subset [OF assms(1)])
    then have "map_option totals (L k') = Some (amounts c)" using assms(3) unfolding in_ledger_def by (metis option.map(2))
    then show ?thesis using Some by (auto simp: hm_has_get)
  qed
  then have "in_ledger (L |` ?A) (conn_room k m)" by (simp add: in_ledger_def)
  moreover have "lossy \<or> \<not> hm_has m k \<and> MAX_CONNS \<le> length m" using full by blast
  ultimately show ?thesis using ledger_run.forgot [OF assms(2), of ?A] by metis
qed

text \<open>The record an operation changes is opened before, when there is none.\<close>

lemma ledger_entry:
  assumes "hm_wf (s_conns s)" and "ledger_run lossy bs L" and "in_ledger L (s_conns s)"
  shows "\<exists>L' xs. ledger_run (lossy \<or> \<not> hm_has (s_conns s) k \<and> MAX_CONNS \<le> length (s_conns s)) bs L' \<and> L' k = Some xs
    \<and> (\<forall>ys. (\<forall>c. amounts c = totals xs \<longrightarrow> amounts (f c) = totals ys) \<longrightarrow> in_ledger (L'(k \<mapsto> ys)) (s_conns (entry t k b f s)))"
proof -
  let ?m = "conn_room k (s_conns s)" and ?lossy = "lossy \<or> \<not> hm_has (s_conns s) k \<and> MAX_CONNS \<le> length (s_conns s)"
  obtain L1 where L1: "ledger_run ?lossy bs L1" "in_ledger L1 ?m" using ledger_room [OF assms] by blast
  let ?c = "case hm_get ?m k of None \<Rightarrow> new_conn t k b | Some c \<Rightarrow> c"
  obtain L' xs where L': "ledger_run ?lossy bs L'" "L' k = Some xs" "amounts ?c = totals xs" "\<And>k'. k' \<noteq> k \<Longrightarrow> L' k' = L1 k'"
  proof (cases "L1 k")
    case None
    then have "hm_get ?m k = None" using L1(2) unfolding in_ledger_def by (metis option.map_disc_iff)
    then show ?thesis using that [of "L1(k \<mapsto> [])" "[]"] ledger_run.opened [OF L1(1) None] by simp
  next
    case (Some xs)
    then obtain c where "hm_get ?m k = Some c" "amounts c = totals xs"
      using L1(2) unfolding in_ledger_def by (metis map_option_eq_Some option.map(2))
    then show ?thesis using that [OF L1(1) Some] by simp
  qed
  have "in_ledger (L'(k \<mapsto> ys)) (s_conns (entry t k b f s))" if "\<forall>c. amounts c = totals xs \<longrightarrow> amounts (f c) = totals ys" for ys
    unfolding in_ledger_def
  proof
    fix k'
    have "map_option amounts (hm_get ?m k') = map_option totals (L1 k')" using L1(2) by (simp add: in_ledger_def)
    then show "map_option amounts (hm_get (s_conns (entry t k b f s)) k') = map_option totals ((L'(k \<mapsto> ys)) k')"
      using that L'(3,4) by (simp add: entry_def hm_get_entry)
  qed
  then show ?thesis using L'(1,2) by blast
qed

lemma entry_length: "length (s_conns (entry t k b f s)) \<le> Suc (length (s_conns s))"
proof -
  have "length (conn_room k m) \<le> length m" for m
    by (auto simp: conn_room_def evict_def Let_def intro: length_del_all_le order_trans [OF length_del_all_le length_del_all_le])
  from this [of "s_conns s"] show ?thesis by (simp add: entry_def length_hm_entry)
qed

lemma ledger_packet:
  assumes "store_wf s" and "ledger_run lossy bs L" and "in_ledger L (s_conns s)"
  shows "\<exists>L'. ledger_run (lossy \<or> MAX_CONNS \<le> length (s_conns s)) (bs @ [(packet_key p s, packet_outgoing p s, pk_bytes p)]) L'
    \<and> in_ledger L' (s_conns (snd (apply_packet clk p s)))"
proof -
  let ?k = "packet_key p s" and ?x = "(packet_outgoing p s, pk_bytes p)"
  obtain s1 t b f where s': "snd (apply_packet clk p s) = entry t ?k b f s1" and s1: "s_conns s1 = s_conns s"
    and f: "\<And>c xs. amounts c = totals xs \<Longrightarrow> amounts (f c) = totals (xs @ [?x])"
    using apply_packet_entry [of clk p s] amounts_packet by (metis prod.collapse)
  have "hm_wf (s_conns s1)" "in_ledger L (s_conns s1)" using assms s1 by (simp_all add: store_wf_def)
  from ledger_entry [OF this(1) assms(2) this(2), of ?k f t b] obtain L' xs
    where L': "ledger_run (lossy \<or> \<not> hm_has (s_conns s) ?k \<and> MAX_CONNS \<le> length (s_conns s)) bs L'" "L' ?k = Some xs"
      "in_ledger (L'(?k \<mapsto> xs @ [?x])) (s_conns (entry t ?k b f s1))"
    using f unfolding s1 by blast
  have "ledger_run (lossy \<or> MAX_CONNS \<le> length (s_conns s)) bs L'" using L'(1) by (rule ledger_lossy) blast
  from ledger_run.booked [OF this L'(2), of ?x] L'(3) show ?thesis unfolding s' by blast
qed

lemma ledger_socket:
  assumes "store_wf (snd as)" and "ledger_run lossy bs L" and "in_ledger L (s_conns (snd as))"
  shows "\<exists>L'. ledger_run (lossy \<or> MAX_CONNS \<le> length (s_conns (snd as))) bs L'
    \<and> in_ledger L' (s_conns (snd (apply_socket t t' procs s as)))"
proof -
  let ?k = "sock_key s" and ?f = "apply_socket_conn t procs (udp_owner (snd as) (sock_key s)) s"
  have same: "\<exists>L'. ledger_run (lossy \<or> MAX_CONNS \<le> length (s_conns (snd as))) bs L' \<and> in_ledger L' (s_conns (snd as))"
    using ledger_lossy [OF assms(2), of "lossy \<or> MAX_CONNS \<le> length (s_conns (snd as))"] assms(3) by blast
  have "hm_wf (s_conns (snd as))" using assms(1) by (simp add: store_wf_def)
  from ledger_entry [OF this assms(2,3), of ?k ?f t' False] obtain L' xs
    where L': "ledger_run (lossy \<or> \<not> hm_has (s_conns (snd as)) ?k \<and> MAX_CONNS \<le> length (s_conns (snd as))) bs L'" "L' ?k = Some xs"
      "in_ledger (L'(?k \<mapsto> xs)) (s_conns (entry t' ?k False ?f (snd as)))"
    by auto
  have "ledger_run (lossy \<or> MAX_CONNS \<le> length (s_conns (snd as))) bs L'" using L'(1) by (rule ledger_lossy) blast
  moreover have "L'(?k \<mapsto> xs) = L'" using L'(2) by (simp add: map_upd_triv)
  ultimately show ?thesis using L'(3) same unfolding apply_socket_def Let_def by auto
qed

lemma socket_length: "length (s_conns (snd (apply_socket t t' procs s as))) \<le> Suc (length (s_conns (snd as)))"
  using entry_length by (auto simp: apply_socket_def Let_def)

lemma ledger_sockets:
  "store_wf (snd as) \<Longrightarrow> ledger_run lossy bs L \<Longrightarrow> in_ledger L (s_conns (snd as)) \<Longrightarrow>
     \<exists>L'. ledger_run (lossy \<or> MAX_CONNS < length (s_conns (snd as)) + length ss) bs L'
       \<and> in_ledger L' (s_conns (snd (apply_socket_list clk i procs ss as)))"
proof (induction ss arbitrary: as i lossy L)
  case Nil
  then have "ledger_run (lossy \<or> MAX_CONNS < length (s_conns (snd as)) + length []) bs L"
    by (intro ledger_lossy [OF Nil(2)]) simp
  then show ?case using Nil by auto
next
  case (Cons s ss)
  let ?as = "apply_socket (clk 0) (clk i) procs s as" and ?n = "length (s_conns (snd as))"
  obtain L1 where L1: "ledger_run (lossy \<or> MAX_CONNS \<le> ?n) bs L1" "in_ledger L1 (s_conns (snd ?as))"
    using ledger_socket [OF Cons.prems] by blast
  obtain L' where L': "ledger_run ((lossy \<or> MAX_CONNS \<le> ?n) \<or> MAX_CONNS < length (s_conns (snd ?as)) + length ss) bs L'"
      "in_ledger L' (s_conns (snd (apply_socket_list clk (Suc i) procs ss ?as)))"
    using Cons.IH [OF apply_socket_wf [OF Cons.prems(1)] L1, of "Suc i"] by auto
  have grown: "length (s_conns (snd ?as)) \<le> Suc ?n" by (rule socket_length)
  have "ledger_run (lossy \<or> MAX_CONNS < ?n + length (s # ss)) bs L'"
    using grown by (intro ledger_lossy [OF L'(1)]) auto
  then show ?case using L'(2) by auto
qed

lemma ledger_snapshot:
  assumes "store_wf s" and "ledger_run lossy bs L" and "in_ledger L (s_conns s)"
  shows "\<exists>L'. ledger_run (lossy \<or> MAX_CONNS < length (s_conns s) + length socks) bs L'
    \<and> in_ledger L' (s_conns (apply_sockets clk socks procs s))"
proof -
  obtain s1 alive g where s1: "s_conns s1 = s_conns s"
    and s': "s_conns (apply_sockets clk socks procs s)
      = hm_map (\<lambda>k. sweep_conn (clk 0) procs alive (g k) k) (s_conns (snd (apply_socket_list clk 1 procs socks ([], s1))))"
  proof
    let ?ips = "fold (\<lambda>s acc. if \<not> is_unspecified (se_local s) \<and> \<not> is_multicast (se_local s) then hs_add (se_local s) acc else acc)
       socks (s_local_ips s)"
    show "s_conns (refresh_udp_sockets socks procs (clk 0) (s\<lparr>s_local_ips := ?ips\<rparr>)) = s_conns s" by simp
  qed (simp add: apply_sockets_def Let_def)
  have "store_wf (snd ([] :: ConnKey list, s1))" using assms(1) s1 by (simp add: store_wf_def)
  from ledger_sockets [OF this assms(2), of socks clk 1 procs] obtain L'
    where "ledger_run (lossy \<or> MAX_CONNS < length (s_conns s) + length socks) bs L'"
      "in_ledger L' (s_conns (snd (apply_socket_list clk 1 procs socks ([], s1))))"
    using assms(3) s1 by auto
  moreover from this(2) have "in_ledger L' (s_conns (apply_sockets clk socks procs s))"
    unfolding s' by (rule in_ledger_map) simp
  ultimately show ?thesis by blast
qed

text \<open>Every run of the store is a run of the ledger.\<close>

lemma store_refines_ledger: "store_run lossy bs s \<Longrightarrow> \<exists>L. ledger_run lossy bs L \<and> in_ledger L (s_conns s)"
proof (induction rule: store_run.induct)
  case (begun now)
  show ?case using ledger_run.blank by (intro exI [of _ "\<lambda>_. None"]) (simp add: in_ledger_def store_default_def)
next
  case (packet lossy bs s p clk)
  then show ?case using ledger_packet reachable_wf [OF store_run_reachable] by blast
next
  case (snapshot lossy bs s socks clk procs)
  then show ?case using ledger_snapshot reachable_wf [OF store_run_reachable] by blast
next
  case (cleared lossy bs s)
  then obtain L where "ledger_run lossy bs L" by blast
  from ledger_run.forgot [OF this, of "{}"] show ?case
    by (intro exI [of _ "L |` {}"]) (simp add: in_ledger_def clear_history_def)
next
  case (quiet lossy bs s s')
  then show ?case using quiet_in_ledger by blast
qed

text \<open>
  C4. The counters of the history are true over whole runs. However packets, snapshots, names, lookups and
  clearings follow each other, the bytes and packets a record shows, in either direction, are those of the
  packets of its connection from some moment of the run on, all of them and of no other (modulo 2 ^ 64).
  As long as the history was not cleared and never had to make room, that moment is the start of the
  program, and a connection without a record had no packet.
\<close>

theorem history_counts_traffic:
  assumes "store_run lossy bs s"
  shows "case hm_get (s_conns s) k of
      None \<Rightarrow> lossy \<or> booked_on k bs = []
    | Some c \<Rightarrow> \<exists>n \<le> length bs. (lossy \<or> n = 0)
        \<and> c_tx_bytes c = total_bytes True (booked_on k (drop n bs)) \<and> c_tx_pkts c = total_packets True (booked_on k (drop n bs))
        \<and> c_rx_bytes c = total_bytes False (booked_on k (drop n bs)) \<and> c_rx_pkts c = total_packets False (booked_on k (drop n bs))"
proof -
  obtain L where L: "ledger_run lossy bs L" "in_ledger L (s_conns s)" using store_refines_ledger [OF assms] by blast
  from L(2) have "map_option amounts (hm_get (s_conns s) k) = map_option totals (L k)" by (simp add: in_ledger_def)
  with ledger_account [OF L(1), of k] show ?thesis
    by (cases "hm_get (s_conns s) k"; cases "L k") (auto simp: amounts_def totals_def)
qed

definition answer_sample :: Packet where
  "answer_sample = tcp_sample\<lparr>pk_src := V4 198 51 100 20, pk_sport := 443, pk_dst := V4 192 0 2 10, pk_dport := 40000, pk_bytes := 1500\<rparr>"

definition talk_store :: Store where
  "talk_store = snd (apply_packet (\<lambda>_. 2) answer_sample (snd (apply_packet (\<lambda>_. 1) tcp_sample
     (set_local_ips (Some [V4 192 0 2 10]) (store_default 0)))))"

theorem history_counts_traffic_witness:
  "\<exists>c. hm_get (s_conns talk_store) (packet_key tcp_sample (store_default 0)) = Some c
     \<and> c_tx_bytes c = 60 \<and> c_tx_pkts c = 1 \<and> c_rx_bytes c = 1500 \<and> c_rx_pkts c = 1"
proof -
  let ?s0 = "set_local_ips (Some [V4 192 0 2 10]) (store_default 0)" and ?k = "packet_key tcp_sample (store_default 0)"
  let ?s1 = "snd (apply_packet (\<lambda>_. 1) tcp_sample ?s0)"
  have ips: "s_local_ips ?s0 = [V4 192 0 2 10]"
    by (simp add: set_local_ips_def)
  moreover have "s_local_ips ?s1 = s_local_ips ?s0" by (simp add: apply_packet_def entry_def Let_def tcp_sample_def)
  ultimately have keys: "packet_key tcp_sample ?s0 = ?k" "packet_key answer_sample ?s1 = ?k"
      "packet_outgoing tcp_sample ?s0" "\<not> packet_outgoing answer_sample ?s1"
    by (simp_all add: packet_key_def packet_outgoing_def answer_sample_def tcp_sample_def store_default_def)
  have "length (s_conns (snd (apply_packet clk p s))) \<le> Suc (length (s_conns s))" for clk p s
    using apply_packet_entry [of clk p s] entry_length by (metis prod.collapse)
  from this [of "\<lambda>_. 1" tcp_sample ?s0] have room: "\<not> MAX_CONNS \<le> length (s_conns (store_default 0))" "\<not> MAX_CONNS \<le> length (s_conns ?s1)" by (simp_all add: MAX_CONNS_def store_default_def)
  have sizes: "pk_bytes tcp_sample = 60" "pk_bytes answer_sample = 1500" by (simp_all add: tcp_sample_def answer_sample_def)
  have "store_run False [] ?s0" by (rule store_run.quiet [OF store_run.begun quiet_step.addresses])
  from store_run.packet [OF store_run.packet [OF this, of tcp_sample "\<lambda>_. 1"], of answer_sample "\<lambda>_. 2"]
  have "store_run False [(?k, True, 60), (?k, False, 1500)] talk_store"
    by (simp add: keys room sizes talk_store_def)
  from history_counts_traffic [OF this, of ?k] show ?thesis
    by (auto simp: booked_on_def total_bytes_def total_packets_def split: option.splits)
qed

end
