(* ===== verification/Rec_Liveness.thy ===== *)
theory Rec_Liveness
  imports Rec_Props
begin

text \<open>
  Recordings come to an end. A request that begins or ends a recording does so in several steps between
  which all other tasks of the program run (\<^verbatim>\<open>start_dump\<close>, \<^verbatim>\<open>finish_dump\<close> of \<^verbatim>\<open>src/src/main.rs\<close>). Its own
  steps are always possible and each leaves less to do; no other task undoes one. So under a scheduler
  that does not starve it, it ends.
\<close>

section \<open>The steps of a pending request\<close>

inductive task_step :: "World \<Rightarrow> World \<Rightarrow> bool" where
  running: "task_step w (w\<lparr>w_app := snd (start_end now' (start_capture dir_error now spawned ready path t) t (w_app w)),
      w_starting := xs @ ys\<rparr>)"
    if "w_starting w = xs @ t # ys"
| settled: "task_step w (w\<lparr>w_finishing := xs @ Settled (finish_remember (w_app w) t) d accounted
      (case r of Inl e \<Rightarrow> Some e | Inr _ \<Rightarrow> None) # ys\<rparr>)"
    if "w_finishing w = xs @ Stopping t # ys" and "dump_stop stop_error (fk_dump t) = (r, d)"
| judged: "task_step w (w\<lparr>w_finishing := xs @ Judged t d (finish_errors accounted stop_error (w_app w) t) # ys\<rparr>)"
    if "w_finishing w = xs @ Settled t d accounted stop_error # ys"
| processed: "task_step w (w\<lparr>w_finishing := xs @ Processed d (fk_automatic t) oc # ys, w_files := fs\<rparr>)"
    if "w_finishing w = xs @ Judged t d errors # ys"
      and "finish_outcome ru now env (w_app w) d t errors (w_files w) = (oc, fs)"
| finished: "task_step w (w\<lparr>w_app := finish_end d automatic oc (w_app w), w_finishing := xs @ ys\<rparr>)"
    if "w_finishing w = xs @ Processed d automatic oc # ys"

lemma task_rec_step: "task_step w w' \<Longrightarrow> rec_step w w'"
  by (erule task_step.cases) (auto intro: rec_step.intros)

definition task_pending :: "World \<Rightarrow> bool" where
  "task_pending w \<longleftrightarrow> w_starting w \<noteq> [] \<or> w_finishing w \<noteq> []"

fun finish_rank :: "finish_task \<Rightarrow> nat" where
  "finish_rank (Stopping t) = 4"
| "finish_rank (Settled t d accounted e) = 3"
| "finish_rank (Judged t d errors) = 2"
| "finish_rank (Processed d automatic oc) = 1"

definition work_left :: "World \<Rightarrow> nat" where
  "work_left w = length (w_starting w) + sum_list (map finish_rank (w_finishing w))"

lemma task_enabled:
  assumes "task_pending w"
  shows "\<exists>w'. task_step w w'"
proof (cases "w_starting w")
  case (Cons t ts)
  then have "w_starting w = [] @ t # ts" by simp
  from task_step.running [OF this] show ?thesis by blast
next
  case Nil
  then obtain f fs where f: "w_finishing w = [] @ f # fs" using assms by (cases "w_finishing w") (auto simp: task_pending_def)
  show ?thesis
  proof (cases f)
    case (Stopping t)
    obtain r d where "dump_stop None (fk_dump t) = (r, d)" by (cases "dump_stop None (fk_dump t)")
    then show ?thesis using task_step.settled f Stopping by blast
  next
    case (Settled t d accounted e)
    then show ?thesis using task_step.judged f by blast
  next
    case (Judged t d errors)
    obtain oc files where "finish_outcome False 0 undefined (w_app w) d t errors (w_files w) = (oc, files)"
      by (cases "finish_outcome False 0 undefined (w_app w) d t errors (w_files w)")
    then show ?thesis using task_step.processed f Judged by blast
  next
    case (Processed d automatic oc)
    then show ?thesis using task_step.finished f by blast
  qed
qed

lemma task_step_work: "task_step w w' \<Longrightarrow> work_left w' < work_left w"
  by (erule task_step.cases) (simp_all add: work_left_def)

section \<open>What the phase says\<close>

lemma pending_phase: "world_ok w \<Longrightarrow> task_pending w \<longleftrightarrow> a_phase (w_app w) = Starting \<or> a_phase (w_app w) = Finishing"
  by (auto simp: world_ok_def task_pending_def Let_def split: DumpPhase.splits)

text \<open>While a request is pending, a step is one of its own or leaves it and the phase as they are.\<close>

lemma pending_step:
  assumes "world_ok w" and "task_pending w" and "rec_step w w'"
  shows "task_step w w' \<or> w_starting w' = w_starting w \<and> w_finishing w' = w_finishing w \<and> a_phase (w_app w') = a_phase (w_app w)"
proof -
  have phase: "a_phase (w_app w) \<noteq> Idle" "a_phase (w_app w) \<noteq> Recording" using pending_phase [OF assms(1)] assms(2) by auto
  from assms(3) show ?thesis
  proof (cases rule: rec_step.cases)
    case (other g)
    then show ?thesis using app_step_same [of "w_app w" g] by (auto simp: same_recording_def)
  next
    case (refused filtered e g)
    then show ?thesis using phase by (simp add: start_begin_def)
  next
    case (started filtered t g)
    then show ?thesis using phase by (simp add: start_begin_def)
  next
    case (kept automatic checked now oc g)
    then show ?thesis using phase by (simp add: finish_begin_def)
  next
    case (stopped automatic checked now t g)
    then show ?thesis using phase by (simp add: finish_begin_def)
  qed (auto intro: task_step.intros)
qed

text \<open>A request leaves its phase with the step that ends it.\<close>

lemma starting_step:
  assumes "world_ok w" and "a_phase (w_app w) = Starting" and "rec_step w w'" and "a_phase (w_app w') \<noteq> Starting"
  shows "a_phase (w_app w') = Idle \<or> a_phase (w_app w') = Recording"
proof -
  have "task_pending w" using pending_phase assms(1,2) by blast
  then have "task_step w w'" using pending_step [OF assms(1) _ assms(3)] assms(2,4) by auto
  then show ?thesis
  proof (cases rule: task_step.cases)
    case (running xs t ys now' dir_error now spawned ready path)
    then show ?thesis by (auto simp: start_end_def record_dump_def Let_def split: prod.splits sum.splits option.splits)
  qed (use assms in \<open>auto simp: world_ok_def Let_def\<close>)
qed

lemma finishing_step:
  assumes "world_ok w" and "a_phase (w_app w) = Finishing" and "rec_step w w'" and "a_phase (w_app w') \<noteq> Finishing"
  shows "a_phase (w_app w') = Idle \<and> a_outcome (w_app w') \<noteq> None"
proof -
  have "task_pending w" using pending_phase assms(1,2) by blast
  then have "task_step w w'" using pending_step [OF assms(1) _ assms(3)] assms(2,4) by auto
  then show ?thesis
  proof (cases rule: task_step.cases)
    case (running xs t ys now' dir_error now spawned ready path)
    then show ?thesis using assms(1,2) by (simp add: world_ok_def Let_def)
  qed (use assms(2,4) in \<open>auto simp: finish_end_def Let_def\<close>)
qed

section \<open>Fair runs\<close>

text \<open>
  The weak fairness of the scheduler: a request that stays pending is served again. Its steps are always
  possible (\<open>task_enabled\<close>), so there is such a scheduler.
\<close>

definition fair_run :: "(nat \<Rightarrow> World) \<Rightarrow> bool" where
  "fair_run run \<longleftrightarrow> rec_reachable (run 0) \<and> (\<forall>i. rec_step (run i) (run (Suc i)))
     \<and> (\<forall>i. (\<forall>j \<ge> i. task_pending (run j)) \<longrightarrow> (\<exists>j \<ge> i. task_step (run j) (run (Suc j))))"

lemma run_ok: "fair_run run \<Longrightarrow> world_ok (run i)"
proof -
  assume run: "fair_run run"
  have "rec_reachable (run i)" using run by (induction i) (auto simp: fair_run_def intro: rec_reachable.step)
  then show ?thesis by (rule rec_reachable_ok)
qed

lemma run_work:
  assumes "fair_run run" and "\<forall>j \<ge> i. task_pending (run j)"
  shows "work_left (run (i + n)) \<le> work_left (run i)"
proof (induction n)
  case (Suc n)
  have "rec_step (run (i + n)) (run (Suc (i + n)))" using assms(1) by (simp add: fair_run_def)
  from pending_step [OF run_ok [OF assms(1)] _ this] have "work_left (run (Suc (i + n))) \<le> work_left (run (i + n))"
    using assms(2) task_step_work by (fastforce simp: work_left_def)
  then show ?case using Suc by simp
qed simp

lemma run_settles:
  assumes "fair_run run"
  shows "\<exists>j \<ge> i. \<not> task_pending (run j)"
proof (induction "work_left (run i)" arbitrary: i rule: less_induct)
  case less
  show ?case
  proof (rule ccontr)
    assume "\<not> (\<exists>j \<ge> i. \<not> task_pending (run j))"
    then have pending: "\<forall>j \<ge> i. task_pending (run j)" by blast
    then obtain j where j: "i \<le> j" "task_step (run j) (run (Suc j))" using assms unfolding fair_run_def by blast
    have "work_left (run j) \<le> work_left (run i)" using run_work [OF assms pending, of "j - i"] j(1) by simp
    then have "work_left (run (Suc j)) < work_left (run i)" using task_step_work [OF j(2)] by simp
    from less [OF this] show False using pending j(1) by (meson Suc_leD order_trans)
  qed
qed

text \<open>The first world in which a phase is left.\<close>

lemma first_change:
  assumes "f i = x" and "\<exists>j \<ge> i. f j \<noteq> x"
  shows "\<exists>j \<ge> i. f (Suc j) \<noteq> x \<and> (\<forall>l. i \<le> l \<and> l \<le> j \<longrightarrow> f l = x)"
proof -
  let ?j = "LEAST j. i \<le> j \<and> f j \<noteq> x"
  have j: "i \<le> ?j" "f ?j \<noteq> x" using LeastI_ex [of "\<lambda>j. i \<le> j \<and> f j \<noteq> x"] assms(2) by auto
  then have "i < ?j" using assms(1) by (cases "?j = i") auto
  then obtain m where m: "?j = Suc m" "i \<le> m" by (cases "?j") auto
  have "f l = x" if "i \<le> l" "l \<le> m" for l
    using not_less_Least [of l "\<lambda>j. i \<le> j \<and> f j \<noteq> x"] that m(1) by auto
  then show ?thesis using j(2) m by (intro exI [of _ m]) simp
qed


section \<open>A fair run\<close>

lemma stutter: "rec_step w w"
  using rec_step.other [OF app_step.remembered [of "w_app w" "a_whois (w_app w)"]] by simp

text \<open>Some steps, after which nothing happens any more.\<close>

lemma stutter_run_fair:
  assumes "rec_reachable w" and "\<not> task_pending (last (w # ws))"
    and "\<forall>i < length ws. rec_step ((w # ws) ! i) (ws ! i)"
  shows "fair_run (\<lambda>i. if i < length ws then (w # ws) ! i else last (w # ws))"
proof -
  let ?run = "\<lambda>i. if i < length ws then (w # ws) ! i else last (w # ws)"
  have first: "?run 0 = w" by simp
  have step: "rec_step (?run i) (?run (Suc i))" for i
  proof (cases "i < length ws")
    case True
    then have "\<not> Suc i < length ws \<Longrightarrow> i = length ws - 1" by linarith
    then have "?run (Suc i) = ws ! i" using True by (cases "Suc i < length ws") (auto simp: last_conv_nth)
    then show ?thesis using True assms(3) by simp
  next
    case False
    then show ?thesis by (simp add: stutter)
  qed
  have idle: "\<exists>j \<ge> i. \<not> task_pending (?run j)" for i
    using assms(2) by (intro exI [of _ "i + length ws"]) auto
  show ?thesis
    unfolding fair_run_def
  proof (intro conjI allI impI)
    show "rec_reachable (?run 0)" unfolding first by (rule assms(1))
    show "rec_step (?run i) (?run (Suc i))" for i by (rule step)
    show "\<exists>j \<ge> i. task_step (?run j) (?run (Suc j))" if "\<forall>j \<ge> i. task_pending (?run j)" for i
      using idle [of i] that by blast
  qed
qed


end
