(* ===== verification/Server.thy ===== *)
theory Server
  imports Program Resolve
begin

text \<open>
  The local API as a server (\<^verbatim>\<open>guard\<close>, the routes of \<^verbatim>\<open>main\<close> and the handlers \<^verbatim>\<open>api_*\<close> of
  \<^verbatim>\<open>src/src/main.rs\<close>): which handler a request reaches and what it does to the state and to the system.
  axum is a library; of it the model uses what it documents: a route is an exact path, \<^verbatim>\<open>get\<close> serves GET
  and HEAD, \<^verbatim>\<open>post\<close> serves POST, a layer wraps every answer of the router, and a handler does not run
  when its query or body cannot be read. Also the rest of what the loops of the program do in a turn, and
  the places of its files.
\<close>

section \<open>Requests and routes\<close>

record SelectBody =
  sb_pid :: "int option"

record DumpBody =
  db_filtered :: bool

record LangBody =
  lb_lang :: string

record ExportQuery =
  xq_format :: string
  xq_scope :: string
  xq_q :: string
  xq_proto :: string

text \<open>What can be read of a request: its parts are there as far as they have the form a handler wants.\<close>

record Request =
  rq_method :: string
  rq_path :: string
  rq_headers :: "string \<Rightarrow> string option"
  rq_select :: "SelectBody option"
  rq_dump :: "DumpBody option"
  rq_lang :: "LangBody option"
  rq_procs :: "ProcsQuery option"
  rq_state :: "StateQuery option"
  rq_export :: "ExportQuery option"

datatype endpoint =
  Index | AliveStream | Ping | Procs | StateOf | Select | DumpStart | DumpStop | Clear | Dumps | Reveal | Export | Elevate | SetLang

datatype verb = Get | Post

definition ROUTES :: "(string \<times> verb \<times> endpoint) list" where
  "ROUTES =
     [(''/'', Get, Index), (''/api/alive'', Get, AliveStream), (UI_PATH, Get, Index), (''/api/ping'', Get, Ping),
      (''/api/procs'', Get, Procs), (''/api/state'', Get, StateOf), (''/api/select'', Post, Select),
      (''/api/dump/start'', Post, DumpStart), (''/api/dump/stop'', Post, DumpStop), (''/api/clear'', Post, Clear),
      (''/api/dumps'', Get, Dumps), (''/api/reveal'', Post, Reveal), (''/api/export'', Get, Export),
      (''/api/elevate'', Post, Elevate), (''/api/lang'', Post, SetLang)]"

definition verb_serves :: "verb \<Rightarrow> string \<Rightarrow> bool" where
  "verb_serves v meth \<longleftrightarrow> (case v of Get \<Rightarrow> meth = ''GET'' \<or> meth = ''HEAD'' | Post \<Rightarrow> meth = ''POST'')"

section \<open>Pages and answers\<close>

text \<open>\<^verbatim>\<open>str::replacen\<close> with the count 1.\<close>

fun replace_first :: "string \<Rightarrow> string \<Rightarrow> string \<Rightarrow> string" where
  "replace_first pat new [] = (if pat = [] then new else [])"
| "replace_first pat new (c # cs) =
     (if starts_with (c # cs) pat then new @ drop (length pat) (c # cs) else c # replace_first pat new cs)"

definition index :: "string \<Rightarrow> bool \<Rightarrow> string" where
  "index html ru = replace_first ''__LANG__'' (lang_code ru) html"

record StartAnswer =
  sa_ok :: bool
  sa_error :: "string option"
  sa_path :: "string option"
  sa_only :: "string option"

text \<open>The tasks of a recording run on their own; the request waits for them, \<open>Inl\<close> is a task that panicked.\<close>

definition api_dump_start :: "string + StartAnswer \<Rightarrow> StartAnswer" where
  "api_dump_start joined =
     (case joined of Inl e \<Rightarrow> \<lparr>sa_ok = False, sa_error = Some e, sa_path = None, sa_only = None\<rparr> | Inr a \<Rightarrow> a)"

definition api_dump_stop :: "string + DumpOutcome \<Rightarrow> DumpOutcome \<times> string option" where
  "api_dump_stop joined = (case joined of Inl e \<Rightarrow> (outcome_default, Some e) | Inr oc \<Rightarrow> (oc, None))"

definition export_group :: "App \<Rightarrow> string \<Rightarrow> int list" where
  "export_group g scope = (if scope \<noteq> ''host'' \<and> a_selected g \<noteq> None then a_group g else [])"

text \<open>Type, proposed name and body of an export; \<open>print\<close> prints it as JSON.\<close>

definition api_export :: "(string \<Rightarrow> string) \<Rightarrow> (string \<Rightarrow> string \<Rightarrow> int list \<Rightarrow> Conn list \<Rightarrow> string option) \<Rightarrow> bool \<Rightarrow> int \<Rightarrow> u64 \<Rightarrow> App
    \<Rightarrow> ExportQuery \<Rightarrow> string \<times> string \<times> string" where
  "api_export lower print ru tz now g q =
     (if xq_format q = ''html''
      then (''text/html; charset=utf-8'', ''attachment; filename='' @ QUOTE @ ''sockettrail-report.html'' @ QUOTE,
        export_html lower ru tz now g (xq_scope q) (xq_q q) (xq_proto q))
      else (''application/json'', ''attachment; filename='' @ QUOTE @ ''sockettrail.json'' @ QUOTE,
        case print (human_time tz now) (export_title ru g (xq_scope q)) (export_group g (xq_scope q))
               (export_conns lower g (xq_scope q) (xq_q q) (xq_proto q)) of None \<Rightarrow> [] | Some s \<Rightarrow> s))"

section \<open>The handlers\<close>

record Server =
  sv_world :: World
  sv_alive :: Alive
  sv_ru :: bool

datatype sys_call = MakeDir string | OpenPath string "string list" | RunElevated string | AskQuit string | WriteLang string

text \<open>What a handler asks the system and the libraries.\<close>

record ApiEnv =
  ae_os :: os_family
  ae_html :: string
  ae_version :: string
  ae_lower :: "string \<Rightarrow> string"
  ae_print :: "string \<Rightarrow> string \<Rightarrow> int list \<Rightarrow> Conn list \<Rightarrow> string option"
  ae_now :: u64
  ae_tz :: int
  ae_pid :: nat
  ae_dumps :: string
  ae_listing :: "(bytes \<times> (u64 \<times> u64 option) option) list option"
  ae_opens :: bool
  ae_elevate :: "string option"

datatype Reply =
  Forbidden | NotFound | WrongMethod | BadRequest | PageReply string | StreamReply | PingReply string string
| ProcsReply "ProcRow list" "int option" nat | StateReply StateView | SelectReply "int list" | Refused rec_error | TaskReply
| ClearReply | DumpsReply string "DumpFile list" | RevealReply bool string | ExportReply "string \<times> string \<times> string"
| ElevateReply "string option" | LangReply bool string

type_synonym handled = "Reply \<times> sys_call list \<times> Server"

definition api_ping :: "string \<Rightarrow> Reply" where
  "api_ping version = PingReply ''sockettrail'' version"

definition with_app :: "App \<Rightarrow> Server \<Rightarrow> Server" where
  "with_app g sv = sv\<lparr>sv_world := (sv_world sv)\<lparr>w_app := g\<rparr>\<rparr>"

definition handle_select :: "SelectBody \<Rightarrow> Server \<Rightarrow> handled" where
  "handle_select b sv =
     (let g = api_select (sb_pid b) (w_app (sv_world sv)) in (SelectReply (a_group g), [], with_app g sv))"

text \<open>A request to record is refused at once or goes on in a task.\<close>

definition handle_dump_start :: "DumpBody \<Rightarrow> Server \<Rightarrow> handled" where
  "handle_dump_start b sv =
     (case start_begin (db_filtered b) (w_app (sv_world sv)) of
        (Inl e, g) \<Rightarrow> (Refused e, [], with_app g sv)
      | (Inr t, g) \<Rightarrow> (TaskReply, [],
          sv\<lparr>sv_world := (sv_world sv)\<lparr>w_app := g, w_starting := t # w_starting (sv_world sv)\<rparr>\<rparr>))"

definition handle_dump_stop :: "u64 \<Rightarrow> Server \<Rightarrow> handled" where
  "handle_dump_stop now sv =
     (case finish_begin False None now (w_app (sv_world sv)) of
        (Inl oc, g) \<Rightarrow> (Refused NothingToStop, [], with_app g sv)
      | (Inr t, g) \<Rightarrow> (TaskReply, [],
          sv\<lparr>sv_world := (sv_world sv)\<lparr>w_app := g, w_finishing := Stopping t # w_finishing (sv_world sv)\<rparr>\<rparr>))"

definition handle_reveal :: "ApiEnv \<Rightarrow> Server \<Rightarrow> handled" where
  "handle_reveal env sv =
     (case open_default (ae_os env) (ae_dumps env) of
        (cmd, args) \<Rightarrow> (RevealReply (ae_opens env) (ae_dumps env), [MakeDir (ae_dumps env), OpenPath cmd args], sv))"

definition handle_elevate :: "ApiEnv \<Rightarrow> Server \<Rightarrow> handled" where
  "handle_elevate env sv =
     (let g = w_app (sv_world sv); windows = (ae_os env = WindowsOs) in
      case api_elevate windows (sv_ru sv) (ae_elevate env) of
        (error, quit) \<Rightarrow>
          (ElevateReply error,
           (if windows then [RunElevated (elevate_args (sv_ru sv) (ae_pid env) (a_port g) (a_iface g))] else [])
             @ (case quit of None \<Rightarrow> [] | Some why \<Rightarrow> [AskQuit why]), sv))"

definition handle_lang :: "LangBody \<Rightarrow> Server \<Rightarrow> handled" where
  "handle_lang b sv =
     (case api_lang (lb_lang b) (sv_ru sv) of
        ((ok, code), ru, saved) \<Rightarrow>
          (LangReply ok code, (case saved of None \<Rightarrow> [] | Some s \<Rightarrow> [WriteLang s]), sv\<lparr>sv_ru := ru\<rparr>))"

definition when_read :: "'b option \<Rightarrow> ('b \<Rightarrow> handled) \<Rightarrow> Server \<Rightarrow> handled" where
  "when_read part f sv = (case part of None \<Rightarrow> (BadRequest, [], sv) | Some b \<Rightarrow> f b)"

fun handle :: "ApiEnv \<Rightarrow> Request \<Rightarrow> endpoint \<Rightarrow> Server \<Rightarrow> handled" where
  "handle env rq Index sv = (PageReply (index (ae_html env) (sv_ru sv)), [], sv)"
| "handle env rq AliveStream sv = (StreamReply, [], sv\<lparr>sv_alive := alive_connect (sv_alive sv)\<rparr>)"
| "handle env rq Ping sv = (api_ping (ae_version env), [], sv)"
| "handle env rq Procs sv =
     when_read (rq_procs rq) (\<lambda>q. let g = w_app (sv_world sv) in
       (ProcsReply (api_procs (ae_lower env) g q) (a_selected g) (length (a_procs g)), [], sv)) sv"
| "handle env rq StateOf sv =
     when_read (rq_state rq) (\<lambda>q. (StateReply (api_state (ae_lower env) (w_app (sv_world sv)) q), [], sv)) sv"
| "handle env rq Select sv = when_read (rq_select rq) (\<lambda>b. handle_select b sv) sv"
| "handle env rq DumpStart sv = when_read (rq_dump rq) (\<lambda>b. handle_dump_start b sv) sv"
| "handle env rq DumpStop sv = handle_dump_stop (ae_now env) sv"
| "handle env rq Clear sv = (ClearReply, [], with_app (api_clear (w_app (sv_world sv))) sv)"
| "handle env rq Dumps sv = (DumpsReply (ae_dumps env) (api_dumps (ae_listing env)), [], sv)"
| "handle env rq Reveal sv = handle_reveal env sv"
| "handle env rq Export sv =
     when_read (rq_export rq) (\<lambda>q.
       (ExportReply (api_export (ae_lower env) (ae_print env) (sv_ru sv) (ae_tz env) (ae_now env) (w_app (sv_world sv)) q), [], sv)) sv"
| "handle env rq Elevate sv = handle_elevate env sv"
| "handle env rq SetLang sv = when_read (rq_lang rq) (\<lambda>b. handle_lang b sv) sv"

definition dispatch :: "ApiEnv \<Rightarrow> Request \<Rightarrow> Server \<Rightarrow> handled" where
  "dispatch env rq sv =
     (case find (\<lambda>r. fst r = rq_path rq) ROUTES of
        None \<Rightarrow> (NotFound, [], sv)
      | Some (_, v, ep) \<Rightarrow> if verb_serves v (rq_method rq) then handle env rq ep sv else (WrongMethod, [], sv))"

definition guard :: "u16 \<Rightarrow> Request \<Rightarrow> (Server \<Rightarrow> handled) \<Rightarrow> Server \<Rightarrow> handled" where
  "guard port rq next_layer sv =
     (if request_allowed port (rq_method rq) (rq_headers rq) then next_layer sv else (Forbidden, [], sv))"

definition serve :: "ApiEnv \<Rightarrow> u16 \<Rightarrow> Request \<Rightarrow> Server \<Rightarrow> handled" where
  "serve env port rq = guard port rq (dispatch env rq)"

section \<open>The turns of the loops\<close>

text \<open>
  A turn of \<^verbatim>\<open>poll_loop\<close>: every eighth is full. \<open>all\<close> is what a scan of all processes gives, \<open>watched\<close> the
  processes to look at otherwise, as they were when the turn began; \<open>inp\<close> is the rest of what it reads.
\<close>

definition poll_full :: "u64 \<Rightarrow> bool" where
  "poll_full tick \<longleftrightarrow> tick mod 8 = 1"

definition poll_input :: "bool \<Rightarrow> ProcInfo list \<Rightarrow> int list \<Rightarrow> PollInput \<Rightarrow> PollInput" where
  "poll_input full all watched inp = inp\<lparr>
     pi_all := (if full then Some all else None),
     pi_scanned := (if full then map p_pid all else watched),
     pi_partial := (if full then [] else pi_partial inp),
     pi_local_ips := (if full then pi_local_ips inp else None)\<rparr>"

fun poll_loop :: "(string \<Rightarrow> IpAddr option) \<Rightarrow> bool \<Rightarrow> u64 \<Rightarrow> (ProcInfo list \<times> int list \<times> PollInput) list \<Rightarrow> App \<Rightarrow> App" where
  "poll_loop parse ru tick [] g = g"
| "poll_loop parse ru tick ((all, watched, inp) # turns) g =
     poll_loop parse ru (tick + 1) turns (poll_round parse ru (poll_input (poll_full (tick + 1)) all watched inp) g)"

text \<open>\<^verbatim>\<open>futures_join\<close>: the lookups of a batch, in its order; one whose task panicked is left out.\<close>

definition futures_join :: "(IpAddr \<Rightarrow> Whois option) \<Rightarrow> IpAddr list \<Rightarrow> (IpAddr \<times> Whois) list" where
  "futures_join look ips = List.map_filter (\<lambda>ip. map_option (Pair ip) (look ip)) ips"

lemma whois_pass_joined:
  "whois_pass now look (fails, whois, s) =
     fold (\<lambda>(ip, w). whois_done now ip w)
       (futures_join look (whois_targets s whois (may_retry (recent_fails now fails)))) (recent_fails now fails, whois, s)"
proof -
  have "fold (\<lambda>(ip, w). whois_done now ip w) (futures_join look ips) acc
      = fold (\<lambda>ip acc. case look ip of None \<Rightarrow> acc | Some w \<Rightarrow> whois_done now ip w acc) ips acc" for ips acc
    by (induction ips arbitrary: acc) (auto simp: futures_join_def List.map_filter_simps split: option.split)
  then show ?thesis by (simp add: whois_pass_def Let_def)
qed

text \<open>
  A command of a lookup: \<^verbatim>\<open>None\<close> when it has not ended within five seconds, \<^verbatim>\<open>Some None\<close> when it did not
  start; and whether \<^verbatim>\<open>resolvectl --version\<close> succeeded, if it ran.
\<close>

definition run_command :: "(bytes \<times> bytes \<times> bool) option option \<Rightarrow> command_output" where
  "run_command out = (case out of Some (Some (o', e, ok)) \<Rightarrow> Some (from_utf8_lossy o', from_utf8_lossy e, ok) | _ \<Rightarrow> None)"

definition have_resolvectl :: "bool option \<Rightarrow> bool" where
  "have_resolvectl status \<longleftrightarrow> status = Some True"

definition win_ptr :: "(string \<Rightarrow> u16 \<Rightarrow> (nat \<times> DnsRecord list) option) \<Rightarrow> string \<Rightarrow> Answer" where
  "win_ptr dns name = win_query dns DNS_TYPE_PTR name"

definition win_txt :: "(string \<Rightarrow> u16 \<Rightarrow> (nat \<times> DnsRecord list) option) \<Rightarrow> string \<Rightarrow> Answer" where
  "win_txt dns name = win_query dns DNS_TYPE_TEXT name"

section \<open>Files and messages\<close>

definition cache_path :: "char \<Rightarrow> string \<Rightarrow> string" where
  "cache_path sep dir = path_join sep dir ''names.json''"

definition cache_load :: "(string \<Rightarrow> Disk option) \<Rightarrow> (string \<Rightarrow> bool) \<Rightarrow> string \<Rightarrow> files \<Rightarrow> Disk \<times> files" where
  "cache_load from_json removable dir fs = load_from from_json removable dir ''names.json'' fs"

definition cache_save :: "(Disk \<Rightarrow> string option) \<Rightarrow> WriteIo \<Rightarrow> string \<Rightarrow> string \<Rightarrow> App \<Rightarrow> files \<Rightarrow> files list" where
  "cache_save to_json io tmp dir g fs = save_to to_json io tmp (cache_path SLASH dir) (cache_snapshot g) fs"

definition lang_file :: "char \<Rightarrow> string \<Rightarrow> string" where
  "lang_file sep dir = path_join sep dir ''lang''"

text \<open>\<open>io\<close>: whether the file can be written.\<close>

definition lang_save :: "bool \<Rightarrow> char \<Rightarrow> string \<Rightarrow> bool \<Rightarrow> files \<Rightarrow> files" where
  "lang_save io sep dir ru fs = (if io then fs(lang_file sep dir \<mapsto> bytes_of (lang_code ru)) else fs)"

definition session_name :: "nat \<Rightarrow> string" where
  "session_name pid = ''SocketTrail-'' @ show_nat pid"

definition pktmon_exe :: "string option \<Rightarrow> string" where
  "pktmon_exe root =
     path_join BACKSLASH (path_join BACKSLASH (case root of None \<Rightarrow> ''C:'' @ [BACKSLASH] @ ''Windows'' | Some r \<Rightarrow> r) ''System32'') ''PktMon.exe''"

definition etl_path :: "string \<Rightarrow> string" where
  "etl_path dir = path_join BACKSLASH dir ''pktmon.etl''"

text \<open>
  Waiting for the instance before this one: \<open>opened\<close> says whether its process could be opened, \<open>rc\<close> is the
  answer of the wait. The result is the message it prints.
\<close>

definition WAIT_TIMEOUT :: u32 where "WAIT_TIMEOUT = 258"

definition wait_pid :: "bool \<Rightarrow> bool \<Rightarrow> u32 \<Rightarrow> u32 \<Rightarrow> u32 \<Rightarrow> string option" where
  "wait_pid ru opened rc pid secs =
     (if \<not> opened then None
      else if rc = WAIT_TIMEOUT then
        Some (tr ru ''[start] previous instance '' (utf8_text [91, 208, 183, 208, 176, 208, 191, 209, 131, 209, 129, 208, 186, 93, 32, 208,
          191, 209, 128, 208, 181, 208, 182, 208, 189, 208, 184, 208, 185, 32, 209, 141, 208, 186, 208, 183, 208, 181, 208, 188, 208,
          191, 208, 187, 209, 143, 209, 128, 32])
          @ show_nat (unat pid)
          @ tr ru '' did not exit within '' (utf8_text [32, 208, 189, 208, 181, 32, 208, 183, 208, 176, 208, 178, 208, 181, 209, 128, 209,
          136, 208, 184, 208, 187, 209, 129, 209, 143, 32, 208, 183, 208, 176, 32])
          @ show_nat (unat secs) @ tr ru '' s'' (utf8_text [32, 209, 129]))
      else None)"

definition live_describe :: "bool \<Rightarrow> string \<Rightarrow> string" where
  "live_describe ru iface =
     tr ru ''dumpcap, interface '' (utf8_text [100, 117, 109, 112, 99, 97, 112, 44, 32, 208, 184, 208, 189, 209, 130, 208, 181, 209, 128,
       209, 132, 208, 181, 208, 185, 209, 129, 32]) @ iface"

text \<open>The language the window chose is the one the next start begins with.\<close>

lemma lang_saved: "lang_load (map_option text_of (lang_save True sep dir ru fs (lang_file sep dir))) ru' = ru"
proof -
  have codes: "text_of (bytes_of ''ru'') = ''ru''" "text_of (bytes_of ''en'') = ''en''" "trim ''ru'' = ''ru''" "trim ''en'' = ''en''" by code_simp+
  then show ?thesis by (cases ru) (simp_all add: lang_load_def lang_save_def lang_code_def lang_set_def)
qed

text \<open>A turn of the loop is one the step relation of the recordings has, when the scans give each PID once.\<close>

lemma poll_input_ok:
  assumes "distinct (map p_pid all)" "distinct (map p_pid (pi_partial inp))" "p_pid ` set (pi_partial inp) \<subseteq> set watched"
  shows "input_ok (poll_input full all watched inp)"
  using assms by (simp add: input_ok_def poll_input_def)

lemma poll_loop_reachable:
  assumes "rec_reachable (w\<lparr>w_app := g\<rparr>)"
    and "\<forall>(all, watched, inp) \<in> set turns. distinct (map p_pid all) \<and> distinct (map p_pid (pi_partial inp)) \<and> p_pid ` set (pi_partial inp) \<subseteq> set watched"
  shows "rec_reachable (w\<lparr>w_app := poll_loop parse ru tick turns g\<rparr>)"
  using assms
proof (induction turns arbitrary: tick g)
  case (Cons turn turns)
  obtain all watched inp where t: "turn = (all, watched, inp)" by (cases turn)
  have "input_ok (poll_input (poll_full (tick + 1)) all watched inp)" using Cons.prems(2) by (auto simp: t intro!: poll_input_ok)
  from rec_step_app [OF app_step.polled [OF this] Cons.prems(1)] show ?case using Cons.IH Cons.prems(2) by (simp add: t)
qed simp

section \<open>What a request can do\<close>

lemma handle_reads:
  assumes "ep \<in> {Index, Ping, Procs, StateOf, Dumps, Export}"
  shows "\<exists>reply. handle env rq ep sv = (reply, [], sv)"
  using assms by (auto simp: when_read_def Let_def split: option.splits)

lemma handle_reachable:
  assumes "rec_reachable (sv_world sv)"
  shows "rec_reachable (sv_world (snd (snd (handle env rq ep sv))))"
proof -
  note step = rec_reachable.step [OF assms]
  show ?thesis
  proof (cases ep)
    case Select
    then show ?thesis using assms
      by (auto simp: when_read_def handle_select_def with_app_def Let_def split: option.splits intro: step rec_step.other app_step.chosen)
  next
    case Clear
    then show ?thesis by (auto simp: with_app_def intro: step rec_step.other app_step.cleared)
  next
    case DumpStart
    then show ?thesis using assms
      by (auto simp: when_read_def handle_dump_start_def with_app_def split: option.splits prod.splits sum.splits
          intro: step rec_step.refused rec_step.started)
  next
    case DumpStop
    then show ?thesis
      by (auto simp: handle_dump_stop_def with_app_def split: prod.splits sum.splits intro: step rec_step.kept rec_step.stopped)
  qed (use assms in \<open>auto simp: when_read_def handle_reveal_def handle_elevate_def handle_lang_def Let_def split: option.splits prod.splits\<close>)
qed

lemma route_verbs:
  assumes "find (\<lambda>r. fst r = path) ROUTES = Some (p, v, ep)"
  shows "p = path" "v = Get \<Longrightarrow> ep = AliveStream \<and> path = ''/api/alive'' \<or> ep \<in> {Index, Ping, Procs, StateOf, Dumps, Export}"
  using assms by (auto simp: ROUTES_def split: if_splits)

definition own_host :: "u16 \<Rightarrow> string \<Rightarrow> bool" where
  "own_host port h \<longleftrightarrow> h = ''127.0.0.1:'' @ show_nat (unat port) \<or> h = ''localhost:'' @ show_nat (unat port)"

lemma one_of_two:
  "(case x of None \<Rightarrow> False | Some h \<Rightarrow> h \<in> set [a, b]) \<Longrightarrow> \<exists>h. x = Some h \<and> (h = a \<or> h = b)"
  "m \<or> (case x of None \<Rightarrow> True | Some y \<Rightarrow> y \<in> f ` set [a, b]) \<Longrightarrow> m \<or> (\<forall>y. x = Some y \<longrightarrow> (\<exists>h. (h = a \<or> h = b) \<and> y = f h))"
  by (cases x; auto)+

text \<open>What the headers of a request say of where it goes and where it comes from.\<close>

definition to_own_host :: "u16 \<Rightarrow> Request \<Rightarrow> bool" where
  "to_own_host port rq \<longleftrightarrow> (\<exists>h. rq_headers rq ''host'' = Some h \<and> own_host port h)"

definition from_own_site :: "Request \<Rightarrow> bool" where
  "from_own_site rq \<longleftrightarrow> rq_headers rq ''sec-fetch-site'' \<notin> {Some ''cross-site'', Some ''same-site''}"

definition of_own_origin :: "u16 \<Rightarrow> Request \<Rightarrow> bool" where
  "of_own_origin port rq \<longleftrightarrow> (\<forall>o'. rq_headers rq ''origin'' = Some o' \<longrightarrow> (\<exists>h. own_host port h \<and> o' = ''http://'' @ h))"

lemma allowed_request:
  assumes "request_allowed port (rq_method rq) (rq_headers rq)"
  shows "to_own_host port rq" "from_own_site rq" "rq_method rq = ''GET'' \<or> of_own_origin port rq"
proof -
  note parts = assms [unfolded request_allowed_def Let_def]
  show "to_own_host port rq" unfolding to_own_host_def own_host_def by (rule one_of_two(1)) (rule conjunct1 [OF parts])
  show "from_own_site rq" unfolding from_own_site_def by (rule conjunct2 [OF conjunct2 [OF parts]])
  show "rq_method rq = ''GET'' \<or> of_own_origin port rq"
    unfolding of_own_origin_def own_host_def by (rule one_of_two(2)) (rule conjunct1 [OF conjunct2 [OF parts]])
qed

text \<open>
  C35. Only the window of the program can make the local API do anything. Whenever a request changes the state
  or makes the program call the system, it was addressed to this host and port, it does not come from a page
  of another site, and either it is a POST whose origin, if it names one, is the program itself, or it only
  counts one more open page. Whatever it is, it keeps the state within what the invariants of recordings cover.
\<close>

theorem api_only_own_pages:
  assumes "serve env port rq sv = (reply, calls, sv')" and "calls \<noteq> [] \<or> sv' \<noteq> sv" and "rec_reachable (sv_world sv)"
  shows "to_own_host port rq \<and> from_own_site rq
    \<and> (rq_method rq = ''POST'' \<and> of_own_origin port rq
       \<or> rq_path rq = ''/api/alive'' \<and> calls = [] \<and> sv' = sv\<lparr>sv_alive := alive_connect (sv_alive sv)\<rparr>)
    \<and> rec_reachable (sv_world sv')"
proof -
  have allowed: "request_allowed port (rq_method rq) (rq_headers rq)" and run: "dispatch env rq sv = (reply, calls, sv')"
    using assms by (auto simp: serve_def guard_def split: if_splits)
  obtain p v ep where route: "find (\<lambda>r. fst r = rq_path rq) ROUTES = Some (p, v, ep)" and verb: "verb_serves v (rq_method rq)"
      and ran: "handle env rq ep sv = (reply, calls, sv')"
    using run assms(2) by (auto simp: dispatch_def split: option.splits if_splits)
  have "rq_method rq = ''POST'' \<or> rq_path rq = ''/api/alive'' \<and> calls = [] \<and> sv' = sv\<lparr>sv_alive := alive_connect (sv_alive sv)\<rparr>"
  proof (cases v)
    case Get
    then have "ep = AliveStream \<and> rq_path rq = ''/api/alive''" using route_verbs(2) [OF route] handle_reads [of ep env rq sv] ran assms(2) by auto
    then show ?thesis using ran by auto
  next
    case Post
    then show ?thesis using verb by (simp add: verb_serves_def)
  qed
  moreover have "rec_reachable (sv_world sv')" using handle_reachable [OF assms(3), of env rq ep] ran by simp
  ultimately show ?thesis using allowed_request [OF allowed] by auto
qed

text \<open>The window clears the history.\<close>

definition sample_api :: ApiEnv where
  "sample_api = \<lparr>ae_os = OtherUnix, ae_html = ''<html lang=__LANG__>'', ae_version = ''1.0'', ae_lower = \<lambda>s. s, ae_print = \<lambda>_ _ _ _. None,
     ae_now = 5, ae_tz = 0, ae_pid = 7, ae_dumps = ''/tmp'', ae_listing = None, ae_opens = True, ae_elevate = None\<rparr>"

definition sample_request :: Request where
  "sample_request = \<lparr>rq_method = ''POST'', rq_path = ''/api/lang'', rq_headers = [''host'' \<mapsto> ''localhost:8787''], rq_select = None,
     rq_dump = None, rq_lang = Some \<lparr>lb_lang = ''ru''\<rparr>, rq_procs = None, rq_state = None, rq_export = None\<rparr>"

definition sample_server :: Server where
  "sample_server = \<lparr>sv_world = \<lparr>w_app = app_new 0 1 ''any'' 8787, w_starting = [], w_finishing = [], w_files = \<lambda>_. None\<rparr>,
     sv_alive = alive_default, sv_ru = False\<rparr>"

lemma sample_served: "serve sample_api 8787 sample_request sample_server = (LangReply True ''ru'', [WriteLang ''ru''], sample_server\<lparr>sv_ru := True\<rparr>)"
proof -
  let ?rq = sample_request
  have rq: "rq_method ?rq = ''POST''" "rq_path ?rq = ''/api/lang''" "rq_headers ?rq = [''host'' \<mapsto> ''localhost:8787'']" "rq_lang ?rq = Some \<lparr>lb_lang = ''ru''\<rparr>"
    by (simp_all add: sample_request_def)
  have "digit_char 8 = CHR ''8''" "digit_char 7 = CHR ''7''" by code_simp+
  then have port: "show_nat 8787 = ''8787''" by (simp add: show_nat_def show_base.simps)
  have "unat (8787 :: u16) = 8787" by simp
  then have "request_allowed 8787 ''POST'' [''host'' \<mapsto> ''localhost:8787'']"
    unfolding request_allowed_def Let_def by (simp only: port) simp
  moreover have "find (\<lambda>r. fst r = ''/api/lang'') ROUTES = Some (''/api/lang'', Post, SetLang)" by code_simp
  moreover have "api_lang ''ru'' False = ((True, ''ru''), True, Some ''ru'')" by code_simp
  ultimately show ?thesis
    by (simp add: serve_def guard_def dispatch_def rq verb_serves_def when_read_def handle_lang_def sample_server_def)
qed

theorem api_only_own_pages_witness:
  "to_own_host 8787 sample_request \<and> from_own_site sample_request
    \<and> (rq_method sample_request = ''POST'' \<and> of_own_origin 8787 sample_request
       \<or> rq_path sample_request = ''/api/alive'' \<and> [WriteLang ''ru''] = []
         \<and> sample_server\<lparr>sv_ru := True\<rparr> = sample_server\<lparr>sv_alive := alive_connect (sv_alive sample_server)\<rparr>)
    \<and> rec_reachable (sv_world (sample_server\<lparr>sv_ru := True\<rparr>))"
  by (rule api_only_own_pages [OF sample_served]) (simp_all add: sample_server_def rec_reachable.start)

end
