(* ===== verification/Spec2Isabelle.thy ===== *)
theory Spec2Isabelle
  imports Rec_Props Etw Resolve Report Web_Api Cache Lifecycle Etw_Session Win_Text Program Sni_Shown Quic_Shown
  Store_Ledger Rec_Liveness Server
begin

text \<open>
  SocketTrail (\<^verbatim>\<open>src/src\<close>, Rust) watches the network connections of a chosen group of processes. It
  reads the tables of sockets and processes several times a second, captures packets beside them, finds
  out who owns a connection and what the remote side is called, shows this in a local web page, and can
  record the traffic of the group as an annotated pcapng file. This development models these parts and
  proves what makes them correct.

  \<^bold>\<open>How the parts interact.\<close> A capture (dumpcap on Unix, PktMon over ETW on Windows) yields frames;
  the frame parser with its reassemblers turns a frame into a \<open>Packet\<close> (addresses, ports, size, a server
  name from TLS or QUIC, the addresses of a DNS answer); the packets pass a bounded queue to the packet
  task, which updates the \<open>Store\<close> (\<open>apply_packet\<close>). A round of \<open>poll_loop\<close> refreshes the
  processes and the sockets and updates the same store (\<open>apply_sockets\<close>, \<open>enrich_names\<close>).
  A recording goes through the phases Idle, Starting, Recording and Finishing; other tasks run between its
  locked steps. The window reads the state through the local API. Names survive a restart in a cache file.

  \<^bold>\<open>Foundations.\<close>
    \<^item> \<^verbatim>\<open>Prelude\<close>: words, the result \<open>fallible\<close> (a value, an early return, a panic), byte access
      that panics out of range, saturating arithmetic. \<^verbatim>\<open>Strings\<close>, \<^verbatim>\<open>Numerals\<close>: the text functions of
      the standard library that the code calls; a string is the list of its UTF-8 bytes.
    \<^item> \<^verbatim>\<open>Tables\<close>: \<open>HashMap\<close> as an association list with distinct keys, and the contract
      \<open>bounded_table\<close> of a table that makes room before it inserts, which the tables of TLS flows, of
      QUIC flows and of connections meet.
    \<^item> \<^verbatim>\<open>Net\<close>: addresses and their classes, sockets, processes, packets, well-known labels
      (\<^verbatim>\<open>state.rs\<close>, \<^verbatim>\<open>sockets/mod.rs\<close>, \<^verbatim>\<open>i18n.rs\<close>).
    \<^item> \<^verbatim>\<open>Reassembly\<close>: the contract \<open>reassembler\<close> of a consumer of pieces that come in any order, and
      the theorem that follows from it. It is discharged for the TLS flow, for the QUIC flow, and for the
      whole pipeline from frames to the store, over TCP and over QUIC.

  \<^bold>\<open>Packets.\<close>
    \<^item> \<^verbatim>\<open>Client_Hello\<close>, \<^verbatim>\<open>Dns_Message\<close>, \<^verbatim>\<open>Pcap\<close> and \<^verbatim>\<open>Pcapng\<close> model \<^verbatim>\<open>pcap.rs\<close>:
      \<open>parse_sni\<close>, \<open>parse_dns\<close>, \<open>parse_link\<close> and the incremental reader of the container.
      Shown: messages laid out as the standards say are read back, an accepted DNS name is exactly one the
      grammar of RFC 1035 allows, an address of an answer comes from a record that the question's chain of
      aliases reaches, no frame makes a parser panic, and the reader does not depend on how its input is cut. \<^verbatim>\<open>Frame_Layers\<close>: whatever the link layer, the VLAN
      tags, the options of IPv4 or the extension headers of IPv6, a frame is seen through to its transport layer.
    \<^item> \<^verbatim>\<open>Tls_Flow\<close> (\<^verbatim>\<open>tls.rs\<close>) and \<^verbatim>\<open>Quic\<close> (\<^verbatim>\<open>quic.rs\<close>): flows, their limits and expiry. Shown: the
      name comes out once whatever the order, overlap and repetition of the pieces; contradicting pieces
      give no name; the tables keep their bounds. \<^verbatim>\<open>Quic_Packets\<close>: Initial packets laid out, sealed
      and protected as RFC 9000 and RFC 9001 say are opened to their frames, whatever their number.
    \<^item> \<^verbatim>\<open>Capture\<close> (\<^verbatim>\<open>capture.rs\<close>, \<^verbatim>\<open>capture/unix.rs\<close>, \<^verbatim>\<open>capture/windows.rs\<close>): the queue with its
      counters, the process of dumpcap, the live stream, the handle of a recording. \<^verbatim>\<open>Etw\<close> and
      \<^verbatim>\<open>Etw_Session\<close> (\<^verbatim>\<open>etw.rs\<close>): events, removal of copies, the worker and its file; the calls that begin
      and end a session, which give back exactly what they took on every error path.

  \<^bold>\<open>Connections, names, processes.\<close>
    \<^item> \<^verbatim>\<open>Store_Data\<close>, \<^verbatim>\<open>Store_Ops\<close>, \<^verbatim>\<open>Store_Names\<close>: \<open>Conn\<close>, \<open>Store\<close> and their operations
      (\<^verbatim>\<open>state.rs\<close>), the bookkeeping of lookups (\<^verbatim>\<open>main.rs\<close>). \<^verbatim>\<open>Store_Facts\<close>: the step relation
      \<open>store_step\<close>, its reachable stores and their invariants, with the contract \<open>record_invariant\<close>
      of a property of records that every operation keeps. \<^verbatim>\<open>Store_Owners\<close>: who owns a record.
      \<^verbatim>\<open>Names_Facts\<close>: bounds of the DNS map, priority of names, what a lookup may disclose.
      \<^verbatim>\<open>Store_Ledger\<close>: the store refines a ledger of the packets of each connection.
      \<^verbatim>\<open>Names_Shown\<close>, \<^verbatim>\<open>Pipeline\<close>, \<^verbatim>\<open>Sni_Shown\<close> and \<^verbatim>\<open>Quic_Shown\<close> compose the parsers with the store: a
      DNS answer, or a ClientHello in pieces over TCP or QUIC, names the connection in the window.
    \<^item> \<^verbatim>\<open>Procs\<close>, \<^verbatim>\<open>Proc_Scan\<close> (\<^verbatim>\<open>procs/\<close>): the process tree, which is refined to reachability,
      and the scanners with their caches. \<^verbatim>\<open>Sockets\<close> (\<^verbatim>\<open>sockets/\<close>): tables and owners of sockets.
      \<^verbatim>\<open>Win_Text\<close> (\<^verbatim>\<open>procs/windows.rs\<close>, \<^verbatim>\<open>dnscache.rs\<close>): UTF-16 texts, the DNS cache of Windows.
      \<^verbatim>\<open>Resolve\<close> (\<^verbatim>\<open>resolve.rs\<close>): lookups of the name, network and owner of an address.

  \<^bold>\<open>Recordings and the program.\<close>
    \<^item> \<^verbatim>\<open>Annotate\<close> (\<^verbatim>\<open>annotate.rs\<close>): the rewriting of a capture: it keeps the order and the contents
      of the blocks, drops only what the plan does not keep, and replaces the file at once or not at all.
    \<^item> \<^verbatim>\<open>App_State\<close>, \<^verbatim>\<open>Recording\<close>, \<^verbatim>\<open>Recording_Facts\<close>, \<^verbatim>\<open>Rec_Props\<close> (\<^verbatim>\<open>main.rs\<close>): the shared state,
      the tasks, \<open>start_dump\<close> and \<open>finish_dump\<close> as chains of locked steps, the step relation
      \<open>rec_step\<close> of all interleavings, its invariants, and the properties of recordings.
      \<^verbatim>\<open>Rec_Liveness\<close>: a recording that is begun or ended gets there in every fair run.
    \<^item> \<^verbatim>\<open>Web_Api\<close>, \<^verbatim>\<open>Report\<close>, \<^verbatim>\<open>Calendar\<close>, \<^verbatim>\<open>Ip_Text\<close>, \<^verbatim>\<open>Cache\<close>, \<^verbatim>\<open>Lifecycle\<close>, \<^verbatim>\<open>Program\<close>
      (\<^verbatim>\<open>main.rs\<close>, \<^verbatim>\<open>report.rs\<close>, \<^verbatim>\<open>cache.rs\<close>, \<^verbatim>\<open>window.rs\<close>, \<^verbatim>\<open>alive.rs\<close>, \<^verbatim>\<open>paths.rs\<close>, \<^verbatim>\<open>elevate.rs\<close>,
      \<^verbatim>\<open>i18n.rs\<close>, \<^verbatim>\<open>win_startup.rs\<close>): the answers of the API, the report with its escaping, times, the names
      kept between runs and their atomic saving, arguments, the port, the window, the first state, the
      watch of the capture, the reasons to quit and what is done then. The first state of the program is
      one the invariants of \<^verbatim>\<open>Recording_Facts\<close> cover. \<^verbatim>\<open>Server\<close>: the routes and handlers of the API,
      which only the own page can make change anything, and the turns of the poll loop.

  \<^bold>\<open>Conventions.\<close> Integers keep their width (\<open>u8\<close> to \<open>u64\<close>); operations that wrap, saturate or
  panic in the source do so here. A panic is a value of \<open>fallible\<close>, so that its absence is a theorem.
  A reading of the clock is an argument, one per reading where a definition reads it more than once; what
  a system call, a file, a command or a thread answers is an argument of the definition that asks.
  Iteration over a \<open>HashMap\<close> follows its association list, which is one of the orders the real map may
  have.

  \<^bold>\<open>Bounds and fuel.\<close> The loops of the parsers recurse on the remaining input. Loops with fuel have the
  bound of the source: \<open>dns_name\<close> gives up after 128 jumps, \<open>keep_ancestors\<close> after 64 levels, and the waits
  for a process and for the accounting poll until a deadline, so 152 and 401 rounds suffice when the clock advances by their pauses;
  that they return is proved in \<^verbatim>\<open>Capture\<close> and \<^verbatim>\<open>Recording\<close>.

  \<^bold>\<open>Parameters.\<close> HKDF and AES-GCM (with the documented lengths of their results, and that what is sealed opens again), the printer and parser
  of \<^verbatim>\<open>serde_json\<close> (a value that was printed is read back), \<^verbatim>\<open>str::to_lowercase\<close> and
  \<^verbatim>\<open>char::is_alphanumeric\<close> beyond ASCII, which follow the Unicode tables. Of axum the model uses how a route
  matches a path and a method, and that its layer wraps every answer.

  \<^bold>\<open>Not modelled.\<close> The HTTP protocol and the text of JSON bodies, which are the work of libraries. The page (\<^verbatim>\<open>ui/index.html\<close>), the texts of the help and of the log, the build script and
  the packages. Unsafe reads of the memory that Windows and libc return, callbacks through raw pointers,
  message boxes and the layout of foreign structures: the values they hold are arguments instead.
  The scheduler of tokio: tasks are interleaved at their locked steps, in every order.
\<close>

end
